(* ===== verification/Prelude.thy ===== *)
theory Prelude
  imports Main "HOL-Library.Word" "HOL-Library.While_Combinator"
begin

text \<open>
  Shared vocabulary of the development.  A JavaScript function that can throw returns a value of
  the sum type \<open>'e + 'a\<close>: \<open>Inl\<close> carries the error, \<open>Inr\<close> the result.  \<open>rbind\<close> sequences two such
  computations, \<open>rfold\<close> runs one over a list and stops at the first error, as a throwing loop
  does.  The collections below gather the facts that the component theories feed to the
  simplifier: \<open>res_simps\<close> for sequencing, \<open>byte_simps\<close> for big-endian numbers and
  \<open>splice_simps\<close> for positional list updates.
\<close>

named_theorems res_simps
named_theorems byte_simps
named_theorems splice_simps

type_synonym byte = "8 word"

section \<open>Results that may be errors\<close>

definition rbind :: "'e + 'a \<Rightarrow> ('a \<Rightarrow> 'e + 'b) \<Rightarrow> 'e + 'b" where
  "rbind r f = (case r of Inl e \<Rightarrow> Inl e | Inr a \<Rightarrow> f a)"

lemma rbind_Inl [simp, res_simps]: "rbind (Inl e) f = Inl e"
  by (simp add: rbind_def)

lemma rbind_Inr [simp, res_simps]: "rbind (Inr a) f = f a"
  by (simp add: rbind_def)

lemma rbind_cong [fundef_cong]:
  "r = r' \<Longrightarrow> (\<And>a. r' = Inr a \<Longrightarrow> f a = g a) \<Longrightarrow> rbind r f = rbind r' g"
  by (cases r') auto

lemma rbind_eq_Inr [res_simps]: "rbind r f = Inr b \<longleftrightarrow> (\<exists>a. r = Inr a \<and> f a = Inr b)"
  by (cases r) auto

lemma rbind_eq_Inl [res_simps]:
  "rbind r f = Inl e \<longleftrightarrow> r = Inl e \<or> (\<exists>a. r = Inr a \<and> f a = Inl e)"
  by (cases r) auto

lemma rbind_assoc: "rbind (rbind r f) g = rbind r (\<lambda>a. rbind (f a) g)"
  by (cases r) auto

definition rguard :: "bool \<Rightarrow> 'e \<Rightarrow> 'e + unit" where
  "rguard b e = (if b then Inr () else Inl e)"

lemma rguard_eq_Inr [res_simps]: "rguard b e = Inr u \<longleftrightarrow> b"
  by (simp add: rguard_def)

lemma rguard_eq_Inl [res_simps]: "rguard b e = Inl e' \<longleftrightarrow> \<not> b \<and> e' = e"
  by (auto simp: rguard_def)

lemma rguard_True [simp]: "rguard True e = Inr ()"
  by (simp add: rguard_def)

lemma rguard_False [simp]: "rguard False e = Inl e"
  by (simp add: rguard_def)

fun rfold :: "('a \<Rightarrow> 's \<Rightarrow> 'e + 's) \<Rightarrow> 'a list \<Rightarrow> 's \<Rightarrow> 'e + 's" where
  "rfold f [] s = Inr s"
| "rfold f (x # xs) s = rbind (f x s) (rfold f xs)"

fun rmap :: "('a \<Rightarrow> 'e + 'b) \<Rightarrow> 'a list \<Rightarrow> 'e + 'b list" where
  "rmap f [] = Inr []"
| "rmap f (x # xs) = rbind (f x) (\<lambda>y. rbind (rmap f xs) (\<lambda>ys. Inr (y # ys)))"

lemma rfold_append: "rfold f (xs @ ys) s = rbind (rfold f xs s) (rfold f ys)"
proof (induction xs arbitrary: s)
  case (Cons x xs)
  then show ?case by (cases "f x s") simp_all
qed simp

lemma rfold_cong [fundef_cong]:
  "xs = ys \<Longrightarrow> s = t \<Longrightarrow> (\<And>x s. x \<in> set ys \<Longrightarrow> f x s = g x s) \<Longrightarrow> rfold f xs s = rfold g ys t"
proof (induction xs arbitrary: ys s t)
  case (Cons x xs)
  then show ?case by (cases "g x t") auto
qed simp

lemma rfold_invariant:
  assumes "rfold f xs s = Inr t" and "P s"
    and "\<And>x s s'. x \<in> set xs \<Longrightarrow> P s \<Longrightarrow> f x s = Inr s' \<Longrightarrow> P s'"
  shows "P t"
  using assms
proof (induction xs arbitrary: s)
  case (Cons x xs)
  from Cons.prems(1) obtain s' where "f x s = Inr s'" and "rfold f xs s' = Inr t"
    by (auto simp: res_simps)
  with Cons.prems Cons.IH [of s'] show ?case by auto
qed simp

lemma rmap_length: "rmap f xs = Inr ys \<Longrightarrow> length ys = length xs"
  by (induction xs arbitrary: ys) (auto simp: res_simps)

lemma rmap_Inr_map: "(\<And>x. x \<in> set xs \<Longrightarrow> f x = Inr (g x)) \<Longrightarrow> rmap f xs = Inr (map g xs)"
  by (induction xs) auto

section \<open>Bytes\<close>

lemma unat_byte_less [byte_simps]: "unat (b :: byte) < 256"
proof -
  have "unat b < 2 ^ LENGTH(8)" by (rule unsigned_less)
  then show ?thesis by simp
qed

text \<open>A store into a \<open>Uint8Array\<close> keeps the low eight bits of the number.\<close>

definition u8 :: "nat \<Rightarrow> byte" where
  "u8 n = word_of_nat n"

lemma unat_u8 [byte_simps]: "unat (u8 n) = n mod 256"
  by (simp add: u8_def unat_of_nat take_bit_eq_mod)

text \<open>A number below \<open>2 ^ 16\<close> or \<open>2 ^ 32\<close> is the sum of its big-endian digits in base 256.\<close>

lemma be16_sum [byte_simps]: "n < 65536 \<Longrightarrow> n div 256 mod 256 * 256 + n mod 256 = (n::nat)"
  using div_mult_mod_eq [of n 256] by simp

lemma be32_sum [byte_simps]:
  assumes "n < 4294967296"
  shows "n div 16777216 mod 256 * 16777216 + n div 65536 mod 256 * 65536
    + n div 256 mod 256 * 256 + n mod 256 = (n::nat)"
proof -
  have digits: "16777216 * q3 + 65536 * r2 + 256 * r1 + r0 = n"
    if "256 * q1 + r0 = n" "256 * q2 + r1 = q1" "256 * q3 + r2 = q2" for q1 q2 q3 r0 r1 r2 :: nat
    using that by simp
  have a: "256 * (n div 256) + n mod 256 = n" by (rule mult_div_mod_eq)
  have b: "256 * (n div 65536) + n div 256 mod 256 = n div 256"
    using mult_div_mod_eq [of 256 "n div 256"] by (simp add: div_mult2_eq [symmetric])
  have c: "256 * (n div 16777216) + n div 65536 mod 256 = n div 65536"
    using mult_div_mod_eq [of 256 "n div 65536"] by (simp add: div_mult2_eq [symmetric])
  from assms have "n div 16777216 mod 256 = n div 16777216" by simp
  with digits [OF a b c] show ?thesis by (simp add: mult.commute)
qed

text \<open>\<open>target.set(source, offset)\<close> on byte arrays.\<close>

definition byte_set :: "byte list \<Rightarrow> byte list \<Rightarrow> nat \<Rightarrow> byte list" where
  "byte_set target source off =
     take off target @ source @ drop (off + length source) target"

lemma length_byte_set: "off + length src \<le> length t \<Longrightarrow> length (byte_set t src off) = length t"
  by (simp add: byte_set_def)

lemma take_byte_set:
  "off \<le> length t \<Longrightarrow> take (off + length src) (byte_set t src off) = take off t @ src"
  by (simp add: byte_set_def)

text \<open>Big-endian numbers of any width, as a \<open>DataView\<close> stores them.\<close>

definition be_bytes :: "nat \<Rightarrow> nat \<Rightarrow> byte list" where
  "be_bytes k n = map (\<lambda>i. u8 (n div 256 ^ i)) (rev [0..<k])"

definition be_value :: "byte list \<Rightarrow> nat" where
  "be_value bs = foldl (\<lambda>n b. n * 256 + unat b) 0 bs"

lemma length_be_bytes [simp]: "length (be_bytes k n) = k"
  by (simp add: be_bytes_def)

lemma be_bytes_Suc: "be_bytes (Suc k) n = be_bytes k (n div 256) @ [u8 n]"
  by (simp add: be_bytes_def upt_conv_Cons map_Suc_upt [symmetric] rev_map o_def div_mult2_eq
      mult.commute del: upt_Suc)

lemma be_value_snoc: "be_value (bs @ [b]) = be_value bs * 256 + unat b"
  by (simp add: be_value_def)

lemma be_value_bytes [byte_simps]: "be_value (be_bytes k n) = n mod 256 ^ k"
proof (induction k arbitrary: n)
  case 0
  then show ?case by (simp add: be_bytes_def be_value_def)
next
  case (Suc k)
  have "n div 256 mod 256 ^ k * 256 + n mod 256 = n mod (256 * 256 ^ k)"
    by (simp add: mod_mult2_eq)
  with Suc show ?case by (simp add: be_bytes_Suc be_value_snoc unat_u8)
qed

section \<open>Incremental decoders\<close>

text \<open>
  A decoder that takes a byte stream chunk by chunk and returns the messages completed so far.
  Both the frame decoder and the validated message decoder of the protocol package have this
  interface.  Its contract is a function that cuts a whole byte sequence into messages and a rest.
\<close>

fun push_all :: "('d \<Rightarrow> byte list \<Rightarrow> ('d \<times> ('e + 'm list)) option) \<Rightarrow> 'd \<Rightarrow> byte list list
    \<Rightarrow> ('d \<times> ('e + 'm list)) option" where
  "push_all push d [] = Some (d, Inr [])"
| "push_all push d (c # cs) =
     (case push d c of
        None \<Rightarrow> None
      | Some (d', Inl e) \<Rightarrow> Some (d', Inl e)
      | Some (d', Inr fs) \<Rightarrow>
          (case push_all push d' cs of
             None \<Rightarrow> None
           | Some (d'', r) \<Rightarrow> Some (d'', rbind r (\<lambda>gs. Inr (fs @ gs)))))"

locale incremental_decoder =
  fixes inv :: "'d \<Rightarrow> bool"
    and pending :: "'d \<Rightarrow> byte list"
    and push :: "'d \<Rightarrow> byte list \<Rightarrow> ('d \<times> ('e + 'm list)) option"
    and cut :: "byte list \<Rightarrow> 'e + ('m list \<times> byte list)"
  assumes push_cut: "inv d \<Longrightarrow>
      case cut (pending d @ chunk) of
        Inl e \<Rightarrow> \<exists>d'. push d chunk = Some (d', Inl e)
      | Inr (fs, rest) \<Rightarrow> \<exists>d'. push d chunk = Some (d', Inr fs) \<and> inv d' \<and> pending d' = rest"
    and cut_pending: "inv d \<Longrightarrow> cut (pending d) = Inr ([], pending d)"
    and cut_append: "cut a = Inr (fs, r) \<Longrightarrow>
      cut (a @ b) = rbind (cut (r @ b)) (\<lambda>(gs, q). Inr (fs @ gs, q))"
    and cut_error: "cut a = Inl e \<Longrightarrow> cut (a @ b) = Inl e"
begin

lemma push_all_cut:
  "inv d \<Longrightarrow>
     case cut (pending d @ concat cs) of
       Inl e \<Rightarrow> \<exists>d'. push_all push d cs = Some (d', Inl e)
     | Inr (fs, rest) \<Rightarrow> \<exists>d'. push_all push d cs = Some (d', Inr fs) \<and> inv d' \<and> pending d' = rest"
proof (induction cs arbitrary: d)
  case Nil
  then show ?case by (simp add: cut_pending)
next
  case (Cons c cs)
  show ?case
  proof (cases "cut (pending d @ c)")
    case (Inl e)
    with push_cut [OF Cons.prems, of c] cut_error [OF Inl, of "concat cs"] show ?thesis by auto
  next
    case (Inr q)
    then obtain fs r where q: "cut (pending d @ c) = Inr (fs, r)" by (cases q) auto
    with push_cut [OF Cons.prems, of c] obtain d'
      where d': "push d c = Some (d', Inr fs)" "inv d'" "pending d' = r" by auto
    from Cons.IH [OF d'(2)] cut_append [OF q, of "concat cs"] d' show ?thesis
      by (cases "cut (r @ concat cs)") auto
  qed
qed

lemma push_all_Inr:
  assumes "inv d" "cut (pending d @ concat cs) = Inr (fs, rest)"
  shows "\<exists>d'. push_all push d cs = Some (d', Inr fs) \<and> inv d' \<and> pending d' = rest"
  using push_all_cut [OF assms(1), of cs] assms(2) by simp

lemma push_all_Inl:
  assumes "inv d" "cut (pending d @ concat cs) = Inl e"
  shows "\<exists>d'. push_all push d cs = Some (d', Inl e)"
  using push_all_cut [OF assms(1), of cs] assms(2) by simp

end

end
