(* ===== verification/JsValue.thy ===== *)
theory JsValue
  imports Prelude
begin

text \<open>
  JavaScript values as the program passes them around.  A string is its list of UTF-16 code
  units, so lengths and slices count what the engine counts.  A number is either an integer
  (any integral double except minus zero) or the IEEE 754 bit pattern of another double.  A plain
  object is its property list in the engine's own-key order: array-index keys first in ascending
  order, then the other keys in insertion order.  \<open>JFun\<close> stands for functions, symbols and
  bigints, \<open>JInst\<close> for objects that are neither arrays, plain objects nor byte arrays.  Values
  are finite trees, so cyclic graphs, getters and sparse arrays have no representation.

  The last section models \<open>packages/chord/src/json.ts\<close>: the strict JSON test and the copy.
\<close>

section \<open>Strings\<close>

type_synonym js_string = "16 word list"

definition js :: "string \<Rightarrow> js_string" where
  "js s = map (\<lambda>c. word_of_nat (of_char c)) s"

lemma js_Nil [simp]: "js [] = []"
  by (simp add: js_def)

lemma js_Cons [simp]: "js (c # s) = word_of_nat (of_char c) # js s"
  by (simp add: js_def)

text \<open>The decimal text of a natural number, as \<open>String(n)\<close> prints it.\<close>

fun nat_str :: "nat \<Rightarrow> js_string" where
  "nat_str n =
     (if n < 10 then [word_of_nat (48 + n)] else nat_str (n div 10) @ [word_of_nat (48 + n mod 10)])"

declare nat_str.simps [simp del]

definition is_digit :: "16 word \<Rightarrow> bool" where
  "is_digit c \<longleftrightarrow> 48 \<le> unat c \<and> unat c \<le> 57"

definition digits_val :: "js_string \<Rightarrow> nat" where
  "digits_val s = foldl (\<lambda>n c. 10 * n + (unat c - 48)) 0 s"

lemma unat_digit: "d < 10 \<Longrightarrow> unat (word_of_nat (48 + d) :: 16 word) = 48 + d"
  by (simp add: unat_of_nat take_bit_nat_eq_self del: of_nat_add)

lemma digits_val_nat_str [simp]: "digits_val (nat_str n) = n"
proof (induction n rule: nat_str.induct)
  case (1 n)
  then show ?case
    by (subst nat_str.simps) (auto simp: digits_val_def unat_digit simp del: of_nat_add)
qed

lemma nat_str_inject [simp]: "nat_str m = nat_str n \<longleftrightarrow> m = n"
  by (metis digits_val_nat_str)

lemma nat_str_digits: "c \<in> set (nat_str n) \<Longrightarrow> is_digit c"
proof (induction n rule: nat_str.induct)
  case (1 n)
  show ?case
  proof (cases "n < 10")
    case True
    with "1.prems" show ?thesis
      by (subst (asm) nat_str.simps) (auto simp: is_digit_def unat_digit simp del: of_nat_add)
  next
    case False
    with 1 show ?thesis
      by (subst (asm) nat_str.simps) (auto simp: is_digit_def unat_digit simp del: of_nat_add)
  qed
qed

lemma nat_str_not_Nil [simp]: "nat_str n \<noteq> []"
  by (subst nat_str.simps) simp

text \<open>
  A property key that is the canonical text of an array index (below \<open>2 ^ 32 - 1\<close>) is listed
  before every other key of its object.
\<close>

definition index_key :: "js_string \<Rightarrow> nat option" where
  "index_key s =
     (let n = digits_val s in
      if list_all is_digit s \<and> n < 4294967295 \<and> nat_str n = s then Some n else None)"

lemma index_key_nat_str: "index_key (nat_str n) = (if n < 4294967295 then Some n else None)"
  by (auto simp: index_key_def Let_def list_all_iff nat_str_digits)

lemma index_key_Some: "index_key s = Some n \<longleftrightarrow> s = nat_str n \<and> n < 4294967295"
  by (auto simp: index_key_nat_str) (auto simp: index_key_def Let_def split: if_splits)

section \<open>Numbers\<close>

datatype js_num = NInt int | NFlt "64 word"

definition f64_neg :: "64 word \<Rightarrow> bool" where
  "f64_neg b \<longleftrightarrow> 9223372036854775808 \<le> unat b"

definition f64_exp :: "64 word \<Rightarrow> nat" where
  "f64_exp b = unat b div 4503599627370496 mod 2048"

definition f64_frac :: "64 word \<Rightarrow> nat" where
  "f64_frac b = unat b mod 4503599627370496"

text \<open>The magnitude of a bit pattern when it denotes an integer.\<close>

definition f64_integer :: "64 word \<Rightarrow> nat option" where
  "f64_integer b =
     (let e = f64_exp b; f = f64_frac b; m = 4503599627370496 + f in
      if e = 2047 then None
      else if e = 0 then (if f = 0 then Some 0 else None)
      else if 1075 \<le> e then Some (m * 2 ^ (e - 1075))
      else if e < 1023 then None
      else if m mod 2 ^ (1075 - e) = 0 then Some (m div 2 ^ (1075 - e)) else None)"

definition neg_zero_bits :: "64 word" where
  "neg_zero_bits = 9223372036854775808"

text \<open>The number a 64-bit pattern denotes; minus zero is not the integer zero.\<close>

definition num_of_bits :: "64 word \<Rightarrow> js_num" where
  "num_of_bits b =
     (case f64_integer b of
        None \<Rightarrow> NFlt b
      | Some n \<Rightarrow>
          if f64_neg b then (if n = 0 then NFlt b else NInt (- int n)) else NInt (int n))"

definition max_safe :: int where
  "max_safe = 9007199254740991"

fun num_finite :: "js_num \<Rightarrow> bool" where
  "num_finite (NInt i) = True"
| "num_finite (NFlt b) = (f64_exp b \<noteq> 2047)"

fun num_safe :: "js_num \<Rightarrow> bool" where
  "num_safe (NInt i) = (\<bar>i\<bar> \<le> max_safe)"
| "num_safe (NFlt b) = (b = neg_zero_bits)"

fun num_ok :: "js_num \<Rightarrow> bool" where
  "num_ok (NInt i) = True"
| "num_ok (NFlt b) = (num_of_bits b = NFlt b)"

text \<open>The index a number denotes as a property key, when it is a non-negative integer.\<close>

fun num_index :: "js_num \<Rightarrow> nat option" where
  "num_index (NInt i) = (if 0 \<le> i then Some (nat i) else None)"
| "num_index (NFlt b) = (if b = neg_zero_bits then Some 0 else None)"

section \<open>Values and objects\<close>

datatype jsv =
    JUndef
  | JNull
  | JBool bool
  | JNum js_num
  | JStr js_string
  | JBytes "byte list"
  | JArr "jsv list"
  | JObj "(js_string \<times> jsv) list"
  | JFun
  | JInst

type_synonym props = "(js_string \<times> jsv) list"

definition obj_get :: "(js_string \<times> 'a) list \<Rightarrow> js_string \<Rightarrow> 'a option" where
  "obj_get ps k = map_of ps k"

text \<open>Own-key order of two distinct keys.\<close>

definition key_before :: "js_string \<Rightarrow> js_string \<Rightarrow> bool" where
  "key_before a b =
     (case index_key b of
        None \<Rightarrow> True
      | Some n \<Rightarrow> (case index_key a of None \<Rightarrow> False | Some m \<Rightarrow> m < n))"

text \<open>
  Defining a property: an existing key keeps its place, a new index key goes before the first
  larger index key, any other new key goes to the end.
\<close>

definition obj_put :: "js_string \<Rightarrow> 'a \<Rightarrow> (js_string \<times> 'a) list \<Rightarrow> (js_string \<times> 'a) list" where
  "obj_put k v ps =
     (if k \<in> fst ` set ps then map (\<lambda>p. if fst p = k then (k, v) else p) ps
      else takeWhile (\<lambda>p. key_before (fst p) k) ps @ (k, v)
             # dropWhile (\<lambda>p. key_before (fst p) k) ps)"

definition obj_del :: "js_string \<Rightarrow> (js_string \<times> 'a) list \<Rightarrow> (js_string \<times> 'a) list" where
  "obj_del k ps = filter (\<lambda>p. fst p \<noteq> k) ps"

definition obj_ordered :: "(js_string \<times> 'a) list \<Rightarrow> bool" where
  "obj_ordered ps \<longleftrightarrow> distinct (map fst ps) \<and> sorted_wrt key_before (map fst ps)"

lemma obj_get_simps [simp]:
  "obj_get [] k = None"
  "obj_get ((a, v) # ps) k = (if k = a then Some v else obj_get ps k)"
  by (auto simp: obj_get_def)

lemma obj_get_None: "obj_get ps k = None \<longleftrightarrow> k \<notin> fst ` set ps"
  by (simp add: obj_get_def map_of_eq_None_iff)

lemma obj_get_replace:
  "k \<in> fst ` set ps \<Longrightarrow>
     obj_get (map (\<lambda>p. if fst p = k then (k, v) else p) ps) x =
       (if x = k then Some v else obj_get ps x)"
proof (induction ps)
  case (Cons p ps)
  show ?case
  proof (cases "k \<in> fst ` set ps")
    case True
    with Cons.IH show ?thesis by (cases p) auto
  next
    case False
    then have "map (\<lambda>p. if fst p = k then (k, v) else p) ps = ps"
      by (intro map_idI) force
    with Cons.prems False show ?thesis by (cases p) (auto simp: obj_get_def)
  qed
qed simp

lemma obj_get_append:
  "obj_get (ps @ qs) k = (case obj_get ps k of None \<Rightarrow> obj_get qs k | Some v \<Rightarrow> Some v)"
  by (cases "obj_get ps k") (auto simp: obj_get_def map_add_def)

lemma obj_get_put: "obj_get (obj_put k v ps) x = (if x = k then Some v else obj_get ps x)"
proof (cases "k \<in> fst ` set ps")
  case True
  then show ?thesis by (simp add: obj_put_def obj_get_replace)
next
  case False
  let ?P = "\<lambda>p. key_before (fst p) k"
  have "obj_get ps x =
      (case obj_get (takeWhile ?P ps) x of None \<Rightarrow> obj_get (dropWhile ?P ps) x | Some v \<Rightarrow> Some v)"
    by (simp flip: obj_get_append)
  moreover have "obj_get (takeWhile ?P ps) k = None"
    using False by (auto simp: obj_get_None dest: set_takeWhileD)
  ultimately show ?thesis
    using False by (auto simp: obj_put_def obj_get_append split: option.splits)
qed

lemma obj_get_del: "obj_get (obj_del k ps) x = (if x = k then None else obj_get ps x)"
  by (induction ps) (auto simp: obj_del_def)

lemma keys_obj_put: "fst ` set (obj_put k v ps) = insert k (fst ` set ps)"
proof (cases "k \<in> fst ` set ps")
  case True
  then have "obj_put k v ps = map (\<lambda>p. if fst p = k then (k, v) else p) ps"
    by (simp add: obj_put_def)
  then have "fst ` set (obj_put k v ps) = set (map fst (map (\<lambda>p. if fst p = k then (k, v) else p) ps))"
    by (simp only: set_map)
  also have "map fst (map (\<lambda>p. if fst p = k then (k, v) else p) ps) = map fst ps" by simp
  finally show ?thesis using True by (simp add: insert_absorb)
next
  case False
  let ?P = "\<lambda>p. key_before (fst p) k"
  have "set ps = set (takeWhile ?P ps) \<union> set (dropWhile ?P ps)"
    by (simp flip: set_append)
  with False show ?thesis by (auto simp: obj_put_def)
qed

lemma set_obj_put: "p \<in> set (obj_put k v ps) \<Longrightarrow> p = (k, v) \<or> p \<in> set ps"
  by (auto simp: obj_put_def split: if_splits dest: set_takeWhileD set_dropWhileD)

lemma obj_put_append:
  assumes "obj_ordered (ps @ [(k, v)])"
  shows "obj_put k w ps = ps @ [(k, w)]"
proof -
  from assms have "k \<notin> fst ` set ps" and all: "\<forall>p \<in> set ps. key_before (fst p) k"
    by (auto simp: obj_ordered_def sorted_wrt_append)
  moreover from all have "takeWhile (\<lambda>p. key_before (fst p) k) ps = ps"
    and "dropWhile (\<lambda>p. key_before (fst p) k) ps = []"
    by (simp_all add: takeWhile_eq_all_conv dropWhile_eq_Nil_conv)
  ultimately show ?thesis by (simp add: obj_put_def)
qed

lemma obj_ordered_appendD: "obj_ordered (ps @ qs) \<Longrightarrow> obj_ordered ps"
  by (auto simp: obj_ordered_def sorted_wrt_append)

lemma obj_ordered_del: "obj_ordered ps \<Longrightarrow> obj_ordered (obj_del k ps)"
  by (simp add: obj_ordered_def obj_del_def distinct_map_filter sorted_wrt_map sorted_wrt_filter)

lemma key_before_trans: "key_before a b \<Longrightarrow> key_before b c \<Longrightarrow> key_before a c"
  by (auto simp: key_before_def split: option.splits)

lemma key_before_total: "a \<noteq> b \<Longrightarrow> \<not> key_before a b \<Longrightarrow> key_before b a"
  by (auto simp: key_before_def index_key_Some index_key_nat_str split: option.splits if_splits)

lemma obj_ordered_replace:
  "obj_ordered ps \<Longrightarrow> obj_ordered (map (\<lambda>p. if fst p = k then (k, v) else p) ps)"
proof -
  have "map fst (map (\<lambda>p. if fst p = k then (k, v) else p) ps) = map fst ps"
    by simp
  then show "obj_ordered ps \<Longrightarrow> ?thesis" by (simp only: obj_ordered_def)
qed

lemma obj_ordered_insert:
  "obj_ordered (ps @ qs) \<Longrightarrow> k \<notin> fst ` set ps \<Longrightarrow> k \<notin> fst ` set qs \<Longrightarrow>
     \<forall>p \<in> set ps. key_before (fst p) k \<Longrightarrow> \<forall>p \<in> set qs. key_before k (fst p) \<Longrightarrow>
     obj_ordered (ps @ (k, v) # qs)"
  by (auto simp: obj_ordered_def sorted_wrt_append)

lemma obj_ordered_put:
  assumes "obj_ordered ps"
  shows "obj_ordered (obj_put k v ps)"
proof (cases "k \<in> fst ` set ps")
  case True
  with assms show ?thesis by (simp add: obj_put_def obj_ordered_replace)
next
  case False
  let ?P = "\<lambda>p. key_before (fst p) k"
  have split: "ps = takeWhile ?P ps @ dropWhile ?P ps" by simp
  from assms have td: "obj_ordered (takeWhile ?P ps @ dropWhile ?P ps)" by simp
  have left: "\<forall>p \<in> set (takeWhile ?P ps). key_before (fst p) k"
    by (auto dest: set_takeWhileD)
  have right: "\<forall>p \<in> set (dropWhile ?P ps). key_before k (fst p)"
  proof (cases "dropWhile ?P ps")
    case Nil
    show ?thesis unfolding Nil by simp
  next
    case (Cons q qs)
    then have "\<not> key_before (fst q) k" using hd_dropWhile [of ?P ps] by auto
    moreover from Cons have "q \<in> set ps" by (metis list.set_intros(1) set_dropWhileD)
    ultimately have kq: "key_before k (fst q)"
      using False key_before_total [of "fst q" k] by auto
    from td Cons have "\<forall>p \<in> set qs. key_before (fst q) (fst p)"
      by (auto simp: obj_ordered_def sorted_wrt_append)
    with kq Cons show ?thesis by (auto intro: key_before_trans)
  qed
  have "k \<notin> fst ` set (takeWhile ?P ps)" and "k \<notin> fst ` set (dropWhile ?P ps)"
    using False by (auto dest: set_takeWhileD set_dropWhileD)
  with td left right have "obj_ordered (takeWhile ?P ps @ (k, v) # dropWhile ?P ps)"
    by (intro obj_ordered_insert) auto
  with False show ?thesis by (simp add: obj_put_def)
qed

section \<open>Strict JSON: the test and the copy\<close>

text \<open>
  \<open>is_json_value\<close> is \<open>isJsonValue\<close>/\<open>check\<close> of \<open>json.ts\<close>: an undefined member or property makes
  the value fail, and so do byte arrays and other instances, whose prototype is not a plain one.
\<close>

fun is_json_value :: "jsv \<Rightarrow> bool"
  and is_json_items :: "jsv list \<Rightarrow> bool"
  and is_json_props :: "props \<Rightarrow> bool"
where
  "is_json_value JNull = True"
| "is_json_value (JStr s) = True"
| "is_json_value (JBool b) = True"
| "is_json_value (JNum n) = num_finite n"
| "is_json_value (JArr xs) = is_json_items xs"
| "is_json_value (JObj ps) = is_json_props ps"
| "is_json_value v = False"
| "is_json_items [] = True"
| "is_json_items (x # xs) = (is_json_value x \<and> is_json_items xs)"
| "is_json_props [] = True"
| "is_json_props ((k, v) # ps) = (is_json_value v \<and> is_json_props ps)"

datatype copy_error = NonFiniteNumber | NonJson | NotPlainObject

text \<open>
  \<open>copy_json omit v\<close> is \<open>copyJson\<close>: \<open>omit\<close> is the option \<open>omitUndefinedProperties\<close>.  Each property
  is defined on the result object in the order of the source's own keys.
\<close>

fun copy_json :: "bool \<Rightarrow> jsv \<Rightarrow> copy_error + jsv"
  and copy_items :: "bool \<Rightarrow> jsv list \<Rightarrow> copy_error + jsv list"
  and copy_props :: "bool \<Rightarrow> props \<Rightarrow> props \<Rightarrow> copy_error + props"
where
  "copy_json om JNull = Inr JNull"
| "copy_json om (JStr s) = Inr (JStr s)"
| "copy_json om (JBool b) = Inr (JBool b)"
| "copy_json om (JNum n) = (if num_finite n then Inr (JNum n) else Inl NonFiniteNumber)"
| "copy_json om JUndef = Inl NonJson"
| "copy_json om JFun = Inl NonJson"
| "copy_json om (JArr xs) = rbind (copy_items om xs) (\<lambda>ys. Inr (JArr ys))"
| "copy_json om (JObj ps) = rbind (copy_props om ps []) (\<lambda>qs. Inr (JObj qs))"
| "copy_json om (JBytes bs) = Inl NotPlainObject"
| "copy_json om JInst = Inl NotPlainObject"
| "copy_items om [] = Inr []"
| "copy_items om (x # xs) =
     rbind (copy_json om x) (\<lambda>y. rbind (copy_items om xs) (\<lambda>ys. Inr (y # ys)))"
| "copy_props om [] acc = Inr acc"
| "copy_props om ((k, v) # ps) acc =
     (if v = JUndef \<and> om then copy_props om ps acc
      else rbind (copy_json om v) (\<lambda>w. copy_props om ps (obj_put k w acc)))"

text \<open>
  Every object of the value lists its keys in own-key order, and no number has two
  representations.
\<close>

fun jsv_ok :: "jsv \<Rightarrow> bool"
  and jsv_ok_items :: "jsv list \<Rightarrow> bool"
  and jsv_ok_props :: "props \<Rightarrow> bool"
where
  "jsv_ok (JNum n) = num_ok n"
| "jsv_ok (JArr xs) = jsv_ok_items xs"
| "jsv_ok (JObj ps) = (obj_ordered ps \<and> jsv_ok_props ps)"
| "jsv_ok v = True"
| "jsv_ok_items [] = True"
| "jsv_ok_items (x # xs) = (jsv_ok x \<and> jsv_ok_items xs)"
| "jsv_ok_props [] = True"
| "jsv_ok_props ((k, v) # ps) = (jsv_ok v \<and> jsv_ok_props ps)"

text \<open>The value without its undefined properties, at every level.\<close>

fun drop_undef :: "jsv \<Rightarrow> jsv"
  and drop_undef_items :: "jsv list \<Rightarrow> jsv list"
  and drop_undef_props :: "props \<Rightarrow> props"
where
  "drop_undef (JArr xs) = JArr (drop_undef_items xs)"
| "drop_undef (JObj ps) = JObj (drop_undef_props ps)"
| "drop_undef v = v"
| "drop_undef_items [] = []"
| "drop_undef_items (x # xs) = drop_undef x # drop_undef_items xs"
| "drop_undef_props [] = []"
| "drop_undef_props ((k, v) # ps) =
     (if v = JUndef then drop_undef_props ps else (k, drop_undef v) # drop_undef_props ps)"

lemma is_json_items_iff: "is_json_items xs \<longleftrightarrow> (\<forall>x \<in> set xs. is_json_value x)"
  by (induction xs) auto

lemma is_json_props_iff: "is_json_props ps \<longleftrightarrow> (\<forall>p \<in> set ps. is_json_value (snd p))"
  by (induction ps) auto

lemma jsv_ok_items_iff: "jsv_ok_items xs \<longleftrightarrow> (\<forall>x \<in> set xs. jsv_ok x)"
  by (induction xs) auto

lemma jsv_ok_props_iff: "jsv_ok_props ps \<longleftrightarrow> (\<forall>p \<in> set ps. jsv_ok (snd p))"
  by (induction ps) auto

lemma drop_undef_keys: "fst ` set (drop_undef_props ps) \<subseteq> fst ` set ps"
proof (induction ps)
  case (Cons p ps)
  then show ?case by (cases p) auto
qed simp

lemma obj_ordered_ConsI:
  "obj_ordered ((k, v) # ps) \<Longrightarrow> fst ` set qs \<subseteq> fst ` set ps \<Longrightarrow> obj_ordered qs \<Longrightarrow>
     obj_ordered ((k, w) # qs)"
  unfolding obj_ordered_def list.map distinct.simps sorted_wrt.simps set_map fst_conv by blast

lemma obj_ordered_ConsD: "obj_ordered (p # ps) \<Longrightarrow> obj_ordered ps"
  by (simp add: obj_ordered_def)

lemma obj_ordered_drop_undef: "obj_ordered ps \<Longrightarrow> obj_ordered (drop_undef_props ps)"
proof (induction ps)
  case (Cons p ps)
  then have "obj_ordered (drop_undef_props ps)" by (blast dest: obj_ordered_ConsD)
  with Cons.prems show ?case
    by (cases p) (auto intro: obj_ordered_ConsI [OF _ drop_undef_keys])
qed simp

lemma obj_ordered_append_ConsI:
  "obj_ordered (acc @ (k, v) # ps) \<Longrightarrow> obj_ordered ((acc @ [(k, w)]) @ ps)"
  by (auto simp: obj_ordered_def sorted_wrt_append)

lemma obj_ordered_append_dropI:
  "obj_ordered (acc @ p # ps) \<Longrightarrow> obj_ordered (acc @ ps)"
  by (auto simp: obj_ordered_def sorted_wrt_append)

lemma obj_put_snoc: "obj_ordered (acc @ (k, v) # ps) \<Longrightarrow> obj_put k w acc = acc @ [(k, w)]"
  by (rule obj_put_append, erule obj_ordered_appendD [of _ "ps", OF obj_ordered_append_ConsI])

lemma copy_json_result:
  "copy_json om v = Inr w \<Longrightarrow> is_json_value w"
  "copy_items om xs = Inr ys \<Longrightarrow> is_json_items ys"
  "copy_props om ps acc = Inr qs \<Longrightarrow> is_json_props acc \<Longrightarrow> is_json_props qs"
proof (induction om v and om xs and om ps acc arbitrary: w and ys and qs
    rule: copy_json_copy_items_copy_props.induct)
  case (14 om k v ps acc)
  then show ?case
    by (fastforce simp: res_simps is_json_props_iff split: if_splits dest: set_obj_put)
qed (auto simp: res_simps split: if_splits)

lemma copy_json_value:
  "jsv_ok v \<Longrightarrow> copy_json om v = Inr w \<Longrightarrow> w = drop_undef v"
  "jsv_ok_items xs \<Longrightarrow> copy_items om xs = Inr ys \<Longrightarrow> ys = drop_undef_items xs"
  "jsv_ok_props ps \<Longrightarrow> obj_ordered (acc @ ps) \<Longrightarrow> copy_props om ps acc = Inr qs \<Longrightarrow>
     qs = acc @ drop_undef_props ps"
proof (induction om v and om xs and om ps acc arbitrary: w and ys and qs
    rule: copy_json_copy_items_copy_props.induct)
  case (14 om k v ps acc)
  show ?case
  proof (cases "v = JUndef \<and> om")
    case True
    with 14 show ?thesis by (auto dest: obj_ordered_append_dropI)
  next
    case False
    with "14.prems" obtain w where w: "copy_json om v = Inr w"
      and rest: "copy_props om ps (obj_put k w acc) = Inr qs"
      by (auto simp: res_simps)
    from w have "v \<noteq> JUndef" by auto
    moreover from False w "14.prems" "14.IH" have "w = drop_undef v" by auto
    moreover from False w "14.prems" "14.IH"(3) rest have "qs = (acc @ [(k, w)]) @ drop_undef_props ps"
      by (auto simp: obj_put_snoc dest: obj_ordered_append_ConsI [of acc k v ps w])
    ultimately show ?thesis by simp
  qed
qed (auto simp: res_simps split: if_splits)

lemma copy_json_total:
  "is_json_value v \<Longrightarrow> \<exists>w. copy_json om v = Inr w"
  "is_json_items xs \<Longrightarrow> \<exists>ys. copy_items om xs = Inr ys"
  "is_json_props ps \<Longrightarrow> \<exists>qs. copy_props om ps acc = Inr qs"
  by (induction om v and om xs and om ps acc rule: copy_json_copy_items_copy_props.induct) auto

lemma drop_undef_json:
  "is_json_value v \<Longrightarrow> drop_undef v = v"
  "is_json_items xs \<Longrightarrow> drop_undef_items xs = xs"
  "is_json_props ps \<Longrightarrow> drop_undef_props ps = ps"
  by (induction v and xs and ps rule: drop_undef_drop_undef_items_drop_undef_props.induct) auto

lemma copy_json_id: "is_json_value v \<Longrightarrow> jsv_ok v \<Longrightarrow> copy_json om v = Inr v"
  by (metis copy_json_total(1) copy_json_value(1) drop_undef_json(1))

lemma copy_json_strict:
  "copy_json False v = Inr w \<Longrightarrow> is_json_value v"
  "copy_items False xs = Inr ys \<Longrightarrow> is_json_items xs"
  "copy_props False ps acc = Inr qs \<Longrightarrow> is_json_props ps"
  by (induction False v and False xs and False ps acc arbitrary: w and ys and qs
      rule: copy_json_copy_items_copy_props.induct) (auto simp: res_simps split: if_splits)

lemma copy_json_omitting:
  "is_json_value (drop_undef v) \<Longrightarrow> \<exists>w. copy_json True v = Inr w"
  "is_json_items (drop_undef_items xs) \<Longrightarrow> \<exists>ys. copy_items True xs = Inr ys"
  "is_json_props (drop_undef_props ps) \<Longrightarrow> \<exists>qs. copy_props True ps acc = Inr qs"
  by (induction True v and True xs and True ps acc rule: copy_json_copy_items_copy_props.induct)
     (auto split: if_splits)

text \<open>
  \<open>copyJson\<close> succeeds exactly on strict JSON and then returns an equal value; with
  \<open>omitUndefinedProperties\<close> it succeeds exactly when the value without its undefined properties is
  strict JSON, and returns that.
\<close>

theorem copy_json_spec:
  assumes "jsv_ok v"
  shows "copy_json om v = Inr w \<longleftrightarrow>
    is_json_value (if om then drop_undef v else v) \<and> w = (if om then drop_undef v else v)"
proof
  assume w: "copy_json om v = Inr w"
  with copy_json_result(1) copy_json_value(1) [OF assms] have "is_json_value w" "w = drop_undef v" by auto
  with w copy_json_strict(1) [of v w] drop_undef_json(1) [of v]
  show "is_json_value (if om then drop_undef v else v) \<and> w = (if om then drop_undef v else v)"
    by (cases om) auto
next
  assume "is_json_value (if om then drop_undef v else v) \<and> w = (if om then drop_undef v else v)"
  moreover from this have "\<exists>x. copy_json om v = Inr x"
    using copy_json_omitting(1) [of v] copy_json_total(1) [of v False] by (cases om) auto
  ultimately show "copy_json om v = Inr w"
    using copy_json_value(1) [OF assms] drop_undef_json(1) [of v] by (cases om) auto
qed

theorem copy_json_spec_witness:
  "copy_json True (JObj [(js ''a'', JUndef), (js ''b'', JArr [JNull])]) =
     Inr (JObj [(js ''b'', JArr [JNull])])"
proof -
  have "jsv_ok (JObj [(js ''a'', JUndef), (js ''b'', JArr [JNull])])"
    by (simp add: obj_ordered_def key_before_def index_key_def is_digit_def)
  then show ?thesis by (rule iffD2 [OF copy_json_spec]) simp
qed

end
