(* ===== verification/JsonText.thy ===== *)
theory JsonText
  imports JsValue
begin

text \<open>
  \<open>JSON.stringify\<close> on the values the program turns into map keys: arrays of strings, safe
  integers, \<open>null\<close> and nested arrays.  The delta codec keys its path dictionary by such a text
  (\<open>pathKey\<close> in \<open>chord/src/delta/index.ts\<close>) and the durable storage keys its address and scope
  indexes by one (\<open>addressKey\<close>, \<open>scopeKey\<close>, \<open>addressId\<close>).  The main fact is that the text
  determines the value, so that a map keyed by the text is a map keyed by the value.
\<close>

definition high_surrogate :: "16 word \<Rightarrow> bool" where
  "high_surrogate c \<longleftrightarrow> 55296 \<le> unat c \<and> unat c < 56320"

definition low_surrogate :: "16 word \<Rightarrow> bool" where
  "low_surrogate c \<longleftrightarrow> 56320 \<le> unat c \<and> unat c < 57344"

definition surrogate :: "16 word \<Rightarrow> bool" where
  "surrogate c \<longleftrightarrow> high_surrogate c \<or> low_surrogate c"

definition hex_digit :: "nat \<Rightarrow> 16 word" where
  "hex_digit n = word_of_nat (if n < 10 then 48 + n else 87 + n)"

definition unicode_escape :: "16 word \<Rightarrow> js_string" where
  "unicode_escape c =
     [92, 117, hex_digit (unat c div 4096 mod 16), hex_digit (unat c div 256 mod 16),
      hex_digit (unat c div 16 mod 16), hex_digit (unat c mod 16)]"

definition escape_unit :: "16 word \<Rightarrow> js_string" where
  "escape_unit c =
     (if c = 34 then [92, 34]
      else if c = 92 then [92, 92]
      else if c = 8 then [92, 98]
      else if c = 12 then [92, 102]
      else if c = 10 then [92, 110]
      else if c = 13 then [92, 114]
      else if c = 9 then [92, 116]
      else if unat c < 32 \<or> surrogate c then unicode_escape c
      else [c])"

fun escape_text :: "js_string \<Rightarrow> js_string" where
  "escape_text [] = []"
| "escape_text [c] = escape_unit c"
| "escape_text (c # d # s) =
     (if high_surrogate c \<and> low_surrogate d then c # d # escape_text s
      else escape_unit c @ escape_text (d # s))"

definition quote_text :: "js_string \<Rightarrow> js_string" where
  "quote_text s = 34 # escape_text s @ [34]"

definition int_str :: "int \<Rightarrow> js_string" where
  "int_str i = (if i < 0 then 45 # nat_str (nat (- i)) else nat_str (nat i))"

datatype jtext = TNull | TInt int | TStr js_string | TArr "jtext list"

fun stringify :: "jtext \<Rightarrow> js_string"
  and stringify_items :: "jtext list \<Rightarrow> js_string"
where
  "stringify TNull = js ''null''"
| "stringify (TInt i) = int_str i"
| "stringify (TStr s) = quote_text s"
| "stringify (TArr xs) = 91 # stringify_items xs @ [93]"
| "stringify_items [] = []"
| "stringify_items [x] = stringify x"
| "stringify_items (x # y # xs) = stringify x @ 44 # stringify_items (y # xs)"

section \<open>The text determines the value\<close>

lemma unat_hex_digit: "n < 16 \<Longrightarrow> unat (hex_digit n) = (if n < 10 then 48 + n else 87 + n)"
  by (simp add: hex_digit_def unat_of_nat take_bit_nat_eq_self del: of_nat_add)

lemma hex_digit_inject: "m < 16 \<Longrightarrow> n < 16 \<Longrightarrow> hex_digit m = hex_digit n \<Longrightarrow> m = n"
proof -
  assume "m < 16" and "n < 16" and "hex_digit m = hex_digit n"
  then have "(if m < 10 then 48 + m else 87 + m) = (if n < 10 then 48 + n else 87 + n)"
    by (metis unat_hex_digit)
  then show "m = n" by (simp split: if_splits)
qed

lemma nibble_sum:
  "16 * q1 + r0 = n \<Longrightarrow> 16 * q2 + r1 = q1 \<Longrightarrow> 16 * q3 + r2 = q2 \<Longrightarrow>
     n = q3 * 4096 + r2 * 256 + r1 * 16 + (r0::nat)"
  by simp

lemma nibbles:
  assumes "n < 65536"
  shows "n = n div 4096 mod 16 * 4096 + n div 256 mod 16 * 256 + n div 16 mod 16 * 16 + n mod (16::nat)"
proof -
  have a: "16 * (n div 16) + n mod 16 = n" by (rule mult_div_mod_eq)
  have b: "16 * (n div 256) + n div 16 mod 16 = n div 16"
    using mult_div_mod_eq [of 16 "n div 16"] by (simp add: div_mult2_eq [symmetric])
  have c: "16 * (n div 4096) + n div 256 mod 16 = n div 256"
    using mult_div_mod_eq [of 16 "n div 256"] by (simp add: div_mult2_eq [symmetric])
  from assms have "n div 4096 mod 16 = n div 4096" by simp
  with nibble_sum [OF a b c] show ?thesis by simp
qed

lemma unicode_escape_inject: "unicode_escape c = unicode_escape d \<longleftrightarrow> c = d"
proof
  assume eq: "unicode_escape c = unicode_escape d"
  have "m mod 16 = n mod 16" if "hex_digit (m mod 16) = hex_digit (n mod 16)" for m n
    using that by (intro hex_digit_inject) auto
  with eq have "unat c div 4096 mod 16 = unat d div 4096 mod 16"
    "unat c div 256 mod 16 = unat d div 256 mod 16"
    "unat c div 16 mod 16 = unat d div 16 mod 16" "unat c mod 16 = unat d mod 16"
    unfolding unicode_escape_def by blast+
  moreover have "unat c < 65536" and "unat d < 65536"
    using unsigned_less [of c] unsigned_less [of d] by simp_all
  ultimately have "unat c = unat d"
    using nibbles [of "unat c"] nibbles [of "unat d"] by metis
  then show "c = d" by (rule unsigned_word_eqI)
qed simp

lemma unicode_escape_append: "unicode_escape c @ xs = unicode_escape d @ ys \<longleftrightarrow> c = d \<and> xs = ys"
proof -
  have "length (unicode_escape c) = length (unicode_escape d)"
    by (simp add: unicode_escape_def)
  then show ?thesis by (simp add: unicode_escape_inject)
qed

lemma unicode_escape_head:
  "unicode_escape c @ xs = a # ys \<Longrightarrow> a = 92 \<and> ys \<noteq> [] \<and> hd ys = 117"
  "a # ys = unicode_escape c @ xs \<Longrightarrow> a = 92 \<and> ys \<noteq> [] \<and> hd ys = 117"
  by (auto simp: unicode_escape_def)

lemma escape_unit_not_Nil [simp]: "escape_unit c \<noteq> []"
  by (simp add: escape_unit_def unicode_escape_def)

lemma escape_unit_head: "hd (escape_unit c) \<noteq> 34 \<and> \<not> surrogate (hd (escape_unit c))"
  by (auto simp: escape_unit_def unicode_escape_def surrogate_def high_surrogate_def
      low_surrogate_def)

definition coded_unit :: "16 word \<Rightarrow> bool" where
  "coded_unit c \<longleftrightarrow> c \<notin> {34, 92, 8, 12, 10, 13, 9} \<and> (unat c < 32 \<or> surrogate c)"

lemma escape_coded: "coded_unit c \<Longrightarrow> escape_unit c = unicode_escape c"
  by (simp add: coded_unit_def escape_unit_def)

lemma escape_mismatch: "\<not> coded_unit d \<Longrightarrow> unicode_escape c @ xs \<noteq> escape_unit d @ ys"
  by (auto simp: coded_unit_def escape_unit_def dest!: unicode_escape_head split: if_splits)

lemma escape_unit_append:
  assumes "escape_unit c @ xs = escape_unit d @ ys"
  shows "c = d \<and> xs = ys"
proof (cases "coded_unit c"; cases "coded_unit d")
  assume "coded_unit c" and "coded_unit d"
  with assms show ?thesis by (simp add: escape_coded unicode_escape_append)
next
  assume "coded_unit c" and "\<not> coded_unit d"
  with assms escape_mismatch [of d c xs ys] show ?thesis by (simp add: escape_coded)
next
  assume "\<not> coded_unit c" and "coded_unit d"
  with assms [symmetric] escape_mismatch [of c d ys xs] show ?thesis by (simp add: escape_coded)
next
  assume "\<not> coded_unit c" and "\<not> coded_unit d"
  with assms show ?thesis by (auto simp: coded_unit_def escape_unit_def split: if_splits)
qed

text \<open>The first token of an escaped text.\<close>

lemma escape_text_cases:
  assumes "s \<noteq> []"
  obtains (pair) c d r where "s = c # d # r" "high_surrogate c" "low_surrogate d"
      "escape_text s = c # d # escape_text r"
  | (unit) c r where "s = c # r" "escape_text s = escape_unit c @ escape_text r"
proof (cases s rule: escape_text.cases)
  case (2 c)
  then show ?thesis by (intro unit [of c "[]"]) auto
next
  case (3 c d r)
  then show ?thesis
    by (cases "high_surrogate c \<and> low_surrogate d") (auto intro: pair unit)
qed (use assms in auto)

lemma escape_unit_neq: "surrogate a \<or> a = 34 \<Longrightarrow> escape_unit c @ xs \<noteq> a # ys"
  using escape_unit_head [of c] by (cases "escape_unit c") auto

lemma escape_text_head:
  assumes "s \<noteq> []"
  shows "escape_text s @ xs \<noteq> 34 # ys"
  using assms
proof (cases rule: escape_text_cases)
  case (pair c d r)
  then show ?thesis by (auto simp: high_surrogate_def)
next
  case (unit c r)
  then show ?thesis using escape_unit_neq [of 34 c "escape_text r @ xs" ys] by simp
qed

lemma escape_text_inject:
  "escape_text s @ 34 # xs = escape_text t @ 34 # ys \<Longrightarrow> s = t \<and> xs = ys"
proof (induction "length s" arbitrary: s t rule: less_induct)
  case less
  have sur: "high_surrogate c \<Longrightarrow> surrogate c" for c by (simp add: surrogate_def)
  show ?case
  proof (cases "s = []"; cases "t = []")
    assume "s = []" and "t = []"
    with less.prems show ?thesis by simp
  next
    assume "s = []" and "t \<noteq> []"
    with less.prems escape_text_head [of t "34 # ys" xs] show ?thesis by simp
  next
    assume "s \<noteq> []" and "t = []"
    with less.prems escape_text_head [of s "34 # xs" ys] show ?thesis by simp
  next
    assume s: "s \<noteq> []" and t: "t \<noteq> []"
    from s show ?thesis
    proof (cases rule: escape_text_cases)
      case sp: (pair c d r)
      from t show ?thesis
      proof (cases rule: escape_text_cases)
        case (pair c' d' r')
        with sp less.prems less.hyps [of r r'] show ?thesis by simp
      next
        case (unit c' r')
        with sp less.prems escape_unit_neq [of c c' "escape_text r' @ 34 # ys"] sur [of c] show ?thesis
          by simp metis
      qed
    next
      case su: (unit c r)
      from t show ?thesis
      proof (cases rule: escape_text_cases)
        case (pair c' d' r')
        with su less.prems escape_unit_neq [of c' c "escape_text r @ 34 # xs"] sur [of c'] show ?thesis
          by simp
      next
        case (unit c' r')
        with su less.prems have "escape_unit c @ escape_text r @ 34 # xs = escape_unit c' @ escape_text r' @ 34 # ys"
          by simp
        then have "c = c'" and "escape_text r @ 34 # xs = escape_text r' @ 34 # ys"
          by (blast dest: escape_unit_append)+
        with su unit less.hyps [of r r'] show ?thesis by simp
      qed
    qed
  qed
qed

lemma quote_text_append: "quote_text s @ xs = quote_text t @ ys \<Longrightarrow> s = t \<and> xs = ys"
  using escape_text_inject [of s xs t ys] by (simp add: quote_text_def)

definition at_stop :: "js_string \<Rightarrow> bool" where
  "at_stop xs \<longleftrightarrow> (case xs of [] \<Rightarrow> True | x # _ \<Rightarrow> x = 44 \<or> x = 93)"

lemma at_stop_simps [simp]: "at_stop []" "at_stop (44 # xs)" "at_stop (93 # xs)"
  by (simp_all add: at_stop_def)

lemma at_stop_no_digit: "at_stop xs \<Longrightarrow> takeWhile is_digit xs = []"
  by (auto simp: at_stop_def is_digit_def split: list.splits)

lemma nat_str_append:
  assumes "nat_str m @ xs = nat_str n @ ys" "at_stop xs" "at_stop ys"
  shows "m = n \<and> xs = ys"
proof -
  have tw: "takeWhile is_digit (nat_str k @ zs) = nat_str k" if "at_stop zs" for k zs
    using that by (simp add: takeWhile_append2 nat_str_digits at_stop_no_digit)
  from assms(1) have "nat_str m = nat_str n"
    using tw [OF assms(2), of m] tw [OF assms(3), of n] by simp
  with assms(1) show ?thesis by simp
qed

lemma nat_str_hd: "is_digit (hd (nat_str n))"
  by (rule nat_str_digits [of _ n]) simp

lemma int_str_hd: "hd (int_str i) = 45 \<or> is_digit (hd (int_str i))"
  by (simp add: int_str_def nat_str_hd)

lemma int_str_not_Nil [simp]: "int_str i \<noteq> []"
  by (simp add: int_str_def)

lemma int_str_append:
  assumes "int_str i @ xs = int_str j @ ys" "at_stop xs" "at_stop ys"
  shows "i = j \<and> xs = ys"
proof -
  have no_sign: "nat_str m @ zs \<noteq> 45 # ws" for m zs ws
    using nat_str_hd [of m] by (cases "nat_str m") (auto simp: is_digit_def)
  have "nat_str (nat m) @ xs = nat_str (nat n) @ ys \<Longrightarrow> nat m = nat n \<and> xs = ys" for m n
    using nat_str_append [OF _ assms(2,3)] by blast
  then show ?thesis
    using assms(1) no_sign no_sign [THEN not_sym]
    by (cases "i < 0"; cases "j < 0") (force simp: int_str_def)+
qed

definition text_head :: "jtext \<Rightarrow> 16 word \<Rightarrow> bool" where
  "text_head v c \<longleftrightarrow>
     (case v of TNull \<Rightarrow> c = 110 | TInt _ \<Rightarrow> c = 45 \<or> is_digit c | TStr _ \<Rightarrow> c = 34 | TArr _ \<Rightarrow> c = 91)"

lemma stringify_head: "\<exists>c s. stringify v = c # s \<and> text_head v c"
proof (cases v)
  case (TInt i)
  then show ?thesis
    using int_str_hd [of i] by (cases "int_str i") (auto simp: text_head_def)
qed (auto simp: text_head_def quote_text_def)

lemma text_head_not_stop: "text_head v c \<Longrightarrow> c \<noteq> 44 \<and> c \<noteq> 93"
  by (auto simp: text_head_def is_digit_def split: jtext.splits)

lemma text_head_excl:
  "text_head v c \<Longrightarrow> text_head w c \<Longrightarrow>
     (v = TNull \<and> w = TNull) \<or> (\<exists>i j. v = TInt i \<and> w = TInt j) \<or>
     (\<exists>s t. v = TStr s \<and> w = TStr t) \<or> (\<exists>xs ys. v = TArr xs \<and> w = TArr ys)"
  by (cases v; cases w) (auto simp: text_head_def is_digit_def)

lemma stringify_same_kind:
  assumes "stringify v @ xs = stringify w @ ys"
  shows "(v = TNull \<and> w = TNull) \<or> (\<exists>i j. v = TInt i \<and> w = TInt j) \<or>
     (\<exists>s t. v = TStr s \<and> w = TStr t) \<or> (\<exists>xs ys. v = TArr xs \<and> w = TArr ys)"
proof -
  obtain c s d t where "stringify v = c # s" "text_head v c" "stringify w = d # t" "text_head w d"
    using stringify_head by metis
  with assms show ?thesis by (auto dest: text_head_excl)
qed

lemma stringify_not_stop: "c = 44 \<or> c = 93 \<Longrightarrow> stringify v @ xs \<noteq> c # ys"
  using stringify_head [of v] text_head_not_stop [of v] by auto

lemma stringify_items_not_stop: "ws \<noteq> [] \<Longrightarrow> stringify_items ws @ xs \<noteq> 93 # ys"
  by (cases ws rule: stringify_items.cases) (simp_all add: stringify_not_stop)

lemma stringify_append:
  "stringify v @ xs = stringify w @ ys \<Longrightarrow> at_stop xs \<Longrightarrow> at_stop ys \<Longrightarrow> v = w \<and> xs = ys"
  "stringify_items vs @ 93 # xs = stringify_items ws @ 93 # ys \<Longrightarrow> vs = ws \<and> xs = ys"
proof (induction v and vs arbitrary: w xs ys and ws xs ys rule: stringify_stringify_items.induct)
  case 1
  then show ?case using stringify_same_kind [OF "1.prems"(1)] by auto
next
  case (2 i)
  then show ?case
    using stringify_same_kind [OF "2.prems"(1)] by (auto dest: int_str_append)
next
  case (3 s)
  then show ?case
    using stringify_same_kind [OF "3.prems"(1)] by (auto dest: quote_text_append)
next
  case (4 us)
  from stringify_same_kind [OF "4.prems"(1)] obtain vs where w: "w = TArr vs" by auto
  with "4.prems" have "stringify_items us @ 93 # xs = stringify_items vs @ 93 # ys" by simp
  from "4.IH" [OF this] w show ?case by simp
next
  case 5
  then show ?case using stringify_items_not_stop [of ws "93 # ys" xs] by (cases "ws = []") auto
next
  case (6 v ws xs ys)
  show ?case
  proof (cases ws rule: stringify_items.cases [case_names Nil One More])
    case Nil
    with "6.prems" stringify_not_stop [of 93 v "93 # xs" ys] show ?thesis by simp
  next
    case (One w)
    with "6.prems" "6.IH" [of "93 # xs" w "93 # ys"] show ?thesis by simp
  next
    case (More w w' ws')
    with "6.prems" "6.IH" [of "93 # xs" w "44 # stringify_items (w' # ws') @ 93 # ys"]
    show ?thesis by simp
  qed
next
  case (7 u v vs ws xs ys)
  show ?case
  proof (cases ws rule: stringify_items.cases [case_names Nil One More])
    case Nil
    with "7.prems" stringify_not_stop [of 93 u "44 # stringify_items (v # vs) @ 93 # xs" ys] show ?thesis by simp
  next
    case (One w)
    with "7.prems" "7.IH"(1) [of "44 # stringify_items (v # vs) @ 93 # xs" w "93 # ys"]
    show ?thesis by simp
  next
    case (More w w' ws')
    with "7.prems" "7.IH"(1) [of "44 # stringify_items (v # vs) @ 93 # xs" w
        "44 # stringify_items (w' # ws') @ 93 # ys"]
    have "u = w" and "stringify_items (v # vs) @ 93 # xs = stringify_items (w' # ws') @ 93 # ys"
      by simp_all
    with More "7.IH"(2) [of xs "w' # ws'" ys] show ?thesis by simp
  qed
qed

lemma stringify_inject: "stringify v = stringify w \<longleftrightarrow> v = w"
  using stringify_append(1) [of v "[]" w "[]"] by auto

end
