(* ===== verification/Framing.thy ===== *)
theory Framing
  imports Prelude
begin

text \<open>
  \<open>packages/protocol/src/framing.ts\<close>: length-prefixed frames over arbitrary byte chunks.
  \<open>encode_frame\<close> is \<open>encodeFrame\<close>; the class \<open>FrameDecoder\<close> is the record \<open>frame_decoder\<close> with
  \<open>new_decoder\<close>, \<open>frame_push\<close>, \<open>frame_end\<close> and \<open>frame_fail\<close> for its constructor and methods.
  The specification is \<open>split_frames\<close>, which cuts a whole byte sequence into frames at once; the
  decoder refines it whatever the chunk boundaries are.  Payload blocks are kept as the code has
  them: zero-filled buffers of at most 64 KiB, the last one being the current block.
\<close>

definition MAX_UINT32 :: nat where
  "MAX_UINT32 = 4294967295"

definition FRAME_HEADER_LENGTH :: nat where
  "FRAME_HEADER_LENGTH = 4"

definition PAYLOAD_BLOCK_SIZE :: nat where
  "PAYLOAD_BLOCK_SIZE = 64 * 1024"

definition DEFAULT_MAX_FRAME_LENGTH :: nat where
  "DEFAULT_MAX_FRAME_LENGTH = 16 * 1024 * 1024"

datatype frame_error =
    MaxFrameLengthRange
  | PayloadTooLong
  | DecoderEnded
  | DecoderFailed
  | FrameTooLong nat nat
  | TruncatedFrame

text \<open>
  \<open>resolveMaxFrameLength\<close>: the option is an integer (a non-integral option is rejected by the
  same branch as a negative one).
\<close>

definition resolve_max_frame_length :: "int option \<Rightarrow> frame_error + nat" where
  "resolve_max_frame_length opt =
     (let value = (case opt of None \<Rightarrow> int DEFAULT_MAX_FRAME_LENGTH | Some v \<Rightarrow> v) in
      if value < 0 \<or> int MAX_UINT32 < value then Inl MaxFrameLengthRange else Inr (nat value))"

definition encode_frame :: "byte list \<Rightarrow> frame_error + byte list" where
  "encode_frame payload =
     (let len = length payload in
      if MAX_UINT32 < len then Inl PayloadTooLong
      else Inr ([u8 (len div 2 ^ 24), u8 (len div 2 ^ 16), u8 (len div 2 ^ 8), u8 len] @ payload))"

datatype decoder_state = Open | Ended | Failed

record frame_decoder =
  header :: "byte list"
  headerLength :: nat
  maxFrameLength :: nat
  payloadBlocks :: "byte list list"
  hasCurrentBlock :: bool
  currentPayloadBlockLength :: nat
  expectedPayloadLength :: "nat option"
  payloadLength :: nat
  state :: decoder_state

definition new_decoder :: "int option \<Rightarrow> frame_error + frame_decoder" where
  "new_decoder opt =
     rbind (resolve_max_frame_length opt) (\<lambda>m. Inr
       \<lparr>header = replicate FRAME_HEADER_LENGTH 0, headerLength = 0, maxFrameLength = m,
        payloadBlocks = [], hasCurrentBlock = False, currentPayloadBlockLength = 0,
        expectedPayloadLength = None, payloadLength = 0, state = Open\<rparr>)"

definition frame_fail :: "frame_decoder \<Rightarrow> frame_decoder" where
  "frame_fail d = d\<lparr>state := Failed, headerLength := 0, payloadBlocks := [],
     hasCurrentBlock := False, currentPayloadBlockLength := 0, expectedPayloadLength := None,
     payloadLength := 0\<rparr>"

text \<open>The length field of a complete header.\<close>

definition header_value :: "byte list \<Rightarrow> nat" where
  "header_value h = unat (h ! 0) * 16777216 + unat (h ! 1) * 65536 + unat (h ! 2) * 256 + unat (h ! 3)"

definition clear_payload :: "frame_decoder \<Rightarrow> frame_decoder" where
  "clear_payload d = d\<lparr>payloadBlocks := [], hasCurrentBlock := False,
     currentPayloadBlockLength := 0, payloadLength := 0\<rparr>"

text \<open>
  One pass of the inner loop over payload blocks: open a block when there is none or it is full,
  then copy as much of the chunk (here the bytes not yet consumed) as the block takes.
\<close>

definition fill_block :: "nat \<Rightarrow> frame_decoder \<Rightarrow> byte list \<Rightarrow> frame_decoder \<times> byte list" where
  "fill_block expected d rest =
     (let d' = (if \<not> hasCurrentBlock d
                   \<or> currentPayloadBlockLength d = length (last (payloadBlocks d))
                then d\<lparr>payloadBlocks := payloadBlocks d
                         @ [replicate (min PAYLOAD_BLOCK_SIZE (expected - payloadLength d)) 0],
                       hasCurrentBlock := True, currentPayloadBlockLength := 0\<rparr>
                else d);
          block = last (payloadBlocks d');
          n = min (length block - currentPayloadBlockLength d') (length rest)
      in (d'\<lparr>payloadBlocks := butlast (payloadBlocks d')
               @ [byte_set block (take n rest) (currentPayloadBlockLength d')],
             currentPayloadBlockLength := currentPayloadBlockLength d' + n,
             payloadLength := payloadLength d' + n\<rparr>, drop n rest))"

text \<open>The inner loop, with fuel; \<open>None\<close> means that it did not stop within the fuel.\<close>

fun fill_payload :: "nat \<Rightarrow> nat \<Rightarrow> frame_decoder \<Rightarrow> byte list \<Rightarrow> (frame_decoder \<times> byte list) option" where
  "fill_payload 0 expected d rest = None"
| "fill_payload (Suc fuel) expected d rest =
     (if rest \<noteq> [] \<and> payloadLength d < expected
      then (case fill_block expected d rest of (d', rest') \<Rightarrow> fill_payload fuel expected d' rest')
      else Some (d, rest))"

text \<open>
  One pass of the outer loop.  The result is the decoder, the bytes not yet consumed, the frame
  completed in this pass if any, and the error if the frame is too long (the decoder has then
  failed).
\<close>

datatype pass_result = Pass frame_decoder "byte list" "byte list option" | PassFail frame_decoder frame_error

text \<open>Joining several blocks into one buffer of the expected length.\<close>

fun join_blocks :: "byte list \<Rightarrow> nat \<Rightarrow> byte list list \<Rightarrow> byte list" where
  "join_blocks payload off [] = payload"
| "join_blocks payload off (b # bs) = join_blocks (byte_set payload b off) (off + length b) bs"

definition finish_payload :: "nat \<Rightarrow> frame_decoder \<Rightarrow> byte list \<Rightarrow> pass_result" where
  "finish_payload expected d rest =
     (if payloadLength d = expected
      then Pass ((clear_payload d)\<lparr>expectedPayloadLength := None\<rparr>) rest
             (Some (if length (payloadBlocks d) = 1 then payloadBlocks d ! 0
                    else join_blocks (replicate expected 0) 0 (payloadBlocks d)))
      else Pass d rest None)"

definition read_payload :: "nat \<Rightarrow> frame_decoder \<Rightarrow> byte list \<Rightarrow> pass_result option" where
  "read_payload expected d rest =
     (case fill_payload (Suc (length rest)) expected d rest of
        None \<Rightarrow> None
      | Some (d', rest') \<Rightarrow> Some (finish_payload expected d' rest'))"

definition frame_pass :: "frame_decoder \<Rightarrow> byte list \<Rightarrow> pass_result option" where
  "frame_pass d rest =
     (case expectedPayloadLength d of
        Some expected \<Rightarrow> read_payload expected d rest
      | None \<Rightarrow>
          (let n = min (FRAME_HEADER_LENGTH - headerLength d) (length rest);
               d1 = d\<lparr>header := byte_set (header d) (take n rest) (headerLength d),
                      headerLength := headerLength d + n\<rparr>;
               rest1 = drop n rest
           in if headerLength d1 < FRAME_HEADER_LENGTH then Some (Pass d1 rest1 None)
              else (let frameLength = header_value (header d1);
                        d2 = d1\<lparr>headerLength := 0\<rparr>
                    in if maxFrameLength d2 < frameLength
                       then Some (PassFail (frame_fail d2) (FrameTooLong frameLength (maxFrameLength d2)))
                       else if frameLength = 0 then Some (Pass d2 rest1 (Some []))
                       else read_payload frameLength
                              ((clear_payload d2)\<lparr>expectedPayloadLength := Some frameLength\<rparr>) rest1)))"

text \<open>
  The outer loop.  A throw loses the frames collected so far, and leaves the failed decoder
  behind.
\<close>

fun push_loop :: "nat \<Rightarrow> frame_decoder \<Rightarrow> byte list \<Rightarrow> byte list list
    \<Rightarrow> (frame_decoder \<times> (frame_error + byte list list)) option" where
  "push_loop 0 d rest frames = None"
| "push_loop (Suc fuel) d rest frames =
     (if rest = [] then Some (d, Inr frames)
      else (case frame_pass d rest of
              None \<Rightarrow> None
            | Some (PassFail d' e) \<Rightarrow> Some (d', Inl e)
            | Some (Pass d' rest' frame) \<Rightarrow>
                push_loop fuel d' rest'
                  (case frame of None \<Rightarrow> frames | Some f \<Rightarrow> frames @ [f])))"

definition frame_push :: "frame_decoder \<Rightarrow> byte list \<Rightarrow> (frame_decoder \<times> (frame_error + byte list list)) option" where
  "frame_push d chunk =
     (case state d of
        Ended \<Rightarrow> Some (d, Inl DecoderEnded)
      | Failed \<Rightarrow> Some (d, Inl DecoderFailed)
      | Open \<Rightarrow> push_loop (Suc (length chunk)) d chunk [])"

definition frame_end :: "frame_decoder \<Rightarrow> frame_decoder \<times> (frame_error + unit)" where
  "frame_end d =
     (case state d of
        Ended \<Rightarrow> (d, Inl DecoderEnded)
      | Failed \<Rightarrow> (d, Inl DecoderFailed)
      | Open \<Rightarrow>
          if headerLength d \<noteq> 0 \<or> expectedPayloadLength d \<noteq> None
          then (frame_fail d, Inl TruncatedFrame)
          else (d\<lparr>state := Ended\<rparr>, Inr ()))"

section \<open>The specification: cutting a whole byte sequence\<close>

function split_frames :: "nat \<Rightarrow> byte list \<Rightarrow> frame_error + (byte list list \<times> byte list)" where
  "split_frames m bs =
     (if length bs < FRAME_HEADER_LENGTH then Inr ([], bs)
      else (let n = header_value bs; body = drop FRAME_HEADER_LENGTH bs in
            if m < n then Inl (FrameTooLong n m)
            else if length body < n then Inr ([], bs)
            else rbind (split_frames m (drop n body)) (\<lambda>(fs, r). Inr (take n body # fs, r))))"
  by pat_completeness auto
termination
  by (relation "measure (\<lambda>(m, bs). length bs)") (auto simp: FRAME_HEADER_LENGTH_def)

declare split_frames.simps [simp del]

lemma header_value_prefix: "length h = 4 \<Longrightarrow> header_value (h @ xs) = header_value h"
  by (simp add: header_value_def nth_append)

lemma header_value_bound: "header_value h \<le> MAX_UINT32"
  using unat_byte_less [of "h ! 0"] unat_byte_less [of "h ! 1"] unat_byte_less [of "h ! 2"]
    unat_byte_less [of "h ! 3"]
  by (simp add: header_value_def MAX_UINT32_def)

lemma split_frames_short: "length bs < 4 \<Longrightarrow> split_frames m bs = Inr ([], bs)"
  by (subst split_frames.simps) (simp add: FRAME_HEADER_LENGTH_def)

lemma split_frames_header:
  "length h = 4 \<Longrightarrow>
     split_frames m (h @ xs) =
       (let n = header_value h in
        if m < n then Inl (FrameTooLong n m)
        else if length xs < n then Inr ([], h @ xs)
        else rbind (split_frames m (drop n xs)) (\<lambda>(fs, r). Inr (take n xs # fs, r)))"
  by (subst split_frames.simps) (simp add: FRAME_HEADER_LENGTH_def header_value_prefix)

lemma split_frames_append:
  "split_frames m a = Inr (fs, r) \<Longrightarrow>
     split_frames m (a @ b) = rbind (split_frames m (r @ b)) (\<lambda>(gs, q). Inr (fs @ gs, q))"
proof (induction m a arbitrary: fs r rule: split_frames.induct)
  case (1 m a)
  have id: "x = rbind x (\<lambda>(gs, q). Inr (gs, q))" for x :: "frame_error + (byte list list \<times> byte list)"
    by (cases x) auto
  show ?case
  proof (cases "length a < 4")
    case True
    with "1.prems" id show ?thesis by (simp add: split_frames_short)
  next
    case False
    define h xs where "h = take 4 a" and "xs = drop 4 a"
    with False have a: "a = h @ xs" and h: "length h = 4" by auto
    let ?n = "header_value h"
    show ?thesis
    proof (cases "m < ?n \<or> length xs < ?n")
      case True
      with "1.prems" a h id show ?thesis by (auto simp: split_frames_header Let_def split: if_splits)
    next
      case False
      with "1.prems" a h obtain gs where gs: "split_frames m (drop ?n xs) = Inr (gs, r)"
        and fs: "fs = take ?n xs # gs"
        by (auto simp: split_frames_header Let_def res_simps)
      have "split_frames m (drop ?n xs @ b) = rbind (split_frames m (r @ b)) (\<lambda>(gs', q). Inr (gs @ gs', q))"
        using "1.IH" [OF _ refl refl] False a h gs
        by (auto simp: FRAME_HEADER_LENGTH_def header_value_prefix)
      with False a h fs show ?thesis
        by (cases "split_frames m (r @ b)") (auto simp: split_frames_header Let_def)
    qed
  qed
qed

section \<open>The invariant of the decoder and the bytes it holds back\<close>

definition payload_data :: "frame_decoder \<Rightarrow> byte list" where
  "payload_data d =
     (if payloadBlocks d = [] then []
      else concat (butlast (payloadBlocks d))
           @ take (currentPayloadBlockLength d) (last (payloadBlocks d)))"

definition payload_inv :: "nat \<Rightarrow> frame_decoder \<Rightarrow> bool" where
  "payload_inv expected d \<longleftrightarrow>
     hasCurrentBlock d = (payloadBlocks d \<noteq> []) \<and>
     payloadLength d = length (payload_data d) \<and>
     length (concat (payloadBlocks d)) \<le> expected \<and>
     (payloadBlocks d \<noteq> [] \<longrightarrow> currentPayloadBlockLength d \<le> length (last (payloadBlocks d)))"

definition decoder_inv :: "frame_decoder \<Rightarrow> bool" where
  "decoder_inv d \<longleftrightarrow>
     length (header d) = 4 \<and> headerLength d < 4 \<and>
     (case expectedPayloadLength d of
        None \<Rightarrow> True
      | Some e \<Rightarrow> headerLength d = 0 \<and> header_value (header d) = e \<and> e \<le> maxFrameLength d
                  \<and> payloadLength d < e \<and> payload_inv e d)"

definition pending :: "frame_decoder \<Rightarrow> byte list" where
  "pending d =
     (case expectedPayloadLength d of
        None \<Rightarrow> take (headerLength d) (header d)
      | Some _ \<Rightarrow> header d @ payload_data d)"

lemma payload_length_le:
  assumes "payload_inv e d"
  shows "payloadLength d \<le> length (concat (payloadBlocks d))"
proof (cases "payloadBlocks d" rule: rev_cases)
  case Nil
  with assms show ?thesis by (simp add: payload_inv_def payload_data_def)
next
  case (snoc bs b)
  with assms show ?thesis by (simp add: payload_inv_def payload_data_def)
qed

lemma payload_complete:
  assumes "payload_inv e d" and "payloadLength d = e"
  shows "concat (payloadBlocks d) = payload_data d"
proof (cases "payloadBlocks d" rule: rev_cases)
  case (snoc bs b)
  with assms have "currentPayloadBlockLength d = length b"
    by (auto simp: payload_inv_def payload_data_def min_def split: if_splits)
  with snoc show ?thesis by (simp add: payload_data_def)
qed (simp add: payload_data_def)

text \<open>The block opened by \<open>fill_block\<close>, if any, keeps the invariant and leaves room.\<close>

definition open_block :: "nat \<Rightarrow> frame_decoder \<Rightarrow> frame_decoder" where
  "open_block expected d =
     (if \<not> hasCurrentBlock d \<or> currentPayloadBlockLength d = length (last (payloadBlocks d))
      then d\<lparr>payloadBlocks := payloadBlocks d
               @ [replicate (min PAYLOAD_BLOCK_SIZE (expected - payloadLength d)) 0],
             hasCurrentBlock := True, currentPayloadBlockLength := 0\<rparr>
      else d)"

lemma open_block_props:
  assumes "payload_inv e d" and "payloadLength d < e"
  shows "payload_inv e (open_block e d)"
    and "payload_data (open_block e d) = payload_data d"
    and "payloadBlocks (open_block e d) \<noteq> []"
    and "currentPayloadBlockLength (open_block e d) < length (last (payloadBlocks (open_block e d)))"
    and "payloadLength (open_block e d) = payloadLength d"
proof -
  have full: "concat (payloadBlocks d) = payload_data d"
    if "\<not> hasCurrentBlock d \<or> currentPayloadBlockLength d = length (last (payloadBlocks d))"
    using assms that
    by (cases "payloadBlocks d" rule: rev_cases) (auto simp: payload_inv_def payload_data_def)
  show "payload_inv e (open_block e d)"
    and "payload_data (open_block e d) = payload_data d"
    and "payloadBlocks (open_block e d) \<noteq> []"
    and "currentPayloadBlockLength (open_block e d) < length (last (payloadBlocks (open_block e d)))"
    and "payloadLength (open_block e d) = payloadLength d"
    using assms full
    by (auto simp: open_block_def payload_inv_def payload_data_def PAYLOAD_BLOCK_SIZE_def)
qed

lemma fill_block_alt:
  "fill_block e d rest =
     (let d' = open_block e d; block = last (payloadBlocks d');
          n = min (length block - currentPayloadBlockLength d') (length rest)
      in (d'\<lparr>payloadBlocks := butlast (payloadBlocks d')
               @ [byte_set block (take n rest) (currentPayloadBlockLength d')],
             currentPayloadBlockLength := currentPayloadBlockLength d' + n,
             payloadLength := payloadLength d' + n\<rparr>, drop n rest))"
  by (simp add: fill_block_def open_block_def)

lemma fill_block_props:
  assumes inv: "payload_inv e d" and less: "payloadLength d < e" and rest: "rest \<noteq> []"
  obtains n d' where "fill_block e d rest = (d', drop n rest)" "0 < n" "n \<le> length rest"
    "payload_inv e d'" "payload_data d' = payload_data d @ take n rest"
    "payloadLength d' \<le> e"
    "header d' = header d" "headerLength d' = headerLength d" "maxFrameLength d' = maxFrameLength d"
    "expectedPayloadLength d' = expectedPayloadLength d" "state d' = state d"
proof -
  define d1 where "d1 = open_block e d"
  note props = open_block_props [OF inv less, folded d1_def]
  obtain bs b where bs: "payloadBlocks d1 = bs @ [b]"
    using props(3) by (metis append_butlast_last_id)
  define n where "n = min (length b - currentPayloadBlockLength d1) (length rest)"
  define d' where "d' = d1\<lparr>payloadBlocks := bs @ [byte_set b (take n rest) (currentPayloadBlockLength d1)],
     currentPayloadBlockLength := currentPayloadBlockLength d1 + n,
     payloadLength := payloadLength d1 + n\<rparr>"
  have len: "length (take n rest) = n" by (simp add: n_def)
  have cur: "currentPayloadBlockLength d1 < length b" using props(4) bs by simp
  have fits: "currentPayloadBlockLength d1 + n \<le> length b" using cur by (simp add: n_def)
  have "fill_block e d rest = (d', drop n rest)"
    by (simp add: fill_block_alt Let_def d'_def n_def bs flip: d1_def)
  moreover have "0 < n" and "n \<le> length rest" using cur rest by (auto simp: n_def)
  moreover have data: "payload_data d' = payload_data d @ take n rest"
    using take_byte_set [of "currentPayloadBlockLength d1" b "take n rest"] cur len props(2)
    by (simp add: d'_def payload_data_def bs)
  moreover have "payload_inv e d'"
    using props(1) data fits len props(2)
    by (auto simp: payload_inv_def d'_def bs length_byte_set)
  moreover from this have "payloadLength d' \<le> e"
    using payload_length_le by (fastforce simp: payload_inv_def)
  moreover have "header d' = header d" "headerLength d' = headerLength d"
    "maxFrameLength d' = maxFrameLength d" "expectedPayloadLength d' = expectedPayloadLength d"
    "state d' = state d"
    by (simp_all add: d'_def d1_def open_block_def)
  ultimately show ?thesis using that by blast
qed

lemma fill_payload_props:
  assumes "payload_inv e d" "payloadLength d \<le> e" "length rest < fuel"
  shows "\<exists>d' rest'. fill_payload fuel e d rest = Some (d', rest') \<and>
    payload_inv e d' \<and> payloadLength d' \<le> e \<and>
    payload_data d' @ rest' = payload_data d @ rest \<and>
    (rest' = [] \<or> payloadLength d' = e) \<and>
    header d' = header d \<and> headerLength d' = headerLength d \<and>
    maxFrameLength d' = maxFrameLength d \<and>
    expectedPayloadLength d' = expectedPayloadLength d \<and> state d' = state d"
  using assms
proof (induction fuel arbitrary: d rest)
  case 0
  then show ?case by simp
next
  case (Suc fuel)
  show ?case
  proof (cases "rest \<noteq> [] \<and> payloadLength d < e")
    case True
    then obtain n d1 where step: "fill_block e d rest = (d1, drop n rest)" "0 < n" "n \<le> length rest"
      "payload_inv e d1" "payload_data d1 = payload_data d @ take n rest" "payloadLength d1 \<le> e"
      "header d1 = header d" "headerLength d1 = headerLength d" "maxFrameLength d1 = maxFrameLength d"
      "expectedPayloadLength d1 = expectedPayloadLength d" "state d1 = state d"
      using fill_block_props [OF Suc.prems(1)] by (metis (no_types))
    have "length (drop n rest) < fuel" using step(2,3) Suc.prems(3) by simp
    from Suc.IH [OF step(4) step(6) this] True step show ?thesis by simp
  next
    case False
    with Suc.prems show ?thesis by auto
  qed
qed

lemma join_blocks_concat:
  "length pre + length (concat bs) = length t \<Longrightarrow> take (length pre) t = pre \<Longrightarrow>
     join_blocks t (length pre) bs = pre @ concat bs"
proof (induction bs arbitrary: pre t)
  case Nil
  then show ?case by simp
next
  case (Cons b bs)
  let ?t = "byte_set t b (length pre)"
  have "length ?t = length t" using Cons.prems by (intro length_byte_set) simp
  moreover have "take (length (pre @ b)) ?t = pre @ b"
    using Cons.prems take_byte_set [of "length pre" t b] by simp
  ultimately show ?case
    using Cons.IH [of "pre @ b" ?t] Cons.prems by simp
qed

section \<open>Each pass of the loop refines the specification\<close>

lemma drop_Cons_less: "length rest < Suc (length rest)" by simp

lemma read_payload_props:
  assumes h: "length (header d) = 4" "headerLength d = 0" "header_value (header d) = e"
    and e: "e \<le> maxFrameLength d" "0 < e" "payloadLength d < e" "payload_inv e d"
    and ex: "expectedPayloadLength d = Some e"
  obtains d' rest' frame where "read_payload e d rest = Some (Pass d' rest' frame)"
    "decoder_inv d'" "maxFrameLength d' = maxFrameLength d" "state d' = state d"
    "case frame of
       None \<Rightarrow> rest' = [] \<and> pending d' = pending d @ rest
     | Some f \<Rightarrow> pending d' = [] \<and>
         split_frames (maxFrameLength d) (pending d @ rest) =
           rbind (split_frames (maxFrameLength d) rest') (\<lambda>(fs, r). Inr (f # fs, r))"
    "rest \<noteq> [] \<longrightarrow> length rest' < length rest"
proof -
  from fill_payload_props [OF e(4) _ drop_Cons_less, of rest] e(3)
  obtain d1 rest' where fp: "fill_payload (Suc (length rest)) e d rest = Some (d1, rest')"
    "payload_inv e d1" "payloadLength d1 \<le> e" "payload_data d1 @ rest' = payload_data d @ rest"
    "rest' = [] \<or> payloadLength d1 = e"
    and same: "header d1 = header d" "headerLength d1 = headerLength d"
    "maxFrameLength d1 = maxFrameLength d" "expectedPayloadLength d1 = expectedPayloadLength d"
    "state d1 = state d"
    by (metis less_imp_le)
  have lens: "payloadLength d1 = length (payload_data d1)" "payloadLength d = length (payload_data d)"
    using fp(2) e(4) by (simp_all add: payload_inv_def)
  show ?thesis
  proof (cases "payloadLength d1 = e")
    case False
    with fp(5) have "rest' = []" by simp
    with False fp e ex h same lens show ?thesis
      by (intro that [of d1 "[]" None])
         (auto simp: read_payload_def finish_payload_def decoder_inv_def pending_def)
  next
    case True
    let ?f = "payload_data d1"
    have full: "concat (payloadBlocks d1) = ?f" by (rule payload_complete [OF fp(2) True])
    have frame: "(if length (payloadBlocks d1) = 1 then payloadBlocks d1 ! 0
                  else join_blocks (replicate e 0) 0 (payloadBlocks d1)) = ?f"
    proof (cases "length (payloadBlocks d1) = 1")
      case True
      then obtain b where "payloadBlocks d1 = [b]" by (auto simp: length_Suc_conv)
      with full show ?thesis by simp
    next
      case False
      with full True lens(1) join_blocks_concat [of "[]" "payloadBlocks d1" "replicate e 0"]
      show ?thesis by simp
    qed
    have eq: "payload_data d @ rest = ?f @ rest'" using fp(4) by simp
    have "split_frames (maxFrameLength d) (pending d @ rest) =
        rbind (split_frames (maxFrameLength d) rest') (\<lambda>(fs, r). Inr (?f # fs, r))"
      using h e(1) ex True lens(1) by (simp add: pending_def eq split_frames_header Let_def)
    moreover have "rest \<noteq> [] \<longrightarrow> length rest' < length rest"
      using arg_cong [OF eq, of length] lens True e(3) by simp
    ultimately show ?thesis
      using fp same h True frame
      by (intro that [of "(clear_payload d1)\<lparr>expectedPayloadLength := None\<rparr>" rest' "Some ?f"])
         (auto simp: read_payload_def finish_payload_def decoder_inv_def pending_def clear_payload_def)
  qed
qed

lemma frame_pass_props:
  assumes inv: "decoder_inv d" and open_d: "state d = Open" and rest: "rest \<noteq> []"
  obtains (frame) d' rest' frame where "frame_pass d rest = Some (Pass d' rest' frame)"
      "decoder_inv d'" "maxFrameLength d' = maxFrameLength d" "state d' = Open"
      "length rest' < length rest"
      "case frame of
         None \<Rightarrow> pending d' @ rest' = pending d @ rest
       | Some f \<Rightarrow> pending d' = [] \<and>
           split_frames (maxFrameLength d) (pending d @ rest) =
             rbind (split_frames (maxFrameLength d) rest') (\<lambda>(fs, r). Inr (f # fs, r))"
  | (fail) d' e where "frame_pass d rest = Some (PassFail d' e)" "state d' = Failed"
      "split_frames (maxFrameLength d) (pending d @ rest) = Inl e"
proof (cases "expectedPayloadLength d")
  case (Some e)
  with inv have "length (header d) = 4" "headerLength d = 0" "header_value (header d) = e"
    "e \<le> maxFrameLength d" "0 < e" "payloadLength d < e" "payload_inv e d"
    by (auto simp: decoder_inv_def)
  from read_payload_props [OF this Some, of rest] obtain d' rest' frame
    where pass: "read_payload e d rest = Some (Pass d' rest' frame)" "decoder_inv d'"
    "maxFrameLength d' = maxFrameLength d" "state d' = state d" "rest \<noteq> [] \<longrightarrow> length rest' < length rest"
    "case frame of
       None \<Rightarrow> rest' = [] \<and> pending d' = pending d @ rest
     | Some f \<Rightarrow> pending d' = [] \<and>
         split_frames (maxFrameLength d) (pending d @ rest) =
           rbind (split_frames (maxFrameLength d) rest') (\<lambda>(fs, r). Inr (f # fs, r))"
    by blast
  show ?thesis
    by (rule frame [of d' rest' frame])
       (use pass open_d rest Some in \<open>auto simp: frame_pass_def split: option.splits\<close>)
next
  case None
  with inv have hd4: "length (header d) = 4" and hl: "headerLength d < 4"
    by (auto simp: decoder_inv_def)
  define n where "n = min (4 - headerLength d) (length rest)"
  define h where "h = byte_set (header d) (take n rest) (headerLength d)"
  have n: "0 < n" "n \<le> length rest" "headerLength d + n \<le> 4"
    using hl rest by (auto simp: n_def)
  have len_take: "length (take n rest) = n" using n by simp
  have len_h: "length h = 4" using n hd4 by (simp add: h_def length_byte_set)
  have take_h: "take (headerLength d + n) h = take (headerLength d) (header d) @ take n rest"
    using take_byte_set [of "headerLength d" "header d" "take n rest"] hl hd4 len_take
    by (simp add: h_def)
  let ?d1 = "d\<lparr>header := h, headerLength := headerLength d + n\<rparr>"
  have pend: "pending d = take (headerLength d) (header d)" using None by (simp add: pending_def)
  have eq: "pending d @ rest = take (headerLength d + n) h @ drop n rest"
    by (simp add: pend take_h)
  show ?thesis
  proof (cases "headerLength d + n < 4")
    case True
    then have "frame_pass d rest = Some (Pass ?d1 (drop n rest) None)"
      using None
      by (simp add: frame_pass_def FRAME_HEADER_LENGTH_def Let_def n_def [symmetric] h_def [symmetric])
    then show ?thesis
      by (rule frame) (use True None n open_d len_h eq in \<open>auto simp: decoder_inv_def pending_def\<close>)
  next
    case False
    with n have full: "headerLength d + n = 4" by simp
    have eqh: "pending d @ rest = h @ drop n rest" using eq len_h by (simp add: full)
    let ?v = "header_value h"
    have pass: "frame_pass d rest =
       (if maxFrameLength d < ?v
        then Some (PassFail (frame_fail (?d1\<lparr>headerLength := 0\<rparr>)) (FrameTooLong ?v (maxFrameLength d)))
        else if ?v = 0 then Some (Pass (?d1\<lparr>headerLength := 0\<rparr>) (drop n rest) (Some []))
        else read_payload ?v
               ((clear_payload (?d1\<lparr>headerLength := 0\<rparr>))\<lparr>expectedPayloadLength := Some ?v\<rparr>) (drop n rest))"
      using None full
      by (simp add: frame_pass_def FRAME_HEADER_LENGTH_def Let_def n_def [symmetric] h_def [symmetric])
    consider (long) "maxFrameLength d < ?v" | (zero) "\<not> maxFrameLength d < ?v" "?v = 0"
      | (read) "?v \<le> maxFrameLength d" "0 < ?v" by fastforce
    then show ?thesis
    proof cases
      case long
      then show ?thesis
        by (intro fail) (auto simp: pass frame_fail_def eqh split_frames_header len_h)
    next
      case zero
      have "pending (?d1\<lparr>headerLength := 0\<rparr>) = []" using None by (simp add: pending_def)
      with zero show ?thesis
        using n None open_d len_h
        by (intro frame [of "?d1\<lparr>headerLength := 0\<rparr>" "drop n rest" "Some []"])
           (auto simp: pass decoder_inv_def eqh split_frames_header)
    next
      case read
      let ?d2 = "(clear_payload (?d1\<lparr>headerLength := 0\<rparr>))\<lparr>expectedPayloadLength := Some ?v\<rparr>"
      have "length (header ?d2) = 4" "headerLength ?d2 = 0" "header_value (header ?d2) = ?v"
        "?v \<le> maxFrameLength ?d2" "0 < ?v" "payloadLength ?d2 < ?v" "payload_inv ?v ?d2"
        "expectedPayloadLength ?d2 = Some ?v"
        using read len_h by (auto simp: clear_payload_def payload_inv_def payload_data_def)
      from read_payload_props [OF this, of "drop n rest"] obtain d' rest' frame
        where rp: "read_payload ?v ?d2 (drop n rest) = Some (Pass d' rest' frame)" "decoder_inv d'"
        "maxFrameLength d' = maxFrameLength ?d2" "state d' = state ?d2"
        "drop n rest \<noteq> [] \<longrightarrow> length rest' < length (drop n rest)"
        "case frame of
           None \<Rightarrow> rest' = [] \<and> pending d' = pending ?d2 @ drop n rest
         | Some f \<Rightarrow> pending d' = [] \<and>
             split_frames (maxFrameLength ?d2) (pending ?d2 @ drop n rest) =
               rbind (split_frames (maxFrameLength ?d2) rest') (\<lambda>(fs, r). Inr (f # fs, r))"
        by blast
      have p2: "pending ?d2 = h" by (simp add: pending_def clear_payload_def payload_data_def)
      have m2: "maxFrameLength ?d2 = maxFrameLength d" "state ?d2 = Open"
        using open_d by (simp_all add: clear_payload_def)
      have some_len: "length rest' < length rest"
      proof (cases "drop n rest = []")
        case True
        have "frame = None \<or> rest' = []"
        proof (cases frame)
          case (Some f)
          with rp(6) True p2 m2 have "split_frames (maxFrameLength d) h =
             rbind (split_frames (maxFrameLength d) rest') (\<lambda>(fs, r). Inr (f # fs, r))" by simp
          moreover have "split_frames (maxFrameLength d) h = Inr ([], h)"
            using split_frames_header [OF len_h, of _ "[]"] read by (simp add: Let_def)
          ultimately show ?thesis by (auto simp: res_simps dest: sym)
        qed simp
        with rp(6) rest show ?thesis by (auto split: option.splits)
      next
        case False
        with rp(5) n show ?thesis by simp
      qed
      show ?thesis
        by (rule frame [of d' rest' frame])
           (use rp(1-4,6) read some_len p2 m2 eqh in \<open>auto simp: pass split: option.splits\<close>)
    qed
  qed
qed

lemma pending_incomplete:
  "decoder_inv d \<Longrightarrow> split_frames (maxFrameLength d) (pending d) = Inr ([], pending d)"
proof (cases "expectedPayloadLength d")
  case None
  then show "decoder_inv d \<Longrightarrow> ?thesis"
    by (intro split_frames_short) (auto simp: decoder_inv_def pending_def)
next
  case (Some e)
  then show "decoder_inv d \<Longrightarrow> ?thesis"
    by (auto simp: decoder_inv_def pending_def split_frames_header Let_def payload_inv_def)
qed

definition refines :: "frame_decoder \<Rightarrow> byte list list \<Rightarrow> frame_error + (byte list list \<times> byte list)
    \<Rightarrow> frame_decoder \<Rightarrow> frame_error + byte list list \<Rightarrow> bool" where
  "refines d frames spec d' r \<longleftrightarrow>
     (case spec of
        Inl e \<Rightarrow> r = Inl e \<and> state d' = Failed
      | Inr (fs, rest) \<Rightarrow> r = Inr (frames @ fs) \<and> decoder_inv d' \<and> state d' = Open \<and>
          maxFrameLength d' = maxFrameLength d \<and> pending d' = rest)"

lemma push_loop_refines:
  assumes "decoder_inv d" "state d = Open" "length rest < fuel"
  shows "\<exists>d' r. push_loop fuel d rest frames = Some (d', r) \<and>
    refines d frames (split_frames (maxFrameLength d) (pending d @ rest)) d' r"
  using assms
proof (induction fuel arbitrary: d rest frames)
  case (Suc fuel)
  show ?case
  proof (cases "rest = []")
    case True
    with Suc.prems show ?thesis by (auto simp: refines_def pending_incomplete)
  next
    case False
    from Suc.prems(1,2) False show ?thesis
    proof (cases rule: frame_pass_props)
      case (frame d1 rest1 f)
      let ?fs = "case f of None \<Rightarrow> frames | Some g \<Rightarrow> frames @ [g]"
      from frame Suc.prems have "length rest1 < fuel" by simp
      from Suc.IH [OF frame(2,4) this, of ?fs] obtain d' r
        where IH: "push_loop fuel d1 rest1 ?fs = Some (d', r)"
          "refines d1 ?fs (split_frames (maxFrameLength d1) (pending d1 @ rest1)) d' r" by blast
      then have "refines d frames (split_frames (maxFrameLength d) (pending d @ rest)) d' r"
        using frame(3,6)
        by (cases "split_frames (maxFrameLength d) rest1"; cases f)
           (auto simp: refines_def split: sum.splits)
      with IH(1) frame(1) False show ?thesis by auto
    next
      case (fail d1 e)
      with False show ?thesis by (auto simp: refines_def)
    qed
  qed
qed simp

lemma frame_push_refinement:
  assumes "decoder_inv d" "state d = Open"
  shows "\<exists>d' r. frame_push d chunk = Some (d', r) \<and>
    refines d [] (split_frames (maxFrameLength d) (pending d @ chunk)) d' r"
  using push_loop_refines [OF assms, of chunk "Suc (length chunk)" "[]"] assms(2)
  by (simp add: frame_push_def)

text \<open>
  C34.  Pushing a chunk always returns, and refines the specification: with \<open>pending d\<close> the bytes
  the decoder holds back, it returns exactly the frames that \<open>split_frames\<close> cuts from the held
  bytes followed by the chunk and holds back the rest, or it throws the same error and has failed.
\<close>

theorem frame_push_refines:
  assumes "decoder_inv d" "state d = Open"
  shows "\<exists>d' r. frame_push d chunk = Some (d', r) \<and>
    refines d [] (split_frames (maxFrameLength d) (pending d @ chunk)) d' r"
  by (rule frame_push_refinement [OF assms])

section \<open>Streams of frames in arbitrary chunks\<close>

lemma split_frames_error:
  "split_frames m a = Inl e \<Longrightarrow> split_frames m (a @ b) = Inl e"
proof (induction m a rule: split_frames.induct)
  case (1 m a)
  show ?case
  proof (cases "length a < 4")
    case True
    with "1.prems" show ?thesis by (simp add: split_frames_short)
  next
    case False
    define h xs where "h = take 4 a" and "xs = drop 4 a"
    with False have a: "a = h @ xs" and h: "length h = 4" by auto
    let ?n = "header_value h"
    show ?thesis
    proof (cases "m < ?n \<or> length xs < ?n")
      case True
      with "1.prems" a h show ?thesis by (auto simp: split_frames_header Let_def split: if_splits)
    next
      case False
      with "1.prems" a h have "split_frames m (drop ?n xs) = Inl e"
        by (auto simp: split_frames_header Let_def res_simps)
      then have "split_frames m (drop ?n xs @ b) = Inl e"
        using "1.IH" [OF _ refl refl] False a h by (auto simp: FRAME_HEADER_LENGTH_def header_value_prefix)
      with False a h show ?thesis by (auto simp: split_frames_header Let_def)
    qed
  qed
qed

text \<open>The frame decoder provides the interface of incremental decoders.\<close>

interpretation frames: incremental_decoder
  "\<lambda>d. decoder_inv d \<and> state d = Open \<and> maxFrameLength d = m" pending frame_push "split_frames m"
  for m
proof
  fix d chunk
  assume "decoder_inv d \<and> state d = Open \<and> maxFrameLength d = m"
  moreover from this obtain d' r where "frame_push d chunk = Some (d', r)"
    "refines d [] (split_frames m (pending d @ chunk)) d' r"
    using frame_push_refinement [of d chunk] by auto
  ultimately show "case split_frames m (pending d @ chunk) of
      Inl e \<Rightarrow> \<exists>d'. frame_push d chunk = Some (d', Inl e)
    | Inr (fs, rest) \<Rightarrow> \<exists>d'. frame_push d chunk = Some (d', Inr fs) \<and>
        (decoder_inv d' \<and> state d' = Open \<and> maxFrameLength d' = m) \<and> pending d' = rest"
    by (auto simp: refines_def split: sum.splits)
qed (auto simp: pending_incomplete split_frames_append split_frames_error)

lemma new_decoder_props:
  "new_decoder opt = Inr d \<Longrightarrow>
     decoder_inv d \<and> state d = Open \<and> pending d = [] \<and>
     maxFrameLength d = (case opt of None \<Rightarrow> DEFAULT_MAX_FRAME_LENGTH | Some v \<Rightarrow> nat v) \<and>
     maxFrameLength d \<le> MAX_UINT32"
  by (auto simp: new_decoder_def resolve_max_frame_length_def res_simps Let_def decoder_inv_def
      pending_def FRAME_HEADER_LENGTH_def DEFAULT_MAX_FRAME_LENGTH_def MAX_UINT32_def
      split: option.splits if_splits)

lemma header_value_encode:
  "n \<le> MAX_UINT32 \<Longrightarrow>
     header_value [u8 (n div 2 ^ 24), u8 (n div 2 ^ 16), u8 (n div 2 ^ 8), u8 n] = n"
  using be32_sum [of n] by (simp add: header_value_def unat_u8 MAX_UINT32_def)

lemma encode_frame_split:
  assumes "encode_frame p = Inr f" "length p \<le> m"
  shows "split_frames m (f @ xs) = rbind (split_frames m xs) (\<lambda>(fs, r). Inr (p # fs, r))"
proof -
  let ?h = "[u8 (length p div 2 ^ 24), u8 (length p div 2 ^ 16), u8 (length p div 2 ^ 8), u8 (length p)]"
  from assms(1) have "length p \<le> MAX_UINT32" and f: "f = ?h @ p"
    by (auto simp: encode_frame_def Let_def split: if_splits)
  then have "header_value ?h = length p" by (intro header_value_encode)
  with assms(2) show ?thesis
    using split_frames_header [of ?h m "p @ xs"] by (simp add: f Let_def)
qed

lemma encode_frames_split:
  "rmap encode_frame ps = Inr fs \<Longrightarrow> \<forall>p \<in> set ps. length p \<le> m \<Longrightarrow>
     split_frames m (concat fs) = Inr (ps, [])"
  by (induction ps arbitrary: fs) (auto simp: res_simps encode_frame_split split_frames_short)

text \<open>
  C14.  Framing round trip: encode any payloads within the limit, cut the byte stream into chunks
  in any way, push the chunks into a new decoder; the payloads come back in order, nothing is left
  over and \<open>end\<close> accepts the stream.
\<close>

theorem framing_roundtrip:
  assumes "new_decoder opt = Inr d" "rmap encode_frame ps = Inr fs"
    and "\<forall>p \<in> set ps. length p \<le> maxFrameLength d" "concat chunks = concat fs"
  shows "\<exists>d'. push_all frame_push d chunks = Some (d', Inr ps) \<and> snd (frame_end d') = Inr ()"
proof -
  note d = new_decoder_props [OF assms(1)]
  have "split_frames (maxFrameLength d) (pending d @ concat chunks) = Inr (ps, [])"
    using d encode_frames_split [OF assms(2,3)] assms(4) by simp
  from frames.push_all_Inr [OF _ this] d obtain d'
    where "push_all frame_push d chunks = Some (d', Inr ps)" "decoder_inv d'" "state d' = Open"
    "pending d' = []" by blast
  moreover from this have "expectedPayloadLength d' = None" "headerLength d' = 0"
    by (auto simp: decoder_inv_def pending_def split: option.splits)
  ultimately show ?thesis by (simp add: frame_end_def)
qed

text \<open>Witnesses: a decoder in the middle of a header, and two frames pushed in odd chunks.\<close>

theorem frame_push_refines_witness:
  "\<exists>d d' r. new_decoder (Some 8) = Inr d \<and> frame_push d [0, 0] = Some (d', r) \<and>
     refines d [] (split_frames 8 [0, 0]) d' r"
proof -
  obtain d where d: "new_decoder (Some 8) = Inr d"
    by (simp add: new_decoder_def resolve_max_frame_length_def MAX_UINT32_def)
  with new_decoder_props [OF d] frame_push_refines [of d "[0, 0]"] show ?thesis by auto
qed

theorem framing_roundtrip_witness:
  "\<exists>d d'. new_decoder (Some 8) = Inr d \<and>
     push_all frame_push d [[0], [0, 0, 2, 7, 9, 0], [0, 0, 1, 5]] = Some (d', Inr [[7, 9], [5]]) \<and>
     snd (frame_end d') = Inr ()"
proof -
  obtain d where d: "new_decoder (Some 8) = Inr d"
    by (simp add: new_decoder_def resolve_max_frame_length_def MAX_UINT32_def)
  have "rmap encode_frame [[7, 9], [5]] = Inr [[0, 0, 0, 2, 7, 9], [0, 0, 0, 1, 5]]"
    by (simp add: encode_frame_def Let_def u8_def MAX_UINT32_def)
  with new_decoder_props [OF d]
    framing_roundtrip [OF d, of "[[7, 9], [5]]" _ "[[0], [0, 0, 2, 7, 9, 0], [0, 0, 1, 5]]"] d
  show ?thesis by auto
qed

end
