(* ===== verification/Utf8.thy ===== *)
theory Utf8
  imports JsonText
begin

text \<open>
  The standard library's \<open>TextEncoder\<close> and its fatal, BOM-keeping \<open>TextDecoder\<close>, as
  \<open>packages/protocol/src/cbor/options.ts\<close> instantiates them: UTF-16 code units to UTF-8 bytes, a
  lone surrogate becoming U+FFFD, and the strict way back.  The round trip is exact on the strings
  without lone surrogates and on no others, which is the test that \<open>encodeText\<close> performs.
\<close>

text \<open>Scalar values of a string; a lone surrogate reads as U+FFFD.\<close>

fun scalars :: "js_string \<Rightarrow> nat list" where
  "scalars [] = []"
| "scalars [c] = [if surrogate c then 65533 else unat c]"
| "scalars (c # d # s) =
     (if high_surrogate c \<and> low_surrogate d
      then (65536 + (unat c - 55296) * 1024 + (unat d - 56320)) # scalars s
      else (if surrogate c then 65533 else unat c) # scalars (d # s))"

definition utf8_bytes :: "nat \<Rightarrow> byte list" where
  "utf8_bytes n =
     (if n < 128 then [u8 n]
      else if n < 2048 then [u8 (192 + n div 64), u8 (128 + n mod 64)]
      else if n < 65536
      then [u8 (224 + n div 4096), u8 (128 + n div 64 mod 64), u8 (128 + n mod 64)]
      else [u8 (240 + n div 262144), u8 (128 + n div 4096 mod 64), u8 (128 + n div 64 mod 64),
            u8 (128 + n mod 64)])"

definition text_encode :: "js_string \<Rightarrow> byte list" where
  "text_encode s = concat (map utf8_bytes (scalars s))"

definition cont_byte :: "byte \<Rightarrow> bool" where
  "cont_byte b \<longleftrightarrow> 128 \<le> unat b \<and> unat b < 192"

definition cont_val :: "byte \<Rightarrow> nat" where
  "cont_val b = unat b - 128"

text \<open>
  One scalar value.  Overlong forms, surrogates and values above U+10FFFF are rejected, as the
  decoder's lower and upper boundaries for the second byte do.
\<close>

fun utf8_scalar :: "byte list \<Rightarrow> (nat \<times> byte list) option" where
  "utf8_scalar [] = None"
| "utf8_scalar (b # bs) =
     (let n = unat b in
      if n < 128 then Some (n, bs)
      else if 194 \<le> n \<and> n < 224
      then (case bs of
              c # r \<Rightarrow> if cont_byte c then Some ((n - 192) * 64 + cont_val c, r) else None
            | _ \<Rightarrow> None)
      else if 224 \<le> n \<and> n < 240
      then (case bs of
              c # d # r \<Rightarrow>
                let v = (n - 224) * 4096 + cont_val c * 64 + cont_val d in
                if cont_byte c \<and> cont_byte d \<and> 2048 \<le> v \<and> \<not> (55296 \<le> v \<and> v < 57344)
                then Some (v, r) else None
            | _ \<Rightarrow> None)
      else if 240 \<le> n \<and> n < 245
      then (case bs of
              c # d # e # r \<Rightarrow>
                let v = (n - 240) * 262144 + cont_val c * 4096 + cont_val d * 64 + cont_val e in
                if cont_byte c \<and> cont_byte d \<and> cont_byte e \<and> 65536 \<le> v \<and> v < 1114112
                then Some (v, r) else None
            | _ \<Rightarrow> None)
      else None)"

definition code_units :: "nat \<Rightarrow> js_string" where
  "code_units n =
     (if n < 65536 then [word_of_nat n]
      else [word_of_nat (55296 + (n - 65536) div 1024), word_of_nat (56320 + (n - 65536) mod 1024)])"

lemma utf8_scalar_shorter: "utf8_scalar bs = Some (n, r) \<Longrightarrow> length r < length bs"
  by (cases bs) (auto simp: Let_def split: if_splits list.splits)

function text_decode :: "byte list \<Rightarrow> js_string option" where
  "text_decode bs =
     (if bs = [] then Some []
      else (case utf8_scalar bs of
              None \<Rightarrow> None
            | Some (n, r) \<Rightarrow> map_option (append (code_units n)) (text_decode r)))"
  by pat_completeness auto
termination
  by (relation "measure length") (auto simp: utf8_scalar_shorter)

declare text_decode.simps [simp del]

definition scalar_value :: "nat \<Rightarrow> bool" where
  "scalar_value n \<longleftrightarrow> n < 1114112 \<and> \<not> (55296 \<le> n \<and> n < 57344)"

lemma unat_word16_less: "unat (c :: 16 word) < 65536"
proof -
  have "unat c < 2 ^ LENGTH(16)" by (rule unsigned_less)
  then show ?thesis by simp
qed

lemma scalars_scalar: "n \<in> set (scalars s) \<Longrightarrow> scalar_value n"
proof (induction s rule: scalars.induct)
  case (2 c)
  then show ?case using unat_word16_less [of c]
    by (auto simp: scalar_value_def surrogate_def high_surrogate_def low_surrogate_def split: if_splits)
next
  case (3 c d s)
  then show ?case using unat_word16_less [of c] unat_word16_less [of d]
    by (auto simp: scalar_value_def surrogate_def high_surrogate_def low_surrogate_def split: if_splits)
qed simp

lemma utf8_scalar_bytes:
  assumes "scalar_value n"
  shows "utf8_scalar (utf8_bytes n @ r) = Some (n, r)"
proof -
  have two: "n div 64 * 64 + n mod 64 = n" by (rule div_mult_mod_eq)
  have sum3: "q2 * 4096 + r1 * 64 + r0 = n" if "q1 * 64 + r0 = n" "q2 * 64 + r1 = q1"
    for q1 q2 r0 r1 :: nat using that by simp
  have sum4: "q3 * 262144 + r2 * 4096 + r1 * 64 + r0 = n"
    if "q2 * 4096 + r1 * 64 + r0 = n" "q3 * 64 + r2 = q2" for q2 q3 r0 r1 r2 :: nat
    using that by simp
  have "n div 4096 * 64 + n div 64 mod 64 = n div 64"
    using div_mult_mod_eq [of "n div 64" 64] by (simp flip: div_mult2_eq)
  from sum3 [OF two this]
  have three: "n div 4096 * 4096 + n div 64 mod 64 * 64 + n mod 64 = n" .
  have "n div 262144 * 64 + n div 4096 mod 64 = n div 4096"
    using div_mult_mod_eq [of "n div 4096" 64] by (simp flip: div_mult2_eq)
  from sum4 [OF three this]
  have four: "n div 262144 * 262144 + n div 4096 mod 64 * 4096 + n div 64 mod 64 * 64 + n mod 64 = n" .
  consider "n < 128" | "128 \<le> n" "n < 2048" | "2048 \<le> n" "n < 65536" | "65536 \<le> n"
    by linarith
  then show ?thesis
  proof cases
    case 1
    then show ?thesis by (simp add: utf8_bytes_def unat_u8)
  next
    case 2
    then have u: "utf8_bytes n = [u8 (192 + n div 64), u8 (128 + n mod 64)]"
      by (simp add: utf8_bytes_def)
    from 2 have "2 \<le> n div 64" "n div 64 < 32" by auto
    then show ?thesis unfolding u using two
      by (simp add: unat_u8 cont_byte_def cont_val_def Let_def)
  next
    case 3
    then have "n div 4096 < 16" by auto
    with 3 three assms show ?thesis
      by (simp add: utf8_bytes_def unat_u8 cont_byte_def cont_val_def scalar_value_def Let_def)
  next
    case 4
    with assms have "n div 262144 < 5" by (auto simp: scalar_value_def)
    with 4 four assms show ?thesis
      by (simp add: utf8_bytes_def unat_u8 cont_byte_def cont_val_def scalar_value_def Let_def)
  qed
qed

lemma utf8_bytes_not_Nil [simp]: "utf8_bytes n \<noteq> []"
  by (simp add: utf8_bytes_def)

lemma text_decode_bytes:
  "\<forall>n \<in> set ns. scalar_value n \<Longrightarrow>
     text_decode (concat (map utf8_bytes ns)) = Some (concat (map code_units ns))"
  by (induction ns) (simp_all add: text_decode.simps utf8_scalar_bytes)

lemma text_decode_encode:
  "text_decode (text_encode s) = Some (concat (map code_units (scalars s)))"
  by (simp add: text_encode_def text_decode_bytes scalars_scalar)

text \<open>A string all of whose surrogates come in pairs.\<close>

fun well_formed :: "js_string \<Rightarrow> bool" where
  "well_formed [] = True"
| "well_formed [c] = (\<not> surrogate c)"
| "well_formed (c # d # s) =
     (if high_surrogate c \<and> low_surrogate d then well_formed s
      else \<not> surrogate c \<and> well_formed (d # s))"

lemma code_units_pair:
  assumes "high_surrogate c" "low_surrogate d"
  shows "code_units (65536 + (unat c - 55296) * 1024 + (unat d - 56320)) = [c, d]"
proof -
  define a b where "a = unat c - 55296" and "b = unat d - 56320"
  with assms have c: "55296 + a = unat c" and d: "56320 + b = unat d" and "b < 1024"
    by (auto simp: high_surrogate_def low_surrogate_def)
  from \<open>b < 1024\<close> have "(a * 1024 + b) div 1024 = a" and "(a * 1024 + b) mod 1024 = b" by auto
  moreover have "65536 + a * 1024 + b - 65536 = a * 1024 + b" by simp
  ultimately have "code_units (65536 + a * 1024 + b) = [word_of_nat (55296 + a), word_of_nat (56320 + b)]"
    unfolding code_units_def by (simp del: of_nat_add)
  then show ?thesis by (simp only: c d a_def [symmetric] b_def [symmetric] of_nat_unat ucast_id)
qed

lemma code_units_unit: "code_units (unat c) = [c]" for c :: "16 word"
  using unat_word16_less [of c] by (simp add: code_units_def)

lemma code_units_replacement: "surrogate c \<Longrightarrow> code_units 65533 @ xs \<noteq> c # ys"
  by (auto simp: code_units_def surrogate_def high_surrogate_def low_surrogate_def)

lemma scalars_code_units: "concat (map code_units (scalars s)) = s \<longleftrightarrow> well_formed s"
  by (induction s rule: scalars.induct)
     (auto simp: code_units_pair code_units_unit dest: code_units_replacement)

section \<open>The strict decoder accepts only encodings\<close>

lemma u8_unat [simp]: "u8 (unat b) = b"
  by (simp add: u8_def)

lemma cont_byte_u8: "cont_byte c \<Longrightarrow> cont_val c < 64 \<and> u8 (128 + cont_val c) = c"
proof -
  assume "cont_byte c"
  then have "128 + cont_val c = unat c" "cont_val c < 64" by (auto simp: cont_byte_def cont_val_def)
  then show ?thesis by simp
qed

lemma digits64:
  fixes a b c d :: nat
  assumes "b < 64" "c < 64" "d < 64"
  shows "(a * 64 + b) div 64 = a" "(a * 64 + b) mod 64 = b"
    and "(a * 4096 + b * 64 + c) div 4096 = a" "(a * 4096 + b * 64 + c) div 64 mod 64 = b"
    and "(a * 4096 + b * 64 + c) mod 64 = c"
    and "(a * 262144 + b * 4096 + c * 64 + d) div 262144 = a"
    and "(a * 262144 + b * 4096 + c * 64 + d) div 4096 mod 64 = b"
    and "(a * 262144 + b * 4096 + c * 64 + d) div 64 mod 64 = c"
    and "(a * 262144 + b * 4096 + c * 64 + d) mod 64 = d"
proof -
  have step: "(p * 64 + b) div 64 = p" "(p * 64 + b) mod 64 = b" "(p * 64 + c) div 64 = p"
    "(p * 64 + c) mod 64 = c" "(p * 64 + d) div 64 = p" "(p * 64 + d) mod 64 = d" for p
    using assms by simp_all
  have d4096: "x div 4096 = x div 64 div 64" "x div 262144 = x div 64 div 64 div 64" for x :: nat
    by (simp_all flip: div_mult2_eq)
  have e3: "a * 4096 + b * 64 + c = (a * 64 + b) * 64 + c"
    and e4: "a * 262144 + b * 4096 + c * 64 + d = ((a * 64 + b) * 64 + c) * 64 + d" by simp_all
  show "(a * 64 + b) div 64 = a" "(a * 64 + b) mod 64 = b"
    "(a * 4096 + b * 64 + c) div 4096 = a" "(a * 4096 + b * 64 + c) div 64 mod 64 = b"
    "(a * 4096 + b * 64 + c) mod 64 = c"
    "(a * 262144 + b * 4096 + c * 64 + d) div 262144 = a"
    "(a * 262144 + b * 4096 + c * 64 + d) div 4096 mod 64 = b"
    "(a * 262144 + b * 4096 + c * 64 + d) div 64 mod 64 = c"
    "(a * 262144 + b * 4096 + c * 64 + d) mod 64 = d"
    by (simp_all only: e3 e4 d4096 step)
qed

lemma utf8_scalar_inverse:
  assumes "utf8_scalar bs = Some (n, r)"
  shows "scalar_value n \<and> bs = utf8_bytes n @ r"
proof -
  from assms obtain b t where bs: "bs = b # t" by (cases bs) auto
  consider (one) "unat b < 128" | (two) "194 \<le> unat b" "unat b < 224"
    | (three) "224 \<le> unat b" "unat b < 240" | (four) "240 \<le> unat b" "unat b < 245"
    | (bad) "128 \<le> unat b \<and> unat b < 194 \<or> 245 \<le> unat b" by linarith
  then show ?thesis
  proof cases
    case one
    with assms bs show ?thesis by (auto simp: Let_def utf8_bytes_def scalar_value_def)
  next
    case two
    define a where "a = unat b - 192"
    with two have a: "192 + a = unat b" "2 \<le> a" "a < 32" by auto
    from assms two bs obtain c where c: "t = c # r" "cont_byte c" and n: "n = a * 64 + cont_val c"
      by (auto simp: Let_def a_def split: list.splits if_splits)
    note c' = cont_byte_u8 [OF c(2)]
    from c' a have "128 \<le> n" "n < 2048" by (auto simp: n)
    with c' a show ?thesis
      by (simp add: bs c(1) utf8_bytes_def scalar_value_def) (simp add: n digits64(1,2) [of "cont_val c" 0 0] a(1))
  next
    case three
    define a where "a = unat b - 224"
    with three have a: "224 + a = unat b" by auto
    from assms three bs obtain c d where t: "t = c # d # r" "cont_byte c" "cont_byte d"
      and n: "n = a * 4096 + cont_val c * 64 + cont_val d" "2048 \<le> n" "\<not> (55296 \<le> n \<and> n < 57344)"
      by (auto simp: Let_def a_def split: list.splits if_splits)
    note c' = cont_byte_u8 [OF t(2)] and d' = cont_byte_u8 [OF t(3)]
    from c' d' a three have "n < 65536" by (auto simp: n(1))
    with c' d' n(2,3) show ?thesis
      by (simp add: bs t(1) utf8_bytes_def scalar_value_def) (simp add: n(1) digits64(3-5) [of "cont_val c" "cont_val d" 0] a)
  next
    case four
    define a where "a = unat b - 240"
    with four have a: "240 + a = unat b" by auto
    from assms four bs obtain c d e where t: "t = c # d # e # r" "cont_byte c" "cont_byte d" "cont_byte e"
      and n: "n = a * 262144 + cont_val c * 4096 + cont_val d * 64 + cont_val e" "65536 \<le> n" "n < 1114112"
      by (auto simp: Let_def a_def split: list.splits if_splits)
    note c' = cont_byte_u8 [OF t(2)] and d' = cont_byte_u8 [OF t(3)] and e' = cont_byte_u8 [OF t(4)]
    from c' d' e' n(2,3) show ?thesis
      by (simp add: bs t(1) utf8_bytes_def scalar_value_def) (simp add: n(1) digits64 a)
  next
    case bad
    with assms bs show ?thesis by (auto simp: Let_def)
  qed
qed

lemma unat_code_unit: "n < 65536 \<Longrightarrow> unat (word_of_nat n :: 16 word) = n"
  by (simp add: unat_of_nat take_bit_nat_eq_self)

lemma scalars_code_units_append:
  assumes "scalar_value n"
  shows "scalars (code_units n @ s) = n # scalars s"
proof (cases "n < 65536")
  case True
  with assms have "\<not> surrogate (word_of_nat n)" "\<not> high_surrogate (word_of_nat n)"
    by (auto simp: scalar_value_def surrogate_def high_surrogate_def low_surrogate_def unat_code_unit)
  with True show ?thesis by (cases s) (simp_all add: code_units_def unat_code_unit)
next
  case False
  define a b where "a = (n - 65536) div 1024" and "b = (n - 65536) mod 1024"
  from assms have "a < 1024" by (auto simp: a_def scalar_value_def)
  moreover have "b < 1024" by (simp add: b_def)
  ultimately have h: "unat (word_of_nat (55296 + a) :: 16 word) = 55296 + a"
    and l: "unat (word_of_nat (56320 + b) :: 16 word) = 56320 + b"
    by (simp_all only: unat_code_unit)
  have "65536 + a * 1024 + b = n" using False by (simp add: a_def b_def)
  with False \<open>a < 1024\<close> \<open>b < 1024\<close> h l show ?thesis
    by (simp add: code_units_def high_surrogate_def low_surrogate_def del: of_nat_add
        flip: a_def b_def)
qed

lemma text_decode_inverse: "text_decode bs = Some s \<Longrightarrow> well_formed s \<and> text_encode s = bs"
proof (induction bs arbitrary: s rule: text_decode.induct)
  case (1 bs)
  show ?case
  proof (cases "bs = []")
    case True
    with "1.prems" show ?thesis by (simp add: text_decode.simps text_encode_def)
  next
    case False
    with "1.prems" obtain n r t where nr: "utf8_scalar bs = Some (n, r)" and t: "text_decode r = Some t"
      and s: "s = code_units n @ t"
      by (subst (asm) text_decode.simps) (auto split: option.splits)
    from "1.IH" [OF False nr refl t] have "well_formed t" "text_encode t = r" by simp_all
    with utf8_scalar_inverse [OF nr] show ?thesis
      by (simp add: s text_encode_def scalars_code_units_append flip: scalars_code_units)
  qed
qed

text \<open>
  Decoding is the inverse of encoding on the strings without lone surrogates, and accepts no other
  byte sequence.
\<close>

lemma text_decode_iff: "text_decode bs = Some s \<longleftrightarrow> well_formed s \<and> text_encode s = bs"
  by (auto dest: text_decode_inverse simp: text_decode_encode scalars_code_units)

end
