(* ===== verification/CborWriter.thy ===== *)
theory CborWriter
  imports Utf8
begin

text \<open>
  \<open>packages/protocol/src/cbor/options.ts\<close> and the class \<open>CborWriter\<close> with \<open>writeArgument\<close> of
  \<open>cbor/encoder.ts\<close>.  The writer keeps the code's growing buffer and offset; \<open>written\<close> is the
  bytes that \<open>finish\<close> returns.  The locale \<open>byte_sink\<close> is the interface the encoder relies on:
  every primitive appends a known list of bytes or reports that the limit is exceeded.
\<close>

section \<open>Options\<close>

definition UINT32_BASE :: nat where
  "UINT32_BASE = 4294967296"

definition CBOR_MAX_UINT32 :: nat where
  "CBOR_MAX_UINT32 = 4294967295"

definition MAX_CONFIGURED_DEPTH :: nat where
  "MAX_CONFIGURED_DEPTH = 512"

definition DEFAULT_MAX_CBOR_BYTE_LENGTH :: nat where
  "DEFAULT_MAX_CBOR_BYTE_LENGTH = 16 * 1024 * 1024"

definition DEFAULT_MAX_CBOR_CONTAINER_LENGTH :: nat where
  "DEFAULT_MAX_CBOR_CONTAINER_LENGTH = 1000000"

definition DEFAULT_MAX_CBOR_DEPTH :: nat where
  "DEFAULT_MAX_CBOR_DEPTH = 64"

datatype cbor_error =
    OptionRange string nat
  | ByteLengthLimit nat
  | TextLengthLimit nat
  | InvalidScalar
  | DepthLimit nat
  | NonFinite
  | UnsafeInteger
  | ByteStringLimit nat
  | ArrayHole
  | ArrayLimit nat
  | MapLimit nat
  | UnsupportedType
  | TrailingData
  | Truncated
  | InvalidUtf8
  | NonStringKey
  | DuplicateKey
  | TagUnsupported
  | BreakMarker
  | UnsupportedSimple
  | IndefiniteLength
  | MalformedInfo
  | LengthLimit nat
  | NoReturn

record cbor_config =
  opt_maxByteLength :: "int option"
  opt_maxContainerLength :: "int option"
  opt_maxDepth :: "int option"

record cbor_options =
  maxByteLength :: nat
  maxContainerLength :: nat
  maxDepth :: nat

definition resolve_limit :: "string \<Rightarrow> int \<Rightarrow> nat \<Rightarrow> cbor_error + nat" where
  "resolve_limit name value maximum =
     (if value < 0 \<or> int maximum < value then Inl (OptionRange name maximum) else Inr (nat value))"

definition resolve_options :: "cbor_config \<Rightarrow> cbor_error + cbor_options" where
  "resolve_options c =
     rbind (resolve_limit ''maxByteLength''
              (case opt_maxByteLength c of None \<Rightarrow> int DEFAULT_MAX_CBOR_BYTE_LENGTH | Some v \<Rightarrow> v)
              CBOR_MAX_UINT32) (\<lambda>b.
     rbind (resolve_limit ''maxContainerLength''
              (case opt_maxContainerLength c of None \<Rightarrow> int DEFAULT_MAX_CBOR_CONTAINER_LENGTH | Some v \<Rightarrow> v)
              CBOR_MAX_UINT32) (\<lambda>n.
     rbind (resolve_limit ''maxDepth''
              (case opt_maxDepth c of None \<Rightarrow> int DEFAULT_MAX_CBOR_DEPTH | Some v \<Rightarrow> v)
              MAX_CONFIGURED_DEPTH) (\<lambda>d.
     Inr \<lparr>maxByteLength = b, maxContainerLength = n, maxDepth = d\<rparr>)))"

section \<open>The writer\<close>

record cbor_writer =
  w_buffer :: "byte list"
  w_offset :: nat
  w_max :: nat

definition new_writer :: "nat \<Rightarrow> cbor_writer" where
  "new_writer m = \<lparr>w_buffer = replicate (min 256 m) 0, w_offset = 0, w_max = m\<rparr>"

text \<open>
  The growth loop doubles the capacity up to the limit; \<open>NoReturn\<close> would stand for a loop that
  does not stop, which the proofs below exclude.
\<close>

definition grow_capacity :: "nat \<Rightarrow> nat \<Rightarrow> nat \<Rightarrow> nat option" where
  "grow_capacity limit required capacity =
     while_option (\<lambda>c. c < required) (\<lambda>c. min limit (max required (c * 2))) capacity"

definition ensure_capacity :: "nat \<Rightarrow> cbor_writer \<Rightarrow> cbor_error + cbor_writer" where
  "ensure_capacity additional w =
     (let required = w_offset w + additional in
      if w_max w < required then Inl (ByteLengthLimit (w_max w))
      else if required \<le> length (w_buffer w) then Inr w
      else (case grow_capacity (w_max w) required (max 1 (length (w_buffer w))) of
              None \<Rightarrow> Inl NoReturn
            | Some capacity \<Rightarrow>
                Inr (w\<lparr>w_buffer := byte_set (replicate capacity 0) (w_buffer w) 0\<rparr>)))"

text \<open>\<open>buffer[i] = value\<close>: the store keeps the low byte.\<close>

definition put_at :: "nat \<Rightarrow> nat \<Rightarrow> byte list \<Rightarrow> byte list" where
  "put_at i v buf = buf[i := u8 v]"

definition write_byte :: "nat \<Rightarrow> cbor_writer \<Rightarrow> cbor_error + cbor_writer" where
  "write_byte v w =
     rbind (ensure_capacity 1 w) (\<lambda>w. Inr
       (w\<lparr>w_buffer := put_at (w_offset w) v (w_buffer w), w_offset := w_offset w + 1\<rparr>))"

definition write_bytes :: "byte list \<Rightarrow> cbor_writer \<Rightarrow> cbor_error + cbor_writer" where
  "write_bytes bs w =
     rbind (ensure_capacity (length bs) w) (\<lambda>w. Inr
       (w\<lparr>w_buffer := byte_set (w_buffer w) bs (w_offset w), w_offset := w_offset w + length bs\<rparr>))"

definition write_uint16 :: "nat \<Rightarrow> cbor_writer \<Rightarrow> cbor_error + cbor_writer" where
  "write_uint16 v w =
     rbind (ensure_capacity 2 w) (\<lambda>w. Inr
       (w\<lparr>w_buffer := put_at (w_offset w + 1) v (put_at (w_offset w) (v div 2 ^ 8) (w_buffer w)),
          w_offset := w_offset w + 2\<rparr>))"

definition write_uint32 :: "nat \<Rightarrow> cbor_writer \<Rightarrow> cbor_error + cbor_writer" where
  "write_uint32 v w =
     rbind (ensure_capacity 4 w) (\<lambda>w. Inr
       (w\<lparr>w_buffer := put_at (w_offset w + 3) v (put_at (w_offset w + 2) (v div 2 ^ 8)
            (put_at (w_offset w + 1) (v div 2 ^ 16) (put_at (w_offset w) (v div 2 ^ 24) (w_buffer w)))),
          w_offset := w_offset w + 4\<rparr>))"

definition write_uint64 :: "nat \<Rightarrow> cbor_writer \<Rightarrow> cbor_error + cbor_writer" where
  "write_uint64 v w =
     (let high = v div UINT32_BASE; low = v - high * UINT32_BASE in
      rbind (write_uint32 high w) (write_uint32 low))"

definition write_float64 :: "64 word \<Rightarrow> cbor_writer \<Rightarrow> cbor_error + cbor_writer" where
  "write_float64 b w =
     rbind (ensure_capacity 9 w) (\<lambda>w. Inr
       (w\<lparr>w_buffer := byte_set (put_at (w_offset w) 251 (w_buffer w)) (be_bytes 8 (unat b)) (w_offset w + 1),
          w_offset := w_offset w + 9\<rparr>))"

definition finish :: "cbor_writer \<Rightarrow> byte list" where
  "finish w = take (w_offset w) (w_buffer w)"

definition write_argument :: "nat \<Rightarrow> nat \<Rightarrow> cbor_writer \<Rightarrow> cbor_error + cbor_writer" where
  "write_argument major value w =
     (let prefix = major * 32 in
      if value < 24 then write_byte (prefix + value) w
      else if value \<le> 255 then rbind (write_byte (prefix + 24) w) (write_byte value)
      else if value \<le> 65535 then rbind (write_byte (prefix + 25) w) (write_uint16 value)
      else if value \<le> CBOR_MAX_UINT32 then rbind (write_byte (prefix + 26) w) (write_uint32 value)
      else rbind (write_byte (prefix + 27) w) (write_uint64 value))"

section \<open>The interface: appending bytes below a limit\<close>

locale byte_sink =
  fixes ok :: "'w \<Rightarrow> bool"
    and content :: "'w \<Rightarrow> byte list"
    and limit :: "'w \<Rightarrow> nat"
    and overflow :: "'w \<Rightarrow> 'e"
    and put :: "byte list \<Rightarrow> 'w \<Rightarrow> 'e + 'w"
  assumes put_fits: "ok w \<Longrightarrow> length (content w) + length bs \<le> limit w \<Longrightarrow>
      \<exists>w'. put bs w = Inr w' \<and> ok w' \<and> content w' = content w @ bs \<and> limit w' = limit w"
    and put_overflows: "ok w \<Longrightarrow> limit w < length (content w) + length bs \<Longrightarrow>
      put bs w = Inl (overflow w)"
    and overflow_limit: "limit w = limit w' \<Longrightarrow> overflow w = overflow w'"
    and ok_limit: "ok w \<Longrightarrow> length (content w) \<le> limit w"
begin

text \<open>A result that appends exactly \<open>bs\<close>, or is the overflow error.\<close>

definition emits :: "'w \<Rightarrow> byte list \<Rightarrow> 'e + 'w \<Rightarrow> bool" where
  "emits w bs r \<longleftrightarrow>
     (if length (content w) + length bs \<le> limit w
      then \<exists>w'. r = Inr w' \<and> ok w' \<and> content w' = content w @ bs \<and> limit w' = limit w
      else r = Inl (overflow w))"

lemma emits_put: "ok w \<Longrightarrow> emits w bs (put bs w)"
  using put_fits put_overflows by (fastforce simp: emits_def)

lemma emits_Nil: "ok w \<Longrightarrow> emits w [] (Inr w)"
  by (auto simp: emits_def dest: ok_limit)

lemma emits_bind:
  assumes "emits w a r" and "\<And>w'. r = Inr w' \<Longrightarrow> ok w' \<Longrightarrow> emits w' b (f w')"
  shows "emits w (a @ b) (rbind r f)"
proof (cases "length (content w) + length a \<le> limit w")
  case True
  with assms(1) obtain w' where w': "r = Inr w'" "ok w'" "content w' = content w @ a" "limit w' = limit w"
    by (auto simp: emits_def)
  with assms(2) [OF w'(1,2)] overflow_limit [OF w'(4)] show ?thesis by (auto simp: emits_def)
next
  case False
  with assms(1) show ?thesis by (auto simp: emits_def)
qed

lemma emits_result:
  "emits w bs r \<Longrightarrow> r = Inr w' \<Longrightarrow> ok w' \<and> content w' = content w @ bs \<and> limit w' = limit w"
  by (auto simp: emits_def split: if_splits)

end

section \<open>The writer provides it\<close>

definition writer_ok :: "cbor_writer \<Rightarrow> bool" where
  "writer_ok w \<longleftrightarrow> w_offset w \<le> length (w_buffer w) \<and> length (w_buffer w) \<le> w_max w"

lemma grow_capacity_stops:
  assumes "capacity < required" "required \<le> limit"
  shows "\<exists>c. grow_capacity limit required capacity = Some c \<and> required \<le> c \<and> c \<le> limit \<and> capacity < c"
proof -
  define c where "c = min limit (max required (capacity * 2))"
  have c: "required \<le> c" "c \<le> limit" using assms(2) by (simp_all add: c_def)
  have "grow_capacity limit required capacity = grow_capacity limit required c"
    unfolding grow_capacity_def by (subst while_option_unfold) (simp add: assms(1) c_def)
  also have "\<dots> = Some c"
    unfolding grow_capacity_def by (subst while_option_unfold) (simp add: leD [OF c(1)])
  finally show ?thesis using assms c by auto
qed

lemma ensure_capacity_props:
  assumes "writer_ok w"
  shows "if w_offset w + n \<le> w_max w
    then \<exists>w'. ensure_capacity n w = Inr w' \<and> writer_ok w' \<and> w_offset w' = w_offset w \<and>
      w_max w' = w_max w \<and> finish w' = finish w \<and> w_offset w + n \<le> length (w_buffer w')
    else ensure_capacity n w = Inl (ByteLengthLimit (w_max w))"
proof (cases "w_offset w + n \<le> w_max w \<and> length (w_buffer w) < w_offset w + n")
  case True
  let ?r = "w_offset w + n" and ?c = "max 1 (length (w_buffer w))"
  show ?thesis
  proof (cases "?c < ?r")
    case True
    with \<open>_ \<and> _\<close> obtain c where c: "grow_capacity (w_max w) ?r ?c = Some c" "?r \<le> c" "c \<le> w_max w"
      "?c < c" using grow_capacity_stops by blast
    have "finish (w\<lparr>w_buffer := byte_set (replicate c 0) (w_buffer w) 0\<rparr>) = finish w"
      using assms by (simp add: finish_def byte_set_def writer_ok_def)
    with c assms \<open>_ \<and> _\<close> show ?thesis
      by (auto simp: ensure_capacity_def Let_def writer_ok_def length_byte_set)
  next
    case False
    with \<open>_ \<and> _\<close> have "?r = 1" and "length (w_buffer w) = 0"
      by linarith+
    with assms have r: "?r = 1" "length (w_buffer w) = 0" "n = 1" "w_offset w = 0"
      by (auto simp: writer_ok_def)
    then have "grow_capacity (w_max w) ?r ?c = Some 1"
      by (simp add: grow_capacity_def while_option_unfold)
    with r \<open>_ \<and> _\<close> show ?thesis
      by (auto simp: ensure_capacity_def Let_def writer_ok_def finish_def byte_set_def)
  qed
next
  case False
  with assms show ?thesis
    by (auto simp: ensure_capacity_def Let_def writer_ok_def)
qed

lemma byte_set_finish:
  "w_offset w + length bs \<le> length (w_buffer w) \<Longrightarrow>
     take (w_offset w + length bs) (byte_set (w_buffer w) bs (w_offset w)) = finish w @ bs"
  by (simp add: finish_def take_byte_set)

lemma length_finish: "writer_ok w \<Longrightarrow> length (finish w) = w_offset w"
  by (simp add: writer_ok_def finish_def)

interpretation writer: byte_sink writer_ok finish w_max "\<lambda>w. ByteLengthLimit (w_max w)" write_bytes
proof
  fix w and bs :: "byte list"
  assume w: "writer_ok w" and fits: "length (finish w) + length bs \<le> w_max w"
  with ensure_capacity_props [OF w, of "length bs"] obtain w'
    where w': "ensure_capacity (length bs) w = Inr w'" "writer_ok w'" "w_offset w' = w_offset w"
      "w_max w' = w_max w" "finish w' = finish w" "w_offset w + length bs \<le> length (w_buffer w')"
    by (auto simp: length_finish)
  with byte_set_finish [of w' bs] show "\<exists>w'. write_bytes bs w = Inr w' \<and> writer_ok w' \<and>
      finish w' = finish w @ bs \<and> w_max w' = w_max w"
    by (auto simp: write_bytes_def writer_ok_def finish_def length_byte_set)
next
  fix w and bs :: "byte list"
  assume "writer_ok w" "w_max w < length (finish w) + length bs"
  with ensure_capacity_props [of w "length bs"] show "write_bytes bs w = Inl (ByteLengthLimit (w_max w))"
    by (simp add: length_finish write_bytes_def)
qed (auto simp: writer_ok_def finish_def)

text \<open>The other primitives are \<open>write_bytes\<close> of the bytes they store.\<close>

lemma put_at_byte_set: "i < length buf \<Longrightarrow> put_at i v buf = byte_set buf [u8 v] i"
  by (simp add: put_at_def byte_set_def upd_conv_take_nth_drop)

lemma byte_set_byte_set:
  "i + length xs + length ys \<le> length buf \<Longrightarrow>
     byte_set (byte_set buf xs i) ys (i + length xs) = byte_set buf (xs @ ys) i"
  by (simp add: byte_set_def ac_simps)

lemma ensure_capacity_room:
  "writer_ok w \<Longrightarrow> ensure_capacity n w = Inr w' \<Longrightarrow> w_offset w' + n \<le> length (w_buffer w')"
  using ensure_capacity_props [of w n] by (auto split: if_splits)

lemma write_alt:
  assumes "writer_ok w" and "length bs = n"
    and "\<And>i buf. i + n \<le> length buf \<Longrightarrow> store i buf = byte_set buf bs i"
  shows "rbind (ensure_capacity n w) (\<lambda>w. Inr (w\<lparr>w_buffer := store (w_offset w) (w_buffer w),
     w_offset := w_offset w + n\<rparr>)) = write_bytes bs w"
  using assms ensure_capacity_room [OF assms(1), of n]
  by (cases "ensure_capacity n w") (auto simp: write_bytes_def)

lemma write_byte_alt: "writer_ok w \<Longrightarrow> write_byte v w = write_bytes [u8 v] w"
  unfolding write_byte_def
  by (rule write_alt [where store = "\<lambda>i. put_at i v"]) (auto simp: put_at_byte_set)

lemma put_at_snoc:
  "i + length bs < length buf \<Longrightarrow> put_at (i + length bs) v (byte_set buf bs i) = byte_set buf (bs @ [u8 v]) i"
  using byte_set_byte_set [of i bs "[u8 v]" buf] by (simp add: put_at_byte_set length_byte_set)

lemma put_at_two:
  "i + 2 \<le> length buf \<Longrightarrow> put_at (i + 1) v (put_at i u buf) = byte_set buf [u8 u, u8 v] i"
  using put_at_snoc [of i "[u8 u]" buf v] by (simp add: put_at_byte_set)

lemma put_at_four:
  "i + 4 \<le> length buf \<Longrightarrow>
     put_at (i + 3) d (put_at (i + 2) c (put_at (i + 1) b (put_at i a buf))) =
       byte_set buf [u8 a, u8 b, u8 c, u8 d] i"
  using put_at_two [of i buf b a] put_at_snoc [of i "[u8 a, u8 b]" buf c]
    put_at_snoc [of i "[u8 a, u8 b, u8 c]" buf d] by (simp add: numeral_eq_Suc)

lemma write_uint16_alt: "writer_ok w \<Longrightarrow> write_uint16 v w = write_bytes [u8 (v div 2 ^ 8), u8 v] w"
  unfolding write_uint16_def
  by (rule write_alt [where store = "\<lambda>i buf. put_at (i + 1) v (put_at i (v div 2 ^ 8) buf)"])
     (simp_all only: put_at_two, simp)

lemma write_uint32_alt:
  "writer_ok w \<Longrightarrow> write_uint32 v w =
     write_bytes [u8 (v div 2 ^ 24), u8 (v div 2 ^ 16), u8 (v div 2 ^ 8), u8 v] w"
  unfolding write_uint32_def
  by (rule write_alt [where store = "\<lambda>i buf. put_at (i + 3) v (put_at (i + 2) (v div 2 ^ 8)
       (put_at (i + 1) (v div 2 ^ 16) (put_at i (v div 2 ^ 24) buf)))"])
     (simp_all only: put_at_four, simp)

lemma write_float64_alt:
  "writer_ok w \<Longrightarrow> write_float64 b w = write_bytes (251 # be_bytes 8 (unat b)) w"
proof -
  have "u8 251 = 251" by (simp add: u8_def)
  then have store: "byte_set (put_at i 251 buf) (be_bytes 8 (unat b)) (i + 1) =
      byte_set buf (251 # be_bytes 8 (unat b)) i" if "i + 9 \<le> length buf" for i buf
    using that byte_set_byte_set [of i "[251]" "be_bytes 8 (unat b)" buf]
    by (simp add: put_at_byte_set)
  show "writer_ok w \<Longrightarrow> ?thesis"
    unfolding write_float64_def
    by (rule write_alt [where store = "\<lambda>i buf. byte_set (put_at i 251 buf) (be_bytes 8 (unat b)) (i + 1)"])
       (simp_all only: store, simp)
qed

text \<open>The bytes of an argument.\<close>

definition be32 :: "nat \<Rightarrow> byte list" where
  "be32 v = [u8 (v div 2 ^ 24), u8 (v div 2 ^ 16), u8 (v div 2 ^ 8), u8 v]"

definition argument_bytes :: "nat \<Rightarrow> nat \<Rightarrow> byte list" where
  "argument_bytes major v =
     (if v < 24 then [u8 (major * 32 + v)]
      else if v \<le> 255 then [u8 (major * 32 + 24), u8 v]
      else if v \<le> 65535 then [u8 (major * 32 + 25), u8 (v div 2 ^ 8), u8 v]
      else if v \<le> CBOR_MAX_UINT32 then u8 (major * 32 + 26) # be32 v
      else u8 (major * 32 + 27) # be32 (v div UINT32_BASE) @ be32 (v mod UINT32_BASE))"

lemma emits_byte: "writer_ok w \<Longrightarrow> writer.emits w [u8 v] (write_byte v w)"
  by (simp add: write_byte_alt writer.emits_put)

lemma emits_uint32: "writer_ok w \<Longrightarrow> writer.emits w (be32 v) (write_uint32 v w)"
  by (simp add: write_uint32_alt be32_def writer.emits_put)

lemma emits_uint64:
  "writer_ok w \<Longrightarrow>
     writer.emits w (be32 (v div UINT32_BASE) @ be32 (v mod UINT32_BASE)) (write_uint64 v w)"
  unfolding write_uint64_def Let_def minus_div_mult_eq_mod
  by (rule writer.emits_bind) (simp_all add: emits_uint32)

lemma emits_argument: "writer_ok w \<Longrightarrow> writer.emits w (argument_bytes major v) (write_argument major v w)"
proof -
  assume w: "writer_ok w"
  have two: "writer.emits w' [u8 (v div 256), u8 v] (write_uint16 v w')" if "writer_ok w'" for w'
    using that by (simp add: write_uint16_alt writer.emits_put)
  have bind: "writer.emits w (u8 p # bs) (rbind (write_byte p w) f)"
    if "\<And>w'. writer_ok w' \<Longrightarrow> writer.emits w' bs (f w')" for p bs f
    using writer.emits_bind [OF emits_byte [OF w, of p], of bs f] that by simp
  show ?thesis
    unfolding argument_bytes_def write_argument_def Let_def
    using w by (auto intro!: bind emits_byte two emits_uint32 emits_uint64)
qed

lemma new_writer_ok: "writer_ok (new_writer m) \<and> finish (new_writer m) = [] \<and> w_max (new_writer m) = m"
  by (simp add: new_writer_def writer_ok_def finish_def)

end
