(* ===== verification/CborEncoder.thy ===== *)
theory CborEncoder
  imports CborWriter JsValue
begin

text \<open>
  \<open>encodeText\<close>, \<open>encodeValue\<close> and \<open>encodeCbor\<close> of \<open>packages/protocol/src/cbor/encoder.ts\<close>, and
  \<open>encoding\<close>, the byte string that a value has in the protocol's CBOR subset.  The encoder is
  shown to produce exactly this byte string, or to fail where there is none or it is too long.
  Values are trees, so the check for cycles has no counterpart, and an object has no symbol keys.
\<close>

section \<open>The encoder\<close>

definition encode_text :: "cbor_options \<Rightarrow> js_string \<Rightarrow> cbor_writer \<Rightarrow> cbor_error + cbor_writer" where
  "encode_text opts s w =
     (let bytes = text_encode s in
      if maxByteLength opts < length bytes then Inl (TextLengthLimit (maxByteLength opts))
      else if text_decode bytes \<noteq> Some s then Inl InvalidScalar
      else rbind (write_argument 3 (length bytes) w) (write_bytes bytes))"

definition encode_number :: "js_num \<Rightarrow> cbor_writer \<Rightarrow> cbor_error + cbor_writer" where
  "encode_number n w =
     (if \<not> num_finite n then Inl NonFinite
      else (case n of
              NInt i \<Rightarrow>
                if \<not> num_safe n then Inl UnsafeInteger
                else if 0 \<le> i then write_argument 0 (nat i) w
                else write_argument 1 (nat (- 1 - i)) w
            | NFlt b \<Rightarrow> write_float64 b w))"

definition live_entries :: "props \<Rightarrow> props" where
  "live_entries ps = filter (\<lambda>p. snd p \<noteq> JUndef) ps"

fun encode_value :: "cbor_options \<Rightarrow> jsv \<Rightarrow> nat \<Rightarrow> cbor_writer \<Rightarrow> cbor_error + cbor_writer"
  and encode_items :: "cbor_options \<Rightarrow> jsv list \<Rightarrow> nat \<Rightarrow> cbor_writer \<Rightarrow> cbor_error + cbor_writer"
  and encode_entries :: "cbor_options \<Rightarrow> props \<Rightarrow> nat \<Rightarrow> cbor_writer \<Rightarrow> cbor_error + cbor_writer"
where
  "encode_value opts v depth w =
     (if maxDepth opts < depth then Inl (DepthLimit (maxDepth opts))
      else (case v of
          JNull \<Rightarrow> write_byte 246 w
        | JBool b \<Rightarrow> write_byte (if b then 245 else 244) w
        | JNum n \<Rightarrow> encode_number n w
        | JStr s \<Rightarrow> encode_text opts s w
        | JBytes bs \<Rightarrow>
            if maxByteLength opts < length bs then Inl (ByteStringLimit (maxByteLength opts))
            else rbind (write_argument 2 (length bs) w) (write_bytes bs)
        | JArr xs \<Rightarrow>
            if maxContainerLength opts < length xs then Inl (ArrayLimit (maxContainerLength opts))
            else rbind (write_argument 4 (length xs) w) (encode_items opts xs (depth + 1))
        | JObj ps \<Rightarrow>
            if maxContainerLength opts < length (live_entries ps)
            then Inl (MapLimit (maxContainerLength opts))
            else rbind (write_argument 5 (length (live_entries ps)) w) (encode_entries opts ps (depth + 1))
        | _ \<Rightarrow> Inl UnsupportedType))"
| "encode_items opts [] depth w = Inr w"
| "encode_items opts (x # xs) depth w =
     (if x = JUndef then Inl ArrayHole
      else rbind (encode_value opts x depth w) (encode_items opts xs depth))"
| "encode_entries opts [] depth w = Inr w"
| "encode_entries opts ((k, v) # ps) depth w =
     (if v = JUndef then encode_entries opts ps depth w
      else rbind (encode_text opts k w) (\<lambda>w.
           rbind (encode_value opts v depth w) (encode_entries opts ps depth)))"

definition encode_cbor :: "cbor_config \<Rightarrow> jsv \<Rightarrow> cbor_error + byte list" where
  "encode_cbor c v =
     rbind (resolve_options c) (\<lambda>opts.
     rbind (encode_value opts v 0 (new_writer (maxByteLength opts))) (\<lambda>w. Inr (finish w)))"

section \<open>The bytes of a value\<close>

definition text_bytes :: "cbor_options \<Rightarrow> js_string \<Rightarrow> byte list option" where
  "text_bytes opts s =
     (if length (text_encode s) \<le> maxByteLength opts \<and> well_formed s
      then Some (argument_bytes 3 (length (text_encode s)) @ text_encode s) else None)"

definition number_bytes :: "js_num \<Rightarrow> byte list option" where
  "number_bytes n =
     (case n of
        NInt i \<Rightarrow>
          if max_safe < \<bar>i\<bar> then None
          else if 0 \<le> i then Some (argument_bytes 0 (nat i))
          else Some (argument_bytes 1 (nat (- 1 - i)))
      | NFlt b \<Rightarrow> if num_finite n then Some (u8 251 # be_bytes 8 (unat b)) else None)"

definition cat :: "byte list option \<Rightarrow> byte list option \<Rightarrow> byte list option" where
  "cat a b = (case a of None \<Rightarrow> None | Some x \<Rightarrow> map_option ((@) x) b)"

lemma cat_Some: "cat a b = Some z \<longleftrightarrow> (\<exists>x y. a = Some x \<and> b = Some y \<and> z = x @ y)"
  by (auto simp: cat_def split: option.splits)

fun encoding :: "cbor_options \<Rightarrow> nat \<Rightarrow> jsv \<Rightarrow> byte list option"
  and encoding_items :: "cbor_options \<Rightarrow> nat \<Rightarrow> jsv list \<Rightarrow> byte list option"
  and encoding_entries :: "cbor_options \<Rightarrow> nat \<Rightarrow> props \<Rightarrow> byte list option"
where
  "encoding opts d v =
     (if maxDepth opts < d then None
      else (case v of
          JNull \<Rightarrow> Some [u8 246]
        | JBool b \<Rightarrow> Some [u8 (if b then 245 else 244)]
        | JNum n \<Rightarrow> number_bytes n
        | JStr s \<Rightarrow> text_bytes opts s
        | JBytes bs \<Rightarrow>
            if maxByteLength opts < length bs then None
            else Some (argument_bytes 2 (length bs) @ bs)
        | JArr xs \<Rightarrow>
            if maxContainerLength opts < length xs then None
            else cat (Some (argument_bytes 4 (length xs))) (encoding_items opts (d + 1) xs)
        | JObj ps \<Rightarrow>
            if maxContainerLength opts < length (live_entries ps) then None
            else cat (Some (argument_bytes 5 (length (live_entries ps)))) (encoding_entries opts (d + 1) ps)
        | _ \<Rightarrow> None))"
| "encoding_items opts d [] = Some []"
| "encoding_items opts d (x # xs) =
     (if x = JUndef then None else cat (encoding opts d x) (encoding_items opts d xs))"
| "encoding_entries opts d [] = Some []"
| "encoding_entries opts d ((k, v) # ps) =
     (if v = JUndef then encoding_entries opts d ps
      else cat (text_bytes opts k) (cat (encoding opts d v) (encoding_entries opts d ps)))"

declare encode_value.simps [simp del] encoding.simps [simp del]

section \<open>The encoder writes these bytes\<close>

definition emits_option :: "cbor_writer \<Rightarrow> byte list option \<Rightarrow> cbor_error + cbor_writer \<Rightarrow> bool" where
  "emits_option w bo r = (case bo of None \<Rightarrow> \<exists>e. r = Inl e | Some bs \<Rightarrow> writer.emits w bs r)"

lemma emits_option_None [simp]: "emits_option w None (Inl e)"
  by (simp add: emits_option_def)

lemma emits_option_Some: "emits_option w (Some bs) r = writer.emits w bs r"
  by (simp add: emits_option_def)

lemma emits_option_cat:
  assumes "emits_option w a r" and "\<And>w'. r = Inr w' \<Longrightarrow> writer_ok w' \<Longrightarrow> emits_option w' b (f w')"
  shows "emits_option w (cat a b) (rbind r f)"
proof (cases a)
  case None
  with assms(1) show ?thesis by (auto simp: emits_option_def cat_def)
next
  case (Some x)
  with assms(1) have x: "writer.emits w x r" by (simp add: emits_option_def)
  show ?thesis
  proof (cases b)
    case None
    have "\<exists>e. rbind r f = Inl e"
    proof (cases r)
      case (Inr w')
      with writer.emits_result [OF x] assms(2) [of w'] None show ?thesis
        by (auto simp: emits_option_def)
    qed simp
    with None Some show ?thesis by (simp add: emits_option_def cat_def)
  next
    case (Some y)
    with assms(2) \<open>a = Some x\<close> writer.emits_bind [OF x, of y f] show ?thesis
      by (simp add: emits_option_def cat_def)
  qed
qed

lemma emits_text: "writer_ok w \<Longrightarrow> emits_option w (text_bytes opts s) (encode_text opts s w)"
  by (auto simp: text_bytes_def encode_text_def Let_def text_decode_encode scalars_code_units emits_option_def
      intro!: writer.emits_bind emits_argument writer.emits_put)

lemma write_argument_bytes:
  "writer_ok w \<Longrightarrow>
     emits_option w (Some (argument_bytes m n @ bs)) (rbind (write_argument m n w) (write_bytes bs))"
  unfolding emits_option_Some
  by (rule writer.emits_bind [OF emits_argument]) (auto intro: writer.emits_put)

lemma emits_number: "writer_ok w \<Longrightarrow> emits_option w (number_bytes n) (encode_number n w)"
proof (cases n)
  case (NFlt b)
  have "u8 251 = (251 :: byte)" by (simp add: u8_def)
  with NFlt show "writer_ok w \<Longrightarrow> ?thesis"
    by (simp add: number_bytes_def encode_number_def emits_option_def write_float64_alt writer.emits_put)
qed (simp add: number_bytes_def encode_number_def emits_option_def emits_argument)

lemma emits_value:
  "writer_ok w \<Longrightarrow> emits_option w (encoding opts d v) (encode_value opts v d w)"
  "writer_ok w \<Longrightarrow> emits_option w (encoding_items opts d xs) (encode_items opts xs d w)"
  "writer_ok w \<Longrightarrow> emits_option w (encoding_entries opts d ps) (encode_entries opts ps d w)"
proof (induction opts v d w and opts xs d w and opts ps d w
    rule: encode_value_encode_items_encode_entries.induct)
  case (1 opts v depth w)
  show ?case
  proof (cases v)
    case (JArr xs)
    with 1 show ?thesis
      by (auto simp: encoding.simps encode_value.simps
          emits_option_Some emits_argument simp del: encoding_items.simps encode_items.simps
          intro!: emits_option_cat)
  next
    case (JObj ps)
    with 1 show ?thesis
      by (auto simp: encoding.simps encode_value.simps
          emits_option_Some emits_argument simp del: encoding_entries.simps encode_entries.simps
          intro!: emits_option_cat)
  qed (use 1 in \<open>auto simp: encoding.simps encode_value.simps emits_option_Some emits_number
        emits_text emits_byte write_argument_bytes [unfolded emits_option_Some]\<close>)
next
  case (3 opts x xs depth w)
  then show ?case by (auto intro: emits_option_cat)
next
  case (5 opts k v ps depth w)
  then show ?case by (auto intro!: emits_option_cat emits_text)
qed (simp_all add: emits_option_Some writer.emits_Nil)

lemma encode_cbor_iff:
  "encode_cbor c v = Inr bs \<longleftrightarrow>
     (\<exists>opts. resolve_options c = Inr opts \<and> encoding opts 0 v = Some bs \<and>
       length bs \<le> maxByteLength opts)"
proof (cases "resolve_options c")
  case (Inr opts)
  let ?w = "new_writer (maxByteLength opts)"
  have w: "writer_ok ?w" "finish ?w = []" "w_max ?w = maxByteLength opts"
    by (simp_all add: new_writer_ok)
  from emits_value(1) [OF w(1), of opts 0 v] w(2,3) Inr show ?thesis
    by (auto simp: encode_cbor_def emits_option_def writer.emits_def res_simps
        split: option.splits if_splits)
qed (simp add: encode_cbor_def)

text \<open>
  C36.  \<open>encodeCbor\<close> succeeds exactly when its options resolve, the value has an encoding in the
  subset (finite numbers, safe integers, well-formed strings, no holes, containers and depth within
  the limits) and that encoding is not longer than the byte limit; it then returns that encoding,
  whatever buffer sizes the writer went through.
\<close>

theorem encode_cbor_spec:
  "encode_cbor c v = Inr bs \<longleftrightarrow>
     (\<exists>opts. resolve_options c = Inr opts \<and> encoding opts 0 v = Some bs \<and>
       length bs \<le> maxByteLength opts)"
  by (rule encode_cbor_iff)

end
