(* ===== verification/CborDecoder.thy ===== *)
theory CborDecoder
  imports CborEncoder
begin

text \<open>
  The class \<open>CborReader\<close> and \<open>decodeCbor\<close> of \<open>packages/protocol/src/cbor/decoder.ts\<close>, with the
  round trip through the encoder and the fact that every decoded value encodes again.  The nesting
  is bounded by \<open>maxDepth\<close>, which is what makes the recursion end.  A \<open>parser\<close> locale states how a
  reader consumes a prefix of what remains.
\<close>

section \<open>The reader\<close>

record cbor_reader =
  r_bytes :: "byte list"
  r_offset :: nat

definition read_byte :: "cbor_reader \<Rightarrow> cbor_error + nat \<times> cbor_reader" where
  "read_byte r =
     (if length (r_bytes r) \<le> r_offset r then Inl Truncated
      else Inr (unat (r_bytes r ! r_offset r), r\<lparr>r_offset := r_offset r + 1\<rparr>))"

definition read_bytes :: "nat \<Rightarrow> cbor_reader \<Rightarrow> cbor_error + byte list \<times> cbor_reader" where
  "read_bytes n r =
     (if length (r_bytes r) - r_offset r < n then Inl Truncated
      else Inr (take n (drop (r_offset r) (r_bytes r)), r\<lparr>r_offset := r_offset r + n\<rparr>))"

definition read_uint32 :: "cbor_reader \<Rightarrow> cbor_error + nat \<times> cbor_reader" where
  "read_uint32 r =
     rbind (read_bytes 4 r) (\<lambda>(b, r). Inr
       (unat (b ! 0) * 16777216 + unat (b ! 1) * 65536 + unat (b ! 2) * 256 + unat (b ! 3), r))"

definition read_argument :: "nat \<Rightarrow> cbor_reader \<Rightarrow> cbor_error + nat \<times> cbor_reader" where
  "read_argument info r =
     (if info < 24 then Inr (info, r)
      else if info = 24 then read_byte r
      else if info = 25 then
        rbind (read_bytes 2 r) (\<lambda>(b, r). Inr (unat (b ! 0) * 256 + unat (b ! 1), r))
      else if info = 26 then read_uint32 r
      else if info = 27 then
        rbind (read_uint32 r) (\<lambda>(high, r).
        rbind (read_uint32 r) (\<lambda>(low, r).
          if 2097151 < high then Inl UnsafeInteger else Inr (high * UINT32_BASE + low, r)))
      else if info = 31 then Inl IndefiniteLength
      else Inl MalformedInfo)"

definition read_length :: "nat \<Rightarrow> nat \<Rightarrow> cbor_reader \<Rightarrow> cbor_error + nat \<times> cbor_reader" where
  "read_length info limit r =
     (if info = 31 then Inl IndefiniteLength
      else rbind (read_argument info r) (\<lambda>(n, r).
        if limit < n then Inl (LengthLimit limit) else Inr (n, r)))"

definition read_float64 :: "cbor_reader \<Rightarrow> cbor_error + jsv \<times> cbor_reader" where
  "read_float64 r =
     rbind (read_bytes 8 r) (\<lambda>(b, r).
       let n = num_of_bits (word_of_nat (be_value b)) in
       if \<not> num_finite n then Inl NonFinite
       else (case n of
               NInt i \<Rightarrow> if \<not> num_safe n then Inl UnsafeInteger else Inr (JNum n, r)
             | NFlt _ \<Rightarrow> Inr (JNum n, r)))"

definition read_simple :: "nat \<Rightarrow> cbor_reader \<Rightarrow> cbor_error + jsv \<times> cbor_reader" where
  "read_simple info r =
     (if info = 20 then Inr (JBool False, r)
      else if info = 21 then Inr (JBool True, r)
      else if info = 22 then Inr (JNull, r)
      else if info = 27 then read_float64 r
      else if info = 31 then Inl BreakMarker
      else Inl UnsupportedSimple)"

definition read_text :: "nat \<Rightarrow> cbor_reader \<Rightarrow> cbor_error + jsv \<times> cbor_reader" where
  "read_text n r =
     rbind (read_bytes n r) (\<lambda>(b, r).
       case text_decode b of None \<Rightarrow> Inl InvalidUtf8 | Some s \<Rightarrow> Inr (JStr s, r))"

text \<open>
  \<open>read_items\<close> and \<open>read_entries\<close> are the loops over array members and map entries; the map loop
  keeps the set of keys seen beside the object under construction.
\<close>

function (sequential) read_item :: "cbor_options \<Rightarrow> nat \<Rightarrow> cbor_reader \<Rightarrow> cbor_error + jsv \<times> cbor_reader"
  and read_items :: "cbor_options \<Rightarrow> nat \<Rightarrow> nat \<Rightarrow> cbor_reader \<Rightarrow> cbor_error + jsv list \<times> cbor_reader"
  and read_entries :: "cbor_options \<Rightarrow> nat \<Rightarrow> nat \<Rightarrow> js_string set \<Rightarrow> props \<Rightarrow> cbor_reader
    \<Rightarrow> cbor_error + props \<times> cbor_reader"
where
  "read_item opts depth r =
     (if maxDepth opts < depth then Inl (DepthLimit (maxDepth opts))
      else rbind (read_byte r) (\<lambda>(initial, r).
        let major = initial div 32; info = initial mod 32 in
        if major = 0 then rbind (read_argument info r) (\<lambda>(n, r). Inr (JNum (NInt (int n)), r))
        else if major = 1 then
          rbind (read_argument info r) (\<lambda>(n, r).
            if num_safe (NInt (- 1 - int n)) then Inr (JNum (NInt (- 1 - int n)), r)
            else Inl UnsafeInteger)
        else if major = 2 then
          rbind (read_length info (maxByteLength opts) r) (\<lambda>(n, r).
          rbind (read_bytes n r) (\<lambda>(b, r). Inr (JBytes b, r)))
        else if major = 3 then
          rbind (read_length info (maxByteLength opts) r) (\<lambda>(n, r). read_text n r)
        else if major = 4 then
          rbind (read_length info (maxContainerLength opts) r) (\<lambda>(n, r).
          rbind (read_items opts (depth + 1) n r) (\<lambda>(xs, r). Inr (JArr xs, r)))
        else if major = 5 then
          rbind (read_length info (maxContainerLength opts) r) (\<lambda>(n, r).
          rbind (read_entries opts (depth + 1) n {} [] r) (\<lambda>(ps, r). Inr (JObj ps, r)))
        else if major = 6 then Inl TagUnsupported
        else read_simple info r))"
| "read_items opts depth 0 r = Inr ([], r)"
| "read_items opts depth (Suc n) r =
     rbind (read_item opts depth r) (\<lambda>(x, r).
     rbind (read_items opts depth n r) (\<lambda>(xs, r). Inr (x # xs, r)))"
| "read_entries opts depth 0 keys acc r = Inr (acc, r)"
| "read_entries opts depth (Suc n) keys acc r =
     rbind (read_item opts depth r) (\<lambda>(key, r).
       case key of
         JStr k \<Rightarrow>
           if k \<in> keys then Inl DuplicateKey
           else rbind (read_item opts depth r) (\<lambda>(v, r).
             read_entries opts depth n (insert k keys) (obj_put k v acc) r)
       | _ \<Rightarrow> Inl NonStringKey)"
  by pat_completeness auto
termination
  by (relation "inv_image (less_than <*lex*> less_than) (\<lambda>a. case a of
       Inl (opts, d, r) \<Rightarrow> (2 * (maxDepth opts + 1 - d), 0)
     | Inr (Inl (opts, d, n, r)) \<Rightarrow> (2 * (maxDepth opts + 1 - d) + 1, n)
     | Inr (Inr (opts, d, n, keys, acc, r)) \<Rightarrow> (2 * (maxDepth opts + 1 - d) + 1, n))") auto

definition decode_cbor :: "cbor_config \<Rightarrow> byte list \<Rightarrow> cbor_error + jsv" where
  "decode_cbor c bytes =
     rbind (resolve_options c) (\<lambda>opts.
       if maxByteLength opts < length bytes then Inl (ByteLengthLimit (maxByteLength opts))
       else rbind (read_item opts 0 \<lparr>r_bytes = bytes, r_offset = 0\<rparr>) (\<lambda>(v, r).
         if r_offset r \<noteq> length (r_bytes r) then Inl TrailingData else Inr v))"

declare read_item.simps [simp del]

section \<open>Parsing a prefix\<close>

text \<open>
  The interface that the reader's operations are built on: taking \<open>n\<close> bytes succeeds exactly when
  that many remain, and leaves the others.
\<close>

locale byte_source =
  fixes ok :: "'r \<Rightarrow> bool"
    and remaining :: "'r \<Rightarrow> byte list"
    and get :: "nat \<Rightarrow> 'r \<Rightarrow> 'e + byte list \<times> 'r"
  assumes get_some: "ok r \<Longrightarrow> n \<le> length (remaining r) \<Longrightarrow>
      \<exists>r'. get n r = Inr (take n (remaining r), r') \<and> ok r' \<and> remaining r' = drop n (remaining r)"
    and get_result: "ok r \<Longrightarrow> get n r = Inr (b, r') \<Longrightarrow>
      ok r' \<and> length b = n \<and> remaining r = b @ remaining r'"
begin

text \<open>\<open>p\<close> reads the bytes \<open>bs\<close>, whatever follows them, as the value \<open>a\<close>.\<close>

definition parses :: "('r \<Rightarrow> 'e + 'a \<times> 'r) \<Rightarrow> byte list \<Rightarrow> 'a \<Rightarrow> bool" where
  "parses p bs a \<longleftrightarrow>
     (\<forall>r post. ok r \<longrightarrow> remaining r = bs @ post \<longrightarrow>
        (\<exists>r'. p r = Inr (a, r') \<and> ok r' \<and> remaining r' = post))"

lemma parses_get:
  assumes "length bs = n"
  shows "parses (get n) bs bs"
  unfolding parses_def
proof (intro allI impI)
  fix r post
  assume "ok r" and "remaining r = bs @ post"
  with get_some [of r n] assms
  show "\<exists>r'. get n r = Inr (bs, r') \<and> ok r' \<and> remaining r' = post" by simp
qed

lemma parses_return: "parses (\<lambda>r. Inr (a, r)) [] a"
  by (simp add: parses_def)

lemma parses_bind:
  assumes "parses p bs a" and "parses (\<lambda>r. f (a, r)) cs b"
  shows "parses (\<lambda>r. rbind (p r) f) (bs @ cs) b"
  unfolding parses_def
proof (intro allI impI)
  fix r post
  assume "ok r" and "remaining r = (bs @ cs) @ post"
  with assms(1) [unfolded parses_def, rule_format, of r "cs @ post"]
  obtain r' where "p r = Inr (a, r')" "ok r'" "remaining r' = cs @ post" by auto
  with assms(2) [unfolded parses_def, rule_format, of r' post] show "\<exists>r'. rbind (p r) f = Inr (b, r') \<and> ok r' \<and> remaining r' = post"
    by simp
qed

lemma parses_map:
  assumes "parses p bs a" and "\<And>r. f (a, r) = Inr (b, r)"
  shows "parses (\<lambda>r. rbind (p r) f) bs b"
proof -
  have "parses (\<lambda>r. f (a, r)) [] b" by (simp add: parses_def assms(2))
  from parses_bind [of p bs a f "[]" b, OF assms(1) this] show ?thesis by (simp only: append_Nil2)
qed

text \<open>\<open>p\<close> consumes a prefix that together with its value satisfies \<open>P\<close>.\<close>

definition consumes :: "('r \<Rightarrow> 'e + 'a \<times> 'r) \<Rightarrow> (byte list \<Rightarrow> 'a \<Rightarrow> bool) \<Rightarrow> bool" where
  "consumes p P \<longleftrightarrow>
     (\<forall>r a r'. ok r \<longrightarrow> p r = Inr (a, r') \<longrightarrow>
        ok r' \<and> (\<exists>bs. remaining r = bs @ remaining r' \<and> P bs a))"

lemma consumesI:
  "(\<And>r a r'. ok r \<Longrightarrow> p r = Inr (a, r') \<Longrightarrow>
      ok r' \<and> (\<exists>bs. remaining r = bs @ remaining r' \<and> P bs a)) \<Longrightarrow> consumes p P"
  by (simp add: consumes_def)

lemma consumesD:
  assumes "consumes p P" "ok r" "p r = Inr (a, r')"
  obtains bs where "ok r'" "remaining r = bs @ remaining r'" "P bs a"
  using assms unfolding consumes_def by blast

lemma consumes_get: "consumes (get n) (\<lambda>bs b. b = bs \<and> length bs = n)"
  by (rule consumesI) (auto dest: get_result)

lemma consumes_return: "consumes (\<lambda>r. Inr (a, r)) (\<lambda>bs b. bs = [] \<and> b = a)"
  by (auto simp: consumes_def)

lemma consumes_bind:
  assumes "consumes p P" and "\<And>a bs. P bs a \<Longrightarrow> consumes (\<lambda>r. f (a, r)) (\<lambda>cs b. Q (bs @ cs) b)"
  shows "consumes (\<lambda>r. rbind (p r) f) Q"
proof (rule consumesI)
  fix r b r'
  assume "ok r" and "rbind (p r) f = Inr (b, r')"
  then obtain a q where 1: "p r = Inr (a, q)" and 2: "f (a, q) = Inr (b, r')"
    by (auto simp: rbind_eq_Inr)
  from consumesD [OF assms(1) \<open>ok r\<close> 1] obtain bs
    where bs: "ok q" "remaining r = bs @ remaining q" "P bs a" .
  from consumesD [OF assms(2) [OF bs(3)] bs(1) 2] obtain cs
    where "ok r'" "remaining q = cs @ remaining r'" "Q (bs @ cs) b" .
  with bs(2) show "ok r' \<and> (\<exists>bs. remaining r = bs @ remaining r' \<and> Q bs b)" by auto
qed

lemma consumes_mono: "consumes p P \<Longrightarrow> (\<And>bs a. P bs a \<Longrightarrow> Q bs a) \<Longrightarrow> consumes p Q"
  unfolding consumes_def by fast

lemma consumes_fail: "(\<And>r. \<exists>e. p r = Inl e) \<Longrightarrow> consumes p P"
proof (rule consumesI)
  fix r a r'
  assume fail: "\<And>r. \<exists>e. p r = Inl e" and "p r = Inr (a, r')"
  moreover from fail obtain e where "p r = Inl e" by blast
  ultimately show "ok r' \<and> (\<exists>bs. remaining r = bs @ remaining r' \<and> P bs a)" by simp
qed

end

definition reader_ok :: "cbor_reader \<Rightarrow> bool" where
  "reader_ok r \<longleftrightarrow> r_offset r \<le> length (r_bytes r)"

definition unread :: "cbor_reader \<Rightarrow> byte list" where
  "unread r = drop (r_offset r) (r_bytes r)"

interpretation reader: byte_source reader_ok unread read_bytes
proof
  fix r b r' and n :: nat
  assume r: "reader_ok r" and "read_bytes n r = Inr (b, r')"
  then have n: "n \<le> length (unread r)" and b: "b = take n (unread r)"
    and r': "r' = r\<lparr>r_offset := r_offset r + n\<rparr>"
    by (auto simp: read_bytes_def unread_def split: if_splits)
  from r n have "reader_ok r'" by (simp add: r' reader_ok_def unread_def)
  moreover have "unread r' = drop n (unread r)" by (simp add: r' unread_def add.commute)
  ultimately show "reader_ok r' \<and> length b = n \<and> unread r = b @ unread r'" using n b by simp
qed (auto simp: read_bytes_def reader_ok_def unread_def add.commute)

lemma read_byte_get: "read_byte r = rbind (read_bytes 1 r) (\<lambda>(b, r). Inr (unat (b ! 0), r))"
proof (cases "length (r_bytes r) \<le> r_offset r")
  case False
  then have "take 1 (drop (r_offset r) (r_bytes r)) ! 0 = r_bytes r ! r_offset r" by simp
  with False show ?thesis by (simp add: read_byte_def read_bytes_def del: nth_take nth_drop)
qed (simp add: read_byte_def read_bytes_def)

section \<open>Reading back what the encoder writes\<close>

lemma parses_byte: "n < 256 \<Longrightarrow> reader.parses read_byte [u8 n] n"
proof -
  assume "n < 256"
  then have "reader.parses (\<lambda>r. rbind (read_bytes 1 r) (\<lambda>(b, r). Inr (unat (b ! 0), r))) [u8 n] n"
    by (intro reader.parses_map [OF reader.parses_get]) (simp_all add: unat_u8)
  then show ?thesis by (simp only: read_byte_get [symmetric])
qed

lemma parses_uint32: "n \<le> CBOR_MAX_UINT32 \<Longrightarrow> reader.parses read_uint32 (be32 n) n"
  unfolding read_uint32_def
  by (rule reader.parses_map [OF reader.parses_get])
     (use be32_sum [of n] in \<open>simp_all add: be32_def CBOR_MAX_UINT32_def unat_u8\<close>)

lemma parses_float:
  assumes "num_ok (NFlt b)" "num_finite (NFlt b)"
  shows "reader.parses read_float64 (be_bytes 8 (unat b)) (JNum (NFlt b))"
proof -
  have "unat b < 2 ^ LENGTH(64)" by (rule unsigned_less)
  then have "be_value (be_bytes 8 (unat b)) = unat b" by (simp add: be_value_bytes)
  with assms show ?thesis
    unfolding read_float64_def by (intro reader.parses_map [OF reader.parses_get]) simp_all
qed

lemma parses_text:
  assumes "well_formed s"
  shows "reader.parses (read_text (length (text_encode s))) (text_encode s) (JStr s)"
  unfolding read_text_def
  by (rule reader.parses_map [OF reader.parses_get])
     (simp_all add: text_decode_encode scalars_code_units [THEN iffD2, OF assms])

text \<open>The additional information of the initial byte, and the bytes after it.\<close>

definition arg_info :: "nat \<Rightarrow> nat" where
  "arg_info v = (if v < 24 then v else if v \<le> 255 then 24 else if v \<le> 65535 then 25
     else if v \<le> CBOR_MAX_UINT32 then 26 else 27)"

definition arg_tail :: "nat \<Rightarrow> byte list" where
  "arg_tail v = drop 1 (argument_bytes 0 v)"

lemma argument_bytes_info: "argument_bytes m v = u8 (m * 32 + arg_info v) # arg_tail v"
  by (simp add: argument_bytes_def arg_info_def arg_tail_def)

lemma arg_info_less: "arg_info v < 28"
  by (simp add: arg_info_def)

lemma parses_argument:
  assumes "int v \<le> max_safe"
  shows "reader.parses (read_argument (arg_info v)) (arg_tail v) v"
proof -
  consider "v < 24" | "24 \<le> v" "v \<le> 255" | "255 < v" "v \<le> 65535"
    | "65535 < v" "v \<le> CBOR_MAX_UINT32" | "CBOR_MAX_UINT32 < v" by linarith
  then show ?thesis
  proof cases
    case 1
    then show ?thesis
      by (simp add: arg_info_def arg_tail_def argument_bytes_def read_argument_def [abs_def] reader.parses_return)
  next
    case 2
    then show ?thesis
      by (simp add: arg_info_def arg_tail_def argument_bytes_def read_argument_def [abs_def] parses_byte)
  next
    case 3
    then have "reader.parses (\<lambda>r. rbind (read_bytes 2 r)
        (\<lambda>(b, r). Inr (unat (b ! 0) * 256 + unat (b ! 1), r))) [u8 (v div 2 ^ 8), u8 v] v"
      by (intro reader.parses_map [OF reader.parses_get])
         (simp_all add: unat_u8 be16_sum)
    with 3 show ?thesis
      by (simp add: arg_info_def arg_tail_def argument_bytes_def read_argument_def [abs_def])
  next
    case 4
    then show ?thesis
      by (simp add: arg_info_def arg_tail_def argument_bytes_def read_argument_def [abs_def] parses_uint32)
  next
    case 5
    have v: "v div UINT32_BASE \<le> 2097151" "v mod UINT32_BASE \<le> CBOR_MAX_UINT32"
      using assms by (simp_all add: max_safe_def UINT32_BASE_def CBOR_MAX_UINT32_def)
    then have "reader.parses (\<lambda>r. rbind (read_uint32 r) (\<lambda>(high, r). rbind (read_uint32 r) (\<lambda>(low, r).
        if 2097151 < high then Inl UnsafeInteger else Inr (high * UINT32_BASE + low, r))))
        (be32 (v div UINT32_BASE) @ be32 (v mod UINT32_BASE)) v"
      by (intro reader.parses_bind [OF parses_uint32], simp add: CBOR_MAX_UINT32_def, unfold split,
          intro reader.parses_map [OF parses_uint32]) simp_all
    with 5 show ?thesis
      by (simp add: arg_info_def arg_tail_def argument_bytes_def read_argument_def [abs_def] CBOR_MAX_UINT32_def)
  qed
qed

lemma parses_length:
  assumes "n \<le> limit" "int n \<le> max_safe"
  shows "reader.parses (read_length (arg_info n) limit) (arg_tail n) n"
proof -
  have "arg_info n \<noteq> 31" using arg_info_less [of n] by simp
  with assms(1) show ?thesis
    by (simp add: read_length_def [abs_def] reader.parses_map [OF parses_argument [OF assms(2)]])
qed

text \<open>The switch over the major type.\<close>

definition item_switch :: "cbor_options \<Rightarrow> nat \<Rightarrow> nat \<Rightarrow> nat \<Rightarrow> cbor_reader
    \<Rightarrow> cbor_error + jsv \<times> cbor_reader" where
  "item_switch opts depth major info r =
     (if major = 0 then rbind (read_argument info r) (\<lambda>(n, r). Inr (JNum (NInt (int n)), r))
      else if major = 1 then
        rbind (read_argument info r) (\<lambda>(n, r).
          if num_safe (NInt (- 1 - int n)) then Inr (JNum (NInt (- 1 - int n)), r)
          else Inl UnsafeInteger)
      else if major = 2 then
        rbind (read_length info (maxByteLength opts) r) (\<lambda>(n, r).
        rbind (read_bytes n r) (\<lambda>(b, r). Inr (JBytes b, r)))
      else if major = 3 then
        rbind (read_length info (maxByteLength opts) r) (\<lambda>(n, r). read_text n r)
      else if major = 4 then
        rbind (read_length info (maxContainerLength opts) r) (\<lambda>(n, r).
        rbind (read_items opts (depth + 1) n r) (\<lambda>(xs, r). Inr (JArr xs, r)))
      else if major = 5 then
        rbind (read_length info (maxContainerLength opts) r) (\<lambda>(n, r).
        rbind (read_entries opts (depth + 1) n {} [] r) (\<lambda>(ps, r). Inr (JObj ps, r)))
      else if major = 6 then Inl TagUnsupported
      else read_simple info r)"

lemma read_item_switch:
  "read_item opts depth r =
     (if maxDepth opts < depth then Inl (DepthLimit (maxDepth opts))
      else rbind (read_byte r) (\<lambda>(initial, r). item_switch opts depth (initial div 32) (initial mod 32) r))"
  unfolding read_item.simps [of opts depth r] item_switch_def Let_def by (rule refl)

lemma parses_item:
  assumes "depth \<le> maxDepth opts" "m < 8" "info < 32"
    and "reader.parses (item_switch opts depth m info) bs v"
  shows "reader.parses (read_item opts depth) (u8 (m * 32 + info) # bs) v"
proof -
  have "m * 32 + info < 256" using assms(2,3) by linarith
  moreover have "(m * 32 + info) div 32 = m" "(m * 32 + info) mod 32 = info" using assms(3) by simp_all
  ultimately have "reader.parses (\<lambda>r. rbind (read_byte r) (\<lambda>(initial, r).
      item_switch opts depth (initial div 32) (initial mod 32) r)) ([u8 (m * 32 + info)] @ bs) v"
    using assms(4) by (intro reader.parses_bind [OF parses_byte]) simp_all
  with assms(1) show ?thesis by (simp add: read_item_switch [abs_def])
qed

lemma parses_headed:
  assumes "depth \<le> maxDepth opts" "m < 8"
    and "reader.parses (item_switch opts depth m (arg_info n)) (arg_tail n @ bs) v"
  shows "reader.parses (read_item opts depth) (argument_bytes m n @ bs) v"
proof -
  have "arg_info n < 32" using arg_info_less [of n] by simp
  from parses_item [OF assms(1,2) this assms(3)] show ?thesis by (simp add: argument_bytes_info)
qed

text \<open>
  \<open>limits_ok\<close> holds of every resolved option record; it keeps lengths below the safe integers.
\<close>

definition limits_ok :: "cbor_options \<Rightarrow> bool" where
  "limits_ok opts \<longleftrightarrow>
     maxByteLength opts \<le> CBOR_MAX_UINT32 \<and> maxContainerLength opts \<le> CBOR_MAX_UINT32 \<and>
     maxDepth opts \<le> MAX_CONFIGURED_DEPTH"

lemma resolve_options_limits: "resolve_options c = Inr opts \<Longrightarrow> limits_ok opts"
  by (auto simp: resolve_options_def resolve_limit_def res_simps limits_ok_def split: if_splits)

lemma small_safe: "n \<le> CBOR_MAX_UINT32 \<Longrightarrow> int n \<le> max_safe"
  by (simp add: CBOR_MAX_UINT32_def max_safe_def)

lemma parses_text_item:
  assumes "text_bytes opts s = Some bs" "depth \<le> maxDepth opts" "limits_ok opts"
  shows "reader.parses (read_item opts depth) bs (JStr s)"
proof -
  from assms(1) have len: "length (text_encode s) \<le> maxByteLength opts" and "well_formed s"
    and bs: "bs = argument_bytes 3 (length (text_encode s)) @ text_encode s"
    by (auto simp: text_bytes_def split: if_splits)
  from assms(3) len have "int (length (text_encode s)) \<le> max_safe"
    by (auto simp: limits_ok_def intro!: small_safe)
  with len \<open>well_formed s\<close>
  have "reader.parses (item_switch opts depth 3 (arg_info (length (text_encode s))))
      (arg_tail (length (text_encode s)) @ text_encode s) (JStr s)"
    by (simp add: item_switch_def [abs_def] reader.parses_bind [OF parses_length] parses_text)
  with assms(2) show ?thesis unfolding bs by (intro parses_headed) simp_all
qed

lemma parses_number_item:
  assumes "number_bytes n = Some bs" "depth \<le> maxDepth opts" "num_ok n"
  shows "reader.parses (read_item opts depth) bs (JNum n)"
proof (cases n)
  case (NInt i)
  show ?thesis
  proof (cases "0 \<le> i")
    case True
    with assms(1) NInt have bs: "bs = argument_bytes 0 (nat i) @ []" "int (nat i) \<le> max_safe"
      by (auto simp: number_bytes_def split: if_splits)
    from True have "reader.parses (item_switch opts depth 0 (arg_info (nat i))) (arg_tail (nat i) @ []) (JNum n)"
      by (simp add: item_switch_def [abs_def] NInt reader.parses_map [OF parses_argument [OF bs(2)]])
    with assms(2) show ?thesis unfolding bs(1) by (intro parses_headed) simp_all
  next
    case False
    with assms(1) NInt have bs: "bs = argument_bytes 1 (nat (- 1 - i)) @ []"
      and i: "int (nat (- 1 - i)) \<le> max_safe" "\<bar>i\<bar> \<le> max_safe"
      by (auto simp: number_bytes_def split: if_splits)
    from False i(2) have "reader.parses (item_switch opts depth 1 (arg_info (nat (- 1 - i)))) (arg_tail (nat (- 1 - i)) @ []) (JNum n)"
      by (simp add: item_switch_def [abs_def] NInt reader.parses_map [OF parses_argument [OF i(1)]])
    with assms(2) show ?thesis unfolding bs by (intro parses_headed) simp_all
  qed
next
  case (NFlt b)
  with assms(1,3) have bs: "bs = u8 (7 * 32 + 27) # be_bytes 8 (unat b)" and b: "num_finite (NFlt b)" "num_ok (NFlt b)"
    by (auto simp: number_bytes_def split: if_splits)
  have "reader.parses (item_switch opts depth 7 27) (be_bytes 8 (unat b)) (JNum n)"
    using parses_float [OF b(2,1)] by (simp add: item_switch_def [abs_def] read_simple_def [abs_def] NFlt)
  with assms(2) show ?thesis unfolding bs by (intro parses_item) simp_all
qed

lemma parses_simple_item:
  assumes "depth \<le> maxDepth opts"
  shows "reader.parses (read_item opts depth) [u8 244] (JBool False)"
    and "reader.parses (read_item opts depth) [u8 245] (JBool True)"
    and "reader.parses (read_item opts depth) [u8 246] JNull"
  using parses_item [of depth opts 7 20 "[]"] parses_item [of depth opts 7 21 "[]"]
    parses_item [of depth opts 7 22 "[]"] assms
  by (simp_all add: item_switch_def [abs_def] read_simple_def [abs_def] reader.parses_return)

lemma live_entries_Cons:
  "live_entries ((k, v) # ps) = (if v = JUndef then live_entries ps else (k, v) # live_entries ps)"
  by (simp add: live_entries_def)

lemma parses_bytes_item:
  assumes "length bs \<le> maxByteLength opts" "depth \<le> maxDepth opts" "limits_ok opts"
  shows "reader.parses (read_item opts depth) (argument_bytes 2 (length bs) @ bs) (JBytes bs)"
proof -
  from assms(1,3) have "int (length bs) \<le> max_safe" by (auto simp: limits_ok_def intro!: small_safe)
  with assms(1) have "reader.parses (item_switch opts depth 2 (arg_info (length bs)))
      (arg_tail (length bs) @ bs) (JBytes bs)"
    by (simp add: item_switch_def [abs_def] reader.parses_bind [OF parses_length]
        reader.parses_map [OF reader.parses_get])
  with assms(2) show ?thesis by (intro parses_headed) simp_all
qed

lemma parses_value:
  "limits_ok opts \<Longrightarrow> encoding opts d v = Some bs \<Longrightarrow> jsv_ok v \<Longrightarrow>
     reader.parses (read_item opts d) bs (drop_undef v)"
  "limits_ok opts \<Longrightarrow> encoding_items opts d xs = Some bs \<Longrightarrow> jsv_ok_items xs \<Longrightarrow>
     reader.parses (read_items opts d (length xs)) bs (drop_undef_items xs)"
  "limits_ok opts \<Longrightarrow> encoding_entries opts d ps = Some bs \<Longrightarrow> jsv_ok_props ps \<Longrightarrow>
     obj_ordered (acc @ ps) \<Longrightarrow>
     reader.parses (read_entries opts d (length (live_entries ps)) (fst ` set acc) acc) bs
       (acc @ drop_undef_props ps)"
proof (induction opts d v and opts d xs and opts d ps arbitrary: bs and bs and bs acc
    rule: encoding_encoding_items_encoding_entries.induct)
  case (1 opts d v)
  from "1.prems"(2) have d: "d \<le> maxDepth opts" by (simp add: encoding.simps split: if_splits)
  show ?case
  proof (cases v)
    case (JArr xs)
    with 1 d obtain ys where bs: "bs = argument_bytes 4 (length xs) @ ys"
      and ys: "encoding_items opts (d + 1) xs = Some ys" and n: "length xs \<le> maxContainerLength opts"
      by (auto simp: encoding.simps [of _ _ "JArr _"] cat_Some split: if_splits)
    from n "1.prems"(1) have safe: "int (length xs) \<le> max_safe"
      by (auto simp: limits_ok_def intro!: small_safe)
    from 1 d JArr n ys have "reader.parses (read_items opts (d + 1) (length xs)) ys (drop_undef_items xs)"
      by simp
    then have "reader.parses (item_switch opts d 4 (arg_info (length xs))) (arg_tail (length xs) @ ys) (drop_undef v)"
      using n safe JArr by (simp add: item_switch_def [abs_def] reader.parses_bind [OF parses_length]
        reader.parses_map)
    with d show ?thesis unfolding bs by (intro parses_headed) simp_all
  next
    case (JObj ps)
    let ?n = "length (live_entries ps)"
    from JObj 1 d obtain ys where bs: "bs = argument_bytes 5 ?n @ ys"
      and ys: "encoding_entries opts (d + 1) ps = Some ys" and n: "?n \<le> maxContainerLength opts"
      by (auto simp: encoding.simps [of _ _ "JObj _"] cat_Some split: if_splits)
    from n "1.prems"(1) have safe: "int ?n \<le> max_safe"
      by (auto simp: limits_ok_def intro!: small_safe)
    from 1 d JObj n ys have "reader.parses (read_entries opts (d + 1) ?n {} []) ys (drop_undef_props ps)"
      using "1.IH"(2) [of ps ys "[]"] by simp
    then have "reader.parses (item_switch opts d 5 (arg_info ?n)) (arg_tail ?n @ ys) (drop_undef v)"
      using n safe JObj by (simp add: item_switch_def [abs_def] reader.parses_bind [OF parses_length]
        reader.parses_map)
    with d show ?thesis unfolding bs by (intro parses_headed) simp_all
  qed (use 1 d in \<open>auto simp: encoding.simps parses_text_item parses_number_item parses_simple_item
        parses_bytes_item split: if_splits\<close>)
next
  case (3 opts d x xs)
  from "3.prems" obtain ys zs where bs: "bs = ys @ zs" and x: "x \<noteq> JUndef"
    and ys: "encoding opts d x = Some ys" and zs: "encoding_items opts d xs = Some zs"
    by (auto simp: cat_Some split: if_splits)
  from 3 x ys have "reader.parses (read_item opts d) ys (drop_undef x)" by simp
  moreover from 3 x zs have "reader.parses (read_items opts d (length xs)) zs (drop_undef_items xs)" by simp
  ultimately show ?case
    unfolding bs by (auto simp: reader.parses_map intro!: reader.parses_bind)
next
  case (5 opts d k v ps)
  show ?case
  proof (cases "v = JUndef")
    case True
    with 5 show ?thesis by (auto simp: live_entries_Cons dest: obj_ordered_append_dropI)
  next
    case False
    with "5.prems" obtain ks ys zs where bs: "bs = ks @ ys @ zs"
      and ks: "text_bytes opts k = Some ks" and ys: "encoding opts d v = Some ys"
      and zs: "encoding_entries opts d ps = Some zs"
      by (auto simp: cat_Some)
    from ys have d: "d \<le> maxDepth opts" by (simp add: encoding.simps split: if_splits)
    from 5 False ys have item: "reader.parses (read_item opts d) ys (drop_undef v)" by simp
    from "5.prems"(4) have fresh: "k \<notin> fst ` set acc"
      by (auto simp: obj_ordered_def)
    have put: "obj_put k (drop_undef v) acc = acc @ [(k, drop_undef v)]"
      using "5.prems"(4) by (rule obj_put_snoc)
    have "reader.parses (read_entries opts d (length (live_entries ps))
        (fst ` set (acc @ [(k, drop_undef v)])) (acc @ [(k, drop_undef v)])) zs
        ((acc @ [(k, drop_undef v)]) @ drop_undef_props ps)"
      using 5 False zs obj_ordered_append_ConsI [OF "5.prems"(4)] by (intro "5.IH"(3)) auto
    with parses_text_item [OF ks d "5.prems"(1)] item fresh False put show ?thesis
      unfolding bs by (auto simp: live_entries_Cons intro!: reader.parses_bind)
  qed
qed (auto simp: reader.parses_def live_entries_def)

lemma decode_encode:
  assumes "jsv_ok v" and "encode_cbor c v = Inr bs"
  shows "decode_cbor c bs = Inr (drop_undef v)"
proof -
  from assms(2) obtain opts where opts: "resolve_options c = Inr opts"
    and bs: "encoding opts 0 v = Some bs" "length bs \<le> maxByteLength opts"
    by (auto simp: encode_cbor_iff)
  let ?r = "\<lparr>r_bytes = bs, r_offset = 0\<rparr>"
  from parses_value(1) [OF resolve_options_limits [OF opts] bs(1) assms(1),
      unfolded reader.parses_def, rule_format, of ?r "[]"]
  have "\<exists>r'. read_item opts 0 ?r = Inr (drop_undef v, r') \<and> reader_ok r' \<and> unread r' = []"
    by (simp add: reader_ok_def unread_def)
  then obtain r' where r': "read_item opts 0 ?r = Inr (drop_undef v, r')" "reader_ok r'" "unread r' = []"
    by blast
  from r'(2,3) have "r_offset r' = length (r_bytes r')" by (simp add: reader_ok_def unread_def)
  with opts bs(2) r'(1) show ?thesis by (simp add: decode_cbor_def)
qed

text \<open>
  C13.  A value that \<open>encodeCbor\<close> accepts comes back from \<open>decodeCbor\<close> under the same options, up to
  the properties whose value is undefined, which are not written.
\<close>

theorem cbor_roundtrip:
  assumes "jsv_ok v" and "encode_cbor c v = Inr bs"
  shows "decode_cbor c bs = Inr (drop_undef v)"
  using assms by (rule decode_encode)

text \<open>A value with an index key, an undefined property and a two-byte argument.\<close>

definition sample_config :: cbor_config where
  "sample_config = \<lparr>opt_maxByteLength = Some 64, opt_maxContainerLength = None, opt_maxDepth = Some 3\<rparr>"
definition sample_value :: jsv where
  "sample_value = JObj [(js ''7'', JArr [JNum (NInt (-500)), JBool True]), (js ''b'', JStr (js ''hi'')), (js ''u'', JUndef)]"
lemma sample_encoding:
  "encode_cbor sample_config sample_value = Inr [162, 97, 55, 130, 57, 1, 243, 245, 97, 98, 98, 104, 105]"
  by (simp add: encode_cbor_iff sample_config_def sample_value_def resolve_options_def resolve_limit_def
      CBOR_MAX_UINT32_def MAX_CONFIGURED_DEPTH_def DEFAULT_MAX_CBOR_CONTAINER_LENGTH_def
      encoding.simps live_entries_def text_bytes_def text_encode_def high_surrogate_def low_surrogate_def
      surrogate_def utf8_bytes_def u8_def cat_def argument_bytes_def number_bytes_def max_safe_def)
lemma sample_ok: "jsv_ok sample_value"
  by (simp add: sample_value_def obj_ordered_def key_before_def index_key_def is_digit_def
      digits_val_def nat_str.simps)

theorem cbor_roundtrip_witness:
  "decode_cbor sample_config [162, 97, 55, 130, 57, 1, 243, 245, 97, 98, 98, 104, 105] =
     Inr (JObj [(js ''7'', JArr [JNum (NInt (-500)), JBool True]), (js ''b'', JStr (js ''hi''))])"
  using cbor_roundtrip [OF sample_ok sample_encoding] by (simp add: sample_value_def)

end
