(* ===== verification/CborCanonical.thy ===== *)
theory CborCanonical
  imports CborDecoder
begin

text \<open>
  What \<open>decodeCbor\<close> returns is always a value that \<open>encodeCbor\<close> accepts, and the encoder's form of
  it is never longer than the bytes it was decoded from: the encoder writes the shortest argument
  and the shortest number.  A peer may therefore forward what it decoded.
\<close>

definition fits :: "byte list \<Rightarrow> byte list option \<Rightarrow> bool" where
  "fits bs eo \<longleftrightarrow> (\<exists>es. eo = Some es \<and> length es \<le> length bs)"

lemma fits_cat: "fits as a \<Longrightarrow> fits bs b \<Longrightarrow> fits (as @ bs) (cat a b)"
  by (auto simp: fits_def cat_Some)

lemma cat_Nil [simp]: "cat (Some []) b = b"
  by (cases b) (simp_all add: cat_def)

lemma cat_assoc: "cat (cat a b) c = cat a (cat b c)"
  by (cases a; cases b; cases c) (simp_all add: cat_def)

lemma fits_mono: "fits bs eo \<Longrightarrow> length bs \<le> length cs \<Longrightarrow> fits cs eo"
  by (auto simp: fits_def)

section \<open>Arguments and scalars\<close>

lemma consumes_byte: "reader.consumes read_byte (\<lambda>bs n. length bs = 1 \<and> n < 256)"
  unfolding read_byte_get [abs_def]
  by (rule reader.consumes_bind [OF reader.consumes_get])
     (auto intro: reader.consumes_mono [OF reader.consumes_return] simp: unat_byte_less)

lemma be32_less: "b0 < 256 \<Longrightarrow> b1 < 256 \<Longrightarrow> b2 < 256 \<Longrightarrow> b3 < 256 \<Longrightarrow>
    b0 * 16777216 + b1 * 65536 + b2 * 256 + b3 \<le> CBOR_MAX_UINT32" for b0 b1 b2 b3 :: nat
  by (simp add: CBOR_MAX_UINT32_def)

lemma be16_less: "b0 < 256 \<Longrightarrow> b1 < 256 \<Longrightarrow> b0 * 256 + b1 < 65536" for b0 b1 :: nat
  by simp

lemma consumes_uint32: "reader.consumes read_uint32 (\<lambda>bs n. length bs = 4 \<and> n \<le> CBOR_MAX_UINT32)"
  unfolding read_uint32_def
  by (rule reader.consumes_bind [OF reader.consumes_get])
     (auto intro!: reader.consumes_mono [OF reader.consumes_return] be32_less simp: unat_byte_less)

lemma consumes_Inl: "reader.consumes (\<lambda>r. Inl e) P"
  by (rule reader.consumes_fail) simp

lemma consumes_if:
  "reader.consumes (\<lambda>r. if b then p r else q r) P \<longleftrightarrow>
     (b \<longrightarrow> reader.consumes p P) \<and> (\<not> b \<longrightarrow> reader.consumes q P)"
  by (cases b) simp_all

lemmas consumes_guard = consumes_if consumes_Inl

lemmas consumes_value = reader.consumes_mono [OF reader.consumes_return]

lemma consumes_argument:
  "reader.consumes (read_argument info) (\<lambda>bs n. length (arg_tail n) \<le> length bs \<and> int n \<le> max_safe)"
proof -
  have big: "int (high * UINT32_BASE + low) \<le> max_safe"
    if "high \<le> 2097151" "low \<le> CBOR_MAX_UINT32" for high low
    using that by (simp add: UINT32_BASE_def CBOR_MAX_UINT32_def max_safe_def)
  have tail: "length (arg_tail n) \<le> 8" "n \<le> CBOR_MAX_UINT32 \<Longrightarrow> length (arg_tail n) \<le> 4"
    "n < 65536 \<Longrightarrow> length (arg_tail n) \<le> 2" "n < 256 \<Longrightarrow> length (arg_tail n) \<le> 1"
    "n < 24 \<Longrightarrow> arg_tail n = []" for n
    by (simp_all add: arg_tail_def argument_bytes_def be32_def)
  have safe: "n < 65536 \<Longrightarrow> int n \<le> max_safe" for n by (simp add: max_safe_def)
  consider "info < 24" | "info = 24" | "info = 25" | "info = 26" | "info = 27" | "27 < info" by linarith
  then show ?thesis
  proof cases
    case 1
    with tail safe show ?thesis
      by (auto simp: read_argument_def [abs_def] intro: consumes_value)
  next
    case 2
    with tail safe show ?thesis
      by (auto simp: read_argument_def [abs_def] intro: reader.consumes_mono [OF consumes_byte])
  next
    case 3
    have "reader.consumes (\<lambda>r. rbind (read_bytes 2 r) (\<lambda>(b, r). Inr (unat (b ! 0) * 256 + unat (b ! 1), r)))
      (\<lambda>bs n. length bs = 2 \<and> n < 65536)"
      by (intro reader.consumes_bind [OF reader.consumes_get])
         (auto intro!: consumes_value be16_less unat_byte_less)
    with tail safe 3 show ?thesis
      by (auto simp: read_argument_def [abs_def] elim!: reader.consumes_mono)
  next
    case 4
    with tail small_safe show ?thesis
      by (auto simp: read_argument_def [abs_def] intro: reader.consumes_mono [OF consumes_uint32])
  next
    case 5
    with tail big show ?thesis
      by (auto simp: read_argument_def [abs_def] consumes_guard
          intro!: reader.consumes_bind [OF consumes_uint32] consumes_value)
  next
    case 6
    then show ?thesis
      by (auto simp: read_argument_def [abs_def] intro: reader.consumes_fail)
  qed
qed

lemma consumes_length:
  "reader.consumes (read_length info limit)
     (\<lambda>bs n. length (arg_tail n) \<le> length bs \<and> int n \<le> max_safe \<and> n \<le> limit)"
  unfolding read_length_def [abs_def]
  by (auto simp: consumes_guard intro!: reader.consumes_bind [OF consumes_argument]
      consumes_value)

section \<open>Values\<close>

definition good :: "cbor_options \<Rightarrow> nat \<Rightarrow> byte list \<Rightarrow> jsv \<Rightarrow> bool" where
  "good opts d bs v \<longleftrightarrow>
     jsv_ok v \<and> v \<noteq> JUndef \<and> drop_undef v = v \<and> fits bs (encoding opts d v)"

definition good_items :: "cbor_options \<Rightarrow> nat \<Rightarrow> byte list \<Rightarrow> jsv list \<Rightarrow> bool" where
  "good_items opts d bs xs \<longleftrightarrow>
     jsv_ok_items xs \<and> drop_undef_items xs = xs \<and> fits bs (encoding_items opts d xs)"

definition good_entries :: "cbor_options \<Rightarrow> nat \<Rightarrow> byte list \<Rightarrow> props \<Rightarrow> bool" where
  "good_entries opts d bs ps \<longleftrightarrow>
     obj_ordered ps \<and>
     (\<forall>p \<in> set ps. jsv_ok (snd p) \<and> snd p \<noteq> JUndef \<and> drop_undef (snd p) = snd p) \<and>
     fits bs (encoding_entries opts d ps)"

lemma good_items_Cons: "good opts d as x \<Longrightarrow> good_items opts d bs xs \<Longrightarrow> good_items opts d (as @ bs) (x # xs)"
  by (auto simp: good_def good_items_def intro: fits_cat)

lemma encoding_entries_append:
  "encoding_entries opts d (ps @ qs) = cat (encoding_entries opts d ps) (encoding_entries opts d qs)"
  by (induction ps) (auto simp: cat_assoc)

lemma good_entries_put:
  assumes "good_entries opts d as acc" "k \<notin> fst ` set acc" "fits ks (text_bytes opts k)" "good opts d vs v"
  shows "good_entries opts d (as @ ks @ vs) (obj_put k v acc) \<and> length (obj_put k v acc) = Suc (length acc)"
proof -
  let ?P = "\<lambda>p. key_before (fst p) k"
  let ?l = "takeWhile ?P acc" and ?r = "dropWhile ?P acc"
  have len: "length ?l + length ?r = length acc" by (metis length_append takeWhile_dropWhile_id)
  have put: "obj_put k v acc = ?l @ (k, v) # ?r" using assms(2) by (simp add: obj_put_def)
  have ent: "encoding_entries opts d ((k, v) # ?r) =
      cat (text_bytes opts k) (cat (encoding opts d v) (encoding_entries opts d ?r))"
    using assms(4) by (simp add: good_def)
  from assms(1) have "fits as (encoding_entries opts d (?l @ ?r))" by (simp add: good_entries_def)
  with assms(3,4) have "fits (as @ ks @ vs) (encoding_entries opts d (obj_put k v acc))"
    unfolding put encoding_entries_append ent by (auto simp: fits_def good_def cat_Some)
  moreover have "obj_ordered (obj_put k v acc)"
    using assms(1) by (simp add: good_entries_def obj_ordered_put)
  moreover have "\<forall>p \<in> set (obj_put k v acc). jsv_ok (snd p) \<and> snd p \<noteq> JUndef \<and> drop_undef (snd p) = snd p"
    using assms(1,4) by (auto simp: good_entries_def good_def dest!: set_obj_put)
  moreover have "length (obj_put k v acc) = Suc (length acc)"
    unfolding put using len by simp
  ultimately show ?thesis by (simp add: good_entries_def)
qed

lemma drop_undef_props_id:
  "\<forall>p \<in> set ps. snd p \<noteq> JUndef \<and> drop_undef (snd p) = snd p \<Longrightarrow> drop_undef_props ps = ps \<and> live_entries ps = ps"
  by (induction ps) (auto simp: live_entries_def)

lemma argument_bytes_length: "length (argument_bytes m n) = Suc (length (arg_tail n))"
  by (simp add: argument_bytes_info)

lemma number_bytes_fits:
  "int n \<le> max_safe \<Longrightarrow> length (arg_tail n) \<le> length bs \<Longrightarrow> fits (b # bs) (number_bytes (NInt (int n)))"
  "num_safe (NInt (- 1 - int n)) \<Longrightarrow> length (arg_tail n) \<le> length bs \<Longrightarrow>
     fits (b # bs) (number_bytes (NInt (- 1 - int n)))"
  "num_finite k \<Longrightarrow> num_safe k \<or> (\<exists>x. k = NFlt x) \<Longrightarrow> length bs = 8 \<Longrightarrow> fits (b # bs) (number_bytes k)"
proof -
  show "int n \<le> max_safe \<Longrightarrow> length (arg_tail n) \<le> length bs \<Longrightarrow> fits (b # bs) (number_bytes (NInt (int n)))"
    by (simp add: number_bytes_def fits_def argument_bytes_length)
  show "num_safe (NInt (- 1 - int n)) \<Longrightarrow> length (arg_tail n) \<le> length bs \<Longrightarrow>
     fits (b # bs) (number_bytes (NInt (- 1 - int n)))"
    by (simp add: number_bytes_def fits_def argument_bytes_length)
  have "length (arg_tail m) \<le> 8" for m by (simp add: arg_tail_def argument_bytes_def be32_def)
  then show "num_finite k \<Longrightarrow> num_safe k \<or> (\<exists>x. k = NFlt x) \<Longrightarrow> length bs = 8 \<Longrightarrow>
      fits (b # bs) (number_bytes k)"
    by (auto simp: number_bytes_def fits_def argument_bytes_length split: js_num.splits)
qed

lemma num_ok_of_bits: "num_ok (num_of_bits b)"
  by (auto simp: num_of_bits_def split: option.splits)

lemma consumes_float:
  "reader.consumes read_float64 (\<lambda>bs v. \<exists>k. v = JNum k \<and> num_ok k \<and> num_finite k \<and>
     (num_safe k \<or> (\<exists>x. k = NFlt x)) \<and> length bs = 8)"
proof -
  have number: "reader.consumes (\<lambda>r. if \<not> num_finite k then Inl NonFinite
      else (case k of NInt i \<Rightarrow> if \<not> num_safe k then Inl UnsafeInteger else Inr (JNum k, r)
            | NFlt _ \<Rightarrow> Inr (JNum k, r))) (\<lambda>bs v. bs = [] \<and> v = JNum k \<and> num_finite k \<and>
              (num_safe k \<or> (\<exists>x. k = NFlt x)))" for k
    by (cases k) (auto simp: consumes_guard intro!: consumes_value)
  show ?thesis
    unfolding read_float64_def Let_def
    by (rule reader.consumes_bind [OF reader.consumes_get])
       (auto intro!: reader.consumes_mono [OF number] num_ok_of_bits)
qed

lemma consumes_simple:
  assumes "d \<le> maxDepth opts"
  shows "reader.consumes (read_simple info) (\<lambda>bs v. good opts d (b # bs) v)"
proof -
  have "good opts d [b] (JBool False)" "good opts d [b] (JBool True)" "good opts d [b] JNull"
    using assms by (auto simp: good_def fits_def encoding.simps)
  moreover have "good opts d (b # bs) (JNum k)"
    if "num_ok k" "num_finite k" "num_safe k \<or> (\<exists>x. k = NFlt x)" "length bs = 8" for bs k
    using assms that by (auto simp: good_def encoding.simps intro: number_bytes_fits(3))
  ultimately show ?thesis
    by (auto simp: read_simple_def [abs_def] consumes_guard
        intro!: consumes_value reader.consumes_mono [OF consumes_float])
qed

lemma consumes_items:
  assumes "reader.consumes (read_item opts d) (good opts d)"
  shows "reader.consumes (read_items opts d n) (\<lambda>bs xs. good_items opts d bs xs \<and> length xs = n)"
proof (induction n)
  case 0
  then show ?case by (auto intro!: consumes_value simp: good_items_def fits_def)
next
  case (Suc n)
  then show ?case
    by (auto intro!: reader.consumes_bind [OF assms] reader.consumes_bind [OF Suc] consumes_value
        good_items_Cons)
qed

lemma good_text: "good opts d bs (JStr k) \<Longrightarrow> fits bs (text_bytes opts k)"
  by (auto simp: good_def encoding.simps fits_def split: if_splits)

lemma consumes_entries:
  assumes "reader.consumes (read_item opts d) (good opts d)"
  shows "good_entries opts d as acc \<Longrightarrow>
     reader.consumes (read_entries opts d n (fst ` set acc) acc)
       (\<lambda>bs ps. good_entries opts d (as @ bs) ps \<and> length ps = length acc + n)"
proof (induction n arbitrary: as acc)
  case 0
  then show ?case by (auto intro!: consumes_value)
next
  case (Suc n)
  have key: "reader.consumes (\<lambda>r. case key of
         JStr k \<Rightarrow>
           if k \<in> fst ` set acc then Inl DuplicateKey
           else rbind (read_item opts d r) (\<lambda>(v, r).
             read_entries opts d n (insert k (fst ` set acc)) (obj_put k v acc) r)
       | _ \<Rightarrow> Inl NonStringKey)
     (\<lambda>bs ps. good_entries opts d (as @ ks @ bs) ps \<and> length ps = length acc + Suc n)"
    if "good opts d ks key" for key ks
  proof (cases key)
    case (JStr k)
    have rest: "reader.consumes (\<lambda>r. read_entries opts d n (insert k (fst ` set acc)) (obj_put k v acc) r)
       (\<lambda>bs ps. good_entries opts d (as @ ks @ vs @ bs) ps \<and> length ps = length acc + Suc n)"
      if "k \<notin> fst ` set acc" "good opts d vs v" for v vs
    proof -
      note put = good_entries_put [OF Suc.prems that(1) good_text that(2)]
      from \<open>good opts d ks key\<close> JStr have "good opts d ks (JStr k)" by simp
      from put [OF this] Suc.IH [of "as @ ks @ vs" "obj_put k v acc"] show ?thesis
        by (simp add: keys_obj_put)
    qed
    then show ?thesis
      by (auto simp: JStr consumes_guard intro!: reader.consumes_bind [OF assms])
  qed (auto intro: reader.consumes_fail)
  show ?case
    unfolding read_entries.simps [abs_def]
    by (rule reader.consumes_bind [OF assms]) (use key in simp)
qed

lemma consumes_text: "reader.consumes (read_text n) (\<lambda>bs v. \<exists>s. v = JStr s \<and> well_formed s \<and> text_encode s = bs \<and> length bs = n)"
  unfolding read_text_def
proof (rule reader.consumes_bind [OF reader.consumes_get])
  fix b bs :: "byte list"
  assume "b = bs \<and> length bs = n"
  then show "reader.consumes (\<lambda>r. case (b, r) of (b, r) \<Rightarrow>
      case text_decode b of None \<Rightarrow> Inl InvalidUtf8 | Some s \<Rightarrow> Inr (JStr s, r))
    (\<lambda>cs v. \<exists>s. v = JStr s \<and> well_formed s \<and> text_encode s = bs @ cs \<and> length (bs @ cs) = n)"
  proof (cases "text_decode b")
    case (Some s)
    with \<open>b = bs \<and> _\<close> have "well_formed s" "text_encode s = bs" by (simp_all add: text_decode_iff)
    with Some \<open>b = bs \<and> _\<close> show ?thesis by (auto intro!: consumes_value)
  qed (simp add: consumes_Inl)
qed

lemma consumes_switch:
  assumes "limits_ok opts" "d \<le> maxDepth opts"
    and IH: "reader.consumes (read_item opts (d + 1)) (good opts (d + 1))"
  shows "reader.consumes (item_switch opts d m info) (\<lambda>bs. good opts d (b # bs))"
proof -
  consider "m = 0" | "m = 1" | "m = 2" | "m = 3" | "m = 4" | "m = 5" | "m = 6" | "6 < m" by linarith
  then show ?thesis
  proof cases
    case 1
    with assms(2) show ?thesis
      by (auto simp: item_switch_def [abs_def] good_def encoding.simps
          intro!: reader.consumes_bind [OF consumes_argument] consumes_value number_bytes_fits)
  next
    case 2
    with assms(2) show ?thesis
      by (auto simp: item_switch_def [abs_def] consumes_guard good_def encoding.simps
          simp del: num_safe.simps
          intro!: reader.consumes_bind [OF consumes_argument] consumes_value number_bytes_fits)
  next
    case 3
    with assms(2) show ?thesis
      by (auto simp: item_switch_def [abs_def] good_def encoding.simps fits_def argument_bytes_length
          intro!: reader.consumes_bind [OF consumes_length] reader.consumes_bind [OF reader.consumes_get]
            consumes_value)
  next
    case 4
    with assms(2) show ?thesis
      by (auto simp: item_switch_def [abs_def] good_def encoding.simps fits_def argument_bytes_length
            text_bytes_def
          intro!: reader.consumes_bind [OF consumes_length] reader.consumes_mono [OF consumes_text])
  next
    case 5
    with assms(2) show ?thesis
      by (auto simp: item_switch_def [abs_def] good_def good_items_def encoding.simps fits_def cat_Some
            argument_bytes_length
          intro!: reader.consumes_bind [OF consumes_length]
            reader.consumes_bind [OF consumes_items [OF IH, simplified]] consumes_value)
  next
    case 6
    have "good_entries opts (d + 1) [] []"
      by (simp add: good_entries_def obj_ordered_def fits_def)
    note entries = consumes_entries [OF IH this, simplified]
    from 6 assms(2) show ?thesis
      by (auto simp: item_switch_def [abs_def] good_def good_entries_def encoding.simps fits_def cat_Some
            argument_bytes_length jsv_ok_props_iff drop_undef_props_id
          intro!: reader.consumes_bind [OF consumes_length] reader.consumes_bind [OF entries] consumes_value)
  next
    case 7
    then show ?thesis by (simp add: item_switch_def [abs_def] consumes_Inl)
  next
    case 8
    then show ?thesis using consumes_simple [OF assms(2)] by (simp add: item_switch_def [abs_def])
  qed
qed

lemma consumes_item: "limits_ok opts \<Longrightarrow> reader.consumes (read_item opts d) (good opts d)"
proof (induction "maxDepth opts + 1 - d" arbitrary: d rule: less_induct)
  case less
  show ?case
  proof (cases "maxDepth opts < d")
    case True
    then show ?thesis by (auto intro: reader.consumes_fail simp: read_item.simps)
  next
    case False
    then have "reader.consumes (read_item opts (d + 1)) (good opts (d + 1))"
      using less by simp
    with less.prems False have switch: "reader.consumes (item_switch opts d m info) (\<lambda>cs. good opts d (bs @ cs))"
      if "length bs = 1" for m info bs
      using that consumes_switch [of opts d m info "hd bs"] by (cases bs) auto
    from False show ?thesis
      by (auto simp: read_item_switch [abs_def] intro!: reader.consumes_bind [OF consumes_byte] switch)
  qed
qed

text \<open>
  C35.  Every value that \<open>decodeCbor\<close> returns is accepted by \<open>encodeCbor\<close> under the same options,
  takes no more bytes than it was decoded from, and comes back unchanged from those bytes.
\<close>

theorem decode_reencodes:
  assumes "decode_cbor c bs = Inr v"
  shows "\<exists>es. encode_cbor c v = Inr es \<and> length es \<le> length bs \<and> decode_cbor c es = Inr v"
proof -
  from assms obtain opts r where opts: "resolve_options c = Inr opts"
    and r: "read_item opts 0 \<lparr>r_bytes = bs, r_offset = 0\<rparr> = Inr (v, r)"
      "length bs \<le> maxByteLength opts"
    by (auto simp: decode_cbor_def res_simps split: if_splits)
  from reader.consumesD [OF consumes_item [OF resolve_options_limits [OF opts]] _ r(1)]
  obtain cs where "bs = cs @ unread r" "good opts 0 cs v" by (auto simp: reader_ok_def unread_def)
  then obtain es where "encoding opts 0 v = Some es" "length es \<le> length bs" "jsv_ok v" "drop_undef v = v"
    by (auto simp: good_def fits_def)
  with opts r(2) have "encode_cbor c v = Inr es" by (auto simp: encode_cbor_iff)
  with decode_encode [OF \<open>jsv_ok v\<close> this] \<open>drop_undef v = v\<close> \<open>length es \<le> length bs\<close>
  show ?thesis by simp
qed

text \<open>A decoder input in a longer form than the encoder would choose.\<close>

lemma sample_decoding: "decode_cbor sample_config [24, 5] = Inr (JNum (NInt 5))"
  by (simp add: decode_cbor_def sample_config_def resolve_options_def resolve_limit_def
      CBOR_MAX_UINT32_def MAX_CONFIGURED_DEPTH_def DEFAULT_MAX_CBOR_CONTAINER_LENGTH_def
      read_item.simps read_byte_def read_argument_def)

theorem decode_reencodes_witness:
  "\<exists>es. encode_cbor sample_config (JNum (NInt 5)) = Inr es \<and> length es \<le> 2 \<and>
     decode_cbor sample_config es = Inr (JNum (NInt 5))"
  using decode_reencodes [OF sample_decoding] by (simp add: numeral_2_eq_2)

end
