(* ===== verification/Codec.thy ===== *)
theory Codec
  imports Framing CborCanonical
begin

text \<open>
  \<open>packages/protocol/src/codec.ts\<close>: validated messages over frames.  The TypeBox test
  \<open>Check(ClientMessageSchema, _)\<close> or \<open>Check(ServerMessageSchema, _)\<close> comes from a package and is the
  parameter \<open>check\<close>.  The text of an error is not kept, its cause is.  The message decoder is a
  second provider of the interface of incremental decoders, up to which error is reported first.
\<close>

datatype party = Client | Server

datatype failure = CborFailure cbor_error | FrameFailure frame_error

datatype protocol_error =
    InvalidMessage party
  | UnableToEncode party failure
  | DecoderHasFailed party
  | InvalidFrame party failure
  | InvalidFraming party failure

definition PROTOCOL_VERSION :: int where
  "PROTOCOL_VERSION = 8"

definition parse_client_message :: "(jsv \<Rightarrow> bool) \<Rightarrow> jsv \<Rightarrow> protocol_error + jsv" where
  "parse_client_message check v =
     (if \<not> check v \<or> \<not> is_json_value v then Inl (InvalidMessage Client) else Inr v)"

definition parse_server_message :: "(jsv \<Rightarrow> bool) \<Rightarrow> jsv \<Rightarrow> protocol_error + jsv" where
  "parse_server_message check v =
     (if \<not> check v \<or> \<not> is_json_value v then Inl (InvalidMessage Server) else Inr v)"

text \<open>The text of a wrapped error; \<open>None\<close> is a thrown value that is not an \<open>Error\<close>.\<close>

definition bounded_error_message :: "js_string option \<Rightarrow> js_string" where
  "bounded_error_message err =
     (case err of
        None \<Rightarrow> js ''Unknown codec error''
      | Some message \<Rightarrow> if length message \<le> 500 then message else take 497 message @ js ''...'')"

definition frame_limit :: "int option \<Rightarrow> int" where
  "frame_limit opt = (case opt of None \<Rightarrow> int DEFAULT_MAX_FRAME_LENGTH | Some v \<Rightarrow> v)"

definition byte_limit :: "int \<Rightarrow> cbor_config" where
  "byte_limit m = \<lparr>opt_maxByteLength = Some m, opt_maxContainerLength = None, opt_maxDepth = None\<rparr>"

definition wrap_error :: "('e \<Rightarrow> 'f) \<Rightarrow> 'e + 'a \<Rightarrow> 'f + 'a" where
  "wrap_error f r = map_sum f id r"

definition encode_protocol_message :: "(jsv \<Rightarrow> protocol_error + jsv) \<Rightarrow> party \<Rightarrow> int option \<Rightarrow> jsv
    \<Rightarrow> protocol_error + byte list" where
  "encode_protocol_message parse kind opt v =
     rbind (parse v) (\<lambda>validated.
     rbind (wrap_error (\<lambda>e. UnableToEncode kind (CborFailure e))
              (encode_cbor (byte_limit (frame_limit opt)) validated)) (\<lambda>payload.
     wrap_error (\<lambda>e. UnableToEncode kind (FrameFailure e)) (encode_frame payload)))"

definition encode_client_message :: "(jsv \<Rightarrow> bool) \<Rightarrow> int option \<Rightarrow> jsv \<Rightarrow> protocol_error + byte list" where
  "encode_client_message check opt v = encode_protocol_message (parse_client_message check) Client opt v"

definition encode_server_message :: "(jsv \<Rightarrow> bool) \<Rightarrow> int option \<Rightarrow> jsv \<Rightarrow> protocol_error + byte list" where
  "encode_server_message check opt v = encode_protocol_message (parse_server_message check) Server opt v"

record message_decoder =
  md_failed :: bool
  md_frames :: frame_decoder
  md_kind :: party
  md_limit :: int

definition new_message_decoder :: "party \<Rightarrow> int option \<Rightarrow> frame_error + message_decoder" where
  "new_message_decoder kind opt =
     rbind (new_decoder opt) (\<lambda>frames. Inr
       \<lparr>md_failed = False, md_frames = frames, md_kind = kind, md_limit = frame_limit opt\<rparr>)"

text \<open>Decoding and validating one frame; a validation error passes through unwrapped.\<close>

definition decode_message :: "(jsv \<Rightarrow> protocol_error + jsv) \<Rightarrow> party \<Rightarrow> int \<Rightarrow> byte list
    \<Rightarrow> protocol_error + jsv" where
  "decode_message parse kind limit frame =
     rbind (wrap_error (\<lambda>e. InvalidFrame kind (CborFailure e)) (decode_cbor (byte_limit limit) frame)) parse"

definition message_push :: "(jsv \<Rightarrow> protocol_error + jsv) \<Rightarrow> message_decoder \<Rightarrow> byte list
    \<Rightarrow> (message_decoder \<times> (protocol_error + jsv list)) option" where
  "message_push parse d chunk =
     (if md_failed d then Some (d, Inl (DecoderHasFailed (md_kind d)))
      else (case frame_push (md_frames d) chunk of
              None \<Rightarrow> None
            | Some (frames, r) \<Rightarrow>
                (case rbind (wrap_error (\<lambda>e. InvalidFrame (md_kind d) (FrameFailure e)) r)
                        (rmap (decode_message parse (md_kind d) (md_limit d))) of
                   Inl e \<Rightarrow> Some (d\<lparr>md_frames := frames, md_failed := True\<rparr>, Inl e)
                 | Inr ms \<Rightarrow> Some (d\<lparr>md_frames := frames\<rparr>, Inr ms))))"

definition message_end :: "message_decoder \<Rightarrow> message_decoder \<times> (protocol_error + unit)" where
  "message_end d =
     (if md_failed d then (d, Inl (DecoderHasFailed (md_kind d)))
      else (case frame_end (md_frames d) of
              (frames, Inl e) \<Rightarrow>
                (d\<lparr>md_frames := frames, md_failed := True\<rparr>, Inl (InvalidFraming (md_kind d) (FrameFailure e)))
            | (frames, Inr u) \<Rightarrow> (d\<lparr>md_frames := frames\<rparr>, Inr u)))"

definition client_decoder_push :: "(jsv \<Rightarrow> bool) \<Rightarrow> message_decoder \<Rightarrow> byte list
    \<Rightarrow> (message_decoder \<times> (protocol_error + jsv list)) option" where
  "client_decoder_push check d chunk = message_push (parse_client_message check) d chunk"

definition server_decoder_push :: "(jsv \<Rightarrow> bool) \<Rightarrow> message_decoder \<Rightarrow> byte list
    \<Rightarrow> (message_decoder \<times> (protocol_error + jsv list)) option" where
  "server_decoder_push check d chunk = message_push (parse_server_message check) d chunk"

definition is_supported_protocol_version :: "js_num \<Rightarrow> bool" where
  "is_supported_protocol_version n = (n = NInt PROTOCOL_VERSION)"

section \<open>The specification and the interface\<close>

definition erase :: "'e + 'a \<Rightarrow> unit + 'a" where
  "erase r = map_sum (\<lambda>_. ()) id r"

lemma erase_simps [simp]: "erase (Inl e) = Inl ()" "erase (Inr a) = Inr a"
  by (simp_all add: erase_def)

lemma erase_wrap [simp]: "erase (wrap_error f r) = erase r"
  by (cases r) (simp_all add: wrap_error_def)

lemma erase_eq [simp]: "erase r = Inr a \<longleftrightarrow> r = Inr a" "erase r = Inl u \<longleftrightarrow> (\<exists>e. r = Inl e)"
  by (cases r; simp)+

lemma erase_rbind: "erase (rbind r f) = rbind (erase r) (\<lambda>a. erase (f a))"
  by (cases r) simp_all

text \<open>A whole byte sequence cut into the messages of its complete frames and the rest.\<close>

definition message_cut :: "(jsv \<Rightarrow> protocol_error + jsv) \<Rightarrow> party \<Rightarrow> nat \<Rightarrow> byte list
    \<Rightarrow> unit + (jsv list \<times> byte list)" where
  "message_cut parse kind m bs =
     rbind (erase (split_frames m bs)) (\<lambda>(fs, r).
     rbind (erase (rmap (decode_message parse kind (int m)) fs)) (\<lambda>ms. Inr (ms, r)))"

definition message_inv :: "party \<Rightarrow> nat \<Rightarrow> message_decoder \<Rightarrow> bool" where
  "message_inv kind m d \<longleftrightarrow>
     \<not> md_failed d \<and> md_kind d = kind \<and> md_limit d = int m \<and>
     decoder_inv (md_frames d) \<and> state (md_frames d) = Open \<and> maxFrameLength (md_frames d) = m"

definition erased_push :: "(jsv \<Rightarrow> protocol_error + jsv) \<Rightarrow> message_decoder \<Rightarrow> byte list
    \<Rightarrow> (message_decoder \<times> (unit + jsv list)) option" where
  "erased_push parse d chunk = map_option (map_prod id erase) (message_push parse d chunk)"

lemma rmap_append: "rmap f (xs @ ys) = rbind (rmap f xs) (\<lambda>us. rbind (rmap f ys) (\<lambda>vs. Inr (us @ vs)))"
proof (induction xs)
  case Nil
  show ?case by (cases "rmap f ys") simp_all
next
  case (Cons x xs)
  then show ?case by (cases "f x"; cases "rmap f xs"; cases "rmap f ys") simp_all
qed

interpretation messages: incremental_decoder "message_inv kind m" "\<lambda>d. pending (md_frames d)"
  "erased_push parse" "message_cut parse kind m" for kind m parse
proof
  fix d chunk
  assume inv: "message_inv kind m d"
  then have fr: "decoder_inv (md_frames d) \<and> state (md_frames d) = Open \<and> maxFrameLength (md_frames d) = m"
    by (simp add: message_inv_def)
  let ?f = "decode_message parse kind (int m)"
  show "case message_cut parse kind m (pending (md_frames d) @ chunk) of
      Inl e \<Rightarrow> \<exists>d'. erased_push parse d chunk = Some (d', Inl e)
    | Inr (fs, rest) \<Rightarrow> \<exists>d'. erased_push parse d chunk = Some (d', Inr fs) \<and>
        message_inv kind m d' \<and> pending (md_frames d') = rest"
  proof (cases "split_frames m (pending (md_frames d) @ chunk)")
    case (Inl e)
    with frames.push_cut [OF fr, of chunk] obtain d' where "frame_push (md_frames d) chunk = Some (d', Inl e)"
      by auto
    with inv Inl show ?thesis
      by (simp add: message_cut_def erased_push_def message_push_def message_inv_def wrap_error_def)
  next
    case (Inr q)
    then obtain fs rest where q: "split_frames m (pending (md_frames d) @ chunk) = Inr (fs, rest)"
      by (cases q) auto
    with frames.push_cut [OF fr, of chunk] obtain d'
      where "frame_push (md_frames d) chunk = Some (d', Inr fs)" "decoder_inv d'" "state d' = Open"
        "maxFrameLength d' = m" "pending d' = rest" by auto
    with inv q show ?thesis
      by (cases "rmap ?f fs")
         (simp_all add: message_cut_def erased_push_def message_push_def message_inv_def wrap_error_def)
  qed
next
  fix d
  assume "message_inv kind m d"
  then show "message_cut parse kind m (pending (md_frames d)) = Inr ([], pending (md_frames d))"
    using frames.cut_pending [of "md_frames d" m] by (simp add: message_inv_def message_cut_def)
next
  fix a b fs r
  assume "message_cut parse kind m a = Inr (fs, r)"
  then obtain gs where gs: "split_frames m a = Inr (gs, r)" "rmap (decode_message parse kind (int m)) gs = Inr fs"
    by (auto simp: message_cut_def res_simps)
  with split_frames_append [OF gs(1), of b]
  show "message_cut parse kind m (a @ b) =
      rbind (message_cut parse kind m (r @ b)) (\<lambda>(gs, q). Inr (fs @ gs, q))"
    by (cases "split_frames m (r @ b)")
       (auto simp: message_cut_def rmap_append gs(2) erase_rbind rbind_assoc split_beta)
next
  fix a b e
  assume "message_cut parse kind m a = Inl e"
  show "message_cut parse kind m (a @ b) = Inl e"
  proof (cases "split_frames m a")
    case (Inl x)
    then show ?thesis by (simp add: message_cut_def split_frames_error)
  next
    case (Inr q)
    then obtain fs r where q: "split_frames m a = Inr (fs, r)" by (cases q) auto
    with \<open>message_cut parse kind m a = Inl e\<close>
    obtain x where x: "rmap (decode_message parse kind (int m)) fs = Inl x"
      by (auto simp: message_cut_def res_simps)
    show ?thesis
      by (cases "split_frames m (r @ b)")
         (auto simp: message_cut_def split_frames_append [OF q] rmap_append x)
  qed
qed

section \<open>Message streams\<close>

lemma push_all_erased:
  "push_all (erased_push parse) d cs = map_option (map_prod id erase) (push_all (message_push parse) d cs)"
proof (induction cs arbitrary: d)
  case (Cons c cs)
  show ?case
  proof (cases "message_push parse d c")
    case (Some p)
    then obtain d' r where p: "message_push parse d c = Some (d', r)" by (cases p) auto
    show ?thesis
    proof (cases r)
      case (Inr ms)
      with p Cons [of d'] show ?thesis
        by (cases "push_all (message_push parse) d' cs")
           (auto simp: erased_push_def erase_rbind split: option.splits)
    qed (use p in \<open>simp add: erased_push_def\<close>)
  qed (simp add: erased_push_def)
qed simp

lemma new_message_decoder_inv:
  assumes "new_message_decoder kind opt = Inr d"
  shows "\<exists>m. message_inv kind m d \<and> pending (md_frames d) = [] \<and> frame_limit opt = int m \<and> m \<le> MAX_UINT32"
proof -
  from assms obtain f where f: "new_decoder opt = Inr f"
    and d: "d = \<lparr>md_failed = False, md_frames = f, md_kind = kind, md_limit = frame_limit opt\<rparr>"
    by (auto simp: new_message_decoder_def res_simps)
  from f have "frame_limit opt = int (maxFrameLength f)"
    using new_decoder_props [OF f]
    by (auto simp: new_decoder_def resolve_max_frame_length_def res_simps Let_def frame_limit_def
        split: if_splits option.splits)
  with new_decoder_props [OF f] d show ?thesis by (auto simp: message_inv_def)
qed

lemma message_end_empty:
  assumes "message_inv kind m d" "pending (md_frames d) = []"
  shows "snd (message_end d) = Inr ()"
proof -
  from assms have "expectedPayloadLength (md_frames d) = None" "headerLength (md_frames d) = 0"
    by (auto simp: message_inv_def decoder_inv_def pending_def split: option.splits)
  with assms(1) show ?thesis by (simp add: message_end_def message_inv_def frame_end_def)
qed

text \<open>A parser that lets through JSON values and changes none.\<close>

definition validator :: "(jsv \<Rightarrow> protocol_error + jsv) \<Rightarrow> bool" where
  "validator parse \<longleftrightarrow> (\<forall>v w. parse v = Inr w \<longrightarrow> w = v \<and> is_json_value v)"

lemma validator_client: "validator (parse_client_message check)"
  by (simp add: validator_def parse_client_message_def)

lemma validator_server: "validator (parse_server_message check)"
  by (simp add: validator_def parse_server_message_def)

lemma encode_message_decodes:
  assumes "validator parse" "jsv_ok v" "encode_protocol_message parse kind opt v = Inr f"
    and "frame_limit opt = int m"
  shows "\<exists>p. encode_frame p = Inr f \<and> length p \<le> m \<and> decode_message parse kind (int m) p = Inr v"
proof -
  from assms(3) obtain w p where w: "parse v = Inr w" and p: "encode_cbor (byte_limit (int m)) w = Inr p"
    and f: "encode_frame p = Inr f"
    unfolding encode_protocol_message_def assms(4)
    by (cases "parse v"; cases "encode_cbor (byte_limit (int m)) (projr (parse v))")
       (auto simp: wrap_error_def map_sum_def split: sum.splits)
  from assms(1) w have v: "w = v" "drop_undef v = v" by (auto simp: validator_def drop_undef_json)
  with decode_encode [OF assms(2)] p have "decode_cbor (byte_limit (int m)) p = Inr v" by simp
  moreover from p have "length p \<le> m"
    by (auto simp: encode_cbor_iff byte_limit_def resolve_options_def resolve_limit_def res_simps
        split: if_splits)
  ultimately show ?thesis using f w v by (auto simp: decode_message_def wrap_error_def)
qed

lemma encode_messages_cut:
  assumes "validator parse" "\<forall>v \<in> set vs. jsv_ok v" "rmap (encode_protocol_message parse kind opt) vs = Inr fs"
    and "frame_limit opt = int m"
  shows "message_cut parse kind m (concat fs) = Inr (vs, [])"
proof -
  have "\<exists>ps. rmap encode_frame ps = Inr fs \<and> (\<forall>p \<in> set ps. length p \<le> m) \<and>
      rmap (decode_message parse kind (int m)) ps = Inr vs"
    using assms(2,3)
  proof (induction vs arbitrary: fs)
    case Nil
    then show ?case by (auto intro!: exI [of _ "[]"])
  next
    case (Cons v vs)
    then obtain g gs where fs: "fs = g # gs" and g: "encode_protocol_message parse kind opt v = Inr g"
      and gs: "rmap (encode_protocol_message parse kind opt) vs = Inr gs"
      by (auto simp: res_simps)
    from Cons.prems(1) encode_message_decodes [OF assms(1) _ g assms(4)] obtain p
      where "encode_frame p = Inr g" "length p \<le> m" "decode_message parse kind (int m) p = Inr v" by auto
    moreover from Cons.IH [OF _ gs] Cons.prems(1) obtain ps
      where "rmap encode_frame ps = Inr gs" "\<forall>p \<in> set ps. length p \<le> m"
        "rmap (decode_message parse kind (int m)) ps = Inr vs" by auto
    ultimately show ?case by (auto simp: fs intro!: exI [of _ "p # ps"])
  qed
  then show ?thesis by (auto simp: message_cut_def encode_frames_split)
qed

lemma message_stream:
  assumes "validator parse" "new_message_decoder kind opt = Inr d" "\<forall>v \<in> set vs. jsv_ok v"
    and "rmap (encode_protocol_message parse kind opt) vs = Inr fs" "concat chunks = concat fs"
  shows "\<exists>d'. push_all (message_push parse) d chunks = Some (d', Inr vs) \<and> snd (message_end d') = Inr ()"
proof -
  from new_message_decoder_inv [OF assms(2)] obtain m
    where m: "message_inv kind m d" "pending (md_frames d) = []" "frame_limit opt = int m" by blast
  from encode_messages_cut [OF assms(1,3,4) m(3)] assms(5) m(2)
  have "message_cut parse kind m (pending (md_frames d) @ concat chunks) = Inr (vs, [])" by simp
  from messages.push_all_Inr [OF m(1) this] show ?thesis
    by (auto simp: push_all_erased message_end_empty)
qed

text \<open>
  C12.  Client messages survive the wire: if \<open>encodeClientMessage\<close> accepts a sequence of messages, a
  new \<open>ClientMessageDecoder\<close> with the same options returns exactly these messages, in order, from
  their concatenated bytes, however the stream is divided into chunks, and \<open>end\<close> accepts it.
\<close>

theorem client_messages_roundtrip:
  assumes "new_message_decoder Client opt = Inr d" "\<forall>v \<in> set vs. jsv_ok v"
    and "rmap (encode_client_message check opt) vs = Inr fs" "concat chunks = concat fs"
  shows "\<exists>d'. push_all (client_decoder_push check) d chunks = Some (d', Inr vs) \<and>
    snd (message_end d') = Inr ()"
  using message_stream [OF validator_client assms(1,2), of check fs chunks] assms(3,4)
  unfolding encode_client_message_def [abs_def] client_decoder_push_def [abs_def] by simp

text \<open>Server messages survive the wire in the same way.\<close>

theorem server_messages_roundtrip:
  assumes "new_message_decoder Server opt = Inr d" "\<forall>v \<in> set vs. jsv_ok v"
    and "rmap (encode_server_message check opt) vs = Inr fs" "concat chunks = concat fs"
  shows "\<exists>d'. push_all (server_decoder_push check) d chunks = Some (d', Inr vs) \<and>
    snd (message_end d') = Inr ()"
  using message_stream [OF validator_server assms(1,2), of check fs chunks] assms(3,4)
  unfolding encode_server_message_def [abs_def] server_decoder_push_def [abs_def] by simp

text \<open>
  Chunk boundaries do not matter for any byte stream, valid or not: two divisions of the same
  bytes give the same messages, or both give an error.
\<close>

theorem client_chunking:
  assumes "new_message_decoder Client opt = Inr d" "concat cs = concat cs'"
  shows "\<exists>r. map_option (\<lambda>p. erase (snd p)) (push_all (client_decoder_push check) d cs) = Some r \<and>
    map_option (\<lambda>p. erase (snd p)) (push_all (client_decoder_push check) d cs') = Some r"
proof -
  let ?parse = "parse_client_message check"
  have push: "client_decoder_push check = message_push ?parse"
    by (simp add: client_decoder_push_def [abs_def])
  from new_message_decoder_inv [OF assms(1)] obtain m where m: "message_inv Client m d" by blast
  have key: "map_option (\<lambda>p. erase (snd p)) (push_all (message_push ?parse) d xs) =
      Some (rbind (message_cut ?parse Client m (pending (md_frames d) @ concat xs)) (\<lambda>p. Inr (fst p)))" for xs
    using messages.push_all_cut [OF m, of ?parse xs]
    by (cases "push_all (message_push ?parse) d xs")
       (auto simp: push_all_erased split: sum.splits)
  show ?thesis
    unfolding push by (intro exI conjI, rule key, subst assms(2), rule key)
qed

text \<open>
  C37.  A decoder hands out validated strict JSON only, and a decoder that has reported an error
  keeps refusing every later chunk and the end of the stream.
\<close>

theorem client_decoder_safe:
  assumes "client_decoder_push check d chunk = Some (d', r)"
  shows "case r of
      Inr ms \<Rightarrow> \<forall>v \<in> set ms. check v \<and> is_json_value v
    | Inl _ \<Rightarrow> md_failed d' \<and> snd (message_end d') = Inl (DecoderHasFailed (md_kind d')) \<and>
        (\<forall>c. client_decoder_push check d' c = Some (d', Inl (DecoderHasFailed (md_kind d'))))"
proof -
  have "check v \<and> is_json_value v" if "v \<in> set ms" "rmap (decode_message (parse_client_message check) k m) fs = Inr ms"
    for v ms k m fs
    using that
    by (induction fs arbitrary: ms)
       (auto simp: decode_message_def parse_client_message_def res_simps split: if_splits)
  with assms show ?thesis
    by (auto simp: client_decoder_push_def message_push_def message_end_def res_simps
        split: if_splits option.splits sum.splits)
qed

section \<open>Witnesses\<close>

definition sample_check :: "jsv \<Rightarrow> bool" where
  "sample_check v = (case v of JObj ps \<Rightarrow> obj_get ps (js ''t'') \<noteq> None | _ \<Rightarrow> False)"

definition sample_message :: jsv where
  "sample_message = JObj [(js ''t'', JBool True)]"

lemma sample_bytes: "encode_cbor (byte_limit 8) sample_message = Inr [161, 97, 116, 245]"
  by (simp add: sample_message_def encode_cbor_iff byte_limit_def resolve_options_def resolve_limit_def
      CBOR_MAX_UINT32_def MAX_CONFIGURED_DEPTH_def DEFAULT_MAX_CBOR_CONTAINER_LENGTH_def
      DEFAULT_MAX_CBOR_DEPTH_def encoding.simps live_entries_def text_bytes_def text_encode_def
      high_surrogate_def low_surrogate_def surrogate_def utf8_bytes_def u8_def cat_def
      argument_bytes_def)

lemma sample_valid: "sample_check sample_message" "is_json_value sample_message" "jsv_ok sample_message"
  by (simp_all add: sample_check_def sample_message_def obj_ordered_def)

lemma sample_encoded:
  "encode_client_message sample_check (Some 8) sample_message = Inr [0, 0, 0, 4, 161, 97, 116, 245]"
  "encode_server_message sample_check (Some 8) sample_message = Inr [0, 0, 0, 4, 161, 97, 116, 245]"
  using sample_bytes sample_valid
  by (simp_all add: encode_client_message_def encode_server_message_def encode_protocol_message_def
      parse_client_message_def parse_server_message_def frame_limit_def wrap_error_def encode_frame_def
      MAX_UINT32_def u8_def)

lemma sample_decoder: "\<exists>d. new_message_decoder kind (Some 8) = Inr d"
  by (simp add: new_message_decoder_def new_decoder_def resolve_max_frame_length_def MAX_UINT32_def)

theorem client_messages_roundtrip_witness:
  "\<exists>d d'. new_message_decoder Client (Some 8) = Inr d \<and>
     push_all (client_decoder_push sample_check) d [[0, 0, 0], [4, 161, 97, 116], [245]] =
       Some (d', Inr [sample_message]) \<and> snd (message_end d') = Inr ()"
proof -
  obtain d where d: "new_message_decoder Client (Some 8) = Inr d" using sample_decoder by blast
  from client_messages_roundtrip [OF d, of "[sample_message]" sample_check
      "[[0, 0, 0, 4, 161, 97, 116, 245]]" "[[0, 0, 0], [4, 161, 97, 116], [245]]"]
  show ?thesis using d by (auto simp: sample_encoded sample_valid simp del: push_all.simps)
qed

theorem server_messages_roundtrip_witness:
  "\<exists>d d'. new_message_decoder Server (Some 8) = Inr d \<and>
     push_all (server_decoder_push sample_check) d [[0, 0, 0], [4, 161, 97, 116], [245]] =
       Some (d', Inr [sample_message]) \<and> snd (message_end d') = Inr ()"
proof -
  obtain d where d: "new_message_decoder Server (Some 8) = Inr d" using sample_decoder by blast
  from server_messages_roundtrip [OF d, of "[sample_message]" sample_check
      "[[0, 0, 0, 4, 161, 97, 116, 245]]" "[[0, 0, 0], [4, 161, 97, 116], [245]]"]
  show ?thesis using d by (auto simp: sample_encoded sample_valid simp del: push_all.simps)
qed

theorem client_chunking_witness:
  "\<exists>d r. new_message_decoder Client (Some 8) = Inr d \<and>
     map_option (\<lambda>p. erase (snd p)) (push_all (client_decoder_push sample_check) d [[0, 0, 1], [0]]) = Some r \<and>
     map_option (\<lambda>p. erase (snd p)) (push_all (client_decoder_push sample_check) d [[0], [0, 1, 0]]) = Some r"
proof -
  obtain d where d: "new_message_decoder Client (Some 8) = Inr d" using sample_decoder by blast
  from client_chunking [OF d, of "[[0, 0, 1], [0]]" "[[0], [0, 1, 0]]" sample_check] d show ?thesis
    by (auto simp del: push_all.simps)
qed

theorem client_decoder_safe_witness:
  "\<exists>d d'. new_message_decoder Client (Some 0) = Inr d \<and>
     client_decoder_push sample_check d [0, 0, 0, 1] = Some (d', Inl (InvalidFrame Client (FrameFailure (FrameTooLong 1 0)))) \<and>
     md_failed d' \<and> client_decoder_push sample_check d' [] = Some (d', Inl (DecoderHasFailed Client))"
proof -
  obtain d where d: "new_message_decoder Client (Some 0) = Inr d"
    by (simp add: new_message_decoder_def new_decoder_def resolve_max_frame_length_def MAX_UINT32_def)
  then obtain d' where d': "client_decoder_push sample_check d [0, 0, 0, 1] =
      Some (d', Inl (InvalidFrame Client (FrameFailure (FrameTooLong 1 0))))" "md_kind d' = Client"
    by (auto simp: new_message_decoder_def new_decoder_def resolve_max_frame_length_def MAX_UINT32_def
        client_decoder_push_def message_push_def frame_push_def frame_pass_def FRAME_HEADER_LENGTH_def
        byte_set_def header_value_def wrap_error_def)
  from client_decoder_safe [OF d'(1)] d d' show ?thesis by auto
qed

end
