(* ===== verification/DeltaOps.thy ===== *)
theory DeltaOps
  imports JsValue
begin

text \<open>
  \<open>packages/chord/src/delta/index.ts\<close>: the operations on plain JSON, their validators
  \<open>assertValidOp\<close> and \<open>assertValidWireOp\<close>, and the applier.  Operations are tuples in the code; the
  datatype \<open>op\<close> is the declared type and \<open>op_value\<close> the tuple itself, which the validators inspect as
  an arbitrary value.  A container is updated in place in the code; on trees this is the replacement
  of one subtree (\<open>update_at\<close>).  Values are JSON, so the prototype chain has no counterpart beyond the
  reserved segments, and a numeric segment is below \<open>10 ^ 21\<close>, where its text is its decimal digits.
\<close>

section \<open>Operations\<close>

datatype seg = SStr js_string | SNum js_num

type_synonym path = "seg list"

datatype op =
    OpR jsv
  | OpS path jsv
  | OpD path
  | OpA path js_string
  | OpT path js_num
  | OpP path js_num js_num "jsv list"
  | OpM path "js_num list"

fun seg_value :: "seg \<Rightarrow> jsv" where
  "seg_value (SStr s) = JStr s"
| "seg_value (SNum n) = JNum n"

definition path_value :: "path \<Rightarrow> jsv" where
  "path_value p = JArr (map seg_value p)"

fun op_value :: "op \<Rightarrow> jsv" where
  "op_value (OpR v) = JArr [JStr (js ''r''), v]"
| "op_value (OpS p v) = JArr [JStr (js ''s''), path_value p, v]"
| "op_value (OpD p) = JArr [JStr (js ''d''), path_value p]"
| "op_value (OpA p s) = JArr [JStr (js ''a''), path_value p, JStr s]"
| "op_value (OpT p n) = JArr [JStr (js ''t''), path_value p, JNum n]"
| "op_value (OpP p i r xs) = JArr [JStr (js ''p''), path_value p, JNum i, JNum r, JArr xs]"
| "op_value (OpM p ks) = JArr [JStr (js ''m''), path_value p, JArr (map JNum ks)]"

definition is_replace :: "op \<Rightarrow> bool" where
  "is_replace x = (case x of OpR _ \<Rightarrow> True | _ \<Rightarrow> False)"

definition is_base :: "op list \<Rightarrow> bool" where
  "is_base ops = (case ops of [] \<Rightarrow> False | x # _ \<Rightarrow> is_replace x)"

section \<open>Validators\<close>

datatype delta_error =
    NotATuple
  | BadShape string
  | UnknownVerb
  | PathNotArray
  | EmptyPath
  | UnsafePath jsv
  | BadPermutation
  | BadPathId
  | PathError path
  | UnknownPathId nat

definition RESERVED_SEGMENTS :: "js_string list" where
  "RESERVED_SEGMENTS = [js ''__proto__'', js ''constructor'', js ''prototype'']"

fun assert_safe_path :: "jsv list \<Rightarrow> delta_error + unit" where
  "assert_safe_path [] = Inr ()"
| "assert_safe_path (JStr s # ps) =
     (if s \<in> set RESERVED_SEGMENTS then Inl (UnsafePath (JStr s)) else assert_safe_path ps)"
| "assert_safe_path (JNum n # ps) =
     (if num_index n = None then Inl (UnsafePath (JNum n)) else assert_safe_path ps)"
| "assert_safe_path (v # ps) = Inl (UnsafePath v)"

definition assert_path_arg :: "jsv \<Rightarrow> bool \<Rightarrow> delta_error + unit" where
  "assert_path_arg p nonempty =
     (case p of
        JArr segs \<Rightarrow> if nonempty \<and> segs = [] then Inl EmptyPath else assert_safe_path segs
      | _ \<Rightarrow> Inl PathNotArray)"

text \<open>\<open>Number.isInteger(v) && v >= 0\<close> on an arbitrary value.\<close>

definition natural :: "jsv \<Rightarrow> nat option" where
  "natural v = (case v of JNum n \<Rightarrow> num_index n | _ \<Rightarrow> None)"

fun permutation_loop :: "nat \<Rightarrow> jsv list \<Rightarrow> bool list \<Rightarrow> delta_error + unit" where
  "permutation_loop len [] seen = Inr ()"
| "permutation_loop len (v # vs) seen =
     (case natural v of
        None \<Rightarrow> Inl BadPermutation
      | Some i \<Rightarrow>
          if len \<le> i \<or> seen ! i then Inl BadPermutation
          else permutation_loop len vs (seen[i := True]))"

definition assert_permutation :: "jsv \<Rightarrow> delta_error + unit" where
  "assert_permutation v =
     (case v of
        JArr xs \<Rightarrow> permutation_loop (length xs) xs (replicate (length xs) False)
      | _ \<Rightarrow> Inl (BadShape ''m permutation is not an array''))"

definition is_text :: "jsv \<Rightarrow> bool" where
  "is_text v = (case v of JStr _ \<Rightarrow> True | _ \<Rightarrow> False)"

definition is_array :: "jsv \<Rightarrow> bool" where
  "is_array v = (case v of JArr _ \<Rightarrow> True | _ \<Rightarrow> False)"

definition assert_valid_op :: "jsv \<Rightarrow> delta_error + unit" where
  "assert_valid_op v =
     (case v of
        JArr (verb # args) \<Rightarrow>
          if verb = JStr (js ''r'') then rguard (length args = 1) (BadShape ''r arity'')
          else if verb = JStr (js ''s'') then
            rbind (rguard (length args = 2) (BadShape ''s arity'')) (\<lambda>_. assert_path_arg (args ! 0) True)
          else if verb = JStr (js ''d'') then
            rbind (rguard (length args = 1) (BadShape ''d arity'')) (\<lambda>_. assert_path_arg (args ! 0) True)
          else if verb = JStr (js ''a'') then
            rbind (rguard (length args = 2 \<and> is_text (args ! 1)) (BadShape ''a shape'')) (\<lambda>_.
              assert_path_arg (args ! 0) True)
          else if verb = JStr (js ''t'') then
            rbind (rguard (length args = 2 \<and> natural (args ! 1) \<noteq> None) (BadShape ''t shape'')) (\<lambda>_.
              assert_path_arg (args ! 0) True)
          else if verb = JStr (js ''p'') then
            rbind (rguard (length args = 4) (BadShape ''p arity'')) (\<lambda>_.
            rbind (assert_path_arg (args ! 0) False) (\<lambda>_.
            rbind (rguard (natural (args ! 1) \<noteq> None) (BadShape ''p index'')) (\<lambda>_.
            rbind (rguard (natural (args ! 2) \<noteq> None) (BadShape ''p remove'')) (\<lambda>_.
              rguard (is_array (args ! 3)) (BadShape ''p items'')))))
          else if verb = JStr (js ''m'') then
            rbind (rguard (length args = 2) (BadShape ''m arity'')) (\<lambda>_.
            rbind (assert_path_arg (args ! 0) False) (\<lambda>_. assert_permutation (args ! 1)))
          else Inl UnknownVerb
      | _ \<Rightarrow> Inl NotATuple)"

text \<open>The wire grammar: a path may be an id, and may be left out.\<close>

definition ok_ref :: "jsv \<Rightarrow> delta_error + unit" where
  "ok_ref r =
     (case r of
        JNum n \<Rightarrow> rguard (num_index n \<noteq> None) BadPathId
      | JArr segs \<Rightarrow> assert_safe_path segs
      | _ \<Rightarrow> Inl PathNotArray)"

definition splice_shape :: "jsv list \<Rightarrow> delta_error + unit" where
  "splice_shape args =
     rbind (rguard (natural (args ! 0) \<noteq> None) (BadShape ''p index'')) (\<lambda>_.
     rbind (rguard (natural (args ! 1) \<noteq> None) (BadShape ''p remove'')) (\<lambda>_.
       rguard (is_array (args ! 2)) (BadShape ''p items'')))"

definition assert_valid_wire_op :: "jsv \<Rightarrow> delta_error + unit" where
  "assert_valid_wire_op v =
     (case v of
        JArr (verb # args) \<Rightarrow>
          if verb = JStr (js ''r'') then rguard (length args = 1) (BadShape ''r arity'')
          else if verb = JStr (js ''s'') then
            (if length args = 2 then ok_ref (args ! 0)
             else rguard (length args = 1) (BadShape ''s arity''))
          else if verb = JStr (js ''d'') then
            (if length args = 1 then ok_ref (args ! 0)
             else rguard (args = []) (BadShape ''d arity''))
          else if verb = JStr (js ''a'') then
            (if length args = 2
             then rbind (ok_ref (args ! 0)) (\<lambda>_. rguard (is_text (args ! 1)) (BadShape ''a value''))
             else if length args = 1 then rguard (is_text (args ! 0)) (BadShape ''a value'')
             else Inl (BadShape ''a arity''))
          else if verb = JStr (js ''t'') then
            (if length args = 2
             then rbind (ok_ref (args ! 0)) (\<lambda>_. rguard (natural (args ! 1) \<noteq> None) (BadShape ''t count''))
             else if length args = 1 then rguard (natural (args ! 0) \<noteq> None) (BadShape ''t count'')
             else Inl (BadShape ''t arity''))
          else if verb = JStr (js ''p'') then
            (if length args = 4 \<and> args ! 3 \<noteq> JUndef
             then rbind (ok_ref (args ! 0)) (\<lambda>_. splice_shape (drop 1 args))
             else if length args = 3 \<and> args ! 2 \<noteq> JUndef then splice_shape args
             else Inl (BadShape ''p arity''))
          else if verb = JStr (js ''m'') then
            (if length args = 2
             then rbind (ok_ref (args ! 0)) (\<lambda>_. assert_permutation (args ! 1))
             else rbind (rguard (length args = 1) (BadShape ''m arity'')) (\<lambda>_. assert_permutation (args ! 0)))
          else if verb = JStr (js ''#'') then
            rbind (rguard (length args = 2 \<and> natural (args ! 0) \<noteq> None \<and> is_array (args ! 1)) (BadShape ''# shape''))
              (\<lambda>_. case args ! 1 of JArr segs \<Rightarrow> assert_safe_path segs | _ \<Rightarrow> Inr ())
          else Inl UnknownVerb
      | _ \<Rightarrow> Inl NotATuple)"

section \<open>The applier\<close>

text \<open>The property key of a segment.\<close>

definition num_text :: "js_num \<Rightarrow> js_string" where
  "num_text n = (case num_index n of Some i \<Rightarrow> nat_str i | None \<Rightarrow> [])"

fun seg_key :: "seg \<Rightarrow> js_string" where
  "seg_key (SStr s) = s"
| "seg_key (SNum n) = num_text n"

definition is_obj :: "jsv \<Rightarrow> bool" where
  "is_obj v = (case v of JArr _ \<Rightarrow> True | JObj _ \<Rightarrow> True | _ \<Rightarrow> False)"

text \<open>One step of \<open>resolveValue\<close>; \<open>whole\<close> is the path that the error names.\<close>

definition step_into :: "path \<Rightarrow> jsv \<Rightarrow> seg \<Rightarrow> delta_error + jsv" where
  "step_into whole node s =
     (case node of
        JArr xs \<Rightarrow>
          (case s of
             SStr _ \<Rightarrow> Inl (UnsafePath (seg_value s))
           | SNum n \<Rightarrow>
               (case num_index n of
                  Some i \<Rightarrow> if i < length xs then Inr (xs ! i) else Inl (PathError whole)
                | None \<Rightarrow> Inl (PathError whole)))
      | JObj ps \<Rightarrow>
          (case obj_get ps (seg_key s) of Some c \<Rightarrow> Inr c | None \<Rightarrow> Inl (PathError whole))
      | _ \<Rightarrow> Inl (PathError whole))"

definition resolve_value :: "path \<Rightarrow> jsv \<Rightarrow> delta_error + jsv" where
  "resolve_value p root = rfold (\<lambda>s node. step_into p node s) p root"

text \<open>Writing an own data property of a container.\<close>

definition write_child :: "jsv \<Rightarrow> seg \<Rightarrow> jsv \<Rightarrow> jsv" where
  "write_child parent s v =
     (case parent of
        JArr xs \<Rightarrow>
          (case s of
             SNum n \<Rightarrow>
               (case num_index n of
                  Some i \<Rightarrow> JArr (if i < length xs then xs[i := v] else xs @ [v])
                | None \<Rightarrow> parent)
           | SStr _ \<Rightarrow> parent)
      | JObj ps \<Rightarrow> JObj (obj_put (seg_key s) v ps)
      | _ \<Rightarrow> parent)"

text \<open>
  The node that \<open>resolve\<close> finds is updated in place: \<open>f\<close> computes its new content, and the
  containers on the way to it now hold the updated child.
\<close>

fun update_at :: "path \<Rightarrow> path \<Rightarrow> (jsv \<Rightarrow> delta_error + jsv) \<Rightarrow> jsv \<Rightarrow> delta_error + jsv" where
  "update_at whole [] f node = f node"
| "update_at whole (s # p) f node =
     rbind (step_into whole node s) (\<lambda>child.
     rbind (update_at whole p f child) (\<lambda>child'.
     Inr (write_child node s child')))"

text \<open>\<open>Array.prototype.splice\<close>: the start is clamped to the length, the count to what follows.\<close>

definition js_splice :: "nat \<Rightarrow> nat \<Rightarrow> 'a list \<Rightarrow> 'a list \<Rightarrow> 'a list" where
  "js_splice start del items xs =
     take (min start (length xs)) xs @ items @ drop (min start (length xs) + del) xs"

definition SPLICE_CHUNK :: nat where
  "SPLICE_CHUNK = 10000"

text \<open>The loop that inserts the items in chunks, from \<open>offset\<close> on.\<close>

function insert_chunks :: "nat \<Rightarrow> 'a list \<Rightarrow> nat \<Rightarrow> 'a list \<Rightarrow> 'a list" where
  "insert_chunks at items offset xs =
     (if offset < length items
      then insert_chunks at items (offset + SPLICE_CHUNK)
             (js_splice (at + offset) 0 (take SPLICE_CHUNK (drop offset items)) xs)
      else xs)"
  by pat_completeness auto
termination
  by (relation "measure (\<lambda>(at, items, offset, xs). length items - offset)") (auto simp: SPLICE_CHUNK_def)

declare insert_chunks.simps [simp del]

definition splice_node :: "path \<Rightarrow> js_num \<Rightarrow> js_num \<Rightarrow> jsv list \<Rightarrow> jsv \<Rightarrow> delta_error + jsv" where
  "splice_node p i r items node =
     (case node of
        JArr xs \<Rightarrow> Inr (JArr (insert_chunks (the (num_index i)) items 0
                      (js_splice (the (num_index i)) (the (num_index r)) [] xs)))
      | _ \<Rightarrow> Inl (PathError p))"

definition permute_node :: "path \<Rightarrow> js_num list \<Rightarrow> jsv \<Rightarrow> delta_error + jsv" where
  "permute_node p ks node =
     (case node of
        JArr xs \<Rightarrow>
          if length xs = length ks then Inr (JArr (map (\<lambda>k. xs ! the (num_index k)) ks))
          else Inl (PathError p)
      | _ \<Rightarrow> Inl (PathError p))"

text \<open>An array takes a numeric key only, at most one past its end; \<open>resolve\<close> has refused a leaf.\<close>

definition check_key :: "jsv \<Rightarrow> seg \<Rightarrow> delta_error + unit" where
  "check_key parent key =
     (case parent of
        JArr xs \<Rightarrow>
          (case key of
             SStr _ \<Rightarrow> Inl (UnsafePath (seg_value key))
           | SNum n \<Rightarrow>
               (case num_index n of
                  Some i \<Rightarrow> rguard (i \<le> length xs) (UnsafePath (seg_value key))
                | None \<Rightarrow> Inr ()))
      | _ \<Rightarrow> Inr ())"

definition read_text_at :: "path \<Rightarrow> jsv \<Rightarrow> seg \<Rightarrow> delta_error + js_string" where
  "read_text_at p parent key =
     (case step_into p parent key of Inr (JStr t) \<Rightarrow> Inr t | _ \<Rightarrow> Inl (PathError p))"

definition delete_child :: "path \<Rightarrow> jsv \<Rightarrow> seg \<Rightarrow> delta_error + jsv" where
  "delete_child p parent key =
     (case parent of
        JArr xs \<Rightarrow>
          (case key of
             SNum n \<Rightarrow>
               (case num_index n of
                  Some i \<Rightarrow> if length xs \<le> i then Inl (PathError p) else Inr (JArr (js_splice i 1 [] xs))
                | None \<Rightarrow> Inl (PathError p))
           | SStr _ \<Rightarrow> Inl (PathError p))
      | JObj ps \<Rightarrow> Inr (JObj (obj_del (seg_key key) ps))
      | _ \<Rightarrow> Inl (PathError p))"

definition edit_parent :: "op \<Rightarrow> path \<Rightarrow> jsv \<Rightarrow> delta_error + jsv" where
  "edit_parent x p parent =
     (if \<not> is_obj parent then Inl (PathError (butlast p))
      else rbind (check_key parent (last p)) (\<lambda>_.
        case x of
          OpS _ v \<Rightarrow> Inr (write_child parent (last p) v)
        | OpD _ \<Rightarrow> delete_child p parent (last p)
        | OpA _ t \<Rightarrow> rbind (read_text_at p parent (last p)) (\<lambda>cur.
            Inr (write_child parent (last p) (JStr (cur @ t))))
        | OpT _ n \<Rightarrow> rbind (read_text_at p parent (last p)) (\<lambda>cur.
            Inr (write_child parent (last p) (JStr (drop (the (num_index n)) cur))))
        | _ \<Rightarrow> Inr parent))"

definition apply_op :: "op \<Rightarrow> jsv \<Rightarrow> delta_error + jsv" where
  "apply_op x root =
     rbind (assert_valid_op (op_value x)) (\<lambda>_.
       case x of
         OpR v \<Rightarrow> Inr v
       | OpP p i r items \<Rightarrow> update_at p p (splice_node p i r items) root
       | OpM p ks \<Rightarrow> update_at p p (permute_node p ks) root
       | OpS p _ \<Rightarrow> update_at (butlast p) (butlast p) (edit_parent x p) root
       | OpD p \<Rightarrow> update_at (butlast p) (butlast p) (edit_parent x p) root
       | OpA p _ \<Rightarrow> update_at (butlast p) (butlast p) (edit_parent x p) root
       | OpT p _ \<Rightarrow> update_at (butlast p) (butlast p) (edit_parent x p) root)"

text \<open>\<open>apply\<close>; an undefined target is \<open>JUndef\<close>.\<close>

definition apply_ops :: "op list \<Rightarrow> jsv \<Rightarrow> delta_error + jsv" where
  "apply_ops ops target = rfold apply_op ops target"

text \<open>
  \<open>applyImmutableBatches\<close>: before an operation is applied, the containers on the path to its target
  are copied.  On trees the copy is the value itself, and what remains of \<open>copyContainers\<close> is the walk
  with its failures, which looks for the property before it rejects a non-numeric array key.
\<close>

definition has_own :: "jsv \<Rightarrow> seg \<Rightarrow> bool" where
  "has_own node s =
     (case node of
        JArr xs \<Rightarrow>
          (case s of
             SNum n \<Rightarrow> (case num_index n of Some i \<Rightarrow> i < length xs | None \<Rightarrow> False)
           | SStr k \<Rightarrow> k = js ''length'' \<or> (case index_key k of Some i \<Rightarrow> i < length xs | None \<Rightarrow> False))
      | JObj ps \<Rightarrow> obj_get ps (seg_key s) \<noteq> None
      | _ \<Rightarrow> False)"

fun copy_walk :: "path \<Rightarrow> path \<Rightarrow> jsv \<Rightarrow> delta_error + unit" where
  "copy_walk whole [] node = Inr ()"
| "copy_walk whole (s # p) node =
     (if \<not> has_own node s then Inl (PathError whole)
      else rbind (step_into whole node s) (\<lambda>child.
        if \<not> is_obj child then Inl (PathError whole) else copy_walk whole p child))"

definition copy_containers :: "jsv \<Rightarrow> path \<Rightarrow> delta_error + jsv" where
  "copy_containers root p =
     (if \<not> is_obj root then Inl (PathError p)
      else rbind (copy_walk p p root) (\<lambda>_. Inr root))"

definition container_path :: "op \<Rightarrow> path" where
  "container_path x =
     (case x of
        OpP p _ _ _ \<Rightarrow> p
      | OpM p _ \<Rightarrow> p
      | OpS p _ \<Rightarrow> butlast p
      | OpD p \<Rightarrow> butlast p
      | OpA p _ \<Rightarrow> butlast p
      | OpT p _ \<Rightarrow> butlast p
      | OpR _ \<Rightarrow> [])"

definition apply_immutable_op :: "op \<Rightarrow> jsv \<Rightarrow> delta_error + jsv" where
  "apply_immutable_op x root =
     rbind (assert_valid_op (op_value x)) (\<lambda>_.
       case x of
         OpR v \<Rightarrow> Inr v
       | _ \<Rightarrow> rbind (copy_containers root (container_path x)) (apply_op x))"

definition apply_immutable_batches :: "op list list \<Rightarrow> jsv \<Rightarrow> delta_error + jsv" where
  "apply_immutable_batches batches target = rfold (rfold apply_immutable_op) batches target"

definition apply_immutable :: "op list \<Rightarrow> jsv \<Rightarrow> delta_error + jsv" where
  "apply_immutable ops target = apply_immutable_batches [ops] target"

section \<open>What the validators accept\<close>

fun seg_ok :: "seg \<Rightarrow> bool" where
  "seg_ok (SStr s) = (s \<notin> set RESERVED_SEGMENTS)"
| "seg_ok (SNum n) = (num_index n \<noteq> None)"

definition path_ok :: "path \<Rightarrow> bool" where
  "path_ok p = list_all seg_ok p"

definition permutation_ok :: "js_num list \<Rightarrow> bool" where
  "permutation_ok ks \<longleftrightarrow>
     (\<forall>k \<in> set ks. num_index k \<noteq> None \<and> the (num_index k) < length ks) \<and>
     distinct (map (\<lambda>k. the (num_index k)) ks)"

fun op_ok :: "op \<Rightarrow> bool" where
  "op_ok (OpR v) = True"
| "op_ok (OpS p v) = (p \<noteq> [] \<and> path_ok p)"
| "op_ok (OpD p) = (p \<noteq> [] \<and> path_ok p)"
| "op_ok (OpA p t) = (p \<noteq> [] \<and> path_ok p)"
| "op_ok (OpT p n) = (p \<noteq> [] \<and> path_ok p \<and> num_index n \<noteq> None)"
| "op_ok (OpP p i r xs) = (path_ok p \<and> num_index i \<noteq> None \<and> num_index r \<noteq> None)"
| "op_ok (OpM p ks) = (path_ok p \<and> permutation_ok ks)"

lemma seg_value_inject [simp]: "seg_value a = seg_value b \<longleftrightarrow> a = b"
  by (cases a; cases b) auto

lemma map_seg_value_inject [simp]: "map seg_value a = map seg_value b \<longleftrightarrow> a = b"
  by (rule inj_map_eq_map) (auto simp: inj_def)

lemma assert_safe_path_iff:
  "assert_safe_path vs = Inr () \<longleftrightarrow> (\<exists>p. vs = map seg_value p \<and> path_ok p)"
proof (induction vs rule: assert_safe_path.induct)
  case (2 s ps)
  have "JStr s # ps = map seg_value p \<longleftrightarrow> (\<exists>q. p = SStr s # q \<and> ps = map seg_value q)" for p
    by (cases p; cases "hd p") auto
  with 2 show ?case by (auto simp: path_ok_def)
next
  case (3 n ps)
  have "JNum n # ps = map seg_value p \<longleftrightarrow> (\<exists>q. p = SNum n # q \<and> ps = map seg_value q)" for p
    by (cases p; cases "hd p") auto
  with 3 show ?case by (auto simp: path_ok_def)
qed (auto simp: path_ok_def Cons_eq_map_conv elim: seg_value.elims [OF sym])

lemma assert_path_arg_iff:
  "assert_path_arg v ne = Inr () \<longleftrightarrow> (\<exists>p. v = path_value p \<and> path_ok p \<and> (ne \<longrightarrow> p \<noteq> []))"
  by (cases v) (auto simp: assert_path_arg_def path_value_def assert_safe_path_iff)

lemma natural_iff: "natural v = Some i \<longleftrightarrow> (\<exists>n. v = JNum n \<and> num_index n = Some i)"
  by (cases v) (auto simp: natural_def)

lemma permutation_loop_iff:
  "length seen = len \<Longrightarrow>
     permutation_loop len vs seen = Inr () \<longleftrightarrow>
       (\<forall>v \<in> set vs. \<exists>i. natural v = Some i \<and> i < len \<and> \<not> seen ! i) \<and>
       distinct (map (\<lambda>v. the (natural v)) vs)"
proof (induction vs arbitrary: seen)
  case (Cons v vs)
  show ?case
  proof (cases "natural v")
    case (Some i)
    show ?thesis
    proof (cases "len \<le> i \<or> seen ! i")
      case False
      have fresh: "(\<exists>j. natural w = Some j \<and> j < len \<and> \<not> seen[i := True] ! j) \<longleftrightarrow>
          (\<exists>j. natural w = Some j \<and> j < len \<and> \<not> seen ! j) \<and> the (natural w) \<noteq> i" for w
        using False Cons.prems by (auto simp: nth_list_update)
      from False Some Cons.prems Cons.IH [of "seen[i := True]"] show ?thesis
        by (auto simp: fresh)
    qed (use Some in auto)
  qed auto
qed simp

lemma natural_JNum [simp]: "natural (JNum n) = num_index n"
  by (simp add: natural_def)

lemma assert_permutation_iff:
  "assert_permutation v = Inr () \<longleftrightarrow> (\<exists>ks. v = JArr (map JNum ks) \<and> permutation_ok ks)"
proof (cases v)
  case (JArr xs)
  have loop: "assert_permutation v = Inr () \<longleftrightarrow>
      (\<forall>x \<in> set xs. \<exists>i. natural x = Some i \<and> i < length xs) \<and> distinct (map (\<lambda>x. the (natural x)) xs)"
    using JArr by (auto simp: assert_permutation_def permutation_loop_iff)
  show ?thesis
  proof
    assume a: "assert_permutation v = Inr ()"
    with loop have "\<forall>x \<in> set xs. x = JNum (case x of JNum n \<Rightarrow> n | _ \<Rightarrow> undefined)"
      by (fastforce simp: natural_def split: jsv.splits)
    then have xs: "xs = map JNum (map (\<lambda>x. case x of JNum n \<Rightarrow> n | _ \<Rightarrow> undefined) xs)" (is "_ = map JNum ?ks")
      by (simp add: map_idI)
    from a loop have "permutation_ok ?ks"
      by (subst (asm) (1 2 3) xs) (force simp: permutation_ok_def o_def)
    with xs JArr show "\<exists>ks. v = JArr (map JNum ks) \<and> permutation_ok ks" by blast
  next
    assume "\<exists>ks. v = JArr (map JNum ks) \<and> permutation_ok ks"
    then obtain ks where ks: "xs = map JNum ks" "permutation_ok ks" using JArr by auto
    with loop show "assert_permutation v = Inr ()" by (auto simp: permutation_ok_def o_def)
  qed
qed (simp_all add: assert_permutation_def)

lemma length_args:
  "length xs = Suc 0 \<longleftrightarrow> (\<exists>a. xs = [a])"
  "length xs = 2 \<longleftrightarrow> (\<exists>a b. xs = [a, b])"
  "length xs = 4 \<longleftrightarrow> (\<exists>a b c d. xs = [a, b, c, d])"
  by (auto simp: length_Suc_conv numeral_eq_Suc)

lemma is_text_iff: "is_text v \<longleftrightarrow> (\<exists>s. v = JStr s)"
  by (cases v) (auto simp: is_text_def)

lemma is_array_iff: "is_array v \<longleftrightarrow> (\<exists>xs. v = JArr xs)"
  by (cases v) (auto simp: is_array_def)

lemma op_value_ok: "assert_valid_op (op_value x) = Inr () \<longleftrightarrow> op_ok x"
proof -
  have path: "assert_path_arg (path_value p) ne = Inr () \<longleftrightarrow> path_ok p \<and> (ne \<longrightarrow> p \<noteq> [])" for p ne
    by (auto simp: assert_path_arg_iff path_value_def)
  have "map JNum ks = map JNum ls \<longleftrightarrow> ks = ls" for ks ls
    by (rule inj_map_eq_map) (simp add: inj_def)
  then have perm: "assert_permutation (JArr (map JNum ks)) = Inr () \<longleftrightarrow> permutation_ok ks" for ks
    by (auto simp: assert_permutation_iff)
  show ?thesis
    by (cases x) (auto simp: assert_valid_op_def res_simps path perm is_text_def is_array_def)
qed

lemma assert_valid_op_iff: "assert_valid_op v = Inr () \<longleftrightarrow> (\<exists>x. v = op_value x \<and> op_ok x)"
proof
  assume v: "assert_valid_op v = Inr ()"
  have "\<exists>x. v = op_value x"
  proof (cases v)
    case (JArr l)
    with v obtain verb args where l: "v = JArr (verb # args)"
      by (cases l) (auto simp: assert_valid_op_def)
    from v consider
        (r) a where "verb = JStr (js ''r'')" "args = [a]"
      | (s) p a where "verb = JStr (js ''s'')" "args = [path_value p, a]"
      | (d) p where "verb = JStr (js ''d'')" "args = [path_value p]"
      | (a) p t where "verb = JStr (js ''a'')" "args = [path_value p, JStr t]"
      | (t) p n where "verb = JStr (js ''t'')" "args = [path_value p, JNum n]"
      | (p) p i r xs where "verb = JStr (js ''p'')" "args = [path_value p, JNum i, JNum r, JArr xs]"
      | (m) p ks where "verb = JStr (js ''m'')" "args = [path_value p, JArr (map JNum ks)]"
      unfolding l
      by (auto simp: assert_valid_op_def res_simps length_args assert_path_arg_iff is_text_iff
          is_array_iff natural_iff assert_permutation_iff split: if_splits)
    then show ?thesis
      by cases (use l in \<open>metis op_value.simps\<close>)+
  qed (use v in \<open>simp_all add: assert_valid_op_def\<close>)
  with v show "\<exists>x. v = op_value x \<and> op_ok x" by (auto simp: op_value_ok)
qed (auto simp: op_value_ok)

text \<open>
  \<open>assertValidOp\<close> accepts an arbitrary value exactly when it is the tuple of an operation whose
  path has only harmless segments (and is not empty where the type says so), whose counts are
  natural numbers and whose permutation is a bijection.
\<close>

theorem assert_valid_op_spec: "assert_valid_op v = Inr () \<longleftrightarrow> (\<exists>x. v = op_value x \<and> op_ok x)"
  by (rule assert_valid_op_iff)

section \<open>Splices\<close>

lemma insert_chunks_alt:
  "insert_chunks at items offset (take (min at (length xs)) xs @ take offset items @ drop (min at (length xs)) xs) =
     js_splice at 0 items xs"
proof (induction "length items - offset" arbitrary: offset rule: less_induct)
  case less
  let ?k = "min at (length xs)"
  let ?cur = "\<lambda>n. take ?k xs @ take n items @ drop ?k xs"
  show ?case
  proof (cases "offset < length items")
    case True
    let ?chunk = "take SPLICE_CHUNK (drop offset items)"
    have pos: "min (at + offset) (length (?cur offset)) = ?k + offset"
      using True by auto
    have "js_splice (at + offset) 0 ?chunk (?cur offset) = ?cur (offset + SPLICE_CHUNK)"
      unfolding js_splice_def pos using True by (simp add: take_add)
    moreover have "insert_chunks at items (offset + SPLICE_CHUNK) (?cur (offset + SPLICE_CHUNK)) =
        js_splice at 0 items xs"
      using True by (intro less) (simp add: SPLICE_CHUNK_def)
    ultimately show ?thesis
      using True by (subst insert_chunks.simps) simp
  next
    case False
    then show ?thesis by (simp add: insert_chunks.simps js_splice_def)
  qed
qed

lemma insert_chunks_splice: "insert_chunks at items 0 (js_splice at del [] xs) = js_splice at del items xs"
proof -
  let ?ys = "js_splice at del [] xs"
  have "insert_chunks at items 0 ?ys = js_splice at 0 items ?ys"
    using insert_chunks_alt [of at items 0 ?ys] by simp
  also have "\<dots> = js_splice at del items xs"
    by (cases "at \<le> length xs") (auto simp: js_splice_def min_def)
  finally show ?thesis .
qed

text \<open>
  A splice operation replaces, in the array its path names, the removed range by the items in
  one go: the removal and the insertion in chunks of 10,000 are together one \<open>splice\<close> call, and an
  array of any length stays an array of the expected length.
\<close>

theorem splice_in_one_step:
  "splice_node p i r items (JArr xs) =
     Inr (JArr (take (the (num_index i)) xs @ items @ drop (min (the (num_index i)) (length xs) + the (num_index r)) xs))"
  by (simp add: splice_node_def insert_chunks_splice) (simp add: js_splice_def min_def)

section \<open>JSON in, JSON out\<close>

definition json_ok :: "jsv \<Rightarrow> bool" where
  "json_ok v \<longleftrightarrow> is_json_value v \<and> jsv_ok v"

fun op_json :: "op \<Rightarrow> bool" where
  "op_json (OpR v) = json_ok v"
| "op_json (OpS p v) = json_ok v"
| "op_json (OpP p i r xs) = list_all json_ok xs"
| "op_json x = True"

lemma json_ok_arr: "json_ok (JArr xs) \<longleftrightarrow> (\<forall>x \<in> set xs. json_ok x)"
  by (auto simp: json_ok_def is_json_items_iff jsv_ok_items_iff)

lemma json_ok_obj: "json_ok (JObj ps) \<longleftrightarrow> obj_ordered ps \<and> (\<forall>p \<in> set ps. json_ok (snd p))"
  by (auto simp: json_ok_def is_json_props_iff jsv_ok_props_iff)

lemma json_ok_str [simp]: "json_ok (JStr s)"
  by (simp add: json_ok_def)

lemma obj_get_set: "obj_get ps k = Some v \<Longrightarrow> (k, v) \<in> set ps"
  by (simp add: obj_get_def map_of_SomeD)

lemma step_into_json: "json_ok v \<Longrightarrow> step_into w v s = Inr c \<Longrightarrow> json_ok c"
  by (auto simp: step_into_def json_ok_arr json_ok_obj dest!: obj_get_set
      split: jsv.splits seg.splits option.splits if_splits)

lemma obj_put_json: "\<forall>p \<in> set ps. json_ok (snd p) \<Longrightarrow> json_ok c \<Longrightarrow> p \<in> set (obj_put k c ps) \<Longrightarrow> json_ok (snd p)"
  using set_obj_put [of p k c ps] by auto

lemma obj_del_subset: "p \<in> set (obj_del k ps) \<Longrightarrow> p \<in> set ps"
  by (simp add: obj_del_def)

lemma list_update_json: "\<forall>x \<in> set xs. json_ok x \<Longrightarrow> json_ok c \<Longrightarrow> x \<in> set (xs[i := c]) \<Longrightarrow> json_ok x"
  using set_update_subset_insert [of xs i c] by auto

lemma write_child_json:
  assumes "json_ok v" "json_ok c"
  shows "json_ok (write_child v s c)"
proof (cases v)
  case (JArr xs)
  with assms have "\<forall>x \<in> set (xs[i := c]). json_ok x" for i
    using list_update_json by (blast dest: json_ok_arr [THEN iffD1])
  with assms JArr show ?thesis
    by (auto simp: write_child_def json_ok_arr split: seg.splits option.splits)
next
  case (JObj ps)
  with assms have "\<forall>p \<in> set (obj_put (seg_key s) c ps). json_ok (snd p)" "obj_ordered ps"
    using obj_put_json by (blast dest: json_ok_obj [THEN iffD1])+
  with JObj show ?thesis by (simp add: write_child_def json_ok_obj obj_ordered_put)
qed (use assms in \<open>simp_all add: write_child_def\<close>)

lemma update_at_json:
  assumes "\<And>x y. json_ok x \<Longrightarrow> f x = Inr y \<Longrightarrow> json_ok y"
  shows "json_ok v \<Longrightarrow> update_at w p f v = Inr v' \<Longrightarrow> json_ok v'"
proof (induction p arbitrary: v v')
  case Nil
  with assms show ?case by simp
next
  case (Cons s p)
  then obtain c c' where c: "step_into w v s = Inr c" "update_at w p f c = Inr c'" "v' = write_child v s c'"
    by (auto simp: res_simps)
  from Cons.IH [OF step_into_json [OF Cons.prems(1) c(1)] c(2)] Cons.prems(1) show ?case
    by (simp add: c(3) write_child_json)
qed

lemma splice_set: "x \<in> set (js_splice i r items xs) \<Longrightarrow> x \<in> set items \<or> x \<in> set xs"
  by (auto simp: js_splice_def dest: in_set_takeD in_set_dropD)

lemma edit_parent_json:
  assumes "op_json x" "json_ok v" "edit_parent x p v = Inr v'"
  shows "json_ok v'"
proof -
  have "json_ok v'" if "delete_child p v k = Inr v'" for k
    using that assms(2)
    by (auto simp: delete_child_def json_ok_arr json_ok_obj obj_ordered_del
        split: jsv.splits seg.splits option.splits if_splits dest!: splice_set obj_del_subset)
  with assms show ?thesis
    by (cases x) (auto simp: edit_parent_def res_simps write_child_json split: if_splits)
qed

lemma splice_node_json: "list_all json_ok xs \<Longrightarrow> json_ok v \<Longrightarrow> splice_node p i r xs v = Inr v' \<Longrightarrow> json_ok v'"
  by (auto simp: splice_node_def insert_chunks_splice json_ok_arr list_all_iff split: jsv.splits dest!: splice_set)

lemma permute_node_json: "permutation_ok ks \<Longrightarrow> json_ok v \<Longrightarrow> permute_node p ks v = Inr v' \<Longrightarrow> json_ok v'"
  by (auto simp: permute_node_def json_ok_arr permutation_ok_def split: jsv.splits if_splits)

lemma apply_op_ok: "apply_op x v = Inr v' \<Longrightarrow> op_ok x"
  by (auto simp: apply_op_def res_simps op_value_ok [symmetric])

lemma apply_op_json:
  assumes "op_json x" "json_ok v" "apply_op x v = Inr v'"
  shows "json_ok v'"
proof -
  from assms(3) have ok: "op_ok x" by (rule apply_op_ok)
  have edit: "json_ok v'" if "update_at w q (edit_parent x p) v = Inr v'" for w q p
    by (rule update_at_json [OF edit_parent_json [OF assms(1)] assms(2) that])
  show ?thesis
  proof (cases x)
    case (OpP p i r xs)
    with assms have "update_at p p (splice_node p i r xs) v = Inr v'" "list_all json_ok xs"
      by (auto simp: apply_op_def res_simps)
    then show ?thesis using update_at_json [of "splice_node p i r xs", OF _ assms(2)] splice_node_json by blast
  next
    case (OpM p ks)
    with assms ok have "update_at p p (permute_node p ks) v = Inr v'" "permutation_ok ks"
      by (auto simp: apply_op_def res_simps)
    then show ?thesis using update_at_json [of "permute_node p ks", OF _ assms(2)] permute_node_json by blast
  qed (use assms edit in \<open>auto simp: apply_op_def res_simps\<close>)
qed

text \<open>
  \<open>apply\<close> keeps the value strict JSON: no hole, no undefined member, keys in own-key order,
  whatever well-formed or malformed operations it is given, as long as their payloads are JSON.
\<close>

theorem apply_ops_json:
  assumes "json_ok v" "list_all op_json ops" "apply_ops ops v = Inr v'"
  shows "json_ok v'"
  using rfold_invariant [OF assms(3) [unfolded apply_ops_def], of json_ok] assms(1,2) apply_op_json
  by (auto simp: list_all_iff)

section \<open>Reading back what was written\<close>

lemma num_text_inject:
  "num_index a = Some i \<Longrightarrow> num_index b = Some j \<Longrightarrow> num_text a = num_text b \<longleftrightarrow> i = j"
  by (simp add: num_text_def)

lemma step_into_written:
  assumes "check_key v s = Inr ()" "is_obj v" "seg_ok s"
  shows "step_into w (write_child v s c) s = Inr c"
  using assms
  by (auto simp: step_into_def write_child_def check_key_def is_obj_def obj_get_put res_simps nth_append
      split: jsv.splits seg.splits option.splits)

lemma step_into_other:
  assumes "seg_ok s" "step_into w v t = Inr c" "seg_key s \<noteq> seg_key t"
  shows "step_into w (write_child v s d) t = Inr c"
  using assms num_text_inject
  by (auto simp: step_into_def write_child_def obj_get_put nth_append nth_list_update num_text_def
      split: jsv.splits seg.splits option.splits if_splits)

lemma step_into_checked: "step_into w v s = Inr c \<Longrightarrow> check_key v s = Inr () \<and> is_obj v"
  by (auto simp: step_into_def check_key_def is_obj_def split: jsv.splits seg.splits option.splits if_splits)

text \<open>Reading along a path, with any path \<open>w\<close> named in the error.\<close>

definition reads :: "path \<Rightarrow> path \<Rightarrow> jsv \<Rightarrow> delta_error + jsv" where
  "reads w p v = rfold (\<lambda>s node. step_into w node s) p v"

lemma reads_Cons [simp]: "reads w (s # p) v = rbind (step_into w v s) (reads w p)"
  by (simp add: reads_def [abs_def])

lemma reads_Nil [simp]: "reads w [] v = Inr v"
  by (simp add: reads_def)

lemma step_into_path: "step_into w v s = Inr c \<Longrightarrow> step_into w' v s = Inr c"
  by (auto simp: step_into_def split: jsv.splits seg.splits option.splits if_splits)

lemma reads_path: "reads w p v = Inr c \<Longrightarrow> reads w' p v = Inr c"
proof (induction p arbitrary: v)
  case (Cons s p)
  then obtain d where d: "step_into w v s = Inr d" "reads w p d = Inr c" by (auto simp: res_simps)
  with Cons.IH step_into_path [OF d(1), of w'] show ?case by simp
qed simp

lemma reads_append: "reads w (p @ q) v = rbind (reads w p v) (reads w q)"
proof (induction p arbitrary: v)
  case (Cons s p)
  then show ?case by (cases "step_into w v s") simp_all
qed simp

lemma update_at_reads:
  "path_ok p \<Longrightarrow> update_at w p f v = Inr v' \<Longrightarrow>
     \<exists>c c'. reads w p v = Inr c \<and> f c = Inr c' \<and> reads w p v' = Inr c'"
proof (induction p arbitrary: v v')
  case (Cons s p)
  then obtain c c' where c: "step_into w v s = Inr c" "update_at w p f c = Inr c'" "v' = write_child v s c'"
    by (auto simp: res_simps)
  from Cons.prems(1) have s: "seg_ok s" "path_ok p" by (simp_all add: path_ok_def)
  from Cons.IH [OF s(2) c(2)] c(1,3) step_into_written [of v s w c'] step_into_checked [OF c(1)] s(1)
  show ?case by auto
qed simp

text \<open>The two paths part at some segment.\<close>

fun diverge :: "path \<Rightarrow> path \<Rightarrow> bool" where
  "diverge (s # p) (t # q) = (if seg_key s = seg_key t then diverge p q else True)"
| "diverge p q = False"

lemma step_into_same_key: "step_into w v s = Inr c \<Longrightarrow> step_into w v t = Inr d \<Longrightarrow> seg_key s = seg_key t \<Longrightarrow> c = d"
  by (auto simp: step_into_def num_text_def split: jsv.splits seg.splits option.splits if_splits)

lemma step_into_written_same_key:
  assumes "step_into w v s = Inr c" "step_into w v t = Inr d" "seg_key s = seg_key t" "seg_ok s"
  shows "step_into w (write_child v s e) t = Inr e"
  using assms
  by (auto simp: step_into_def write_child_def obj_get_put num_text_def
      split: jsv.splits seg.splits option.splits if_splits)

lemma update_at_other:
  assumes "\<And>x y r d. f x = Inr y \<Longrightarrow> diverge e r \<Longrightarrow> reads w r x = Inr d \<Longrightarrow> reads w r y = Inr d"
  shows "path_ok p \<Longrightarrow> update_at w p f v = Inr v' \<Longrightarrow> diverge (p @ e) q \<Longrightarrow> reads w q v = Inr c \<Longrightarrow>
    reads w q v' = Inr c"
proof (induction p arbitrary: v v' q)
  case Nil
  with assms show ?case by simp
next
  case (Cons s p)
  then obtain a a' where a: "step_into w v s = Inr a" "update_at w p f a = Inr a'" "v' = write_child v s a'"
    by (auto simp: res_simps)
  from Cons.prems(3) obtain t r where q: "q = t # r" by (cases q) auto
  with Cons.prems(4) obtain b where b: "step_into w v t = Inr b" "reads w r b = Inr c" by (auto simp: res_simps)
  from Cons.prems(1) have s: "seg_ok s" "path_ok p" by (simp_all add: path_ok_def)
  show ?case
  proof (cases "seg_key s = seg_key t")
    case True
    with step_into_same_key [OF a(1) b(1)] have "b = a" by simp
    with True Cons.prems(3) q b Cons.IH [OF s(2) a(2), of r] have "reads w r a' = Inr c" by simp
    with step_into_written_same_key [OF a(1) b(1) True s(1)] show ?thesis by (simp add: q a(3))
  next
    case False
    from step_into_other [OF s(1) b(1) this] b(2) show ?thesis by (simp add: q a(3))
  qed
qed

lemma resolve_value_reads: "resolve_value p v = reads p p v"
  by (simp add: resolve_value_def reads_def)

lemma edit_set_other:
  assumes "edit_parent (OpS p u) p x = Inr y" "seg_ok (last p)" "diverge [last p] r" "reads w r x = Inr d"
  shows "reads w r y = Inr d"
proof -
  from assms(3) obtain t q where r: "r = t # q" "seg_key (last p) \<noteq> seg_key t"
    by (cases r) (auto split: if_splits)
  from assms(1) have "y = write_child x (last p) u"
    by (auto simp: edit_parent_def res_simps split: if_splits)
  with assms(4) r step_into_other [OF assms(2) _ r(2)] show ?thesis by (auto simp: res_simps)
qed

text \<open>
  A set operation that succeeds makes its path read as the written value, and changes nothing
  that is read along a path that parts from it.
\<close>

theorem set_then_read:
  assumes "apply_op (OpS p u) v = Inr v'"
  shows "resolve_value p v' = Inr u \<and>
    (\<forall>q c. diverge p q \<longrightarrow> resolve_value q v = Inr c \<longrightarrow> resolve_value q v' = Inr c)"
proof -
  let ?b = "butlast p" and ?f = "edit_parent (OpS p u) p"
  from apply_op_ok [OF assms] have ok: "p \<noteq> []" "path_ok p" by simp_all
  from assms have up: "update_at ?b ?b ?f v = Inr v'" by (auto simp: apply_op_def res_simps)
  from ok have p: "?b @ [last p] = p" by simp
  from ok p have "path_ok (?b @ [last p])" by simp
  then have b: "path_ok ?b" "seg_ok (last p)" by (simp_all add: path_ok_def)
  from update_at_reads [OF b(1) up] obtain x y
    where x: "?f x = Inr y" "reads ?b ?b v' = Inr y" by blast
  then have y: "y = write_child x (last p) u" and x': "check_key x (last p) = Inr ()" "is_obj x"
    by (auto simp: edit_parent_def res_simps split: if_splits)
  from step_into_written [OF x' b(2)] have "step_into p y (last p) = Inr u" by (simp add: y)
  with reads_path [OF x(2), of p] have "reads p (?b @ [last p]) v' = Inr u"
    by (simp only: reads_append) simp
  then have "resolve_value p v' = Inr u" by (simp only: p resolve_value_reads)
  moreover have "resolve_value q v' = Inr c" if "diverge p q" "resolve_value q v = Inr c" for q c
  proof -
    from that(2) have "reads ?b q v = Inr c" unfolding resolve_value_reads by (rule reads_path)
    from that(1) have "diverge (?b @ [last p]) q" by (simp only: p)
    from update_at_other [OF edit_set_other [OF _ b(2)] b(1) up this \<open>reads ?b q v = Inr c\<close>]
    have "reads ?b q v' = Inr c" .
    then show ?thesis unfolding resolve_value_reads by (rule reads_path)
  qed
  ultimately show ?thesis by blast
qed

section \<open>Immutable application\<close>

lemma step_into_has_own: "step_into w v s = Inr c \<Longrightarrow> has_own v s"
  by (auto simp: step_into_def has_own_def split: jsv.splits seg.splits option.splits if_splits)

lemma copy_walk_reads: "reads w p v = Inr c \<Longrightarrow> is_obj c \<Longrightarrow> copy_walk w p v = Inr ()"
proof (induction p arbitrary: v)
  case (Cons s p)
  then obtain d where d: "step_into w v s = Inr d" "reads w p d = Inr c" by (auto simp: res_simps)
  have "is_obj d"
    using d(2) Cons.prems(2) by (cases p) (auto simp: res_simps dest: step_into_checked)
  with d Cons step_into_has_own [OF d(1)] show ?case by simp
qed simp

lemma copy_containers_reads:
  assumes "reads p p v = Inr c" "is_obj c"
  shows "copy_containers v p = Inr v"
proof -
  have "is_obj v" using assms by (cases p) (auto simp: res_simps dest: step_into_checked)
  with copy_walk_reads [OF assms] show ?thesis by (simp add: copy_containers_def)
qed

lemma apply_op_container:
  assumes "apply_op x v = Inr v'" "\<not> is_replace x"
  shows "\<exists>c. reads (container_path x) (container_path x) v = Inr c \<and> is_obj c"
proof -
  from apply_op_ok [OF assms(1)] have ok: "op_ok x" .
  have butlast: "path_ok (butlast p)" if "path_ok p" for p
    using that by (auto simp: path_ok_def list_all_iff dest: in_set_butlastD)
  have node: "\<exists>c. reads p p v = Inr c \<and> is_obj c"
    if "path_ok p" "update_at p p f v = Inr v'" "\<And>x y. f x = Inr y \<Longrightarrow> is_obj x" for p f
    using update_at_reads [OF that(1,2)] that(3) by blast
  have f: "edit_parent z p a = Inr b \<Longrightarrow> is_obj a" "splice_node p i r xs a = Inr b \<Longrightarrow> is_obj a"
    "permute_node p ks a = Inr b \<Longrightarrow> is_obj a" for z p i r xs ks a b
    by (auto simp: edit_parent_def splice_node_def permute_node_def is_obj_def split: if_splits jsv.splits)
  from assms ok show ?thesis
    by (cases x) (auto simp: apply_op_def res_simps container_path_def is_replace_def
        intro!: node butlast dest: f)
qed

lemma apply_immutable_op_iff: "apply_immutable_op x v = Inr v' \<longleftrightarrow> apply_op x v = Inr v'"
proof (cases "is_replace x")
  case True
  then show ?thesis by (cases x) (auto simp: is_replace_def apply_immutable_op_def apply_op_def res_simps)
next
  case False
  then have "apply_immutable_op x v =
      rbind (assert_valid_op (op_value x)) (\<lambda>_. rbind (copy_containers v (container_path x)) (apply_op x))"
    by (cases x) (simp_all add: apply_immutable_op_def is_replace_def)
  moreover have "copy_containers v p = Inr u \<Longrightarrow> u = v" for p u
    by (auto simp: copy_containers_def res_simps split: if_splits)
  ultimately show ?thesis
    using apply_op_container [OF _ False, of v v'] copy_containers_reads
    by (auto simp: res_simps apply_op_def)
qed

lemma rfold_iff:
  assumes "\<And>x s t. x \<in> set xs \<Longrightarrow> f x s = Inr t \<longleftrightarrow> g x s = Inr t"
  shows "rfold f xs s = Inr t \<longleftrightarrow> rfold g xs s = Inr t"
  using assms
proof (induction xs arbitrary: s)
  case (Cons x xs)
  then show ?case by (auto simp: res_simps)
qed simp

lemma apply_immutable_batches_iff:
  "apply_immutable_batches bs v = Inr w \<longleftrightarrow> apply_ops (concat bs) v = Inr w"
proof (induction bs arbitrary: v)
  case (Cons b bs)
  have "rfold apply_immutable_op b v = Inr u \<longleftrightarrow> rfold apply_op b v = Inr u" for u
    by (rule rfold_iff) (rule apply_immutable_op_iff)
  with Cons show ?case
    by (simp add: apply_immutable_batches_def apply_ops_def rfold_append res_simps)
qed (simp add: apply_immutable_batches_def apply_ops_def)

text \<open>
  Applying batches without mutating the old value gives the value that mutating application of
  all their operations gives, and succeeds on exactly the same operations.
\<close>

theorem immutable_batches_apply:
  "apply_immutable_batches bs v = Inr w \<longleftrightarrow> apply_ops (concat bs) v = Inr w"
  by (rule apply_immutable_batches_iff)

section \<open>Witnesses\<close>

definition sample_doc :: jsv where
  "sample_doc = JObj [(js ''a'', JArr [JNull, JBool True]), (js ''b'', JStr (js ''x''))]"

definition sample_path :: path where
  "sample_path = [SStr (js ''a''), SNum (NInt 1)]"

lemma sample_doc_json: "json_ok sample_doc"
  by (simp add: sample_doc_def json_ok_def obj_ordered_def key_before_def index_key_def is_digit_def)

lemma sample_set:
  "apply_op (OpS sample_path JNull) sample_doc =
     Inr (JObj [(js ''a'', JArr [JNull, JNull]), (js ''b'', JStr (js ''x''))])"
  by (simp add: apply_op_def sample_doc_def sample_path_def assert_valid_op_def assert_path_arg_def
      path_value_def RESERVED_SEGMENTS_def step_into_def edit_parent_def is_obj_def check_key_def
      write_child_def obj_put_def)

theorem apply_ops_json_witness:
  "json_ok (JObj [(js ''a'', JArr [JNull, JNull]), (js ''b'', JStr (js ''x''))])"
  by (rule apply_ops_json [OF sample_doc_json, of "[OpS sample_path JNull]"])
     (simp_all add: apply_ops_def sample_set, simp add: json_ok_def)

theorem set_then_read_witness:
  "resolve_value sample_path (JObj [(js ''a'', JArr [JNull, JNull]), (js ''b'', JStr (js ''x''))]) = Inr JNull"
  using set_then_read [OF sample_set] by blast

end
