(* ===== verification/DeltaCodec.thy ===== *)
theory DeltaCodec
  imports DeltaOps JsonText
begin

text \<open>
  The codec of \<open>packages/chord/src/delta/index.ts\<close>: \<open>encoder()\<close> interns a path on its second use
  and leaves out a path that repeats the previous one; \<open>decoder()\<close> undoes both.  The wire form is the
  datatype \<open>wire\<close>, and \<open>wire_value\<close> the tuple that crosses the boundary.  The closures keep their state
  in the records \<open>encoder\<close> and \<open>decoder\<close>.  Every path of an encoded operation consists of strings and
  natural numbers.
\<close>

section \<open>The wire form\<close>

datatype path_ref = Inline path | Ref js_num

datatype wire =
    WR jsv
  | WS "path_ref option" jsv
  | WD "path_ref option"
  | WA "path_ref option" js_string
  | WT "path_ref option" js_num
  | WP "path_ref option" js_num js_num "jsv list"
  | WM "path_ref option" "js_num list"
  | WDef js_num path

fun ref_value :: "path_ref option \<Rightarrow> jsv list" where
  "ref_value None = []"
| "ref_value (Some (Inline p)) = [path_value p]"
| "ref_value (Some (Ref n)) = [JNum n]"

fun wire_value :: "wire \<Rightarrow> jsv" where
  "wire_value (WR v) = JArr [JStr (js ''r''), v]"
| "wire_value (WS r v) = JArr (JStr (js ''s'') # ref_value r @ [v])"
| "wire_value (WD r) = JArr (JStr (js ''d'') # ref_value r)"
| "wire_value (WA r s) = JArr (JStr (js ''a'') # ref_value r @ [JStr s])"
| "wire_value (WT r n) = JArr (JStr (js ''t'') # ref_value r @ [JNum n])"
| "wire_value (WP r i k xs) = JArr (JStr (js ''p'') # ref_value r @ [JNum i, JNum k, JArr xs])"
| "wire_value (WM r ks) = JArr (JStr (js ''m'') # ref_value r @ [JArr (map JNum ks)])"
| "wire_value (WDef n p) = JArr [JStr (js ''#''), JNum n, path_value p]"

section \<open>The encoder\<close>

record encoder =
  enc_seen :: "js_string set"
  enc_ids :: "js_string \<Rightarrow> nat option"
  enc_next :: nat
  enc_previous :: "js_string option"

definition new_encoder :: encoder where
  "new_encoder = \<lparr>enc_seen = {}, enc_ids = (\<lambda>_. None), enc_next = 0, enc_previous = None\<rparr>"

fun seg_text :: "seg \<Rightarrow> jtext" where
  "seg_text (SStr s) = TStr s"
| "seg_text (SNum n) = TInt (case num_index n of Some i \<Rightarrow> int i | None \<Rightarrow> -1)"

definition path_key :: "path \<Rightarrow> js_string" where
  "path_key p = stringify (TArr (map seg_text p))"

text \<open>The path of an operation other than a replacement, and its two wire forms.\<close>

fun op_path :: "op \<Rightarrow> path" where
  "op_path (OpR v) = []"
| "op_path (OpS p v) = p"
| "op_path (OpD p) = p"
| "op_path (OpA p s) = p"
| "op_path (OpT p n) = p"
| "op_path (OpP p i r xs) = p"
| "op_path (OpM p ks) = p"

fun with_ref :: "op \<Rightarrow> path_ref option \<Rightarrow> wire" where
  "with_ref (OpR v) r = WR v"
| "with_ref (OpS p v) r = WS r v"
| "with_ref (OpD p) r = WD r"
| "with_ref (OpA p s) r = WA r s"
| "with_ref (OpT p n) r = WT r n"
| "with_ref (OpP p i k xs) r = WP r i k xs"
| "with_ref (OpM p ks) r = WM r ks"

definition encode_op :: "op \<Rightarrow> encoder \<Rightarrow> encoder \<times> wire list" where
  "encode_op x e =
     (case x of
        OpR v \<Rightarrow> (\<lparr>enc_seen = {}, enc_ids = (\<lambda>_. None), enc_next = 0, enc_previous = None\<rparr>, [WR v])
      | _ \<Rightarrow>
          (let path = op_path x; key = path_key path in
           if enc_previous e = Some key then (e, [with_ref x None])
           else (case enc_ids e key of
                   Some existing \<Rightarrow>
                     (e\<lparr>enc_previous := Some key\<rparr>, [with_ref x (Some (Ref (NInt (int existing))))])
                 | None \<Rightarrow>
                     if key \<in> enc_seen e
                     then (let i = enc_next e in
                           (e\<lparr>enc_next := i + 1, enc_ids := (enc_ids e)(key \<mapsto> i), enc_previous := Some key\<rparr>,
                            [WDef (NInt (int i)) path, with_ref x (Some (Ref (NInt (int i))))]))
                     else (e\<lparr>enc_seen := insert key (enc_seen e), enc_previous := Some key\<rparr>,
                           [with_ref x (Some (Inline path))]))))"

fun encode_loop :: "op list \<Rightarrow> encoder \<Rightarrow> wire list \<Rightarrow> encoder \<times> wire list" where
  "encode_loop [] e out = (e, out)"
| "encode_loop (x # xs) e out =
     (case encode_op x e of (e', ws) \<Rightarrow> encode_loop xs e' (out @ ws))"

definition encode_batch :: "encoder \<Rightarrow> op list \<Rightarrow> encoder \<times> wire list" where
  "encode_batch e ops = encode_loop ops (e\<lparr>enc_previous := None\<rparr>) []"

fun encode_stream :: "encoder \<Rightarrow> op list list \<Rightarrow> wire list list" where
  "encode_stream e [] = []"
| "encode_stream e (b # bs) = (case encode_batch e b of (e', ws) \<Rightarrow> ws # encode_stream e' bs)"

section \<open>The decoder\<close>

record decoder =
  dec_paths :: "nat \<Rightarrow> path option"

definition new_delta_decoder :: decoder where
  "new_delta_decoder = \<lparr>dec_paths = (\<lambda>_. None)\<rparr>"

fun wire_ref :: "wire \<Rightarrow> path_ref option" where
  "wire_ref (WS r v) = r"
| "wire_ref (WD r) = r"
| "wire_ref (WA r s) = r"
| "wire_ref (WT r n) = r"
| "wire_ref (WP r i k xs) = r"
| "wire_ref (WM r ks) = r"
| "wire_ref w = None"

fun at_path :: "wire \<Rightarrow> path \<Rightarrow> op" where
  "at_path (WS r v) p = OpS p v"
| "at_path (WD r) p = OpD p"
| "at_path (WA r s) p = OpA p s"
| "at_path (WT r n) p = OpT p n"
| "at_path (WP r i k xs) p = OpP p i k xs"
| "at_path (WM r ks) p = OpM p ks"
| "at_path (WR v) p = OpR v"
| "at_path (WDef n q) p = OpD q"

fun takes_root :: "wire \<Rightarrow> bool" where
  "takes_root (WP r i k xs) = True"
| "takes_root (WM r ks) = True"
| "takes_root w = False"

text \<open>The path that an operation names, from its reference or from the previous operation.\<close>

definition lookup_path :: "(nat \<Rightarrow> path option) \<Rightarrow> path option \<Rightarrow> path_ref option \<Rightarrow> delta_error + path" where
  "lookup_path paths previous r =
     (case r of
        None \<Rightarrow> (case previous of None \<Rightarrow> Inl (PathError []) | Some p \<Rightarrow> Inr p)
      | Some (Inline p) \<Rightarrow> Inr p
      | Some (Ref n) \<Rightarrow>
          (case num_index n of
             None \<Rightarrow> Inl BadPathId
           | Some i \<Rightarrow> (case paths i of None \<Rightarrow> Inl (UnknownPathId i) | Some p \<Rightarrow> Inr p)))"

text \<open>
  The loop over a batch.  The path table outlives an error, so it is returned beside the result.
\<close>

fun decode_loop :: "wire list \<Rightarrow> (nat \<Rightarrow> path option) \<Rightarrow> path option \<Rightarrow> op list
    \<Rightarrow> (nat \<Rightarrow> path option) \<times> (delta_error + op list)" where
  "decode_loop [] paths previous out = (paths, Inr out)"
| "decode_loop (w # ws) paths previous out =
     (case assert_valid_wire_op (wire_value w) of
        Inl e \<Rightarrow> (paths, Inl e)
      | Inr _ \<Rightarrow>
          (case w of
             WDef n p \<Rightarrow> decode_loop ws (paths(the (num_index n) \<mapsto> p)) previous out
           | WR v \<Rightarrow> decode_loop ws (\<lambda>_. None) None (out @ [OpR v])
           | _ \<Rightarrow>
               (case lookup_path paths previous (wire_ref w) of
                  Inl e \<Rightarrow> (paths, Inl e)
                | Inr p \<Rightarrow>
                    if \<not> takes_root w \<and> p = [] then (paths, Inl (PathError p))
                    else decode_loop ws paths (Some p) (out @ [at_path w p]))))"

definition decode_batch :: "decoder \<Rightarrow> wire list \<Rightarrow> decoder \<times> (delta_error + op list)" where
  "decode_batch d ws =
     (case decode_loop ws (dec_paths d) None [] of (paths, r) \<Rightarrow> (d\<lparr>dec_paths := paths\<rparr>, r))"

fun decode_stream :: "decoder \<Rightarrow> wire list list \<Rightarrow> delta_error + op list list" where
  "decode_stream d [] = Inr []"
| "decode_stream d (b # bs) =
     (case decode_batch d b of
        (d', r) \<Rightarrow> rbind r (\<lambda>ops. rbind (decode_stream d' bs) (\<lambda>rest. Inr (ops # rest))))"

section \<open>What the wire validator accepts\<close>

fun ref_ok :: "path_ref option \<Rightarrow> bool" where
  "ref_ok None = True"
| "ref_ok (Some (Inline p)) = path_ok p"
| "ref_ok (Some (Ref n)) = (num_index n \<noteq> None)"

fun wire_ok :: "wire \<Rightarrow> bool" where
  "wire_ok (WR v) = True"
| "wire_ok (WS r v) = ref_ok r"
| "wire_ok (WD r) = ref_ok r"
| "wire_ok (WA r s) = ref_ok r"
| "wire_ok (WT r n) = (ref_ok r \<and> num_index n \<noteq> None)"
| "wire_ok (WP r i k xs) = (ref_ok r \<and> num_index i \<noteq> None \<and> num_index k \<noteq> None)"
| "wire_ok (WM r ks) = (ref_ok r \<and> permutation_ok ks)"
| "wire_ok (WDef n p) = (num_index n \<noteq> None \<and> path_ok p)"

lemma length_args3: "length xs = 3 \<longleftrightarrow> (\<exists>a b c. xs = [a, b, c])"
  by (auto simp: length_Suc_conv numeral_eq_Suc)

lemma ok_ref_iff: "ok_ref v = Inr () \<longleftrightarrow> (\<exists>r. [v] = ref_value (Some r) \<and> ref_ok (Some r))"
proof (cases v)
  case (JNum n)
  have "JNum n = path_value p \<longleftrightarrow> False" for p by (simp add: path_value_def)
  then have "[v] = ref_value (Some r) \<longleftrightarrow> r = Ref n" for r
    using JNum by (cases r) auto
  with JNum show ?thesis by (auto simp: ok_ref_def res_simps)
next
  case (JArr xs)
  have "[v] = ref_value (Some r) \<longleftrightarrow> (\<exists>p. r = Inline p \<and> xs = map seg_value p)" for r
    using JArr by (cases r) (auto simp: path_value_def)
  with JArr show ?thesis by (auto simp: ok_ref_def assert_safe_path_iff)
next
qed (auto simp: ok_ref_def path_value_def elim!: ref_value.elims [OF sym])

lemma ref_value_ok: "r \<noteq> None \<Longrightarrow> ok_ref (hd (ref_value r)) = Inr () \<longleftrightarrow> ref_ok r"
  by (cases r rule: ref_value.cases)
     (auto simp: ok_ref_def path_value_def res_simps assert_safe_path_iff)

lemma permutation_value: "assert_permutation (JArr (map JNum ks)) = Inr () \<longleftrightarrow> permutation_ok ks"
proof -
  have "map JNum ks = map JNum ls \<longleftrightarrow> ks = ls" for ks ls
    by (rule inj_map_eq_map) (simp add: inj_def)
  then show ?thesis by (auto simp: assert_permutation_iff)
qed

lemma wire_value_ok: "assert_valid_wire_op (wire_value w) = Inr () \<longleftrightarrow> wire_ok w"
proof -
  have some: "ref_value r = [hd (ref_value r)]" if "r \<noteq> None" for r
    using that by (cases r rule: ref_value.cases) simp_all
  note facts = assert_valid_wire_op_def splice_shape_def res_simps is_text_def is_array_def
      permutation_value ref_value_ok
  show ?thesis
  proof (cases "wire_ref w = None")
    case True
    then show ?thesis
      by (cases w) (auto simp: facts path_value_def assert_safe_path_iff)
  next
    case False
    then obtain a where a: "ref_value (wire_ref w) = [a]" "ok_ref a = Inr () \<longleftrightarrow> ref_ok (wire_ref w)"
      using some ref_value_ok by metis
    then show ?thesis by (cases w) (auto simp: facts)
  qed
qed

lemma ref_value_Nil [simp]: "ref_value r = [] \<longleftrightarrow> r = None" "[] = ref_value r \<longleftrightarrow> r = None"
  by (cases r rule: ref_value.cases; simp)+

lemma ref_args:
  "length args = Suc 0 \<Longrightarrow> \<exists>r x. args = ref_value r @ [x] \<and> x = args ! 0"
  "length args = 2 \<Longrightarrow> ok_ref (args ! 0) = Inr () \<Longrightarrow> \<exists>r x. args = ref_value r @ [x] \<and> x = args ! 1"
  "length args = 3 \<Longrightarrow> \<exists>r x y z. args = ref_value r @ [x, y, z] \<and> x = args ! 0 \<and> y = args ! 1 \<and> z = args ! 2"
  "length args = 4 \<Longrightarrow> ok_ref (args ! 0) = Inr () \<Longrightarrow>
     \<exists>r x y z. args = ref_value r @ [x, y, z] \<and> x = args ! 1 \<and> y = args ! Suc (Suc 0) \<and> z = args ! Suc (Suc (Suc 0))"
proof -
  show "length args = Suc 0 \<Longrightarrow> \<exists>r x. args = ref_value r @ [x] \<and> x = args ! 0"
    by (rule exI [of _ None]) (auto simp: length_args)
  show "length args = 3 \<Longrightarrow> \<exists>r x y z. args = ref_value r @ [x, y, z] \<and> x = args ! 0 \<and> y = args ! 1 \<and> z = args ! 2"
    by (rule exI [of _ None]) (auto simp: length_args3)
  have ref: "\<exists>r. ref_value r = [x]" if "ok_ref x = Inr ()" for x
    using that by (metis ok_ref_iff)
  show "length args = 2 \<Longrightarrow> ok_ref (args ! 0) = Inr () \<Longrightarrow> \<exists>r x. args = ref_value r @ [x] \<and> x = args ! 1"
    by (clarsimp simp: length_args dest!: ref) (metis append_Cons append_Nil)
  show "length args = 4 \<Longrightarrow> ok_ref (args ! 0) = Inr () \<Longrightarrow>
     \<exists>r x y z. args = ref_value r @ [x, y, z] \<and> x = args ! 1 \<and> y = args ! Suc (Suc 0) \<and> z = args ! Suc (Suc (Suc 0))"
    by (clarsimp simp: length_args dest!: ref) (metis append_Cons append_Nil)
qed

lemma delete_args:
  "args = [] \<or> length args = Suc 0 \<and> ok_ref (args ! 0) = Inr () \<Longrightarrow> \<exists>r. args = ref_value r"
proof (cases args)
  case Nil
  then have "args = ref_value None" by simp
  then show ?thesis by blast
next
  case (Cons a l)
  then show "args = [] \<or> length args = Suc 0 \<and> ok_ref (args ! 0) = Inr () \<Longrightarrow> ?thesis"
    using ok_ref_iff [of a] by auto
qed

lemma wire_args:
  assumes "assert_valid_wire_op (JArr (verb # args)) = Inr ()"
  shows "\<exists>w. JArr (verb # args) = wire_value w"
proof -
  note facts = assert_valid_wire_op_def splice_shape_def res_simps is_text_iff is_array_iff natural_iff
      assert_permutation_iff
  from assms consider (r) "verb = JStr (js ''r'')" | (s) "verb = JStr (js ''s'')" | (d) "verb = JStr (js ''d'')"
    | (a) "verb = JStr (js ''a'')" | (t) "verb = JStr (js ''t'')" | (p) "verb = JStr (js ''p'')"
    | (m) "verb = JStr (js ''m'')" | (def) "verb = JStr (js ''#'')"
    by (auto simp: assert_valid_wire_op_def split: if_splits)
  then show ?thesis
  proof cases
    case r
    with assms obtain v where "args = [v]" by (auto simp: facts length_args)
    with r show ?thesis by (intro exI [of _ "WR v"]) simp
  next
    case s
    with assms ref_args(1,2) [of args] obtain q v where "args = ref_value q @ [v]"
      by (auto simp: facts split: if_splits)
    with s show ?thesis by (intro exI [of _ "WS q v"]) simp
  next
    case d
    with assms delete_args [of args] obtain q where "args = ref_value q"
      by (auto simp: facts split: if_splits)
    with d show ?thesis by (intro exI [of _ "WD q"]) simp
  next
    case a
    with assms ref_args(1,2) [of args] obtain q v where "args = ref_value q @ [JStr v]"
      by (auto simp: facts split: if_splits)
    with a show ?thesis by (intro exI [of _ "WA q v"]) simp
  next
    case t
    with assms ref_args(1,2) [of args] obtain q v where "args = ref_value q @ [JNum v]"
      by (auto simp: facts split: if_splits)
    with t show ?thesis by (intro exI [of _ "WT q v"]) simp
  next
    case p
    with assms ref_args(3,4) [of args] obtain q i k xs where "args = ref_value q @ [JNum i, JNum k, JArr xs]"
      by (auto simp: facts split: if_splits)
    with p show ?thesis by (intro exI [of _ "WP q i k xs"]) simp
  next
    case m
    with assms ref_args(1,2) [of args] obtain q ks where "args = ref_value q @ [JArr (map JNum ks)]"
      by (auto simp: facts split: if_splits)
    with m show ?thesis by (intro exI [of _ "WM q ks"]) simp
  next
    case def
    with assms obtain n q where "args = [JNum n, path_value q]"
      by (auto simp: facts length_args path_value_def assert_safe_path_iff)
    with def show ?thesis by (intro exI [of _ "WDef n q"]) simp
  qed
qed

text \<open>
  \<open>assertValidWireOp\<close> accepts an arbitrary value exactly when it is the tuple of a wire
  operation: the full form with a safe path or a natural id, the short form without a path, or a
  definition.
\<close>

theorem assert_valid_wire_op_spec:
  "assert_valid_wire_op v = Inr () \<longleftrightarrow> (\<exists>w. v = wire_value w \<and> wire_ok w)"
proof
  assume v: "assert_valid_wire_op v = Inr ()"
  then obtain verb args where "v = JArr (verb # args)"
    by (auto simp: assert_valid_wire_op_def split: jsv.splits list.splits)
  with v wire_args obtain w where "v = wire_value w" by blast
  with v show "\<exists>w. v = wire_value w \<and> wire_ok w" by (auto simp: wire_value_ok)
qed (auto simp: wire_value_ok)

section \<open>Round trip\<close>

text \<open>Paths and operations as the tracker produces them: no segment is minus zero.\<close>

definition plain_path :: "path \<Rightarrow> bool" where
  "plain_path p \<longleftrightarrow> path_ok p \<and> (\<forall>s \<in> set p. case s of SStr _ \<Rightarrow> True | SNum n \<Rightarrow> \<exists>i. n = NInt i)"

definition op_plain :: "op \<Rightarrow> bool" where
  "op_plain x \<longleftrightarrow> op_ok x \<and> plain_path (op_path x)"

lemma seg_text_inject:
  "plain_path [a] \<Longrightarrow> plain_path [b] \<Longrightarrow> seg_text a = seg_text b \<Longrightarrow> a = b"
  by (cases a; cases b) (auto simp: plain_path_def path_ok_def split: if_splits)

lemma plain_path_Cons: "plain_path (a # p) \<longleftrightarrow> plain_path [a] \<and> plain_path p"
  by (auto simp: plain_path_def path_ok_def)

lemma path_key_inject:
  assumes "plain_path p" "plain_path q" "path_key p = path_key q"
  shows "p = q"
proof -
  from assms(3) have "map seg_text p = map seg_text q"
    by (simp only: path_key_def stringify_inject jtext.inject)
  with assms(1,2) show ?thesis
  proof (induction p arbitrary: q)
    case (Cons a p)
    then obtain b r where "q = b # r" by (cases q) auto
    with Cons show ?case by (auto simp: plain_path_Cons [of a p] plain_path_Cons [of b r] dest: seg_text_inject)
  qed simp
qed

text \<open>
  The states of a matching encoder and decoder: they agree on the previous path, and every id the
  encoder has given out names in the decoder the path it stands for.
\<close>

definition in_step :: "encoder \<Rightarrow> (nat \<Rightarrow> path option) \<Rightarrow> path option \<Rightarrow> bool" where
  "in_step e paths previous \<longleftrightarrow>
     enc_previous e = map_option path_key previous \<and>
     (\<forall>p. previous = Some p \<longrightarrow> plain_path p) \<and>
     (\<forall>k i. enc_ids e k = Some i \<longrightarrow>
        i < enc_next e \<and> (\<exists>p. plain_path p \<and> path_key p = k \<and> paths i = Some p))"

definition emitted :: "wire list \<Rightarrow> op list \<Rightarrow> (nat \<Rightarrow> path option) \<Rightarrow> path option \<Rightarrow>
    (nat \<Rightarrow> path option) \<Rightarrow> path option \<Rightarrow> bool" where
  "emitted ws xs paths previous paths' previous' \<longleftrightarrow>
     (\<forall>rest out. decode_loop (ws @ rest) paths previous out = decode_loop rest paths' previous' (out @ xs))"

lemma emitted_Nil: "emitted [] [] paths previous paths previous"
  by (simp add: emitted_def)

lemma emitted_append:
  "emitted ws xs a p b q \<Longrightarrow> emitted vs ys b q c r \<Longrightarrow> emitted (ws @ vs) (xs @ ys) a p c r"
  by (simp add: emitted_def)

lemma with_ref_ok: "op_ok x \<Longrightarrow> ref_ok r \<Longrightarrow> wire_ok (with_ref x r)"
  by (cases x) auto

lemma at_path_with_ref: "\<not> is_replace x \<Longrightarrow> at_path (with_ref x r) (op_path x) = x"
  by (cases x) (auto simp: is_replace_def)

lemma takes_root_ok: "op_ok x \<Longrightarrow> \<not> is_replace x \<Longrightarrow> takes_root (with_ref x r) \<or> op_path x \<noteq> []"
  by (cases x) (auto simp: is_replace_def)

lemma emitted_op:
  assumes "op_ok x" "\<not> is_replace x" "ref_ok r" "lookup_path paths previous r = Inr (op_path x)"
  shows "emitted [with_ref x r] [x] paths previous paths (Some (op_path x))"
proof -
  have "assert_valid_wire_op (wire_value (with_ref x r)) = Inr ()"
    using assms(1,3) by (simp add: wire_value_ok with_ref_ok)
  with assms takes_root_ok [OF assms(1,2), of r] at_path_with_ref [OF assms(2), of r]
  show ?thesis
    by (cases x) (auto simp: emitted_def is_replace_def simp del: wire_value.simps)
qed

lemma emitted_def_path:
  "plain_path p \<Longrightarrow> emitted [WDef (NInt (int i)) p] [] paths previous (paths(i \<mapsto> p)) previous"
  using wire_value_ok [of "WDef (NInt (int i)) p"]
  by (auto simp: emitted_def plain_path_def simp del: wire_value.simps)

lemma in_step_id:
  "in_step e paths previous \<Longrightarrow> enc_ids e k = Some i \<Longrightarrow>
     i < enc_next e \<and> (\<exists>p. plain_path p \<and> path_key p = k \<and> paths i = Some p)"
  unfolding in_step_def by blast

lemma in_step_previous:
  assumes "in_step e paths previous" "plain_path p" "enc_ids e' = enc_ids e" "enc_next e' = enc_next e"
    and "enc_previous e' = Some (path_key p)"
  shows "in_step e' paths (Some p)"
  using assms unfolding in_step_def by simp

lemma in_step_define:
  assumes "in_step e paths previous" "plain_path p" "enc_next e' = enc_next e + 1"
    and "enc_ids e' = (enc_ids e)(path_key p \<mapsto> enc_next e)" "enc_previous e' = Some (path_key p)"
  shows "in_step e' (paths(enc_next e \<mapsto> p)) (Some p)"
proof -
  have "i < enc_next e + 1 \<and> (\<exists>q. plain_path q \<and> path_key q = k \<and> (paths(enc_next e \<mapsto> p)) i = Some q)"
    if "((enc_ids e)(path_key p \<mapsto> enc_next e)) k = Some i" for k i
  proof (cases "k = path_key p")
    case False
    with that have "enc_ids e k = Some i" by simp
    from in_step_id [OF assms(1) this] show ?thesis by auto
  qed (use that assms(2) in auto)
  with assms show ?thesis unfolding in_step_def by simp
qed

lemma encode_op_in_step:
  assumes "in_step e paths previous" "op_plain x" "encode_op x e = (e', ws)"
  shows "\<exists>paths' previous'. in_step e' paths' previous' \<and> emitted ws [x] paths previous paths' previous'"
proof (cases "is_replace x")
  case True
  then obtain v where x: "x = OpR v" by (auto simp: is_replace_def split: op.splits)
  with assms(3) have e': "e' = \<lparr>enc_seen = {}, enc_ids = (\<lambda>_. None), enc_next = 0, enc_previous = None\<rparr>"
    and "ws = [WR v]" by (auto simp: encode_op_def)
  moreover have "emitted [WR v] [x] paths previous (\<lambda>_. None) None"
    using wire_value_ok [of "WR v"] by (auto simp: emitted_def x simp del: wire_value.simps)
  moreover have "in_step e' (\<lambda>_. None) None" by (simp add: e' in_step_def)
  ultimately show ?thesis by blast
next
  case False
  let ?p = "op_path x" and ?k = "path_key (op_path x)"
  from assms(2) have ok: "op_ok x" "plain_path ?p" by (simp_all add: op_plain_def)
  from False have "encode_op x e = (if enc_previous e = Some ?k then (e, [with_ref x None])
      else (case enc_ids e ?k of
          Some existing \<Rightarrow> (e\<lparr>enc_previous := Some ?k\<rparr>, [with_ref x (Some (Ref (NInt (int existing))))])
        | None \<Rightarrow>
            if ?k \<in> enc_seen e
            then (e\<lparr>enc_next := enc_next e + 1, enc_ids := (enc_ids e)(?k \<mapsto> enc_next e), enc_previous := Some ?k\<rparr>,
                  [WDef (NInt (int (enc_next e))) ?p, with_ref x (Some (Ref (NInt (int (enc_next e)))))])
            else (e\<lparr>enc_seen := insert ?k (enc_seen e), enc_previous := Some ?k\<rparr>,
                  [with_ref x (Some (Inline ?p))])))"
    by (cases x) (simp_all add: encode_op_def is_replace_def Let_def cong: option.case_cong)
  note enc = trans [OF this [symmetric] assms(3)]
  consider (short) "enc_previous e = Some ?k"
    | (known) i where "enc_previous e \<noteq> Some ?k" "enc_ids e ?k = Some i"
    | (second) "enc_previous e \<noteq> Some ?k" "enc_ids e ?k = None" "?k \<in> enc_seen e"
    | (first) "enc_previous e \<noteq> Some ?k" "enc_ids e ?k = None" "?k \<notin> enc_seen e"
    by fastforce
  then show ?thesis
  proof cases
    case short
    with assms(1) obtain q where "previous = Some q" "path_key q = ?k" "plain_path q"
      by (cases previous) (auto simp: in_step_def)
    with ok(2) have "previous = Some ?p" by (auto dest: path_key_inject)
    with short enc emitted_op [OF ok(1) False, of None paths previous] assms(1) show ?thesis
      by (auto simp: lookup_path_def)
  next
    case (known i)
    from in_step_id [OF assms(1) known(2)]
    obtain q where "paths i = Some q" "path_key q = ?k" "plain_path q" by blast
    with ok(2) have "paths i = Some ?p" by (auto dest: path_key_inject)
    moreover from known enc have "in_step e' paths (Some ?p)"
      by (intro in_step_previous [OF assms(1) ok(2)]) auto
    ultimately show ?thesis
      using known enc emitted_op [OF ok(1) False, of "Some (Ref (NInt (int i)))" paths previous]
      by (auto simp: lookup_path_def)
  next
    case second
    let ?n = "enc_next e" and ?paths = "paths(enc_next e \<mapsto> ?p)"
    have "emitted ([WDef (NInt (int ?n)) ?p] @ [with_ref x (Some (Ref (NInt (int ?n))))]) ([] @ [x])
        paths previous ?paths (Some ?p)"
      by (rule emitted_append [OF emitted_def_path [OF ok(2)] emitted_op [OF ok(1) False]])
         (simp_all add: lookup_path_def)
    moreover from second enc have "in_step e' ?paths (Some ?p)"
      by (intro in_step_define [OF assms(1) ok(2)]) auto
    ultimately show ?thesis using second enc by auto
  next
    case first
    from first enc have "in_step e' paths (Some ?p)"
      by (intro in_step_previous [OF assms(1) ok(2)]) auto
    moreover have "emitted [with_ref x (Some (Inline ?p))] [x] paths previous paths (Some ?p)"
      using ok by (intro emitted_op [OF ok(1) False]) (simp_all add: lookup_path_def plain_path_def)
    ultimately show ?thesis using first enc by auto
  qed
qed

lemma encode_loop_in_step:
  "in_step e paths previous \<Longrightarrow> list_all op_plain xs \<Longrightarrow>
     \<exists>e' ws paths' previous'. encode_loop xs e out = (e', out @ ws) \<and>
       in_step e' paths' previous' \<and> emitted ws xs paths previous paths' previous'"
proof (induction xs arbitrary: e paths previous out)
  case Nil
  then show ?case by (fastforce intro: emitted_Nil)
next
  case (Cons x xs)
  obtain e1 vs where e1: "encode_op x e = (e1, vs)" by (cases "encode_op x e")
  from encode_op_in_step [OF Cons.prems(1) _ e1] Cons.prems(2) obtain p1 q1
    where 1: "in_step e1 p1 q1" "emitted vs [x] paths previous p1 q1" by auto
  from Cons.IH [OF 1(1), of "out @ vs"] Cons.prems(2) obtain e' ws p2 q2
    where 2: "encode_loop xs e1 (out @ vs) = (e', (out @ vs) @ ws)" "in_step e' p2 q2" "emitted ws xs p1 q1 p2 q2"
    by auto
  from emitted_append [OF 1(2) 2(3)] 2(1,2) e1 show ?case by auto
qed

lemma encode_batch_decodes:
  assumes "in_step (e\<lparr>enc_previous := None\<rparr>) (dec_paths d) None" "list_all op_plain ops"
  shows "\<exists>e' ws d'. encode_batch e ops = (e', ws) \<and> decode_batch d ws = (d', Inr ops) \<and>
    in_step (e'\<lparr>enc_previous := None\<rparr>) (dec_paths d') None"
proof -
  from encode_loop_in_step [OF assms, of "[]"] obtain e' ws p q
    where *: "encode_loop ops (e\<lparr>enc_previous := None\<rparr>) [] = (e', ws)" "in_step e' p q"
      "emitted ws ops (dec_paths d) None p q" by auto
  from *(3) [unfolded emitted_def, rule_format, of "[]" "[]"] have "decode_batch d ws = (d\<lparr>dec_paths := p\<rparr>, Inr ops)"
    by (simp add: decode_batch_def)
  moreover from *(2) have "in_step (e'\<lparr>enc_previous := None\<rparr>) p None" by (auto simp: in_step_def)
  ultimately show ?thesis using *(1) by (auto simp: encode_batch_def)
qed

lemma encode_stream_decodes:
  "in_step (e\<lparr>enc_previous := None\<rparr>) (dec_paths d) None \<Longrightarrow> list_all (list_all op_plain) bs \<Longrightarrow>
     decode_stream d (encode_stream e bs) = Inr bs"
proof (induction bs arbitrary: e d)
  case (Cons b bs)
  from encode_batch_decodes [OF Cons.prems(1), of b] Cons.prems(2) obtain e' ws d'
    where *: "encode_batch e b = (e', ws)" "decode_batch d ws = (d', Inr b)"
      "in_step (e'\<lparr>enc_previous := None\<rparr>) (dec_paths d') None" by auto
  with Cons.IH [OF *(3)] Cons.prems(2) show ?case by simp
qed simp

text \<open>
  C11.  A fresh decoder turns the batches of a fresh encoder back into the same operations, batch by
  batch: interning, id references and omitted paths lose nothing.
\<close>

theorem delta_codec_roundtrip:
  assumes "list_all (list_all op_plain) bs"
  shows "decode_stream new_delta_decoder (encode_stream new_encoder bs) = Inr bs"
  by (rule encode_stream_decodes [OF _ assms]) (simp add: in_step_def new_encoder_def)

text \<open>
  C33.  A batch that begins with a replacement is a recovery point: whatever the encoder has sent
  before, and whatever state the reader's decoder is in, the reader that starts there decodes this
  batch and every later one correctly.
\<close>

theorem delta_codec_recovery:
  assumes "is_base b" "list_all (list_all op_plain) (b # bs)"
  shows "decode_stream d (encode_stream e (b # bs)) = Inr (b # bs)"
proof -
  from assms(1) obtain v ops where b: "b = OpR v # ops"
    by (auto simp: is_base_def is_replace_def split: list.splits op.splits)
  text \<open>After the replacement nothing of the earlier states is left.\<close>
  have enc: "encode_batch e b = encode_batch new_encoder b"
    by (simp add: b encode_batch_def encode_op_def new_encoder_def)
  obtain e' ws where ws: "encode_batch new_encoder b = (e', ws)" by (cases "encode_batch new_encoder b")
  from encode_batch_decodes [of new_encoder new_delta_decoder b] assms(2) ws obtain d'
    where d': "decode_batch new_delta_decoder ws = (d', Inr b)" "in_step (e'\<lparr>enc_previous := None\<rparr>) (dec_paths d') None"
    by (auto simp: in_step_def new_encoder_def)
  from encode_loop_in_step [of "\<lparr>enc_seen = {}, enc_ids = (\<lambda>_. None), enc_next = 0, enc_previous = None\<rparr>"
      "\<lambda>_. None" None ops "[WR v]"] assms(2) ws b
  obtain vs where vs: "ws = WR v # vs"
    by (auto simp: in_step_def encode_batch_def encode_op_def new_encoder_def)
  have "decode_loop ws paths None [] = decode_loop vs (\<lambda>_. None) None [OpR v]" for paths
    using wire_value_ok [of "WR v"] by (simp add: vs del: wire_value.simps)
  then have "decode_batch d ws = decode_batch new_delta_decoder ws"
    by (cases d) (simp add: decode_batch_def new_delta_decoder_def split: prod.splits)
  with d' ws enc encode_stream_decodes [OF d'(2)] assms(2) show ?thesis by simp
qed

section \<open>Witnesses\<close>

definition sample_ops :: "op list" where
  "sample_ops = [OpR JNull, OpS [SStr (js ''a'')] JNull, OpS [SNum (NInt 0)] JNull, OpD [SStr (js ''a'')],
     OpD [SStr (js ''a'')]]"

lemma sample_ops_plain: "list_all op_plain sample_ops"
  by (simp add: sample_ops_def op_plain_def plain_path_def path_ok_def RESERVED_SEGMENTS_def)

theorem delta_codec_roundtrip_witness:
  "decode_stream new_delta_decoder (encode_stream new_encoder [sample_ops, sample_ops]) = Inr [sample_ops, sample_ops]"
  by (rule delta_codec_roundtrip) (simp add: sample_ops_plain)

theorem delta_codec_recovery_witness:
  "decode_stream \<lparr>dec_paths = (\<lambda>_. Some [])\<rparr> (encode_stream new_encoder [sample_ops, [OpD [SStr (js ''a'')]]]) =
     Inr [sample_ops, [OpD [SStr (js ''a'')]]]"
proof (rule delta_codec_recovery)
  show "is_base sample_ops" by (simp add: sample_ops_def is_base_def is_replace_def)
  show "list_all (list_all op_plain) [sample_ops, [OpD [SStr (js ''a'')]]]"
    by (simp add: sample_ops_plain) (simp add: op_plain_def plain_path_def path_ok_def RESERVED_SEGMENTS_def)
qed

end
