(* ===== verification/Revisions.thy ===== *)
theory Revisions
  imports DeltaOps
begin

text \<open>
  Immutable JSON revisions as \<open>packages/chord/src/delta/diff.ts\<close> compares them.  Two revisions share
  parts, and the comparison looks at object identity first, so a container carries the reference of
  its object: \<open>===\<close> on two containers compares references, on two other values the values.  Two
  references denote the same object exactly when they are equal, which \<open>shares\<close> states of a pair of
  revisions; \<open>erase\<close> forgets the references.

  \<open>similar\<close> is equality of JSON up to the order of keys and the sign of zero, the two differences
  that the comparison does not see: it never reorders keys, and \<open>0 === -0\<close>.
\<close>

datatype rev =
    RNull
  | RBool bool
  | RNum js_num
  | RStr js_string
  | RArr nat "rev list"
  | RObj nat "(js_string \<times> rev) list"

text \<open>Numbers under \<open>===\<close>; JSON has no NaN, and minus zero equals zero.\<close>

definition pos_zero :: "js_num \<Rightarrow> js_num" where
  "pos_zero n = (if n = NFlt neg_zero_bits then NInt 0 else n)"

definition same_num :: "js_num \<Rightarrow> js_num \<Rightarrow> bool" where
  "same_num m n \<longleftrightarrow> pos_zero m = pos_zero n"

definition is_container :: "rev \<Rightarrow> bool" where
  "is_container v = (case v of RArr _ _ \<Rightarrow> True | RObj _ _ \<Rightarrow> True | _ \<Rightarrow> False)"

text \<open>\<open>left === right\<close>; a \<open>Map\<close> keyed by values compares its keys in the same way.\<close>

fun identical :: "rev \<Rightarrow> rev \<Rightarrow> bool" where
  "identical RNull RNull = True"
| "identical (RBool a) (RBool b) = (a = b)"
| "identical (RNum m) (RNum n) = same_num m n"
| "identical (RStr s) (RStr t) = (s = t)"
| "identical (RArr i xs) (RArr j ys) = (i = j)"
| "identical (RObj i ps) (RObj j qs) = (i = j)"
| "identical v w = False"

section \<open>Equality of values\<close>

text \<open>\<open>equalJson\<close>; the identity test comes first at every level.\<close>

fun equal_json :: "rev \<Rightarrow> rev \<Rightarrow> bool"
  and equal_items :: "rev list \<Rightarrow> rev list \<Rightarrow> bool"
  and equal_members :: "(js_string \<times> rev) list \<Rightarrow> (js_string \<times> rev) list \<Rightarrow> bool"
where
  "equal_json (RArr i xs) w =
     (identical (RArr i xs) w \<or>
      (case w of RArr j ys \<Rightarrow> length xs = length ys \<and> equal_items xs ys | _ \<Rightarrow> False))"
| "equal_json (RObj i ps) w =
     (identical (RObj i ps) w \<or>
      (case w of RObj j qs \<Rightarrow> length ps = length qs \<and> equal_members ps qs | _ \<Rightarrow> False))"
| "equal_json v w = identical v w"
| "equal_items (x # xs) (y # ys) = (equal_json x y \<and> equal_items xs ys)"
| "equal_items xs ys = True"
| "equal_members [] qs = True"
| "equal_members ((k, v) # ps) qs =
     ((case obj_get qs k of Some w \<Rightarrow> equal_json v w | None \<Rightarrow> False) \<and> equal_members ps qs)"

definition same_value :: "rev \<Rightarrow> rev \<Rightarrow> bool" where
  "same_value l r \<longleftrightarrow> identical l r \<or> equal_json l r"

section \<open>Contents\<close>

fun erase :: "rev \<Rightarrow> jsv"
  and erase_items :: "rev list \<Rightarrow> jsv list"
  and erase_members :: "(js_string \<times> rev) list \<Rightarrow> props"
where
  "erase RNull = JNull"
| "erase (RBool b) = JBool b"
| "erase (RNum n) = JNum n"
| "erase (RStr s) = JStr s"
| "erase (RArr i xs) = JArr (erase_items xs)"
| "erase (RObj i ps) = JObj (erase_members ps)"
| "erase_items [] = []"
| "erase_items (x # xs) = erase x # erase_items xs"
| "erase_members [] = []"
| "erase_members ((k, v) # ps) = (k, erase v) # erase_members ps"

lemma erase_items_map [simp]: "erase_items xs = map erase xs"
  by (induction xs) simp_all

lemma erase_members_map [simp]: "erase_members ps = map (\<lambda>(k, v). (k, erase v)) ps"
  by (induction ps) auto

fun similar :: "jsv \<Rightarrow> jsv \<Rightarrow> bool"
  and similar_items :: "jsv list \<Rightarrow> jsv list \<Rightarrow> bool"
  and similar_members :: "props \<Rightarrow> props \<Rightarrow> bool"
where
  "similar (JNum m) w = (case w of JNum n \<Rightarrow> same_num m n | _ \<Rightarrow> False)"
| "similar (JArr xs) w = (case w of JArr ys \<Rightarrow> similar_items xs ys | _ \<Rightarrow> False)"
| "similar (JObj ps) w =
     (case w of JObj qs \<Rightarrow> fst ` set ps = fst ` set qs \<and> similar_members ps qs | _ \<Rightarrow> False)"
| "similar v w = (v = w)"
| "similar_items [] ys = (ys = [])"
| "similar_items (x # xs) ys = (case ys of [] \<Rightarrow> False | y # zs \<Rightarrow> similar x y \<and> similar_items xs zs)"
| "similar_members [] qs = True"
| "similar_members ((k, v) # ps) qs =
     ((case obj_get qs k of Some w \<Rightarrow> similar v w | None \<Rightarrow> False) \<and> similar_members ps qs)"

lemma similar_items_iff [simp]: "similar_items xs ys \<longleftrightarrow> list_all2 similar xs ys"
  by (induction xs arbitrary: ys) (auto simp: list_all2_Cons1 split: list.splits)

lemma similar_members_iff:
  "similar_members ps qs \<longleftrightarrow> (\<forall>(k, v) \<in> set ps. \<exists>w. obj_get qs k = Some w \<and> similar v w)"
  by (induction ps) (auto split: option.splits)

lemma similar_obj:
  assumes "distinct (map fst ps)"
  shows "similar (JObj ps) (JObj qs) \<longleftrightarrow>
    fst ` set ps = fst ` set qs \<and>
    (\<forall>k v w. obj_get ps k = Some v \<longrightarrow> obj_get qs k = Some w \<longrightarrow> similar v w)"
proof -
  have get: "(k, v) \<in> set ps \<longleftrightarrow> obj_get ps k = Some v" for k v
    using assms by (simp add: obj_get_def)
  show ?thesis
  proof (cases "fst ` set ps = fst ` set qs")
    case True
    have some: "\<exists>w. obj_get qs k = Some w" if "obj_get ps k = Some v" for k v
    proof -
      from that have "k \<in> fst ` set qs" unfolding True [symmetric] by (force simp flip: get)
      then show ?thesis using obj_get_None [of qs k] by auto
    qed
    have one: "(obj_get ps k = Some v \<longrightarrow> (\<exists>w. obj_get qs k = Some w \<and> similar v w)) \<longleftrightarrow>
        (\<forall>w. obj_get ps k = Some v \<longrightarrow> obj_get qs k = Some w \<longrightarrow> similar v w)" for k v
      using some [of k v] by auto
    have "similar_members ps qs \<longleftrightarrow>
        (\<forall>k v. obj_get ps k = Some v \<longrightarrow> (\<exists>w. obj_get qs k = Some w \<and> similar v w))"
      unfolding similar_members_iff by (simp only: Ball_def split_paired_All get prod.case)
    with True show ?thesis by (simp only: one similar.simps jsv.case simp_thms)
  qed simp
qed

section \<open>Shared parts\<close>

text \<open>The containers of a revision, and the references that two revisions may have in common.\<close>

fun parts :: "rev \<Rightarrow> rev list"
  and parts_items :: "rev list \<Rightarrow> rev list"
  and parts_members :: "(js_string \<times> rev) list \<Rightarrow> rev list"
where
  "parts (RArr i xs) = RArr i xs # parts_items xs"
| "parts (RObj i ps) = RObj i ps # parts_members ps"
| "parts v = []"
| "parts_items [] = []"
| "parts_items (x # xs) = parts x @ parts_items xs"
| "parts_members [] = []"
| "parts_members ((k, v) # ps) = parts v @ parts_members ps"

fun ref_of :: "rev \<Rightarrow> nat option" where
  "ref_of (RArr i xs) = Some i"
| "ref_of (RObj i ps) = Some i"
| "ref_of v = None"

definition shares :: "rev \<Rightarrow> rev \<Rightarrow> bool" where
  "shares b a \<longleftrightarrow> list_all (\<lambda>u. list_all (\<lambda>v. ref_of u = ref_of v \<longrightarrow> u = v) (parts a)) (parts b)"

lemma set_parts_items [simp]: "set (parts_items xs) = (\<Union>x \<in> set xs. set (parts x))"
  by (induction xs) auto

lemma set_parts_members [simp]: "set (parts_members ps) = (\<Union>p \<in> set ps. set (parts (snd p)))"
  by (induction ps) auto

lemma shares_iff: "shares b a \<longleftrightarrow> (\<forall>u \<in> set (parts b). \<forall>v \<in> set (parts a). ref_of u = ref_of v \<longrightarrow> u = v)"
  by (simp add: shares_def list_all_iff)

lemma shares_items: "shares (RArr i xs) (RArr j ys) \<Longrightarrow> x \<in> set xs \<Longrightarrow> y \<in> set ys \<Longrightarrow> shares x y"
  by (auto simp: shares_iff)

lemma shares_members:
  "shares (RObj i ps) (RObj j qs) \<Longrightarrow> (k, x) \<in> set ps \<Longrightarrow> (l, y) \<in> set qs \<Longrightarrow> shares x y"
  unfolding shares_iff by (force split: prod.splits)

text \<open>Two revisions that may be compared.\<close>

definition comparable :: "rev \<Rightarrow> rev \<Rightarrow> bool" where
  "comparable b a \<longleftrightarrow> shares b a \<and> json_ok (erase b) \<and> json_ok (erase a)"

definition comparable_items :: "rev list \<Rightarrow> rev list \<Rightarrow> bool" where
  "comparable_items xs ys \<longleftrightarrow>
     (\<forall>x \<in> set xs. \<forall>y \<in> set ys. comparable x y) \<and> (\<forall>y \<in> set ys. json_ok (erase y))"

lemma comparable_arr: "comparable (RArr i xs) (RArr j ys) \<Longrightarrow> comparable_items xs ys"
  by (auto simp: comparable_def comparable_items_def json_ok_arr intro: shares_items)

lemma comparable_items_sub:
  "comparable_items xs ys \<Longrightarrow> set us \<subseteq> set xs \<Longrightarrow> set vs \<subseteq> set ys \<Longrightarrow> comparable_items us vs"
  unfolding comparable_items_def by blast

lemma comparable_members:
  "comparable (RObj i ps) (RObj j qs) \<Longrightarrow> (k, x) \<in> set ps \<Longrightarrow> (l, y) \<in> set qs \<Longrightarrow> comparable x y"
  by (fastforce simp: comparable_def json_ok_obj intro: shares_members)

lemma comparable_obj_distinct:
  "comparable (RObj i ps) (RObj j qs) \<Longrightarrow> distinct (map fst ps) \<and> distinct (map fst qs)"
  by (simp add: comparable_def json_ok_obj obj_ordered_def o_def case_prod_unfold)

section \<open>The comparison decides similarity\<close>

lemma same_num_refl [simp]: "same_num n n"
  by (simp add: same_num_def)

lemma similar_refl: "json_ok v \<Longrightarrow> similar v v"
proof (induction v)
  case (JArr xs)
  then show ?case by (auto simp: json_ok_arr list.rel_refl_strong)
next
  case (JObj ps)
  then have "distinct (map fst ps)" by (simp add: json_ok_obj obj_ordered_def)
  moreover have "similar v v" if "obj_get ps k = Some v" for k v
    using JObj obj_get_set [OF that] by (fastforce simp: json_ok_obj)
  ultimately show ?case by (auto simp: similar_obj simp del: similar.simps)
qed simp_all

lemma identical_erase:
  assumes "shares x y" "identical x y"
  shows "erase x = erase y \<or> (\<exists>m n. x = RNum m \<and> y = RNum n \<and> same_num m n)"
  using assms by (cases x; cases y) (auto simp: shares_iff)

lemma identical_similar:
  assumes "comparable x y" "identical x y"
  shows "similar (erase x) (erase y)"
  using identical_erase [of x y] assms similar_refl [of "erase x"] by (auto simp: comparable_def)

lemma obj_get_map_snd: "obj_get (map (\<lambda>(k, v). (k, f v)) ps) k = map_option f (obj_get ps k)"
  by (induction ps) auto

lemma equal_json_similar:
  "comparable x y \<Longrightarrow> equal_json x y \<Longrightarrow> similar (erase x) (erase y)"
  "comparable_items xs ys \<Longrightarrow> length xs = length ys \<Longrightarrow> equal_items xs ys \<Longrightarrow>
     list_all2 similar (map erase xs) (map erase ys)"
  "(\<And>k v l w. (k, v) \<in> set ps \<Longrightarrow> (l, w) \<in> set qs \<Longrightarrow> comparable v w) \<Longrightarrow> equal_members ps qs \<Longrightarrow>
     similar_members (erase_members ps) (erase_members qs) \<and> fst ` set ps \<subseteq> fst ` set qs"
proof (induction x y and xs ys and ps qs rule: equal_json_equal_items_equal_members.induct)
  case (1 i xs w)
  then show ?case
    by (cases "identical (RArr i xs) w")
      (auto simp del: identical.simps split: rev.splits dest: comparable_arr identical_similar)
next
  case (2 i ps w)
  show ?case
  proof (cases "identical (RObj i ps) w")
    case True
    with 2 show ?thesis by (simp only: identical_similar)
  next
    case False
    with 2 obtain j qs where w: "w = RObj j qs" "length ps = length qs" "equal_members ps qs"
      by (auto split: rev.splits)
    note c = "2.prems"(1) [unfolded w]
    have "similar_members (erase_members ps) (erase_members qs) \<and> fst ` set ps \<subseteq> fst ` set qs"
      by (rule "2.IH" [OF w(1) _ w(3)]) (erule (1) comparable_members [OF c])
    then have sim: "similar_members (erase_members ps) (erase_members qs)" and sub: "fst ` set ps \<subseteq> fst ` set qs"
      by simp_all
    from comparable_obj_distinct [OF c] w(2) have "card (fst ` set ps) = card (fst ` set qs)"
      by (metis distinct_card length_map set_map)
    with sub have "fst ` set ps = fst ` set qs" by (simp add: card_subset_eq)
    with sim show ?thesis by (simp add: w(1) image_image case_prod_unfold)
  qed
next
  case (4 x xs y ys)
  then show ?case by (auto simp: comparable_items_def)
next
  case (7 k v ps qs)
  from "7.prems"(2) obtain w where w: "obj_get qs k = Some w" "equal_json v w" "equal_members ps qs"
    by (auto split: option.splits)
  have q: "(k, w) \<in> set qs" by (rule obj_get_set [OF w(1)])
  have "comparable v w" by (rule "7.prems"(1) [of k v k w, OF _ q]) simp
  with "7.IH"(1) w have "similar (erase v) (erase w)" by blast
  moreover have "similar_members (erase_members ps) (erase_members qs) \<and> fst ` set ps \<subseteq> fst ` set qs"
    by (rule "7.IH"(2) [OF _ w(3)]) (rule "7.prems"(1) [OF list.set_intros(2)], assumption+)
  moreover have "k \<in> fst ` set qs" using q by (rule image_eqI [rotated]) simp
  ultimately show ?case by (simp add: obj_get_map_snd w(1))
qed (auto dest: identical_similar)

lemma erase_leaf_iff:
  "(JNull = erase w \<longleftrightarrow> w = RNull) \<and> (JBool b = erase w \<longleftrightarrow> w = RBool b) \<and>
     (JStr s = erase w \<longleftrightarrow> w = RStr s)"
  by (cases w) auto

lemma similar_equal_json:
  "json_ok (erase x) \<Longrightarrow> json_ok (erase y) \<Longrightarrow> similar (erase x) (erase y) \<Longrightarrow> equal_json x y"
  "\<forall>x \<in> set xs. json_ok (erase x) \<Longrightarrow> \<forall>y \<in> set ys. json_ok (erase y) \<Longrightarrow>
     list_all2 similar (map erase xs) (map erase ys) \<Longrightarrow> equal_items xs ys"
  "\<forall>p \<in> set ps. json_ok (erase (snd p)) \<Longrightarrow> \<forall>p \<in> set qs. json_ok (erase (snd p)) \<Longrightarrow>
     similar_members (erase_members ps) (erase_members qs) \<Longrightarrow> equal_members ps qs"
proof (induction x y and xs ys and ps qs rule: equal_json_equal_items_equal_members.induct)
  case (1 i xs w)
  then obtain j ys where w: "w = RArr j ys" by (cases w) auto
  from "1.prems" have l: "list_all2 similar (map erase xs) (map erase ys)" by (simp add: w)
  from list_all2_lengthD [OF this] have "length xs = length ys" by simp
  moreover have "equal_items xs ys" if "i \<noteq> j"
    using that "1.prems" l by (intro "1.IH") (simp_all add: w json_ok_arr \<open>length xs = length ys\<close>)
  ultimately show ?case by (auto simp: w)
next
  case (2 i ps w)
  then obtain j qs where w: "w = RObj j qs" by (cases w) auto
  from "2.prems" have ok: "obj_ordered (erase_members ps)" "\<forall>p \<in> set ps. json_ok (erase (snd p))"
    "obj_ordered (erase_members qs)" "\<forall>p \<in> set qs. json_ok (erase (snd p))"
    by (auto simp: w json_ok_obj)
  from "2.prems" have keys: "fst ` set ps = fst ` set qs"
    and sim: "similar_members (erase_members ps) (erase_members qs)"
    by (simp_all add: w image_image case_prod_unfold)
  from ok have "distinct (map fst ps)" "distinct (map fst qs)"
    by (simp_all add: obj_ordered_def o_def case_prod_unfold)
  then have "length ps = length qs" by (metis keys distinct_card length_map set_map)
  moreover have "equal_members ps qs" if "i \<noteq> j"
    using that ok(2,4) sim by (intro "2.IH") (simp_all add: w \<open>length ps = length qs\<close>)
  ultimately show ?case by (auto simp: w)
next
  case (7 k v ps qs)
  from "7.prems"(3) obtain w where w: "obj_get qs k = Some w" "similar (erase v) (erase w)"
    by (auto simp: obj_get_map_snd split: option.splits)
  from obj_get_set [OF w(1)] "7.prems"(2) have "json_ok (erase w)" by auto
  with w "7.prems" "7.IH" show ?case by simp
next
  case (4 x xs y ys)
  then show ?case by simp
qed (auto simp: erase_leaf_iff elim: erase.elims split: jsv.splits)

lemma same_value_similar: "comparable x y \<Longrightarrow> same_value x y \<longleftrightarrow> similar (erase x) (erase y)"
  unfolding same_value_def
  by (metis comparable_def equal_json_similar(1) identical_similar similar_equal_json(1))

end
