(* ===== verification/SortedIds.thy ===== *)
theory SortedIds
  imports Prelude
begin

text \<open>
  The sorted ID arrays of \<open>packages/durable/src/storage/memory.ts\<close>: binary search, insertion and
  removal.  An upper bound may be infinite, as \<open>Number.POSITIVE_INFINITY\<close> is in the scans.  The locale
  \<open>threshold\<close> states what the two searches share: the elements that pass the test come first.
\<close>

section \<open>Bounds\<close>

datatype bound = NegInf | Fin int | PosInf

instantiation bound :: linorder
begin

fun less_eq_bound :: "bound \<Rightarrow> bound \<Rightarrow> bool" where
  "less_eq_bound NegInf b = True"
| "less_eq_bound (Fin i) b = (case b of NegInf \<Rightarrow> False | Fin j \<Rightarrow> i \<le> j | PosInf \<Rightarrow> True)"
| "less_eq_bound PosInf b = (b = PosInf)"

definition less_bound :: "bound \<Rightarrow> bound \<Rightarrow> bool" where
  "less_bound a b = (a \<le> b \<and> \<not> b \<le> (a :: bound))"

instance
proof
  fix a b c :: bound
  show "a < b \<longleftrightarrow> a \<le> b \<and> \<not> b \<le> a" by (rule less_bound_def)
  show "a \<le> a" by (cases a) auto
  show "a \<le> b \<Longrightarrow> b \<le> c \<Longrightarrow> a \<le> c" by (cases a; cases b; cases c) auto
  show "a \<le> b \<Longrightarrow> b \<le> a \<Longrightarrow> a = b" by (cases a; cases b) auto
  show "a \<le> b \<or> b \<le> a" by (cases a; cases b) auto
qed

end

declare less_eq_bound.simps [simp del]

lemma bound_le_simps [simp]: "NegInf \<le> b" "b \<le> PosInf" for b :: bound
  by (cases b; simp add: less_eq_bound.simps)+

lemma bound_fin_simps [simp]:
  "Fin i \<le> Fin j \<longleftrightarrow> i \<le> j" "\<not> PosInf \<le> Fin i" "\<not> Fin i \<le> NegInf" "\<not> PosInf \<le> NegInf"
  by (simp_all add: less_eq_bound.simps)

lemma bound_less_simps [simp]: "Fin i < Fin j \<longleftrightarrow> i < j" "NegInf < Fin i" "Fin i < PosInf"
  by (auto simp: less_bound_def)

section \<open>Binary search\<close>

text \<open>
  The loop that \<open>lowerBound\<close> and \<open>upperBound\<close> share, with the comparison against the target as the
  argument \<open>below\<close>.
\<close>

function search :: "('a \<Rightarrow> bool) \<Rightarrow> 'a list \<Rightarrow> nat \<Rightarrow> nat \<Rightarrow> nat" where
  "search below ids low high =
     (if low < high
      then (let middle = (low + high) div 2 in
            if below (ids ! middle) then search below ids (middle + 1) high
            else search below ids low middle)
      else low)"
  by pat_completeness auto
termination
  by (relation "measure (\<lambda>(below, ids, low, high). high - low)") auto

declare search.simps [simp del]

definition lower_bound :: "int list \<Rightarrow> int \<Rightarrow> nat" where
  "lower_bound ids target = search (\<lambda>i. i < target) ids 0 (length ids)"

definition upper_bound :: "int list \<Rightarrow> bound \<Rightarrow> nat" where
  "upper_bound ids target = search (\<lambda>i. Fin i \<le> target) ids 0 (length ids)"

definition insert_sorted :: "int list \<Rightarrow> int \<Rightarrow> int list" where
  "insert_sorted ids i =
     (if ids = [] \<or> last ids < i then ids @ [i]
      else (let k = lower_bound ids i in take k ids @ i # drop k ids))"

definition remove_sorted :: "int list \<Rightarrow> int \<Rightarrow> int list" where
  "remove_sorted ids i =
     (let k = lower_bound ids i in
      if k < length ids \<and> ids ! k = i then take k ids @ drop (k + 1) ids else ids)"

text \<open>\<open>insertMapId\<close>, and the same lines written out for the other ID maps.\<close>

definition insert_map_id :: "('k \<Rightarrow> int list option) \<Rightarrow> 'k \<Rightarrow> int \<Rightarrow> 'k \<Rightarrow> int list option" where
  "insert_map_id index key i =
     index(key \<mapsto> insert_sorted (case index key of None \<Rightarrow> [] | Some ids \<Rightarrow> ids) i)"

definition ids_at :: "('k \<Rightarrow> int list option) \<Rightarrow> 'k \<Rightarrow> int list" where
  "ids_at index key = (case index key of None \<Rightarrow> [] | Some ids \<Rightarrow> ids)"

section \<open>What the search finds\<close>

locale threshold =
  fixes below :: "int \<Rightarrow> bool"
  assumes below_down: "i \<le> j \<Longrightarrow> below j \<Longrightarrow> below i"
begin

text \<open>The search returns the number of elements that pass the test.\<close>

lemma search_count:
  assumes "sorted_wrt (<) ids"
  shows "low \<le> high \<Longrightarrow> high \<le> length ids \<Longrightarrow> \<forall>k < low. below (ids ! k) \<Longrightarrow>
      \<forall>k. high \<le> k \<longrightarrow> k < length ids \<longrightarrow> \<not> below (ids ! k) \<Longrightarrow>
    search below ids low high = length (takeWhile below ids)"
proof (induction "high - low" arbitrary: low high rule: less_induct)
  case less
  have mono: "below (ids ! k)" if "k \<le> m" "m < length ids" "below (ids ! m)" for k m
  proof (rule below_down [OF _ that(3)])
    from that(1,2) sorted_wrt_nth_less [OF assms, of k m] show "ids ! k \<le> ids ! m"
      by (cases "k = m") auto
  qed
  show ?case
  proof (cases "low < high")
    case False
    with less.prems have "low = high" by simp
    moreover have "length (takeWhile below ids) = low"
    proof (rule antisym)
      show "length (takeWhile below ids) \<le> low"
      proof (rule ccontr)
        assume "\<not> length (takeWhile below ids) \<le> low"
        then have "low < length (takeWhile below ids)" by simp
        moreover from this have "low < length ids" using length_takeWhile_le le_trans less_le_trans by blast
        ultimately have "below (ids ! low)" by (metis nth_mem set_takeWhileD takeWhile_nth)
        with \<open>low = high\<close> \<open>low < length ids\<close> less.prems(4) show False by blast
      qed
      show "low \<le> length (takeWhile below ids)"
        using less.prems(2,3) \<open>low = high\<close> by (intro length_takeWhile_less_P_nth) auto
    qed
    ultimately show ?thesis by (simp add: search.simps)
  next
    case True
    let ?m = "(low + high) div 2"
    from True have m: "low \<le> ?m" "?m < high" by auto
    show ?thesis
    proof (cases "below (ids ! ?m)")
      case below: True
      have "search below ids (?m + 1) high = length (takeWhile below ids)"
        using m less.prems mono [of _ ?m] below by (intro less.hyps) (auto simp: less_Suc_eq_le)
      with True below show ?thesis by (subst search.simps) (simp add: Let_def)
    next
      case above: False
      have "search below ids low ?m = length (takeWhile below ids)"
        using m less.prems mono [of ?m] above by (intro less.hyps) auto
      with True above show ?thesis by (subst search.simps) (simp add: Let_def)
    qed
  qed
qed

lemma search_all: "sorted_wrt (<) ids \<Longrightarrow> search below ids 0 (length ids) = length (takeWhile below ids)"
  by (rule search_count) auto

lemma split_ids:
  assumes "sorted_wrt (<) ids"
  shows "take (length (takeWhile below ids)) ids = filter below ids"
    and "drop (length (takeWhile below ids)) ids = filter (\<lambda>i. \<not> below i) ids"
proof -
  have "takeWhile below ids = filter below ids \<and> dropWhile below ids = filter (\<lambda>i. \<not> below i) ids"
    using assms
  proof (induction ids)
    case (Cons a ids)
    then have "\<not> below a \<Longrightarrow> \<forall>i \<in> set ids. \<not> below i"
      using below_down by (auto intro: less_imp_le)
    with Cons show ?case by (auto simp: filter_empty_conv filter_id_conv)
  qed simp
  then show "take (length (takeWhile below ids)) ids = filter below ids"
    and "drop (length (takeWhile below ids)) ids = filter (\<lambda>i. \<not> below i) ids"
    by (metis takeWhile_eq_take, metis dropWhile_eq_drop)
qed

end

interpretation below: threshold "\<lambda>i. i < target" for target
  by unfold_locales (rule le_less_trans)

interpretation at_most: threshold "\<lambda>i. Fin i \<le> target" for target
proof
  fix i j
  assume "i \<le> j" and "Fin j \<le> target"
  then show "Fin i \<le> target" by (cases target) auto
qed

section \<open>Sorted ID arrays as sets\<close>

text \<open>The array that lists the IDs of a set.\<close>

definition lists_ids :: "int list \<Rightarrow> int set \<Rightarrow> bool" where
  "lists_ids ids A \<longleftrightarrow> sorted_wrt (<) ids \<and> set ids = A"

lemma lists_ids_Nil [simp]: "lists_ids [] A \<longleftrightarrow> A = {}"
  by (auto simp: lists_ids_def)

lemma lists_ids_sorted: "lists_ids ids A \<Longrightarrow> sorted_wrt (<) ids"
  by (simp add: lists_ids_def)

lemma lists_ids_unique: "lists_ids ids A \<Longrightarrow> lists_ids ids' A \<Longrightarrow> ids = ids'"
  by (metis lists_ids_def strict_sorted_equal)

lemma take_lower_bound:
  "sorted_wrt (<) ids \<Longrightarrow> take (lower_bound ids i) ids = filter (\<lambda>j. j < i) ids"
  "sorted_wrt (<) ids \<Longrightarrow> drop (lower_bound ids i) ids = filter (\<lambda>j. i \<le> j) ids"
  by (simp_all add: lower_bound_def below.search_all below.split_ids not_less)

lemma take_upper_bound:
  "sorted_wrt (<) ids \<Longrightarrow> take (upper_bound ids b) ids = filter (\<lambda>j. Fin j \<le> b) ids"
  "sorted_wrt (<) ids \<Longrightarrow> drop (upper_bound ids b) ids = filter (\<lambda>j. \<not> Fin j \<le> b) ids"
  by (simp_all add: upper_bound_def at_most.search_all at_most.split_ids)

lemma sorted_filter: "sorted_wrt (<) ids \<Longrightarrow> sorted_wrt (<) (filter P ids)" for ids :: "int list"
  by (rule sorted_wrt_filter)

lemma insert_sorted_ids:
  assumes "lists_ids ids A" "i \<notin> A"
  shows "lists_ids (insert_sorted ids i) (insert i A)"
proof -
  from assms(1) have s: "sorted_wrt (<) ids" and A: "set ids = A" by (simp_all add: lists_ids_def)
  show ?thesis
  proof (cases "ids = [] \<or> last ids < i")
    case True
    with s have "\<forall>j \<in> set ids. j < i"
      by (cases ids rule: rev_cases) (auto simp: sorted_wrt_append)
    with True s A show ?thesis
      by (auto simp: insert_sorted_def lists_ids_def sorted_wrt_append)
  next
    case False
    then have eq: "insert_sorted ids i = filter (\<lambda>j. j < i) ids @ i # filter (\<lambda>j. i \<le> j) ids"
      by (simp add: insert_sorted_def Let_def take_lower_bound [OF s])
    have "i < j" if "j \<in> set (filter (\<lambda>j. i \<le> j) ids)" for j
      using that assms(2) A by (cases "i = j") auto
    then have "sorted_wrt (<) (insert_sorted ids i)"
      unfolding eq sorted_wrt_append using sorted_filter [OF s] by (auto intro: less_trans)
    moreover have "set (insert_sorted ids i) = insert i A" unfolding eq using A by auto
    ultimately show ?thesis by (simp add: lists_ids_def)
  qed
qed

lemma lower_bound_split:
  assumes "sorted_wrt (<) (xs @ i # ys)"
  shows "lower_bound (xs @ i # ys) i = length xs"
proof -
  from assms have "takeWhile (\<lambda>j. j < i) (xs @ i # ys) = xs"
    by (simp add: sorted_wrt_append takeWhile_append2 takeWhile_eq_all_conv)
  then show ?thesis unfolding lower_bound_def below.search_all [OF assms] by simp
qed

lemma remove_sorted_ids:
  assumes "lists_ids ids A"
  shows "lists_ids (remove_sorted ids i) (A - {i})"
proof (cases "i \<in> A")
  case True
  with assms obtain xs ys where ids: "ids = xs @ i # ys" by (auto simp: lists_ids_def dest: split_list)
  from assms have s: "sorted_wrt (<) (xs @ i # ys)" and A: "A = set (xs @ i # ys)"
    by (simp_all add: lists_ids_def ids)
  have "remove_sorted ids i = xs @ ys"
    by (simp add: remove_sorted_def Let_def ids lower_bound_split [OF s])
  moreover from s have "sorted_wrt (<) (xs @ ys)" "i \<notin> set (xs @ ys)" by (auto simp: sorted_wrt_append)
  ultimately show ?thesis by (auto simp: lists_ids_def A)
next
  case False
  with assms have "i \<notin> set ids" by (simp add: lists_ids_def)
  then have "\<not> (lower_bound ids i < length ids \<and> ids ! lower_bound ids i = i)" by (metis nth_mem)
  then have "remove_sorted ids i = ids" by (auto simp: remove_sorted_def Let_def)
  with False assms show ?thesis by simp
qed

text \<open>
  On a sorted ID array \<open>insertSorted\<close> adds a new ID, \<open>removeSorted\<close> removes one, the array stays
  sorted, and \<open>upperBound\<close> splits it at the target: the two binary searches never miss an ID.
\<close>

theorem sorted_ids_operations:
  assumes "sorted_wrt (<) ids" "i \<notin> set ids"
  shows "lists_ids (insert_sorted ids i) (insert i (set ids)) \<and>
    remove_sorted (insert_sorted ids i) i = ids \<and>
    take (upper_bound ids b) ids = filter (\<lambda>j. Fin j \<le> b) ids \<and>
    drop (upper_bound ids b) ids = filter (\<lambda>j. \<not> Fin j \<le> b) ids"
proof -
  from assms have l: "lists_ids ids (set ids)" by (simp add: lists_ids_def)
  from remove_sorted_ids [OF insert_sorted_ids [OF this assms(2)], of i] assms(2)
  have "lists_ids (remove_sorted (insert_sorted ids i) i) (set ids)" by simp
  with l have "remove_sorted (insert_sorted ids i) i = ids" by (blast intro: lists_ids_unique)
  with insert_sorted_ids [OF l assms(2)] take_upper_bound [OF assms(1)] show ?thesis by simp
qed

theorem sorted_ids_operations_witness:
  "lists_ids (insert_sorted [1, 4, 9] 5) {1, 4, 5, 9} \<and>
    take (upper_bound [1, 4, 9] (Fin 4)) [1, 4, 9 :: int] = [1, 4]"
  using sorted_ids_operations [of "[1, 4, 9]" 5 "Fin 4"] by (simp add: insert_commute)

end
