(* ===== verification/DiffMatch.thy ===== *)
theory DiffMatch
  imports Revisions SortedIds
begin

text \<open>
  The searches of \<open>packages/chord/src/delta/diff.ts\<close> for elements that two arrays have in common:
  a permutation, a match position by position, an embedding of the shorter array, a longest chain
  of identical elements, and a longest common subsequence of aligned elements.  A region of an
  array is the slice of elements it covers and a match is a pair of offsets in the two slices, where
  the code passes the arrays with the bounds of the region.  Whatever a search returns is a chain:
  both offsets grow strictly and stay inside the slices.
\<close>

type_synonym matches = "(nat \<times> nat) list"

definition chain :: "nat \<Rightarrow> nat \<Rightarrow> matches \<Rightarrow> bool" where
  "chain n m ms \<longleftrightarrow>
     sorted_wrt (\<lambda>p q. fst p < fst q \<and> snd p < snd q) ms \<and> (\<forall>(i, j) \<in> set ms. i < n \<and> j < m)"

definition MAX_IDENTITY_CANDIDATES :: nat where
  "MAX_IDENTITY_CANDIDATES = 200000"

definition MAX_SEMANTIC_CELLS :: nat where
  "MAX_SEMANTIC_CELLS = 65536"

section \<open>Positions by value\<close>

text \<open>The map from a value to its ascending positions, as the list of its entries.\<close>

fun note_position :: "rev \<Rightarrow> nat \<Rightarrow> (rev \<times> nat list) list \<Rightarrow> (rev \<times> nat list) list" where
  "note_position v i [] = [(v, [i])]"
| "note_position v i ((u, is) # m) =
     (if identical u v then (u, is @ [i]) # m else (u, is) # note_position v i m)"

definition position_map :: "rev list \<Rightarrow> (rev \<times> nat list) list" where
  "position_map xs = fold (\<lambda>i m. note_position (xs ! i) i m) [0..<length xs] []"

fun positions_of :: "(rev \<times> nat list) list \<Rightarrow> rev \<Rightarrow> nat list" where
  "positions_of [] v = []"
| "positions_of ((u, is) # m) v = (if identical u v then is else positions_of m v)"

text \<open>Taking the first unused position of a value; an entry keeps the positions from \<open>used\<close> on.\<close>

fun take_position :: "(rev \<times> nat list) list \<Rightarrow> rev \<Rightarrow> (nat \<times> (rev \<times> nat list) list) option" where
  "take_position [] v = None"
| "take_position ((u, is) # m) v =
     (if identical u v
      then (case is of [] \<Rightarrow> None | i # rest \<Rightarrow> Some (i, (u, rest) # m))
      else map_option (\<lambda>(i, m'). (i, (u, is) # m')) (take_position m v))"

fun take_positions :: "(rev \<times> nat list) list \<Rightarrow> rev list \<Rightarrow> nat list option" where
  "take_positions m [] = Some []"
| "take_positions m (y # ys) =
     (case take_position m y of
        None \<Rightarrow> None
      | Some (i, m') \<Rightarrow> map_option (Cons i) (take_positions m' ys))"

definition permutation :: "rev list \<Rightarrow> rev list \<Rightarrow> nat list option" where
  "permutation xs ys =
     (if length xs \<noteq> length ys then None else take_positions (position_map xs) ys)"

section \<open>The searches\<close>

definition positional :: "rev list \<Rightarrow> rev list \<Rightarrow> matches" where
  "positional xs ys =
     (if length xs = length ys
      then map (\<lambda>i. (i, i)) (filter (\<lambda>i. same_value (xs ! i) (ys ! i)) [0..<length xs]) else [])"

text \<open>Every needle is found in the hay, in order.\<close>

fun embed :: "('a \<Rightarrow> 'a \<Rightarrow> bool) \<Rightarrow> nat \<Rightarrow> 'a list \<Rightarrow> nat \<Rightarrow> 'a list \<Rightarrow> matches option" where
  "embed same i hay j [] = Some []"
| "embed same i [] j (y # ys) = None"
| "embed same i (x # hay) j (y # ys) =
     (if same x y then map_option (Cons (i, j)) (embed same (i + 1) hay (j + 1) ys)
      else embed same (i + 1) hay j (y # ys))"

definition identity_subsequence :: "rev list \<Rightarrow> rev list \<Rightarrow> matches option" where
  "identity_subsequence xs ys =
     (if length ys < length xs then embed identical 0 xs 0 ys
      else if length xs < length ys
      then map_option (map prod.swap) (embed (\<lambda>y x. identical x y) 0 ys 0 xs)
      else None)"

definition lower_index :: "nat list \<Rightarrow> nat \<Rightarrow> nat" where
  "lower_index vs v = search (\<lambda>x. x < v) vs 0 (length vs)"

text \<open>\<open>from\<close> is one more than the variable \<open>previous\<close>.\<close>

fun greedy_anchors :: "(rev \<times> nat list) list \<Rightarrow> nat \<Rightarrow> nat \<Rightarrow> rev list \<Rightarrow> matches" where
  "greedy_anchors m from j [] = []"
| "greedy_anchors m from j (y # ys) =
     (let candidates = positions_of m y; at = lower_index candidates from in
      if at < length candidates
      then (candidates ! at, j) # greedy_anchors m (candidates ! at + 1) (j + 1) ys
      else greedy_anchors m from (j + 1) ys)"

text \<open>A candidate: its two offsets and the candidate before it on its chain.\<close>

type_synonym match_candidate = "nat \<times> nat \<times> nat option"

type_synonym piles = "match_candidate list \<times> nat list \<times> nat list"

definition put_at_or_end :: "'a list \<Rightarrow> nat \<Rightarrow> 'a \<Rightarrow> 'a list" where
  "put_at_or_end xs i x = (if i < length xs then xs[i := x] else xs @ [x])"

definition add_candidate :: "nat \<Rightarrow> nat \<Rightarrow> piles \<Rightarrow> piles" where
  "add_candidate j i s =
     (case s of (candidates, tails, tail_values) \<Rightarrow>
        let at = lower_index tail_values i in
        (candidates @ [(i, j, if at = 0 then None else Some (tails ! (at - 1)))],
         put_at_or_end tails at (length candidates),
         put_at_or_end tail_values at i))"

fun pile_up :: "(rev \<times> nat list) list \<Rightarrow> nat \<Rightarrow> rev list \<Rightarrow> piles \<Rightarrow> piles" where
  "pile_up m j [] s = s"
| "pile_up m j (y # ys) s =
     pile_up m (j + 1) ys (fold (add_candidate j) (List.rev (positions_of m y)) s)"

text \<open>
  The walk back along \<open>previous\<close>, reversed.  A candidate only points to an earlier one
  (\<open>piles_ok\<close> below), so the test in the recursion never cuts the walk short.
\<close>

fun chain_to :: "match_candidate list \<Rightarrow> nat \<Rightarrow> matches" where
  "chain_to cs k =
     (case cs ! k of (i, j, previous) \<Rightarrow>
        (case previous of None \<Rightarrow> [] | Some q \<Rightarrow> if q < k then chain_to cs q else []) @ [(i, j)])"

declare chain_to.simps [simp del]

definition identity_anchors :: "rev list \<Rightarrow> rev list \<Rightarrow> matches" where
  "identity_anchors xs ys =
     (let m = position_map xs; count = sum_list (map (\<lambda>y. length (positions_of m y)) ys) in
      if MAX_IDENTITY_CANDIDATES < count then greedy_anchors m 0 0 ys
      else (case pile_up m 0 ys ([], [], []) of
              (candidates, tails, _) \<Rightarrow> if tails = [] then [] else chain_to candidates (last tails)))"

text \<open>
  The table of the common subsequence, one row per suffix of the first array; a row is computed
  from its end, from the row below it.
\<close>

fun lcs_row :: "('a \<Rightarrow> 'a \<Rightarrow> bool) \<Rightarrow> 'a \<Rightarrow> 'a list \<Rightarrow> nat list \<Rightarrow> nat list" where
  "lcs_row eq x (y # ys) below =
     (let row = lcs_row eq x ys (tl below) in
      (if eq x y then hd (tl below) + 1 else max (hd below) (hd row)) # row)"
| "lcs_row eq x [] below = [0]"

fun lcs_table :: "('a \<Rightarrow> 'a \<Rightarrow> bool) \<Rightarrow> 'a list \<Rightarrow> 'a list \<Rightarrow> nat list list" where
  "lcs_table eq [] ys = [replicate (length ys + 1) 0]"
| "lcs_table eq (x # xs) ys =
     (let rows = lcs_table eq xs ys in lcs_row eq x ys (hd rows) # rows)"

function lcs_walk :: "('a \<Rightarrow> 'a \<Rightarrow> bool) \<Rightarrow> 'a list \<Rightarrow> 'a list \<Rightarrow> nat list list \<Rightarrow> nat \<Rightarrow> nat \<Rightarrow> matches" where
  "lcs_walk eq xs ys t i j =
     (if i < length xs \<and> j < length ys
      then if eq (xs ! i) (ys ! j) \<and> t ! i ! j = t ! (i + 1) ! (j + 1) + 1
           then (i, j) # lcs_walk eq xs ys t (i + 1) (j + 1)
           else if t ! i ! (j + 1) \<le> t ! (i + 1) ! j then lcs_walk eq xs ys t (i + 1) j
           else lcs_walk eq xs ys t i (j + 1)
      else [])"
  by pat_completeness auto
termination
  by (relation "measure (\<lambda>(eq, xs, ys, t, i, j). (length xs - i) + (length ys - j))") auto

declare lcs_walk.simps [simp del]

definition lcs_matches :: "('a \<Rightarrow> 'a \<Rightarrow> bool) \<Rightarrow> 'a list \<Rightarrow> 'a list \<Rightarrow> nat \<Rightarrow> matches option" where
  "lcs_matches eq xs ys maxCells =
     (if xs = [] \<or> ys = [] then Some []
      else if maxCells < length xs * length ys then None
      else Some (lcs_walk eq xs ys (lcs_table eq xs ys) 0 0))"

definition semantically_aligned :: "rev \<Rightarrow> rev \<Rightarrow> bool" where
  "semantically_aligned l r \<longleftrightarrow>
     same_value l r \<or>
     (case (l, r) of
        (RArr i xs, RArr j ys) \<Rightarrow>
          length xs = length ys \<and> list_ex (\<lambda>(x, y). is_container x \<and> identical x y) (zip xs ys)
      | (RObj i ps, RObj j qs) \<Rightarrow>
          list_ex (\<lambda>(k, v). is_container v \<and> (case obj_get qs k of Some w \<Rightarrow> identical v w | None \<Rightarrow> False)) ps
      | _ \<Rightarrow> False)"

text \<open>The first search of \<open>diffArrayRegion\<close> that finds anything.\<close>

definition anchors :: "rev list \<Rightarrow> rev list \<Rightarrow> matches" where
  "anchors xs ys =
     (if positional xs ys \<noteq> [] then positional xs ys
      else case identity_subsequence xs ys of
        Some (p # ms) \<Rightarrow> p # ms
      | _ \<Rightarrow>
        if identity_anchors xs ys \<noteq> [] then identity_anchors xs ys
        else case lcs_matches semantically_aligned xs ys MAX_SEMANTIC_CELLS of
          Some ms \<Rightarrow> ms
        | None \<Rightarrow> [])"

section \<open>Chains\<close>

lemma chain_Nil [simp]: "chain n m []"
  by (simp add: chain_def)

lemma chain_Cons:
  "chain n m (p # ms) \<longleftrightarrow>
     fst p < n \<and> snd p < m \<and> (\<forall>q \<in> set ms. fst p < fst q \<and> snd p < snd q) \<and> chain n m ms"
  by (auto simp: chain_def case_prod_unfold)

lemma chain_snoc:
  "chain n m (ms @ [p]) \<longleftrightarrow>
     fst p < n \<and> snd p < m \<and> (\<forall>q \<in> set ms. fst q < fst p \<and> snd q < snd p) \<and> chain n m ms"
  by (auto simp: chain_def sorted_wrt_append case_prod_unfold)

lemma chain_swap: "chain n m ms \<Longrightarrow> chain m n (map prod.swap ms)"
  by (auto simp: chain_def sorted_wrt_map conj_commute)

lemma chain_positional: "chain (length xs) (length ys) (positional xs ys)"
  by (auto simp: positional_def chain_def sorted_wrt_map intro!: sorted_wrt_filter)

text \<open>A chain whose offsets start at \<open>i\<close> and \<open>j\<close>.\<close>

definition chain_from :: "nat \<Rightarrow> nat \<Rightarrow> nat \<Rightarrow> nat \<Rightarrow> matches \<Rightarrow> bool" where
  "chain_from i j n m ms \<longleftrightarrow> chain n m ms \<and> (\<forall>p \<in> set ms. i \<le> fst p \<and> j \<le> snd p)"

lemma chain_from_Nil [simp]: "chain_from i j n m []"
  by (simp add: chain_from_def)

lemma chain_from_Cons:
  "i \<le> a \<Longrightarrow> j \<le> b \<Longrightarrow> a < n \<Longrightarrow> b < m \<Longrightarrow> chain_from (Suc a) (Suc b) n m ms \<Longrightarrow> chain_from i j n m ((a, b) # ms)"
  by (auto simp: chain_from_def chain_Cons)

lemma chain_from_ConsD:
  "chain_from i j n m ((a, b) # ms) \<Longrightarrow>
     i \<le> a \<and> j \<le> b \<and> a < n \<and> b < m \<and> chain_from (Suc a) (Suc b) n m ms"
  by (auto simp: chain_from_def chain_Cons Suc_le_eq)

lemma chain_from_start: "chain n m ms \<Longrightarrow> chain_from 0 0 n m ms"
  by (simp add: chain_from_def)

lemma chain_from_mono: "chain_from i' j' n m ms \<Longrightarrow> i \<le> i' \<Longrightarrow> j \<le> j' \<Longrightarrow> chain_from i j n m ms"
  by (fastforce simp: chain_from_def)

lemma chain_embed:
  "embed same i hay j ys = Some ms \<Longrightarrow> chain_from i j (i + length hay) (j + length ys) ms"
proof (induction same i hay j ys arbitrary: ms rule: embed.induct)
  case (3 same i x hay j y ys)
  show ?case
  proof (cases "same x y")
    case True
    with "3.prems" obtain ms' where "embed same (i + 1) hay (j + 1) ys = Some ms'" "ms = (i, j) # ms'" by auto
    with "3.IH"(1) [OF True] show ?thesis by (auto intro!: chain_from_Cons)
  next
    case False
    with "3.prems" "3.IH"(2) [OF False] show ?thesis by (auto elim: chain_from_mono)
  qed
qed auto

lemma chain_subsequence:
  assumes "identity_subsequence xs ys = Some ms"
  shows "chain (length xs) (length ys) ms"
  using assms chain_embed [of identical 0 xs 0 ys] chain_embed [of "\<lambda>y x. identical x y" 0 ys 0 xs]
  by (auto simp: identity_subsequence_def chain_from_def chain_swap split: if_splits)

lemma chain_walk: "chain_from i j (length xs) (length ys) (lcs_walk eq xs ys t i j)"
proof (induction eq xs ys t i j rule: lcs_walk.induct)
  case (1 eq xs ys t i j)
  let ?w = "lcs_walk eq xs ys t i j"
  show ?case
  proof (cases "i < length xs \<and> j < length ys")
    case inside: True
    consider "?w = (i, j) # lcs_walk eq xs ys t (i + 1) (j + 1)"
        "eq (xs ! i) (ys ! j) \<and> t ! i ! j = t ! (i + 1) ! (j + 1) + 1"
      | "?w = lcs_walk eq xs ys t (i + 1) j"
        "\<not> (eq (xs ! i) (ys ! j) \<and> t ! i ! j = t ! (i + 1) ! (j + 1) + 1)" "t ! i ! (j + 1) \<le> t ! (i + 1) ! j"
      | "?w = lcs_walk eq xs ys t i (j + 1)"
        "\<not> (eq (xs ! i) (ys ! j) \<and> t ! i ! j = t ! (i + 1) ! (j + 1) + 1)" "\<not> t ! i ! (j + 1) \<le> t ! (i + 1) ! j"
      using inside lcs_walk.simps [of eq xs ys t i j] by (auto split: if_splits)
    then show ?thesis
    proof cases
      case 1
      with "1.IH"(1) [OF inside] inside show ?thesis by (auto intro!: chain_from_Cons)
    next
      case 2
      with "1.IH"(2) [OF inside] show ?thesis by (auto elim: chain_from_mono)
    next
      case 3
      with "1.IH"(3) [OF inside] show ?thesis by (auto elim: chain_from_mono)
    qed
  next
    case False
    then show ?thesis by (subst lcs_walk.simps) auto
  qed
qed

lemma chain_lcs: "lcs_matches eq xs ys c = Some ms \<Longrightarrow> chain (length xs) (length ys) ms"
  using chain_walk [of 0 0 xs ys] by (auto simp: lcs_matches_def chain_from_def split: if_splits)

section \<open>Positions\<close>

lemma identical_sym: "identical x y \<Longrightarrow> identical y x"
  by (cases x; cases y) (auto simp: same_num_def)

lemma identical_trans: "identical x y \<Longrightarrow> identical y z \<Longrightarrow> identical x z"
  by (cases x; cases y; cases z) (auto simp: same_num_def)

text \<open>The entries of a position map of the first \<open>k\<close> elements.\<close>

definition positions_ok :: "rev list \<Rightarrow> nat \<Rightarrow> (rev \<times> nat list) list \<Rightarrow> bool" where
  "positions_ok xs k m \<longleftrightarrow>
     (\<forall>(u, is) \<in> set m. sorted_wrt (<) is \<and> (\<forall>i \<in> set is. i < k \<and> identical u (xs ! i))) \<and>
     distinct (concat (map snd m))"

lemma set_note_position: "set (concat (map snd (note_position v i m))) = insert i (set (concat (map snd m)))"
  by (induction v i m rule: note_position.induct) auto

lemma distinct_note_position:
  "i \<notin> set (concat (map snd m)) \<Longrightarrow> distinct (concat (map snd m)) \<Longrightarrow>
     distinct (concat (map snd (note_position v i m)))"
proof (induction v i m rule: note_position.induct)
  case (2 v i u "is" m)
  show ?case
  proof (cases "identical u v")
    case True
    with "2.prems" show ?thesis by auto
  next
    case False
    with 2 set_note_position [of v i m] show ?thesis by auto
  qed
qed simp

lemma note_position_entry:
  "(w, ks) \<in> set (note_position v i m) \<Longrightarrow>
     (w, ks) \<in> set m \<or> (w = v \<and> ks = [i]) \<or> (\<exists>is. (w, is) \<in> set m \<and> identical w v \<and> ks = is @ [i])"
  by (induction v i m rule: note_position.induct) (auto split: if_splits)

lemma identical_self [simp]: "identical x x"
  by (cases x) simp_all

lemma positions_ok_note:
  assumes "positions_ok xs i m"
  shows "positions_ok xs (Suc i) (note_position (xs ! i) i m)"
proof -
  have old: "sorted_wrt (<) is \<and> (\<forall>k \<in> set is. k < i \<and> identical u (xs ! k))" if "(u, is) \<in> set m" for u "is"
    using assms that by (auto simp: positions_ok_def)
  have fresh: "i \<notin> set (concat (map snd m))" using old by fastforce
  have "sorted_wrt (<) ks \<and> (\<forall>k \<in> set ks. k < Suc i \<and> identical w (xs ! k))"
    if "(w, ks) \<in> set (note_position (xs ! i) i m)" for w ks
    using note_position_entry [OF that] old by (fastforce simp: sorted_wrt_append)
  moreover have "distinct (concat (map snd (note_position (xs ! i) i m)))"
    using distinct_note_position [OF fresh] assms by (simp add: positions_ok_def)
  ultimately show ?thesis by (auto simp: positions_ok_def)
qed

lemma position_map_ok: "positions_ok xs (length xs) (position_map xs)"
proof -
  have "positions_ok xs k (fold (\<lambda>i m. note_position (xs ! i) i m) [0..<k] [])" for k
    by (induction k) (simp_all add: positions_ok_def [of _ 0] positions_ok_note)
  then show ?thesis by (simp add: position_map_def)
qed

lemma positions_of_entry: "positions_of m v = [] \<or> (\<exists>u. (u, positions_of m v) \<in> set m)"
  by (induction m v rule: positions_of.induct) auto

lemma positions_of_ok:
  assumes "positions_ok xs n m"
  shows "sorted_wrt (<) (positions_of m v)" "i \<in> set (positions_of m v) \<Longrightarrow> i < n"
  using assms positions_of_entry [of m v] by (force simp: positions_ok_def)+

lemma take_position_ok:
  "positions_ok xs n m \<Longrightarrow> take_position m v = Some (i, m') \<Longrightarrow>
     positions_ok xs n m' \<and> i \<in> set (concat (map snd m)) \<and> identical (xs ! i) v \<and> i < n \<and>
     set (concat (map snd m')) = set (concat (map snd m)) - {i}"
proof (induction m v arbitrary: i m' rule: take_position.induct)
  case (2 u "is" m v)
  show ?case
  proof (cases "identical u v")
    case True
    with "2.prems"(2) obtain rest where r: "is = i # rest" "m' = (u, rest) # m" by (auto split: list.splits)
    with "2.prems"(1) have "identical u (xs ! i)" by (simp add: positions_ok_def)
    with True have "identical (xs ! i) v" by (blast intro: identical_sym identical_trans)
    with "2.prems"(1) r show ?thesis by (auto simp: positions_ok_def)
  next
    case False
    with "2.prems"(2) obtain m'' where m: "take_position m v = Some (i, m'')" "m' = (u, is) # m''" by auto
    from "2.prems"(1) have "positions_ok xs n m" by (auto simp: positions_ok_def)
    from "2.IH" [OF False this m(1)] "2.prems"(1) show ?thesis
      unfolding m(2) positions_ok_def by auto
  qed
qed simp

lemma take_positions_ok:
  "positions_ok xs n m \<Longrightarrow> take_positions m ys = Some ks \<Longrightarrow>
     length ks = length ys \<and> distinct ks \<and> set ks \<subseteq> set (concat (map snd m)) \<and> (\<forall>k \<in> set ks. k < n) \<and>
     list_all2 (\<lambda>k y. identical (xs ! k) y) ks ys"
proof (induction m ys arbitrary: ks rule: take_positions.induct)
  case (2 m y ys)
  from "2.prems"(2) obtain i m' ks' where t: "take_position m y = Some (i, m')"
    "take_positions m' ys = Some ks'" "ks = i # ks'" by (auto split: option.splits)
  from take_position_ok [OF "2.prems"(1) t(1)] "2.IH" [OF t(1) refl _ t(2)] t(3) show ?case by auto
qed auto

lemma permutation_result:
  assumes "permutation xs ys = Some ks"
  shows "length xs = length ys" "length ks = length ys" "distinct ks" "\<forall>k \<in> set ks. k < length xs"
    "list_all2 (\<lambda>k y. identical (xs ! k) y) ks ys"
  using assms take_positions_ok [OF position_map_ok, of xs ys ks]
  by (auto simp: permutation_def split: if_splits)

section \<open>Longest chain of identical elements\<close>

lemma search_edges:
  "low \<le> high \<Longrightarrow> low \<le> search below vs low high \<and> search below vs low high \<le> high \<and>
     (search below vs low high < high \<longrightarrow> \<not> below (vs ! search below vs low high)) \<and>
     (low < search below vs low high \<longrightarrow> below (vs ! (search below vs low high - 1)))"
proof (induction below vs low high rule: search.induct)
  case (1 below vs low high)
  show ?case
  proof (cases "low < high")
    case True
    let ?m = "(low + high) div 2"
    from True have m: "low \<le> ?m" "?m + 1 \<le> high" by auto
    show ?thesis
    proof (cases "below (vs ! ?m)")
      case yes: True
      with True have "search below vs low high = search below vs (?m + 1) high"
        by (subst search.simps) (simp add: Let_def)
      with "1.IH"(1) [OF True refl yes m(2)] m yes show ?thesis
        by (cases "search below vs (?m + 1) high = ?m + 1") auto
    next
      case no: False
      with True have "search below vs low high = search below vs low ?m"
        by (subst search.simps) (simp add: Let_def)
      with "1.IH"(2) [OF True refl no m(1)] m no show ?thesis
        by (cases "search below vs low ?m = ?m") auto
    qed
  next
    case False
    with "1.prems" show ?thesis by (subst (1 2 3 4 5 6) search.simps) simp
  qed
qed

lemma lower_index_edges:
  "lower_index vs v \<le> length vs"
  "lower_index vs v < length vs \<Longrightarrow> v \<le> vs ! lower_index vs v"
  "0 < lower_index vs v \<Longrightarrow> vs ! (lower_index vs v - 1) < v"
  using search_edges [of 0 "length vs" "\<lambda>x. x < v" vs] by (auto simp: lower_index_def)

lemma chain_greedy:
  "positions_ok xs n m \<Longrightarrow> chain_from from j n (j + length ys) (greedy_anchors m from j ys)"
proof (induction m "from" j ys rule: greedy_anchors.induct)
  case (2 m "from" j y ys)
  let ?c = "positions_of m y"
  let ?at = "lower_index ?c from"
  show ?case
  proof (cases "?at < length ?c")
    case True
    with positions_of_ok(2) [OF "2.prems", of "?c ! ?at" y] have "?c ! ?at < n" by simp
    with True "2.IH"(1) [OF refl refl True "2.prems"] lower_index_edges(2) [OF True] show ?thesis
      by (auto simp: Let_def intro!: chain_from_Cons)
  next
    case False
    with "2.IH"(2) [OF refl refl False "2.prems"] show ?thesis
      by (auto simp: Let_def elim: chain_from_mono)
  qed
qed simp

text \<open>
  The state of the search while it handles element \<open>j\<close> of the second array and its candidates have
  offsets above \<open>b\<close>: every pile ends at the candidate on its top, and a candidate follows on an
  earlier one that is smaller in both offsets.
\<close>

definition piles_ok :: "nat \<Rightarrow> nat \<Rightarrow> nat \<Rightarrow> piles \<Rightarrow> bool" where
  "piles_ok n j b s \<longleftrightarrow>
     (case s of (cs, ts, vs) \<Rightarrow>
        length ts = length vs \<and>
        (\<forall>k < length ts. ts ! k < length cs \<and> fst (cs ! (ts ! k)) = vs ! k) \<and>
        (\<forall>k < length cs. case cs ! k of (i, a, p) \<Rightarrow>
           i < n \<and> a \<le> j \<and> (a = j \<longrightarrow> b \<le> i) \<and>
           (\<forall>q. p = Some q \<longrightarrow> q < k \<and> fst (cs ! q) < i \<and> fst (snd (cs ! q)) < a)))"

lemma piles_ok_add:
  assumes ok: "piles_ok n j b s" and "i < b" "i < n"
  shows "piles_ok n j i (add_candidate j i s)"
proof -
  obtain cs ts vs where s: "s = (cs, ts, vs)" by (cases s)
  from ok have len: "length ts = length vs"
    and tops: "\<And>k. k < length ts \<Longrightarrow> ts ! k < length cs \<and> fst (cs ! (ts ! k)) = vs ! k"
    and cands: "\<And>k. k < length cs \<Longrightarrow> case cs ! k of (i, a, p) \<Rightarrow>
           i < n \<and> a \<le> j \<and> (a = j \<longrightarrow> b \<le> i) \<and>
           (\<forall>q. p = Some q \<longrightarrow> q < k \<and> fst (cs ! q) < i \<and> fst (snd (cs ! q)) < a)"
    by (simp_all add: piles_ok_def s)
  define at where "at = lower_index vs i"
  define c where "c = (i, j, if at = 0 then None else Some (ts ! (at - 1)))"
  have at: "at \<le> length vs" "0 < at \<Longrightarrow> vs ! (at - 1) < i"
    using lower_index_edges [of vs i] by (simp_all add: at_def)
  have t: "add_candidate j i s = (cs @ [c], put_at_or_end ts at (length cs), put_at_or_end vs at i)"
    by (simp add: add_candidate_def s c_def at_def Let_def)
  have previous: "ts ! (at - 1) < length cs \<and> fst (cs ! (ts ! (at - 1))) < i \<and> fst (snd (cs ! (ts ! (at - 1)))) < j"
    if "0 < at"
  proof -
    from that at len have "at - 1 < length ts" by simp
    from tops [OF this] at(2) [OF that] have q: "ts ! (at - 1) < length cs" "fst (cs ! (ts ! (at - 1))) < i" by simp_all
    with cands [OF q(1)] \<open>i < b\<close> show ?thesis by (cases "cs ! (ts ! (at - 1))") auto
  qed
  have new_tops: "put_at_or_end ts at (length cs) ! k < length (cs @ [c]) \<and>
      fst ((cs @ [c]) ! (put_at_or_end ts at (length cs) ! k)) = put_at_or_end vs at i ! k"
    if "k < length (put_at_or_end ts at (length cs))" for k
    using that tops [of k] len at(1)
    by (auto simp: put_at_or_end_def nth_list_update nth_append c_def split: if_splits)
  have "case (cs @ [c]) ! k of (i', a, p) \<Rightarrow>
      i' < n \<and> a \<le> j \<and> (a = j \<longrightarrow> i \<le> i') \<and>
      (\<forall>q. p = Some q \<longrightarrow> q < k \<and> fst ((cs @ [c]) ! q) < i' \<and> fst (snd ((cs @ [c]) ! q)) < a)"
    if "k < length (cs @ [c])" for k
  proof (cases "k < length cs")
    case True
    with cands [OF True] \<open>i < b\<close> show ?thesis by (fastforce simp: nth_append split: prod.splits)
  next
    case False
    with that have "k = length cs" by simp
    with previous \<open>i < n\<close> show ?thesis by (auto simp: nth_append c_def)
  qed
  with new_tops show ?thesis
    unfolding t piles_ok_def by (auto simp: put_at_or_end_def len)
qed

lemma piles_ok_later: "piles_ok n j b s \<Longrightarrow> b' \<le> b \<Longrightarrow> piles_ok n j b' s"
  unfolding piles_ok_def by (fastforce split: prod.splits)

lemma piles_ok_next: "piles_ok n j b s \<Longrightarrow> piles_ok n (Suc j) n s"
  unfolding piles_ok_def by (fastforce split: prod.splits)

lemma piles_ok_fold:
  "piles_ok n j n s \<Longrightarrow> sorted_wrt (>) is \<Longrightarrow> \<forall>i \<in> set is. i < n \<Longrightarrow>
     \<exists>b. piles_ok n j b (fold (add_candidate j) is s)"
proof -
  have "piles_ok n j b s \<Longrightarrow> sorted_wrt (>) is \<Longrightarrow> \<forall>i \<in> set is. i < b \<and> i < n \<Longrightarrow>
      \<exists>b. piles_ok n j b (fold (add_candidate j) is s)" for b
  proof (induction "is" arbitrary: b s)
    case (Cons i "is")
    from Cons.prems have "piles_ok n j i (add_candidate j i s)" by (intro piles_ok_add) auto
    with Cons.prems Cons.IH [OF this] show ?case by simp
  qed auto
  then show "piles_ok n j n s \<Longrightarrow> sorted_wrt (>) is \<Longrightarrow> \<forall>i \<in> set is. i < n \<Longrightarrow> ?thesis" by blast
qed

lemma piles_ok_pile_up:
  "positions_ok xs n m \<Longrightarrow> piles_ok n j n s \<Longrightarrow> piles_ok n (j + length ys) n (pile_up m j ys s)"
proof (induction m j ys s rule: pile_up.induct)
  case (2 m j y ys s)
  let ?s = "fold (add_candidate j) (List.rev (positions_of m y)) s"
  obtain b where "piles_ok n j b ?s"
    using piles_ok_fold [OF "2.prems"(2), of "List.rev (positions_of m y)"]
      positions_of_ok(1) [OF "2.prems"(1), of y] positions_of_ok(2) [OF "2.prems"(1), of _ y]
    by (auto simp: sorted_wrt_rev)
  then have "piles_ok n (j + 1) n ?s" by (simp add: piles_ok_next)
  from "2.IH" [OF "2.prems"(1) this] show ?case by simp
qed simp

lemma piles_ok_candidate:
  assumes "piles_ok n j b (cs, ts, vs)" "k < length cs" "cs ! k = (i, a, p)"
  shows "i < n \<and> a \<le> j \<and> (a = j \<longrightarrow> b \<le> i) \<and>
    (\<forall>q. p = Some q \<longrightarrow> q < k \<and> fst (cs ! q) < i \<and> fst (snd (cs ! q)) < a)"
proof -
  from assms(1) have "\<forall>k < length cs. case cs ! k of (i, a, p) \<Rightarrow> i < n \<and> a \<le> j \<and> (a = j \<longrightarrow> b \<le> i) \<and>
      (\<forall>q. p = Some q \<longrightarrow> q < k \<and> fst (cs ! q) < i \<and> fst (snd (cs ! q)) < a)"
    by (simp add: piles_ok_def)
  from this [rule_format, OF assms(2)] show ?thesis unfolding assms(3) prod.case .
qed

lemma chain_chain_to:
  assumes ok: "piles_ok n m n (cs, ts, vs)"
  shows "k < length cs \<Longrightarrow> chain n m (chain_to cs k) \<and> chain_to cs k \<noteq> [] \<and>
    (\<forall>q \<in> set (chain_to cs k). fst q \<le> fst (cs ! k) \<and> snd q \<le> fst (snd (cs ! k)))"
proof (induction k rule: less_induct)
  case (less k)
  obtain i a p where c: "cs ! k = (i, a, p)" by (cases "cs ! k")
  from piles_ok_candidate [OF ok less.prems c] have k: "i < n" "a < m"
    and prev: "\<And>q. p = Some q \<Longrightarrow> q < k \<and> fst (cs ! q) < i \<and> fst (snd (cs ! q)) < a"
    by auto
  show ?case
  proof (cases p)
    case None
    with k show ?thesis by (subst (1 2 3) chain_to.simps) (simp add: c chain_def)
  next
    case (Some q)
    from prev [OF Some] have q: "q < k" "fst (cs ! q) < i" "fst (snd (cs ! q)) < a" by simp_all
    have e: "chain_to cs k = chain_to cs q @ [(i, a)]"
      by (subst chain_to.simps) (simp add: c Some q(1))
    from less.IH [OF q(1)] q less.prems k show ?thesis
      unfolding e chain_snoc by (fastforce simp: c)
  qed
qed

lemma piles_nonempty: "tails \<noteq> [] \<Longrightarrow> piles_ok n j b (cs, tails, vs) \<Longrightarrow> last tails < length cs"
proof -
  assume "tails \<noteq> []" "piles_ok n j b (cs, tails, vs)"
  from \<open>tails \<noteq> []\<close> have "length tails - 1 < length tails" by simp
  moreover from \<open>piles_ok n j b (cs, tails, vs)\<close> have "\<forall>k < length tails. tails ! k < length cs"
    unfolding piles_ok_def prod.case by blast
  ultimately have "tails ! (length tails - 1) < length cs" by blast
  with \<open>tails \<noteq> []\<close> show ?thesis by (simp add: last_conv_nth)
qed

lemma chain_identity: "chain (length xs) (length ys) (identity_anchors xs ys)"
proof -
  let ?m = "position_map xs"
  obtain cs ts vs where s: "pile_up ?m 0 ys ([], [], []) = (cs, ts, vs)" by (cases "pile_up ?m 0 ys ([], [], [])")
  have "piles_ok (length xs) 0 (length xs) ([], [], [])" by (simp add: piles_ok_def)
  from piles_ok_pile_up [OF position_map_ok this, of ys]
  have ok: "piles_ok (length xs) (length ys) (length xs) (cs, ts, vs)" by (simp add: s)
  have "ts \<noteq> [] \<Longrightarrow> chain (length xs) (length ys) (chain_to cs (last ts))"
    using chain_chain_to [OF ok piles_nonempty [OF _ ok]] by blast
  with chain_greedy [OF position_map_ok [of xs], of 0 0 ys] show ?thesis
    by (simp add: identity_anchors_def Let_def s chain_from_def)
qed

lemma chain_anchors: "chain (length xs) (length ys) (anchors xs ys)"
  using chain_positional [of xs ys] chain_identity [of xs ys] chain_subsequence [of xs ys]
    chain_lcs [of semantically_aligned xs ys MAX_SEMANTIC_CELLS]
  by (auto simp: anchors_def split: option.splits list.splits)

end
