(* ===== verification/DiffEdits.thy ===== *)
theory DiffEdits
  imports DeltaOps
begin

text \<open>
  A calculus for batches that work below one path.  \<open>edits p L v w\<close> says that the operations \<open>L\<close>,
  applied to any document that holds \<open>v\<close> at path \<open>p\<close>, succeed and turn it into the same document
  with \<open>w\<close> at that path.  Edits compose, an edit of a child is an edit of its parent, and each
  kind of operation has a rule; the rules are collected in \<open>edit_intros\<close>.
\<close>

named_theorems edit_intros

fun put_path :: "path \<Rightarrow> jsv \<Rightarrow> jsv \<Rightarrow> jsv" where
  "put_path [] w root = w"
| "put_path (s # p) w root =
     (case step_into [] root s of
        Inl _ \<Rightarrow> root
      | Inr c \<Rightarrow> write_child root s (put_path p w c))"

definition edits :: "path \<Rightarrow> op list \<Rightarrow> jsv \<Rightarrow> jsv \<Rightarrow> bool" where
  "edits p L v w \<longleftrightarrow>
     (\<forall>root. reads [] p root = Inr v \<longrightarrow>
        (\<exists>root'. apply_ops L root = Inr root' \<and> (root' = root \<and> w = v \<or> root' = put_path p w root)))"

lemma path_ok_append [simp]: "path_ok (p @ q) \<longleftrightarrow> path_ok p \<and> path_ok q"
  by (simp add: path_ok_def)

lemma path_ok_single [simp]: "path_ok [s] \<longleftrightarrow> seg_ok s"
  by (simp add: path_ok_def)

lemma path_ok_Cons: "path_ok (s # p) \<longleftrightarrow> seg_ok s \<and> path_ok p"
  by (simp add: path_ok_def)

section \<open>Writing at a path\<close>

lemma obj_put_put: "obj_put k w (obj_put k v ps) = obj_put k w ps"
proof (cases "k \<in> fst ` set ps")
  case True
  let ?m = "map (\<lambda>p. if fst p = k then (k, v) else p) ps"
  have put: "obj_put k v ps = ?m" using True by (simp add: obj_put_def)
  have "k \<in> fst ` set ?m" unfolding put [symmetric] by (simp add: keys_obj_put)
  then have "obj_put k w ?m = map (\<lambda>p. if fst p = k then (k, w) else p) ?m"
    unfolding obj_put_def by (rule if_P)
  moreover have "\<dots> = obj_put k w ps" using True by (simp add: obj_put_def)
  ultimately show ?thesis by (simp only: put)
next
  case False
  let ?P = "\<lambda>p. key_before (fst p) k"
  let ?t = "takeWhile ?P ps" and ?d = "dropWhile ?P ps"
  have k: "k \<notin> fst ` set ?t" "k \<notin> fst ` set ?d"
    using False by (auto dest: set_takeWhileD set_dropWhileD)
  have same: "map (\<lambda>p. if fst p = k then (k, w) else p) qs = qs" if "k \<notin> fst ` set qs" for qs
    using that by (intro map_idI) force
  have "obj_put k v ps = ?t @ (k, v) # ?d" using False by (simp add: obj_put_def)
  moreover have "obj_put k w (?t @ (k, v) # ?d) = ?t @ (k, w) # ?d"
    unfolding obj_put_def by (simp add: same [OF k(1)] same [OF k(2)])
  moreover have "obj_put k w ps = ?t @ (k, w) # ?d" using False by (simp add: obj_put_def)
  ultimately show ?thesis by simp
qed

lemma write_write:
  assumes "step_into u v s = Inr c"
  shows "write_child (write_child v s a) s b = write_child v s b"
  using assms
  by (auto simp: step_into_def write_child_def obj_put_put split: jsv.splits seg.splits option.splits if_splits)

lemma step_into_put:
  assumes "seg_ok s" "step_into [] v s = Inr c"
  shows "step_into [] (write_child v s d) s = Inr d"
  using step_into_written [of v s "[]" d] step_into_checked [OF assms(2)] assms(1) by simp

lemma reads_put: "path_ok p \<Longrightarrow> reads [] p root = Inr v \<Longrightarrow> reads [] p (put_path p w root) = Inr w"
proof (induction p arbitrary: root)
  case (Cons s p)
  then obtain c where c: "step_into [] root s = Inr c" "reads [] p c = Inr v" by (auto simp: res_simps)
  from Cons.prems(1) have s: "seg_ok s" "path_ok p" by (simp_all add: path_ok_Cons)
  from Cons.IH [OF s(2) c(2)] step_into_put [OF s(1) c(1)] c(1) show ?case by simp
qed simp

lemma put_put: "path_ok p \<Longrightarrow> reads [] p root = Inr u \<Longrightarrow> put_path p w (put_path p v root) = put_path p w root"
proof (induction p arbitrary: root)
  case (Cons s p)
  then obtain c where c: "step_into [] root s = Inr c" "reads [] p c = Inr u" by (auto simp: res_simps)
  from Cons.prems(1) have s: "seg_ok s" "path_ok p" by (simp_all add: path_ok_Cons)
  from Cons.IH [OF s(2) c(2)] step_into_put [OF s(1) c(1)] write_write [OF c(1)] c(1) show ?case by simp
qed simp

lemma put_append: "reads [] p root = Inr c \<Longrightarrow> put_path (p @ q) w root = put_path p (put_path q w c) root"
  by (induction p arbitrary: root) (auto simp: res_simps)

lemma put_single: "step_into [] v s = Inr c \<Longrightarrow> put_path [s] w v = write_child v s w"
  by simp

lemma update_at_put:
  "reads [] p root = Inr v \<Longrightarrow> f v = Inr w \<Longrightarrow> update_at u p f root = Inr (put_path p w root)"
proof (induction p arbitrary: root)
  case (Cons s p)
  then obtain c where c: "step_into [] root s = Inr c" "reads [] p c = Inr v" by (auto simp: res_simps)
  with Cons.IH [OF c(2) Cons.prems(2)] step_into_path [OF c(1), of u] show ?case by simp
qed simp

section \<open>Composition\<close>

lemma edits_Nil [edit_intros]: "edits p [] v v"
  by (simp add: edits_def apply_ops_def)

lemma apply_ops_append: "apply_ops (L @ M) root = rbind (apply_ops L root) (apply_ops M)"
  by (simp add: apply_ops_def [abs_def] rfold_append)

lemma edits_append [edit_intros]:
  assumes "path_ok p" "edits p L u v" "edits p M v w"
  shows "edits p (L @ M) u w"
proof -
  have "\<exists>root'. apply_ops (L @ M) root = Inr root' \<and> (root' = root \<and> w = u \<or> root' = put_path p w root)"
    if r: "reads [] p root = Inr u" for root
  proof -
    from assms(2) r obtain r1 where r1: "apply_ops L root = Inr r1"
      and c1: "r1 = root \<and> v = u \<or> r1 = put_path p v root"
      unfolding edits_def by blast
    have "reads [] p r1 = Inr v" using c1 r reads_put [OF assms(1) r] by auto
    with assms(3) obtain r2 where r2: "apply_ops M r1 = Inr r2"
      and c2: "r2 = r1 \<and> w = v \<or> r2 = put_path p w r1"
      unfolding edits_def by blast
    have "r2 = root \<and> w = u \<or> r2 = put_path p w root"
      using c1 c2 put_put [OF assms(1) r, of w v] by auto
    with r1 r2 show ?thesis by (simp add: apply_ops_append)
  qed
  then show ?thesis by (simp add: edits_def)
qed

lemma edits_child:
  assumes "step_into [] v s = Inr c" "write_child v s c = v" "edits (p @ [s]) L c d"
  shows "edits p L v (write_child v s d)"
proof -
  have "\<exists>root'. apply_ops L root = Inr root' \<and>
      (root' = root \<and> write_child v s d = v \<or> root' = put_path p (write_child v s d) root)"
    if r: "reads [] p root = Inr v" for root
  proof -
    from r assms(1) have "reads [] (p @ [s]) root = Inr c" by (simp add: reads_append)
    with assms(3) obtain root' where root': "apply_ops L root = Inr root'"
      and or: "root' = root \<and> d = c \<or> root' = put_path (p @ [s]) d root"
      unfolding edits_def by blast
    from or put_append [OF r, of "[s]" d] put_single [OF assms(1), of d] assms(2) root' show ?thesis by auto
  qed
  then show ?thesis by (simp add: edits_def)
qed

section \<open>The operations\<close>

lemma apply_ops_single: "apply_ops [x] root = apply_op x root"
  by (cases "apply_op x root") (simp_all add: apply_ops_def)

lemma apply_op_valid:
  assumes "op_ok x"
  shows "apply_op x root =
    (case x of
       OpR v \<Rightarrow> Inr v
     | OpP p i r items \<Rightarrow> update_at p p (splice_node p i r items) root
     | OpM p ks \<Rightarrow> update_at p p (permute_node p ks) root
     | OpS p _ \<Rightarrow> update_at (butlast p) (butlast p) (edit_parent x p) root
     | OpD p \<Rightarrow> update_at (butlast p) (butlast p) (edit_parent x p) root
     | OpA p _ \<Rightarrow> update_at (butlast p) (butlast p) (edit_parent x p) root
     | OpT p _ \<Rightarrow> update_at (butlast p) (butlast p) (edit_parent x p) root)"
  using assms [folded op_value_ok] by (simp only: apply_op_def rbind_Inr)

definition writes :: "path \<Rightarrow> op \<Rightarrow> jsv \<Rightarrow> jsv \<Rightarrow> bool" where
  "writes p x v w \<longleftrightarrow> (\<forall>root. reads [] p root = Inr v \<longrightarrow> apply_op x root = Inr (put_path p w root))"

lemma writes_edits: "writes p x v w \<Longrightarrow> edits p [x] v w"
  by (simp add: writes_def edits_def apply_ops_single)

lemma writes_from_parent:
  assumes "\<And>v. step_into [] v s = Inr c \<Longrightarrow> writes p x v (write_child v s d)"
  shows "writes (p @ [s]) x c d"
proof -
  have "apply_op x root = Inr (put_path (p @ [s]) d root)" if "reads [] (p @ [s]) root = Inr c" for root
  proof -
    from that obtain v where v: "reads [] p root = Inr v" "step_into [] v s = Inr c"
      by (auto simp: reads_append res_simps)
    from assms [OF v(2)] v(1) have "apply_op x root = Inr (put_path p (write_child v s d) root)"
      by (simp add: writes_def)
    with put_append [OF v(1), of "[s]" d] put_single [OF v(2), of d] show ?thesis by simp
  qed
  then show ?thesis by (simp add: writes_def)
qed

lemma writes_at_parent:
  assumes "is_obj v" "check_key v s = Inr ()" "edit_parent x (p @ [s]) v = Inr w" "op_ok x"
    and "x = OpS (p @ [s]) u \<or> x = OpD (p @ [s]) \<or> x = OpA (p @ [s]) t \<or> x = OpT (p @ [s]) n"
  shows "writes p x v w"
proof -
  have "apply_op x root = Inr (put_path p w root)" if r: "reads [] p root = Inr v" for root
  proof -
    have "update_at p p (edit_parent x (p @ [s])) root = Inr (put_path p w root)"
      by (rule update_at_put [where f = "edit_parent x (p @ [s])", OF r assms(3)])
    with assms(5) show ?thesis by (auto simp: apply_op_valid [OF assms(4)])
  qed
  then show ?thesis by (simp add: writes_def)
qed

lemma writes_set:
  assumes "path_ok (p @ [s])" "is_obj v" "check_key v s = Inr ()"
  shows "writes p (OpS (p @ [s]) u) v (write_child v s u)"
  using assms by (intro writes_at_parent) (auto simp: edit_parent_def)

lemma edits_delete [edit_intros]:
  "path_ok (p @ [SStr k]) \<Longrightarrow> edits p [OpD (p @ [SStr k])] (JObj ps) (JObj (obj_del k ps))"
  by (rule writes_edits, rule writes_at_parent [where s = "SStr k"])
    (auto simp: edit_parent_def is_obj_def check_key_def delete_child_def)

lemma edits_insert [edit_intros]:
  "path_ok (p @ [SStr k]) \<Longrightarrow> edits p [OpS (p @ [SStr k]) u] (JObj ps) (JObj (obj_put k u ps))"
  using writes_edits [OF writes_set, of p "SStr k" "JObj ps" u]
  by (simp add: is_obj_def check_key_def write_child_def)

lemma edits_overwrite [edit_intros]:
  assumes "path_ok p" "p \<noteq> []"
  shows "edits p [OpS p u] v u"
proof -
  obtain q s where p: "p = q @ [s]" using assms(2) by (metis rev_exhaust)
  have "writes (q @ [s]) (OpS p u) v u"
    unfolding p
  proof (rule writes_from_parent)
    fix parent
    assume "step_into [] parent s = Inr v"
    from step_into_checked [OF this] assms(1) show "writes q (OpS (q @ [s]) u) parent (write_child parent s u)"
      by (intro writes_set) (simp_all add: p)
  qed
  then show ?thesis unfolding p by (rule writes_edits)
qed

lemma edits_root [edit_intros]: "edits [] [OpR u] v u"
  by (simp add: edits_def apply_ops_single apply_op_valid)

lemma read_text_at_step: "step_into [] v s = Inr (JStr t) \<Longrightarrow> read_text_at p v s = Inr t"
  using step_into_path [of "[]" v s "JStr t" p] by (simp add: read_text_at_def)

lemma edits_text:
  assumes "path_ok p" "p \<noteq> []"
  shows "edits p [OpA p x] (JStr t) (JStr (t @ x))"
    and "edits p [OpT p (NInt (int n))] (JStr t) (JStr (drop n t))"
proof -
  obtain q s where p: "p = q @ [s]" using assms(2) by (metis rev_exhaust)
  have parent: "writes q (OpA (q @ [s]) x) v (write_child v s (JStr (t @ x))) \<and>
      writes q (OpT (q @ [s]) (NInt (int n))) v (write_child v s (JStr (drop n t)))"
    if "step_into [] v s = Inr (JStr t)" for v
    using step_into_checked [OF that] read_text_at_step [OF that] assms(1)
    by (auto simp: p edit_parent_def intro!: writes_at_parent [where s = s])
  show "edits p [OpA p x] (JStr t) (JStr (t @ x))"
    unfolding p by (rule writes_edits, rule writes_from_parent) (use parent in blast)
  show "edits p [OpT p (NInt (int n))] (JStr t) (JStr (drop n t))"
    unfolding p by (rule writes_edits, rule writes_from_parent) (use parent in blast)
qed

lemma edits_splice [edit_intros]:
  assumes "path_ok p"
  shows "edits p [OpP p (NInt (int i)) (NInt (int r)) items] (JArr xs) (JArr (js_splice i r items xs))"
proof -
  let ?x = "OpP p (NInt (int i)) (NInt (int r)) items"
  have "apply_op ?x root = Inr (put_path p (JArr (js_splice i r items xs)) root)"
    if r: "reads [] p root = Inr (JArr xs)" for root
  proof -
    have "splice_node p (NInt (int i)) (NInt (int r)) items (JArr xs) = Inr (JArr (js_splice i r items xs))"
      by (simp add: splice_node_def insert_chunks_splice)
    from update_at_put [where f = "splice_node p (NInt (int i)) (NInt (int r)) items", OF r this, of p] assms show ?thesis by (simp add: apply_op_valid)
  qed
  then show ?thesis by (intro writes_edits) (simp add: writes_def)
qed

lemma edits_permute [edit_intros]:
  assumes "path_ok p" "length ks = length xs" "distinct ks" "\<forall>k \<in> set ks. k < length xs"
  shows "edits p [OpM p (map (\<lambda>k. NInt (int k)) ks)] (JArr xs) (JArr (map (\<lambda>k. xs ! k) ks))"
proof -
  let ?ks = "map (\<lambda>k. NInt (int k)) ks"
  have ok: "permutation_ok ?ks" using assms by (auto simp: permutation_ok_def o_def)
  have "apply_op (OpM p ?ks) root = Inr (put_path p (JArr (map (\<lambda>k. xs ! k) ks)) root)"
    if r: "reads [] p root = Inr (JArr xs)" for root
  proof -
    have "permute_node p ?ks (JArr xs) = Inr (JArr (map (\<lambda>k. xs ! k) ks))"
      using assms(2) by (simp add: permute_node_def o_def)
    from update_at_put [where f = "permute_node p ?ks", OF r this, of p] assms(1) ok show ?thesis by (simp add: apply_op_valid)
  qed
  then show ?thesis by (intro writes_edits) (simp add: writes_def)
qed

text \<open>Children of arrays and objects.\<close>

lemma edits_array_child:
  assumes "i < length xs" "edits (p @ [SNum (NInt (int i))]) L (xs ! i) d"
  shows "edits p L (JArr xs) (JArr (xs[i := d]))"
  using edits_child [of "JArr xs" "SNum (NInt (int i))" "xs ! i" p L d] assms
  by (simp add: step_into_def write_child_def)

lemma edits_object_child:
  assumes "obj_get ps k = Some c" "distinct (map fst ps)" "edits (p @ [SStr k]) L c d"
  shows "edits p L (JObj ps) (JObj (obj_put k d ps))"
proof -
  have k: "(k, c) \<in> set ps" by (rule obj_get_set [OF assms(1)])
  have "map (\<lambda>p. if fst p = k then (k, c) else p) ps = ps"
    using eq_key_imp_eq_value [OF assms(2) k] by (intro map_idI) auto
  moreover have "k \<in> fst ` set ps" using k by force
  ultimately have "obj_put k c ps = ps" by (simp add: obj_put_def)
  then show ?thesis
    using edits_child [of "JObj ps" "SStr k" c p L d] assms by (simp add: step_into_def write_child_def)
qed

end
