(* ===== verification/Overlap.thy ===== *)
theory Overlap
  imports JsValue
begin

text \<open>
  \<open>overlap\<close> of \<open>packages/chord/src/delta/index.ts\<close>: the search for a suffix of one string that is a
  prefix of another, by which a rolling text window is turned into a truncation and an append.  The
  search gives up after a bounded number of candidates; what it returns is an overlap in any case.
\<close>

text \<open>\<open>tail.indexOf(head, from)\<close>; \<open>None\<close> is \<open>-1\<close>.\<close>

definition occurs_at :: "'a list \<Rightarrow> 'a list \<Rightarrow> nat \<Rightarrow> bool" where
  "occurs_at t h k \<longleftrightarrow> k + length h \<le> length t \<and> take (length h) (drop k t) = h"

definition index_of :: "'a list \<Rightarrow> 'a list \<Rightarrow> nat \<Rightarrow> nat option" where
  "index_of t h from =
     (if h = [] then Some (min from (length t))
      else List.find (occurs_at t h) [from..<length t])"

text \<open>The candidate loop; \<open>budget\<close> is the number of candidates still allowed.\<close>

fun try_candidates :: "nat \<Rightarrow> 'a list \<Rightarrow> 'a list \<Rightarrow> 'a list \<Rightarrow> nat option \<Rightarrow> nat option" where
  "try_candidates budget t b h None = None"
| "try_candidates 0 t b h (Some k) = None"
| "try_candidates (Suc budget) t b h (Some k) =
     (let n = length t - k in
      if n \<le> length b \<and> drop k t = take n b then Some n
      else try_candidates budget t b h (index_of t h (k + 1)))"

fun try_heads :: "nat \<Rightarrow> 'a list \<Rightarrow> 'a list \<Rightarrow> nat list \<Rightarrow> nat" where
  "try_heads budget t b [] = 0"
| "try_heads budget t b (h # hs) =
     (case try_candidates budget t b (take h b) (index_of t (take h b) 0) of
        Some n \<Rightarrow> n
      | None \<Rightarrow> if h = 1 then 0 else try_heads budget t b hs)"

definition overlap :: "js_string \<Rightarrow> js_string \<Rightarrow> nat \<Rightarrow> nat \<Rightarrow> nat \<Rightarrow> nat" where
  "overlap a b scan probe maxCandidates =
     (if length a = 0 \<or> length b = 0 \<or> scan = 0 then 0
      else (let t = (if scan < length a then drop (length a - scan) a else a) in
            try_heads maxCandidates t b [min probe (length b), 1]))"

definition is_overlap :: "'a list \<Rightarrow> 'a list \<Rightarrow> nat \<Rightarrow> bool" where
  "is_overlap a b n \<longleftrightarrow> n \<le> length a \<and> n \<le> length b \<and> drop (length a - n) a = take n b"

lemma try_candidates_overlap:
  "(\<forall>k. from = Some k \<longrightarrow> k \<le> length t) \<Longrightarrow> try_candidates budget t b h from = Some n \<Longrightarrow> is_overlap t b n"
proof (induction budget t b h "from" rule: try_candidates.induct)
  case (3 budget t b h k)
  have next_in: "\<forall>j. index_of t h (k + 1) = Some j \<longrightarrow> j \<le> length t"
    by (auto simp: index_of_def find_Some_iff)
  let ?n = "length t - k"
  show ?case
  proof (cases "?n \<le> length b \<and> drop k t = take ?n b")
    case True
    with 3 show ?thesis by (auto simp: is_overlap_def Let_def)
  next
    case False
    with "3.prems" "3.IH" [OF refl False next_in] show ?thesis by (simp add: Let_def)
  qed
qed auto

lemma try_heads_overlap: "is_overlap t b (try_heads budget t b hs)"
proof (induction hs)
  case (Cons h hs)
  have "\<forall>k. index_of t (take h b) 0 = Some k \<longrightarrow> k \<le> length t"
    by (auto simp: index_of_def find_Some_iff)
  with Cons try_candidates_overlap [of "index_of t (take h b) 0" t budget b "take h b"] show ?case
    by (auto simp: is_overlap_def split: option.splits)
qed (simp add: is_overlap_def)

lemma overlap_spec:
  "let n = overlap a b scan probe maxCandidates in
     n \<le> min scan (min (length a) (length b)) \<and> drop (length a - n) a = take n b"
proof -
  let ?t = "if scan < length a then drop (length a - scan) a else a"
  let ?n = "overlap a b scan probe maxCandidates"
  have t: "length ?t = min scan (length a)" "\<And>n. n \<le> length ?t \<Longrightarrow> drop (length ?t - n) ?t = drop (length a - n) a"
    by auto
  have "?n = 0 \<or> is_overlap ?t b ?n"
    using try_heads_overlap [of ?t b] by (simp add: overlap_def Let_def del: try_heads.simps)
  then show ?thesis
  proof
    assume "?n = 0"
    then show ?thesis by (simp add: Let_def)
  next
    assume "is_overlap ?t b ?n"
    then have "?n \<le> length ?t" "?n \<le> length b" "drop (length ?t - ?n) ?t = take ?n b"
      by (auto simp only: is_overlap_def)
    with t show ?thesis by (simp only: Let_def) simp
  qed
qed

text \<open>
  What \<open>overlap\<close> returns is an overlap: the last \<open>n\<close> units of \<open>a\<close> are the first \<open>n\<close> units of
  \<open>b\<close>, and \<open>n\<close> does not exceed the scanned window, for every probe length and candidate bound.
\<close>

theorem overlap_correct:
  "let n = overlap a b scan probe maxCandidates in
     n \<le> min scan (min (length a) (length b)) \<and> drop (length a - n) a = take n b"
  by (rule overlap_spec)

end
