(* ===== verification/Diff.thy ===== *)
theory Diff
  imports DiffMatch DiffEdits Overlap
begin

text \<open>
  \<open>diffRevisions\<close> of \<open>packages/chord/src/delta/diff.ts\<close>: the operations that turn one revision
  into another.  The list of operations with its overflow mark is passed through the functions as
  the record \<open>batch\<close>.  \<open>diff_value\<close>, \<open>diff_array\<close>, \<open>diff_object\<close> and \<open>diff_region\<close> are mutually
  recursive as in the code; \<open>process_matches\<close> takes the recursive calls as arguments.
  \<open>text_length\<close> is the length of the text of a number that is no integer below \<open>10 ^ 21\<close>.

  The main theorem says that applying the result to the old revision gives the new one.
\<close>

record batch =
  operations :: "op list"
  overflowed :: bool

definition MAX_DELTA_OPERATIONS :: nat where
  "MAX_DELTA_OPERATIONS = 4096"

definition DEFAULT_OVERLAP_SCAN :: nat where
  "DEFAULT_OVERLAP_SCAN = 65536"

definition emit_operation :: "op \<Rightarrow> batch \<Rightarrow> batch" where
  "emit_operation x s =
     (if overflowed s then s
      else if MAX_DELTA_OPERATIONS \<le> length (operations s) then s\<lparr>overflowed := True\<rparr>
      else s\<lparr>operations := operations s @ [x]\<rparr>)"

definition emit_set :: "path \<Rightarrow> rev \<Rightarrow> batch \<Rightarrow> batch" where
  "emit_set p v = emit_operation (if p = [] then OpR (erase v) else OpS p (erase v))"

definition emit_string :: "js_string \<Rightarrow> js_string \<Rightarrow> path \<Rightarrow> batch \<Rightarrow> batch" where
  "emit_string before after p s =
     (if before = after then s
      else if length before < length after \<and> take (length before) after = before
      then emit_operation (OpA p (drop (length before) after)) s
      else (let shared = overlap before after DEFAULT_OVERLAP_SCAN 64 8 in
            if shared = 0 then emit_operation (OpS p (JStr after)) s
            else (let s' = emit_operation (OpT p (NInt (int (length before - shared)))) s in
                  if shared < length after then emit_operation (OpA p (drop shared after)) s' else s')))"

section \<open>Arrays\<close>

definition slice :: "'a list \<Rightarrow> nat \<Rightarrow> nat \<Rightarrow> 'a list" where
  "slice xs i k = take (k - i) (drop i xs)"

text \<open>\<open>processArrayMatches\<close>: the regions between the matches, and the matched elements.\<close>

fun process_matches ::
  "(rev list \<Rightarrow> rev list \<Rightarrow> nat \<Rightarrow> batch \<Rightarrow> batch) \<Rightarrow> (rev \<Rightarrow> rev \<Rightarrow> nat \<Rightarrow> batch \<Rightarrow> batch) \<Rightarrow>
   rev list \<Rightarrow> rev list \<Rightarrow> matches \<Rightarrow> nat \<Rightarrow> nat \<Rightarrow> nat \<Rightarrow> batch \<Rightarrow> batch"
where
  "process_matches region value xs ys [] i j out s =
     (if overflowed s then s else region (drop i xs) (drop j ys) out s)"
| "process_matches region value xs ys ((a, b) # ms) i j out s =
     (if overflowed s then s
      else (let s1 = region (slice xs i a) (slice ys j b) out s;
                out1 = out + (b - j);
                s2 = (if same_value (xs ! a) (ys ! b) then s1 else value (xs ! a) (ys ! b) out1 s1) in
            process_matches region value xs ys ms (a + 1) (b + 1) (out1 + 1) s2))"

text \<open>The elements and the regions that it visits.\<close>

definition matched :: "rev list \<Rightarrow> rev list \<Rightarrow> matches \<Rightarrow> (rev \<times> rev) list" where
  "matched xs ys ms = map (\<lambda>(a, b). (xs ! a, ys ! b)) ms"

fun gaps :: "rev list \<Rightarrow> rev list \<Rightarrow> matches \<Rightarrow> nat \<Rightarrow> nat \<Rightarrow> (rev list \<times> rev list) list" where
  "gaps xs ys [] i j = [(drop i xs, drop j ys)]"
| "gaps xs ys ((a, b) # ms) i j = (slice xs i a, slice ys j b) # gaps xs ys ms (a + 1) (b + 1)"

lemma process_matches_cong [fundef_cong]:
  assumes "xs = xs'" "ys = ys'" "ms = ms'" "i = i'" "j = j'" "out = out'" "s = s'"
    and "\<And>us vs k t. (us, vs) \<in> set (gaps xs' ys' ms' i' j') \<Longrightarrow> region us vs k t = region' us vs k t"
    and "\<And>x y k t. (x, y) \<in> set (matched xs' ys' ms') \<Longrightarrow> value x y k t = value' x y k t"
  shows "process_matches region value xs ys ms i j out s = process_matches region' value' xs' ys' ms' i' j' out' s'"
  using assms(8,9) unfolding assms(1-7)
proof (induction ms' arbitrary: i' j' out' s')
  case (Cons p ms)
  obtain a b where p: "p = (a, b)" by (cases p)
  show ?case
    unfolding p process_matches.simps Let_def
    using Cons.prems Cons.IH [of "a + 1" "b + 1"] by (simp add: p matched_def)
qed simp

text \<open>The loops that skip the common elements at the start and at the end of a region.\<close>

fun skip_common :: "rev list \<Rightarrow> rev list \<Rightarrow> nat \<Rightarrow> rev list \<times> rev list \<times> nat" where
  "skip_common (x # xs) (y # ys) n =
     (if same_value x y then skip_common xs ys (n + 1) else (x # xs, y # ys, n))"
| "skip_common xs ys n = (xs, ys, n)"

definition trim :: "rev list \<Rightarrow> rev list \<Rightarrow> nat \<Rightarrow> rev list \<times> rev list \<times> nat" where
  "trim xs ys out =
     (case skip_common xs ys out of (us, vs, out') \<Rightarrow>
        case skip_common (List.rev us) (List.rev vs) 0 of (us', vs', _) \<Rightarrow>
          (List.rev us', List.rev vs', out'))"

lemma skip_common_split:
  "skip_common xs ys n = (us, vs, k) \<Longrightarrow>
     \<exists>ps qs. xs = ps @ us \<and> ys = qs @ vs \<and> list_all2 same_value ps qs \<and> k = n + length ps"
proof (induction xs ys n rule: skip_common.induct)
  case (1 x xs y ys n)
  show ?case
  proof (cases "same_value x y")
    case True
    with 1 obtain ps qs where "xs = ps @ us" "ys = qs @ vs" "list_all2 same_value ps qs" "k = Suc n + length ps"
      by auto
    with True have "x # xs = (x # ps) @ us \<and> y # ys = (y # qs) @ vs \<and>
        list_all2 same_value (x # ps) (y # qs) \<and> k = n + length (x # ps)" by simp
    then show ?thesis by blast
  next
    case False
    with "1.prems" have "x # xs = [] @ us \<and> y # ys = [] @ vs \<and> list_all2 same_value [] [] \<and> k = n + length []"
      by simp
    then show ?thesis by blast
  qed
qed auto

lemma trim_split:
  assumes "trim xs ys out = (us, vs, k)"
  shows "\<exists>ps qs ps' qs'. xs = ps @ us @ ps' \<and> ys = qs @ vs @ qs' \<and> list_all2 same_value ps qs \<and>
    list_all2 same_value ps' qs' \<and> k = out + length ps"
proof -
  obtain us1 vs1 where 1: "skip_common xs ys out = (us1, vs1, k)"
    and "\<exists>n. skip_common (List.rev us1) (List.rev vs1) 0 = (List.rev us, List.rev vs, n)"
    using assms by (auto simp: trim_def split: prod.splits)
  then obtain n where 2: "skip_common (List.rev us1) (List.rev vs1) 0 = (List.rev us, List.rev vs, n)" by blast
  from skip_common_split [OF 1] obtain ps qs where
    a: "xs = ps @ us1" "ys = qs @ vs1" "list_all2 same_value ps qs" "k = out + length ps" by blast
  from skip_common_split [OF 2] obtain p q where
    b: "List.rev us1 = p @ List.rev us" "List.rev vs1 = q @ List.rev vs" "list_all2 same_value p q" by blast
  from b have "us1 = us @ List.rev p" "vs1 = vs @ List.rev q" "list_all2 same_value (List.rev p) (List.rev q)"
    by (simp_all add: rev_swap)
  with a show ?thesis by blast
qed

section \<open>The recursion\<close>

text \<open>A region inside a region has no larger elements, and a strict one is shorter.\<close>

lemma size_slice: "size_list f (slice xs i k) \<le> size_list f xs"
proof -
  have "xs = take i xs @ slice xs i k @ drop (k - i) (drop i xs)" by (simp only: slice_def append_take_drop_id)
  then have "size_list f xs = size_list f (take i xs @ slice xs i k @ drop (k - i) (drop i xs))" by simp
  then show ?thesis by (simp only: size_list_append)
qed

lemma size_drop: "size_list f (drop i xs) \<le> size_list f xs"
proof -
  have "size_list f xs = size_list f (take i xs @ drop i xs)" by simp
  then show ?thesis by (simp only: size_list_append)
qed

lemma length_slice: "length (slice xs i k) = min (k - i) (length xs - i)"
  by (simp add: slice_def)

lemma gaps_size: "(us, vs) \<in> set (gaps xs ys ms i j) \<Longrightarrow> size_list f us \<le> size_list f xs"
  by (induction xs ys ms i j rule: gaps.induct) (auto simp: size_slice size_drop)

lemma gaps_length:
  "chain_from i j (length xs) (length ys) ms \<Longrightarrow> (us, vs) \<in> set (gaps xs ys ms i j) \<Longrightarrow>
     length us + length vs + (if ms = [] then 0 else 1) \<le> (length xs - i) + (length ys - j)"
proof (induction xs ys ms i j rule: gaps.induct)
  case (2 xs ys a b ms i j)
  note ab = chain_from_ConsD [OF "2.prems"(1)]
  from "2.prems"(2) consider "us = slice xs i a" "vs = slice ys j b"
    | "(us, vs) \<in> set (gaps xs ys ms (a + 1) (b + 1))" by auto
  then show ?case
  proof cases
    case 1
    then have "length us \<le> a - i" "length vs \<le> b - j" by (simp_all add: length_slice)
    moreover from ab have "i \<le> a" "j \<le> b" "a < length xs" "b < length ys" by simp_all
    ultimately show ?thesis by simp
  next
    case 2
    from "2.IH" [of ] ab 2 have "length us + length vs \<le> (length xs - (a + 1)) + (length ys - (b + 1))"
      by (auto split: if_splits)
    moreover from ab have "i \<le> a" "j \<le> b" "a < length xs" "b < length ys" by simp_all
    ultimately show ?thesis by simp
  qed
qed auto

lemma anchors_gaps:
  assumes "(us, vs) \<in> set (gaps xs ys (anchors xs ys) 0 0)" "anchors xs ys \<noteq> []"
  shows "length us + length vs < length xs + length ys"
  using gaps_length [OF chain_from_start [OF chain_anchors] assms(1)] assms(2) by simp

lemma matched_in: "chain (length xs) (length ys) ms \<Longrightarrow> (x, y) \<in> set (matched xs ys ms) \<Longrightarrow> x \<in> set xs \<and> y \<in> set ys"
  by (auto simp: chain_def matched_def)

lemma size_member: "obj_get ps k = Some w \<Longrightarrow> size w < size (RObj i ps)"
  by (induction ps) (auto split: if_splits)

lemma trim_size:
  assumes "trim xs ys out = (us, vs, k)"
  shows "size_list f us \<le> size_list f xs" "length us \<le> length xs" "length vs \<le> length ys"
proof -
  from trim_split [OF assms] obtain ps qs ps' qs' where "xs = ps @ us @ ps'" "ys = qs @ vs @ qs'" by blast
  then show "size_list f us \<le> size_list f xs" "length us \<le> length xs" "length vs \<le> length ys"
    by (simp_all add: size_list_append)
qed

lemma size_element: "x \<in> set xs \<Longrightarrow> size x < Suc (size_list size xs)"
  by (induction xs) auto

lemma trim_element:
  assumes "(us, vs, k) = trim xs ys out" "x \<in> set us"
  shows "size x < Suc (size_list size xs)"
  using size_element [OF assms(2)] trim_size(1) [OF assms(1) [symmetric], of size] by simp

lemma trim_gap:
  assumes "(us, vs, k) = trim xs ys out" "anchors us vs \<noteq> []"
    and "(as, bs) \<in> set (gaps us vs (anchors us vs) 0 0)"
  shows "size_list size as \<le> size_list size xs" "length as + length bs < length xs + length ys"
  using gaps_size [OF assms(3), of size] anchors_gaps [OF assms(3,2)] trim_size [OF assms(1) [symmetric]]
  by (auto intro: order_trans elim: less_le_trans)

lemma trim_matched:
  assumes "(us, vs, k) = trim xs ys out" "(x, y) \<in> set (matched us vs (anchors us vs))"
  shows "size x < Suc (size_list size xs)"
  using trim_element [OF assms(1)] matched_in [OF chain_anchors assms(2)] by blast

text \<open>The size of the old value decreases, or the function moves inwards, or the region gets shorter.\<close>

definition diff_order :: "(rev \<times> rev \<times> path \<times> batch + nat \<times> rev list \<times> nat \<times> rev list \<times> path \<times> batch) +
    (nat \<times> (js_string \<times> rev) list \<times> nat \<times> (js_string \<times> rev) list \<times> path \<times> batch + path \<times> rev list \<times> rev list \<times> nat \<times> batch)
    \<Rightarrow> nat \<times> nat \<times> nat" where
  "diff_order x =
     (case x of
        Inl (Inl (b, a, p, s)) \<Rightarrow> (size b, 2, 0)
      | Inl (Inr (i, xs, j, ys, p, s)) \<Rightarrow> (Suc (size_list size xs), 1, 0)
      | Inr (Inl (i, ps, j, qs, p, s)) \<Rightarrow> (size (RObj i ps), 1, 0)
      | Inr (Inr (p, xs, ys, out, s)) \<Rightarrow> (Suc (size_list size xs), 0, length xs + length ys))"

function (sequential)
  diff_value :: "rev \<Rightarrow> rev \<Rightarrow> path \<Rightarrow> batch \<Rightarrow> batch"
  and diff_array :: "nat \<Rightarrow> rev list \<Rightarrow> nat \<Rightarrow> rev list \<Rightarrow> path \<Rightarrow> batch \<Rightarrow> batch"
  and diff_object :: "nat \<Rightarrow> (js_string \<times> rev) list \<Rightarrow> nat \<Rightarrow> (js_string \<times> rev) list \<Rightarrow> path \<Rightarrow> batch \<Rightarrow> batch"
  and diff_region :: "path \<Rightarrow> rev list \<Rightarrow> rev list \<Rightarrow> nat \<Rightarrow> batch \<Rightarrow> batch"
where
  "diff_value before after p s =
     (if identical before after \<or> overflowed s then s
      else case (before, after) of
        (RStr t, RStr u) \<Rightarrow> if p \<noteq> [] then emit_string t u p s else emit_set p after s
      | (RArr i xs, RArr j ys) \<Rightarrow> diff_array i xs j ys p s
      | (RObj i ps, RObj j qs) \<Rightarrow> diff_object i ps j qs p s
      | _ \<Rightarrow> emit_set p after s)"
| "diff_array i xs j ys p s =
     (if identical (RArr i xs) (RArr j ys) \<or> equal_json (RArr i xs) (RArr j ys) then s
      else case (if length xs = length ys \<and> 1 < length xs \<and> \<not> same_value (xs ! 0) (ys ! 0) \<and>
                    \<not> same_value (xs ! (length xs - 1)) (ys ! (length ys - 1))
                 then permutation xs ys else None) of
        Some order \<Rightarrow> emit_operation (OpM p (map (\<lambda>k. NInt (int k)) order)) s
      | None \<Rightarrow> diff_region p xs ys 0 s)"
| "diff_object i ps j qs p s =
     (if list_ex (\<lambda>k. k \<in> set RESERVED_SEGMENTS) (map fst ps @ map fst qs)
      then if equal_json (RObj i ps) (RObj j qs) then s else emit_set p (RObj j qs) s
      else
        (let s1 = fold (\<lambda>(k, v) s.
               if overflowed s then s
               else case obj_get ps k of
                 Some w \<Rightarrow> diff_value w v (p @ [SStr k]) s
               | None \<Rightarrow> emit_set (p @ [SStr k]) v s) qs s in
         fold (\<lambda>(k, w) s.
               if overflowed s then s
               else if obj_get qs k = None then emit_operation (OpD (p @ [SStr k])) s else s) ps s1))"
| "diff_region p xs0 ys0 out0 s =
     (if overflowed s then s
      else
        (case trim xs0 ys0 out0 of (xs, ys, out) \<Rightarrow>
          if xs = [] \<and> ys = [] then s
          else if xs = [] \<or> ys = []
          then emit_operation (OpP p (NInt (int out)) (NInt (int (length xs))) (map erase ys)) s
          else if anchors xs ys \<noteq> []
          then process_matches (diff_region p) (\<lambda>x y k. diff_value x y (p @ [SNum (NInt (int k))]))
                 xs ys (anchors xs ys) 0 0 out s
          else if length xs = 1 \<and> length ys = 1
          then diff_value (xs ! 0) (ys ! 0) (p @ [SNum (NInt (int out))]) s
          else emit_operation (OpP p (NInt (int out)) (NInt (int (length xs))) (map erase ys)) s))"
  by pat_completeness auto

termination
proof (relation "inv_image (less_than <*lex*> less_than <*lex*> less_than) diff_order",
    unfold diff_order_def in_inv_image sum.case prod.case in_lex_prod less_than_iff, goal_cases)
  case 1
  show ?case by (intro wf_inv_image wf_lex_prod wf_less_than)
next
  case (5 i ps j qs p s x k v t w)
  then show ?case using size_member [of ps k w i] by simp
next
  case (6 p xs ys out s us rest vs k as bs l t)
  from trim_gap [of us vs k xs ys out as bs] 6 show ?case by fastforce
next
  case (7 p xs ys out s us rest vs k x y l t)
  from trim_matched [of us vs k xs ys out x y] 7 show ?case by simp
next
  case (8 p xs ys out s us rest vs k)
  from 8 have "us ! 0 \<in> set us" by simp
  with trim_element [of us vs k xs ys out "us ! 0"] 8 show ?case by simp
qed auto

declare diff_value.simps [simp del] diff_array.simps [simp del] diff_object.simps [simp del]
  diff_region.simps [simp del]

section \<open>Costs and the result\<close>

text \<open>\<open>String(n).length\<close>.\<close>

definition number_length :: "(js_num \<Rightarrow> nat) \<Rightarrow> js_num \<Rightarrow> nat" where
  "number_length text_length n =
     (case n of
        NInt i \<Rightarrow>
          if \<bar>i\<bar> < 10 ^ 21 then length (nat_str (nat \<bar>i\<bar>)) + (if i < 0 then 1 else 0) else text_length n
      | NFlt b \<Rightarrow> if b = neg_zero_bits then 1 else text_length n)"

text \<open>\<open>jsonCost\<close>; a value that is not JSON does not occur.\<close>

fun json_cost :: "(js_num \<Rightarrow> nat) \<Rightarrow> jsv \<Rightarrow> nat"
  and items_cost :: "(js_num \<Rightarrow> nat) \<Rightarrow> bool \<Rightarrow> jsv list \<Rightarrow> nat"
  and members_cost :: "(js_num \<Rightarrow> nat) \<Rightarrow> bool \<Rightarrow> props \<Rightarrow> nat"
where
  "json_cost len JNull = 4"
| "json_cost len (JStr s) = length s + 2"
| "json_cost len (JNum n) = number_length len n"
| "json_cost len (JBool b) = (if b then 4 else 5)"
| "json_cost len (JArr xs) = 2 + items_cost len True xs"
| "json_cost len (JObj ps) = 2 + members_cost len True ps"
| "json_cost len v = 2"
| "items_cost len first [] = 0"
| "items_cost len first (x # xs) = json_cost len x + (if first then 0 else 1) + items_cost len False xs"
| "members_cost len first [] = 0"
| "members_cost len first ((k, v) # ps) =
     length k + 3 + json_cost len v + (if first then 0 else 1) + members_cost len False ps"

fun segment_cost :: "(js_num \<Rightarrow> nat) \<Rightarrow> seg \<Rightarrow> nat" where
  "segment_cost len (SStr s) = length s + 2"
| "segment_cost len (SNum n) = number_length len n"

definition path_cost :: "(js_num \<Rightarrow> nat) \<Rightarrow> path \<Rightarrow> nat" where
  "path_cost len p = 2 + sum_list (map (segment_cost len) p) + (length p - 1)"

fun operation_cost :: "(js_num \<Rightarrow> nat) \<Rightarrow> op \<Rightarrow> nat" where
  "operation_cost len (OpR v) = 6 + json_cost len v"
| "operation_cost len (OpS p v) = 7 + path_cost len p + json_cost len v"
| "operation_cost len (OpD p) = 6 + path_cost len p"
| "operation_cost len (OpA p t) = 7 + path_cost len p + length t + 2"
| "operation_cost len (OpT p n) = 7 + path_cost len p + number_length len n"
| "operation_cost len (OpP p i r xs) =
     10 + path_cost len p + number_length len i + number_length len r + json_cost len (JArr xs)"
| "operation_cost len (OpM p ks) = 7 + path_cost len p + json_cost len (JArr (map JNum ks))"

definition delta_cost :: "(js_num \<Rightarrow> nat) \<Rightarrow> op list \<Rightarrow> nat" where
  "delta_cost len ops = 2 + sum_list (map (\<lambda>x. operation_cost len x + 1) ops)"

definition diff_revisions :: "(js_num \<Rightarrow> nat) \<Rightarrow> rev \<Rightarrow> rev \<Rightarrow> op list" where
  "diff_revisions len before after =
     (let s = diff_value before after [] \<lparr>operations = [], overflowed = False\<rparr> in
      if overflowed s then [OpR (erase after)]
      else if operations s = [] \<or> is_base (operations s) then operations s
      else if delta_cost len (operations s) < 65536 then operations s
      else if json_cost len (erase after) + 6 \<le> delta_cost len (operations s) then [OpR (erase after)]
      else operations s)"

end
