(* ===== verification/DiffCorrect.thy ===== *)
theory DiffCorrect
  imports Diff
begin

text \<open>
  Correctness of the comparison.  \<open>diffs p f v P\<close> says that the batch transformer \<open>f\<close>, unless it
  overflows, appends operations that edit a value \<open>v\<close> at path \<open>p\<close> into one that satisfies \<open>P\<close>.  It
  is proved for the four functions by induction over their recursion, with the calculus of
  \<open>DiffEdits\<close> for the operations and the chains of \<open>DiffMatch\<close> for the matched elements.
\<close>

section \<open>Transformers of a batch\<close>

text \<open>An overflowed batch stays as it is.\<close>

definition stuck :: "(batch \<Rightarrow> batch) \<Rightarrow> bool" where
  "stuck f \<longleftrightarrow> (\<forall>s. overflowed s \<longrightarrow> f s = s)"

definition diffs :: "path \<Rightarrow> (batch \<Rightarrow> batch) \<Rightarrow> jsv \<Rightarrow> (jsv \<Rightarrow> bool) \<Rightarrow> bool" where
  "diffs p f v P \<longleftrightarrow>
     (\<forall>s. \<not> overflowed (f s) \<longrightarrow>
        (\<exists>L w. operations (f s) = operations s @ L \<and> edits p L v w \<and> P w))"

lemma diffsD: "diffs p f v P \<Longrightarrow> \<not> overflowed (f s) \<Longrightarrow>
    \<exists>L w. operations (f s) = operations s @ L \<and> edits p L v w \<and> P w"
  by (simp add: diffs_def)

lemma diffs_same: "P v \<Longrightarrow> diffs p (\<lambda>s. s) v P"
  by (auto simp: diffs_def intro!: exI [of _ "[]"] exI [of _ v] edits_Nil)

lemma diffs_weaken: "diffs p f v P \<Longrightarrow> (\<And>w. P w \<Longrightarrow> Q w) \<Longrightarrow> diffs p f v Q"
  unfolding diffs_def by blast

lemma diffs_guard: "diffs p f v P \<Longrightarrow> diffs p (\<lambda>s. if overflowed s then s else f s) v P"
  unfolding diffs_def by simp

lemma diffs_emit:
  assumes "edits p [x] v w" "P w"
  shows "diffs p (emit_operation x) v P"
  using assms by (auto simp: diffs_def emit_operation_def)

lemma diffs_then:
  assumes "path_ok p" "diffs p f v P" "\<And>w. P w \<Longrightarrow> diffs p g w Q" "stuck g"
  shows "diffs p (\<lambda>s. g (f s)) v Q"
proof -
  have "\<exists>L w. operations (g (f s)) = operations s @ L \<and> edits p L v w \<and> Q w"
    if no: "\<not> overflowed (g (f s))" for s
  proof -
    have "\<not> overflowed (f s)"
    proof
      assume o: "overflowed (f s)"
      with assms(4) have "g (f s) = f s" by (simp add: stuck_def)
      with o no show False by simp
    qed
    from diffsD [OF assms(2) this] obtain L u where L: "operations (f s) = operations s @ L" "edits p L v u" "P u"
      by blast
    from diffsD [OF assms(3) [OF L(3)] no] obtain M w
      where M: "operations (g (f s)) = operations (f s) @ M" "edits p M u w" "Q w" by blast
    from L(1) M(1) have "operations (g (f s)) = operations s @ (L @ M)" by simp
    with edits_append [OF assms(1) L(2) M(2)] M(3) show ?thesis by blast
  qed
  then show ?thesis by (simp add: diffs_def)
qed

lemma diffs_array_child:
  assumes "diffs (p @ [SNum (NInt (int k))]) f c P" "k = length as"
    and "\<And>d. P d \<Longrightarrow> Q (JArr (as @ d # bs))"
  shows "diffs p f (JArr (as @ c # bs)) Q"
  unfolding diffs_def
proof (intro allI impI)
  fix s
  assume "\<not> overflowed (f s)"
  from diffsD [OF assms(1) this] obtain L d
    where L: "operations (f s) = operations s @ L" "edits (p @ [SNum (NInt (int k))]) L c d" "P d" by blast
  have "edits p L (JArr (as @ c # bs)) (JArr ((as @ c # bs)[k := d]))"
    by (rule edits_array_child) (use L(2) assms(2) in simp_all)
  with L(1) assms(3) [OF L(3)] assms(2)
  show "\<exists>L w. operations (f s) = operations s @ L \<and> edits p L (JArr (as @ c # bs)) w \<and> Q w" by auto
qed

lemma diffs_object_child:
  assumes "diffs (p @ [SStr k]) f c P" "obj_get ps k = Some c" "distinct (map fst ps)"
    and "\<And>d. P d \<Longrightarrow> Q (JObj (obj_put k d ps))"
  shows "diffs p f (JObj ps) Q"
  unfolding diffs_def
proof (intro allI impI)
  fix s
  assume "\<not> overflowed (f s)"
  from diffsD [OF assms(1) this] obtain L d
    where L: "operations (f s) = operations s @ L" "edits (p @ [SStr k]) L c d" "P d" by blast
  have "edits p L (JObj ps) (JObj (obj_put k d ps))"
    by (rule edits_object_child [OF assms(2,3) L(2)])
  with L(1) assms(4) [OF L(3)]
  show "\<exists>L w. operations (f s) = operations s @ L \<and> edits p L (JObj ps) w \<and> Q w" by blast
qed

lemma stuck_emit [simp]: "overflowed s \<Longrightarrow> emit_operation x s = s"
  by (simp add: emit_operation_def)

lemma stuck_value: "overflowed s \<Longrightarrow> diff_value b a p s = s"
  by (subst diff_value.simps) simp

lemma stuck_region: "overflowed s \<Longrightarrow> diff_region p xs ys k s = s"
  by (subst diff_region.simps) simp

lemma stuck_process: "overflowed s \<Longrightarrow> process_matches r f xs ys ms i j k s = s"
  by (cases ms) auto

lemma stuck_fold: "overflowed s \<Longrightarrow> fold (\<lambda>x s. if overflowed s then s else f x s) xs s = s"
  by (induction xs) auto

section \<open>Leaves and strings\<close>

lemma diffs_set:
  assumes "path_ok p" "similar (erase v) (erase v)"
  shows "diffs p (emit_set p v) u (\<lambda>w. similar w (erase v))"
  unfolding emit_set_def
  by (cases "p = []") (auto intro!: diffs_emit edits_root edits_overwrite assms)

lemma diffs_string:
  assumes "path_ok p" "p \<noteq> []"
  shows "diffs p (emit_string t u p) (JStr t) (\<lambda>w. w = JStr u)"
proof -
  let ?k = "overlap t u DEFAULT_OVERLAP_SCAN 64 8"
  have k: "?k \<le> length t" "?k \<le> length u" "drop (length t - ?k) t = take ?k u"
    using overlap_spec [of t u DEFAULT_OVERLAP_SCAN 64 8] by (simp_all add: Let_def)
  consider (same) "t = u" | (append) "t \<noteq> u" "length t < length u" "take (length t) u = t"
    | (set) "t \<noteq> u" "\<not> (length t < length u \<and> take (length t) u = t)" "?k = 0"
    | (trim) "t \<noteq> u" "\<not> (length t < length u \<and> take (length t) u = t)" "0 < ?k" "length u \<le> ?k"
    | (both) "t \<noteq> u" "\<not> (length t < length u \<and> take (length t) u = t)" "0 < ?k" "?k < length u"
    by linarith
  then show ?thesis
  proof cases
    case same
    then show ?thesis by (simp add: emit_string_def [abs_def] diffs_same)
  next
    case append
    have "t @ drop (length t) u = u" using append(3) by (metis append_take_drop_id)
    with edits_text(1) [OF assms, of "drop (length t) u" t]
    have "edits p [OpA p (drop (length t) u)] (JStr t) (JStr u)" by simp
    with append show ?thesis by (simp add: emit_string_def [abs_def] diffs_emit)
  next
    case set
    then have "emit_string t u p = emit_operation (OpS p (JStr u))"
      by (intro ext) (auto simp: emit_string_def Let_def)
    then show ?thesis by (simp only:) (rule diffs_emit [OF edits_overwrite [OF assms] refl])
  next
    case trim
    with k have "drop (length t - ?k) t = u" by simp
    with edits_text(2) [OF assms, of "length t - ?k" t]
    have "edits p [OpT p (NInt (int (length t - ?k)))] (JStr t) (JStr u)" by simp
    moreover from trim have "emit_string t u p = emit_operation (OpT p (NInt (int (length t - ?k))))"
      by (intro ext) (auto simp: emit_string_def Let_def)
    ultimately show ?thesis by (simp only:) (rule diffs_emit [OF _ refl])
  next
    case both
    let ?f = "emit_operation (OpT p (NInt (int (length t - ?k))))" and ?g = "emit_operation (OpA p (drop ?k u))"
    have "diffs p (\<lambda>s. ?g (?f s)) (JStr t) (\<lambda>w. w = JStr u)"
    proof (rule diffs_then [where f = ?f and g = ?g and P = "\<lambda>w. w = JStr (take ?k u)", OF assms(1)])
      show "diffs p ?f (JStr t) (\<lambda>w. w = JStr (take ?k u))"
        using edits_text(2) [OF assms, of "length t - ?k" t] k(3) by (intro diffs_emit) auto
      show "diffs p ?g w (\<lambda>w. w = JStr u)" if "w = JStr (take ?k u)" for w
        using edits_text(1) [OF assms, of "drop ?k u" "take ?k u"] that by (intro diffs_emit) auto
      show "stuck ?g" by (simp add: stuck_def)
    qed
    moreover from both have "emit_string t u p = (\<lambda>s. ?g (?f s))"
      by (intro ext) (auto simp: emit_string_def Let_def)
    ultimately show ?thesis by (simp only:)
  qed
qed

section \<open>Arrays\<close>

text \<open>What the functions achieve on a region at index \<open>k\<close> of an array, and on a value.\<close>

definition becomes :: "jsv list \<Rightarrow> jsv list \<Rightarrow> rev list \<Rightarrow> jsv \<Rightarrow> bool" where
  "becomes as bs ys w \<longleftrightarrow> (\<exists>zs. w = JArr (as @ zs @ bs) \<and> list_all2 similar zs (map erase ys))"

definition region_spec :: "path \<Rightarrow> rev list \<Rightarrow> rev list \<Rightarrow> nat \<Rightarrow> (batch \<Rightarrow> batch) \<Rightarrow> bool" where
  "region_spec p xs ys k f \<longleftrightarrow>
     (\<forall>as bs. length as = k \<longrightarrow> diffs p f (JArr (as @ map erase xs @ bs)) (becomes as bs ys))"

definition value_spec :: "path \<Rightarrow> rev \<Rightarrow> rev \<Rightarrow> (batch \<Rightarrow> batch) \<Rightarrow> bool" where
  "value_spec p x y f \<longleftrightarrow> diffs p f (erase x) (\<lambda>w. similar w (erase y))"

lemma becomes_similar: "list_all2 similar (map erase xs) (map erase ys) \<Longrightarrow> becomes as bs ys (JArr (as @ map erase xs @ bs))"
  by (auto simp: becomes_def)

lemma becomes_append:
  assumes "list_all2 similar zs (map erase us)" "becomes (as @ zs) bs ys w"
  shows "becomes as bs (us @ ys) w"
proof -
  from assms(2) obtain zs' where "w = JArr ((as @ zs) @ zs' @ bs)" "list_all2 similar zs' (map erase ys)"
    by (auto simp: becomes_def)
  then have "w = JArr (as @ (zs @ zs') @ bs)" "list_all2 similar (zs @ zs') (map erase (us @ ys))"
    using assms(1) by (auto intro: list_all2_appendI)
  then show ?thesis unfolding becomes_def by blast
qed

lemma becomes_before:
  assumes "list_all2 similar zs (map erase us)" "becomes as (zs @ bs) ys w"
  shows "becomes as bs (ys @ us) w"
proof -
  from assms(2) obtain zs' where "w = JArr (as @ zs' @ zs @ bs)" "list_all2 similar zs' (map erase ys)"
    by (auto simp: becomes_def)
  then have "w = JArr (as @ (zs' @ zs) @ bs)" "list_all2 similar (zs' @ zs) (map erase (ys @ us))"
    using assms(1) by (auto intro: list_all2_appendI)
  then show ?thesis unfolding becomes_def by blast
qed

lemma slice_split: "i \<le> a \<Longrightarrow> a < length xs \<Longrightarrow> drop i xs = slice xs i a @ xs ! a # drop (Suc a) xs"
  by (metis Cons_nth_drop_Suc append_take_drop_id drop_drop le_add_diff_inverse2 slice_def)

text \<open>
  The regions between the matches and the matched elements, one after the other, turn the whole
  region into the new one.
\<close>

lemma process_spec:
  assumes "path_ok p"
    and stuck: "\<And>us vs k. stuck (region us vs k)" "\<And>x y k. stuck (value x y k)"
    and same: "\<And>x y. (x, y) \<in> set (matched xs ys ms) \<Longrightarrow> same_value x y \<Longrightarrow> similar (erase x) (erase y)"
    and region: "\<And>us vs k. (us, vs) \<in> set (gaps xs ys ms i j) \<Longrightarrow> region_spec p us vs k (region us vs k)"
    and "value": "\<And>x y k. (x, y) \<in> set (matched xs ys ms) \<Longrightarrow> value_spec (p @ [SNum (NInt (int k))]) x y (value x y k)"
    and "chain_from i j (length xs) (length ys) ms"
  shows "region_spec p (drop i xs) (drop j ys) k (process_matches region value xs ys ms i j k)"
  using same region "value" assms(7)
proof (induction ms arbitrary: i j k)
  case Nil
  then show ?case by (simp add: region_spec_def diffs_guard)
next
  case (Cons m ms)
  obtain a b where m: "m = (a, b)" by (cases m)
  from chain_from_ConsD [OF Cons.prems(4) [unfolded m]]
  have ab: "i \<le> a" "j \<le> b" "a < length xs" "b < length ys"
    and chain: "chain_from (a + 1) (b + 1) (length xs) (length ys) ms" by simp_all
  let ?us = "slice xs i a" and ?vs = "slice ys j b" and ?x = "xs ! a" and ?y = "ys ! b"
  let ?k1 = "k + (b - j)"
  let ?R = "region ?us ?vs k"
  let ?V = "\<lambda>s. if same_value ?x ?y then s else value ?x ?y ?k1 s"
  let ?P = "process_matches region value xs ys ms (a + 1) (b + 1) (?k1 + 1)"
  have lenv: "length ?vs = b - j" using ab by (simp add: length_slice)
  have xy: "(?x, ?y) \<in> set (matched xs ys (m # ms))" by (simp add: m matched_def)
  have rest: "region_spec p (drop (a + 1) xs) (drop (b + 1) ys) (?k1 + 1) ?P"
    using Cons.prems chain by (intro Cons.IH) (auto simp: m matched_def)
  have "diffs p (\<lambda>s. ?P (?V (?R s))) (JArr (as @ map erase (drop i xs) @ bs)) (becomes as bs (drop j ys))"
    if len: "length as = k" for as bs
  proof -
    have xs: "map erase (drop i xs) = map erase ?us @ erase ?x # map erase (drop (a + 1) xs)"
      by (simp add: slice_split [OF ab(1,3)])
    have ys: "drop j ys = (?vs @ [?y]) @ drop (b + 1) ys"
      by (simp add: slice_split [OF ab(2,4)])
    let ?bs = "erase ?x # map erase (drop (a + 1) xs) @ bs"
    let ?Q = "\<lambda>w. \<exists>zs z. w = JArr (as @ (zs @ [z]) @ map erase (drop (a + 1) xs) @ bs) \<and>
        list_all2 similar (zs @ [z]) (map erase (?vs @ [?y]))"
    have R: "diffs p ?R (JArr (as @ map erase (drop i xs) @ bs)) (becomes as ?bs ?vs)"
      using Cons.prems(2) [of ?us ?vs k] len unfolding xs by (simp add: m region_spec_def)
    have V: "diffs p ?V w ?Q" if w: "becomes as ?bs ?vs w" for w
    proof -
      from w obtain zs where zs: "w = JArr ((as @ zs) @ erase ?x # map erase (drop (a + 1) xs) @ bs)"
        "list_all2 similar zs (map erase ?vs)" by (auto simp: becomes_def)
      from list_all2_lengthD [OF zs(2)] len lenv have k1: "?k1 = length (as @ zs)" by simp
      have Q: "?Q (JArr ((as @ zs) @ d # map erase (drop (a + 1) xs) @ bs))" if "similar d (erase ?y)" for d
        using zs(2) that by (intro exI [of _ zs] exI [of _ d]) (simp add: list_all2_appendI)
      show ?thesis
      proof (cases "same_value ?x ?y")
        case True
        from Q [OF Cons.prems(1) [OF xy True]] True show ?thesis by (simp add: zs(1) diffs_same)
      next
        case False
        have "diffs p (value ?x ?y ?k1) w ?Q"
          unfolding zs(1)
          by (rule diffs_array_child [where Q = ?Q, OF Cons.prems(3) [OF xy, unfolded value_spec_def] k1]) (rule Q)
        with False show ?thesis by simp
      qed
    qed
    have P: "diffs p ?P w (becomes as bs (drop j ys))" if w: "?Q w" for w
    proof -
      from w obtain zs z where z: "w = JArr ((as @ zs @ [z]) @ map erase (drop (a + 1) xs) @ bs)"
        "list_all2 similar (zs @ [z]) (map erase (?vs @ [?y]))" by auto
      from list_all2_lengthD [OF z(2)] len lenv have "length (as @ zs @ [z]) = ?k1 + 1" by simp
      with rest have "diffs p ?P w (becomes (as @ zs @ [z]) bs (drop (b + 1) ys))"
        unfolding region_spec_def z(1) by blast
      then show ?thesis
        unfolding ys by (rule diffs_weaken) (rule becomes_append [OF z(2)], assumption)
    qed
    have sV: "stuck ?V" and sP: "stuck ?P" using stuck(2) by (simp_all add: stuck_def stuck_process)
    show ?thesis
      by (rule diffs_then [OF assms(1) _ P sP], rule diffs_then [OF assms(1) R V sV])
  qed
  then have "region_spec p (drop i xs) (drop j ys) k (\<lambda>s. ?P (?V (?R s)))"
    by (simp add: region_spec_def)
  moreover have "process_matches region value xs ys (m # ms) i j k =
      (\<lambda>s. if overflowed s then s else ?P (?V (?R s)))"
    by (rule ext) (simp add: m Let_def)
  ultimately show ?case by (simp add: region_spec_def diffs_guard)
qed

lemma region_splice:
  assumes "path_ok p" "\<forall>y \<in> set ys. json_ok (erase y)"
  shows "region_spec p xs ys k
    (emit_operation (OpP p (NInt (int k)) (NInt (int (length xs))) (map erase ys)))"
proof -
  have "diffs p (emit_operation (OpP p (NInt (int k)) (NInt (int (length xs))) (map erase ys)))
      (JArr (as @ map erase xs @ bs)) (becomes as bs ys)" if "length as = k" for as bs
  proof (rule diffs_emit)
    have "js_splice k (length xs) (map erase ys) (as @ map erase xs @ bs) = as @ map erase ys @ bs"
      using that by (simp add: js_splice_def)
    with edits_splice [OF assms(1), of k "length xs" "map erase ys" "as @ map erase xs @ bs"]
    show "edits p [OpP p (NInt (int k)) (NInt (int (length xs))) (map erase ys)]
        (JArr (as @ map erase xs @ bs)) (JArr (as @ map erase ys @ bs))" by simp
    have "list_all2 similar (map erase ys) (map erase ys)"
      using assms(2) by (intro list.rel_refl_strong) (auto intro: similar_refl)
    then show "becomes as bs ys (JArr (as @ map erase ys @ bs))" by (rule becomes_similar)
  qed
  then show ?thesis by (simp add: region_spec_def)
qed

lemma region_single:
  assumes "value_spec (p @ [SNum (NInt (int k))]) x y f"
  shows "region_spec p [x] [y] k f"
proof -
  have "diffs p f (JArr (as @ erase x # bs)) (becomes as bs [y])" if "length as = k" for as bs
    by (rule diffs_array_child [where Q = "becomes as bs [y]",
          OF assms [unfolded value_spec_def] that [symmetric]])
      (auto simp: becomes_def intro!: exI [of _ "[_]"])
  then show ?thesis by (simp add: region_spec_def)
qed

lemma region_trim:
  assumes "trim xs ys k = (us, vs, out)" "comparable_items xs ys" "region_spec p us vs out f"
  shows "region_spec p xs ys k f"
proof -
  from trim_split [OF assms(1)] obtain ps qs ps' qs' where
    s: "xs = ps @ us @ ps'" "ys = qs @ vs @ qs'" "list_all2 same_value ps qs" "list_all2 same_value ps' qs'"
      "out = k + length ps" by blast
  have sim: "list_all2 similar (map erase as) (map erase bs)"
    if "list_all2 same_value as bs" "set as \<subseteq> set xs" "set bs \<subseteq> set ys" for as bs
  proof -
    have "similar (erase x) (erase y)" if "x \<in> set as" "y \<in> set bs" "same_value x y" for x y
    proof -
      from that(1,2) \<open>set as \<subseteq> set xs\<close> \<open>set bs \<subseteq> set ys\<close> assms(2) have "comparable x y"
        by (auto simp: comparable_items_def)
      with that(3) show ?thesis by (simp add: same_value_similar)
    qed
    with that(1) show ?thesis
      unfolding list_all2_map1 list_all2_map2 by (rule list.rel_mono_strong)
  qed
  have "diffs p f (JArr (as @ map erase xs @ bs)) (becomes as bs ys)" if "length as = k" for as bs
  proof -
    have "diffs p f (JArr ((as @ map erase ps) @ map erase us @ (map erase ps' @ bs)))
        (becomes (as @ map erase ps) (map erase ps' @ bs) vs)"
      using assms(3) that s(5) unfolding region_spec_def by (metis length_append length_map)
    then show ?thesis
      unfolding s(1,2) map_append append_assoc
      by (rule diffs_weaken)
        (rule becomes_append [OF sim [OF s(3)]], auto simp: s(1,2) intro!: becomes_before [OF sim [OF s(4)]])
  qed
  then show ?thesis by (simp add: region_spec_def)
qed

lemma region_step:
  assumes p: "path_ok p" and c: "comparable_items xs0 ys0" and t: "trim xs0 ys0 k0 = (xs, ys, k)"
    and gaps: "\<And>us vs l. anchors xs ys \<noteq> [] \<Longrightarrow> (us, vs) \<in> set (gaps xs ys (anchors xs ys) 0 0) \<Longrightarrow>
      region_spec p us vs l (diff_region p us vs l)"
    and matched: "\<And>x y l. anchors xs ys \<noteq> [] \<Longrightarrow> (x, y) \<in> set (matched xs ys (anchors xs ys)) \<Longrightarrow>
      value_spec (p @ [SNum (NInt (int l))]) x y (diff_value x y (p @ [SNum (NInt (int l))]))"
    and single: "anchors xs ys = [] \<Longrightarrow> length xs = 1 \<Longrightarrow> length ys = 1 \<Longrightarrow>
      value_spec (p @ [SNum (NInt (int k))]) (xs ! 0) (ys ! 0) (diff_value (xs ! 0) (ys ! 0) (p @ [SNum (NInt (int k))]))"
  shows "region_spec p xs0 ys0 k0 (diff_region p xs0 ys0 k0)"
proof -
  let ?f = "\<lambda>s. if xs = [] \<and> ys = [] then s
          else if xs = [] \<or> ys = []
          then emit_operation (OpP p (NInt (int k)) (NInt (int (length xs))) (map erase ys)) s
          else if anchors xs ys \<noteq> []
          then process_matches (diff_region p) (\<lambda>x y k. diff_value x y (p @ [SNum (NInt (int k))]))
                 xs ys (anchors xs ys) 0 0 k s
          else if length xs = 1 \<and> length ys = 1
          then diff_value (xs ! 0) (ys ! 0) (p @ [SNum (NInt (int k))]) s
          else emit_operation (OpP p (NInt (int k)) (NInt (int (length xs))) (map erase ys)) s"
  from trim_split [OF t] have sub: "set xs \<subseteq> set xs0" "set ys \<subseteq> set ys0" by auto
  have c': "comparable_items xs ys" by (rule comparable_items_sub [OF c sub])
  then have ok: "\<forall>y \<in> set ys. json_ok (erase y)" by (simp add: comparable_items_def)
  note splice = region_splice [OF p ok, of xs k]
  have "region_spec p xs ys k ?f"
  proof -
    consider (empty) "xs = []" "ys = []" | (one_side) "(xs = []) \<noteq> (ys = [])"
      | (anchored) "xs \<noteq> []" "ys \<noteq> []" "anchors xs ys \<noteq> []"
      | (pair) "xs \<noteq> []" "ys \<noteq> []" "anchors xs ys = []" "length xs = 1" "length ys = 1"
      | (other) "xs \<noteq> []" "ys \<noteq> []" "anchors xs ys = []" "\<not> (length xs = 1 \<and> length ys = 1)"
      by blast
    then show ?thesis
    proof cases
      case empty
      have "diffs p (\<lambda>s. s) (JArr (as @ map erase [] @ bs)) (becomes as bs [])" for as bs
        by (rule diffs_same, rule becomes_similar) simp
      then have "region_spec p [] [] k (\<lambda>s. s)" by (simp add: region_spec_def)
      moreover have "?f = (\<lambda>s. s)" by (intro ext) (simp add: empty)
      ultimately show ?thesis using empty by (simp only:)
    next
      case one_side
      then have "?f = emit_operation (OpP p (NInt (int k)) (NInt (int (length xs))) (map erase ys))"
        by (intro ext) auto
      with splice show ?thesis by (simp only:)
    next
      case anchored
      have same: "similar (erase x) (erase y)"
        if "(x, y) \<in> set (matched xs ys (anchors xs ys))" "same_value x y" for x y
        using matched_in [OF chain_anchors that(1)] c' that(2) same_value_similar [of x y]
        by (simp add: comparable_items_def)
      have "region_spec p (drop 0 xs) (drop 0 ys) k
          (process_matches (diff_region p) (\<lambda>x y k. diff_value x y (p @ [SNum (NInt (int k))]))
             xs ys (anchors xs ys) 0 0 k)"
      proof (rule process_spec [OF p])
        show "stuck (diff_region p us vs l)" for us vs l by (simp add: stuck_def stuck_region)
        show "stuck (diff_value x y (p @ [SNum (NInt (int l))]))" for x y l
          by (simp add: stuck_def stuck_value)
        show "chain_from 0 0 (length xs) (length ys) (anchors xs ys)"
          by (rule chain_from_start [OF chain_anchors])
      qed (use same gaps [OF anchored(3)] matched [OF anchored(3)] in blast)+
      with anchored show ?thesis by simp
    next
      case pair
      then obtain x y where xy: "xs = [x]" "ys = [y]" by (auto simp: length_Suc_conv)
      from region_single [OF single [OF pair(3-5)]] pair(3) show ?thesis by (simp add: xy)
    next
      case other
      then have "?f = emit_operation (OpP p (NInt (int k)) (NInt (int (length xs))) (map erase ys))"
        by (intro ext) auto
      with splice show ?thesis by (simp only:)
    qed
  qed
  from region_trim [OF t c this] have "region_spec p xs0 ys0 k0 (\<lambda>s. if overflowed s then s else ?f s)"
    by (simp add: region_spec_def diffs_guard)
  moreover have "diff_region p xs0 ys0 k0 = (\<lambda>s. if overflowed s then s else ?f s)"
    by (rule ext, subst diff_region.simps) (simp only: t prod.case)
  ultimately show ?thesis by (simp only:)
qed

lemma array_step:
  assumes p: "path_ok p" and c: "comparable (RArr i xs) (RArr j ys)"
    and region: "\<not> (identical (RArr i xs) (RArr j ys) \<or> equal_json (RArr i xs) (RArr j ys)) \<Longrightarrow>
      (if length xs = length ys \<and> 1 < length xs \<and> \<not> same_value (xs ! 0) (ys ! 0) \<and>
          \<not> same_value (xs ! (length xs - 1)) (ys ! (length ys - 1)) then permutation xs ys else None) = None \<Longrightarrow>
      region_spec p xs ys 0 (diff_region p xs ys 0)"
  shows "value_spec p (RArr i xs) (RArr j ys) (diff_array i xs j ys p)"
proof (cases "identical (RArr i xs) (RArr j ys) \<or> equal_json (RArr i xs) (RArr j ys)")
  case True
  then have "same_value (RArr i xs) (RArr j ys)" by (auto simp: same_value_def)
  with same_value_similar [OF c] have "similar (erase (RArr i xs)) (erase (RArr j ys))" by simp
  moreover have "diff_array i xs j ys p = (\<lambda>s. s)" using True by (intro ext) (simp add: diff_array.simps)
  ultimately show ?thesis by (simp only: value_spec_def diffs_same)
next
  case differ: False
  let ?o = "if length xs = length ys \<and> 1 < length xs \<and> \<not> same_value (xs ! 0) (ys ! 0) \<and>
          \<not> same_value (xs ! (length xs - 1)) (ys ! (length ys - 1)) then permutation xs ys else None"
  show ?thesis
  proof (cases ?o)
    case None
    have "diffs p (diff_region p xs ys 0) (JArr ([] @ map erase xs @ [])) (becomes [] [] ys)"
      using region [OF differ None, unfolded region_spec_def, rule_format, of "[]" "[]"] by simp
    then have "diffs p (diff_region p xs ys 0) (erase (RArr i xs)) (\<lambda>w. similar w (erase (RArr j ys)))"
      unfolding erase.simps erase_items_map append_Nil append_Nil2
      by (rule diffs_weaken) (auto simp: becomes_def)
    moreover have "diff_array i xs j ys p = diff_region p xs ys 0"
      by (rule ext) (subst diff_array.simps, simp only: differ None if_False option.case)
    ultimately show ?thesis by (simp only: value_spec_def)
  next
    case (Some ks)
    then have "permutation xs ys = Some ks" by (auto split: if_splits)
    note r = permutation_result [OF this]
    have sim: "list_all2 similar (map (\<lambda>k. map erase xs ! k) ks) (map erase ys)"
    proof -
      have "similar (map erase xs ! k) (erase y)" if "k \<in> set ks" "y \<in> set ys" "identical (xs ! k) y" for k y
        using that r(4) comparable_arr [OF c] identical_similar [of "xs ! k" y]
        by (simp add: comparable_items_def)
      then show ?thesis
        unfolding list_all2_map1 list_all2_map2 by - (rule list.rel_mono_strong [OF r(5)])
    qed
    have "diffs p (emit_operation (OpM p (map (\<lambda>k. NInt (int k)) ks))) (erase (RArr i xs))
        (\<lambda>w. similar w (erase (RArr j ys)))"
    proof (rule diffs_emit)
      show "edits p [OpM p (map (\<lambda>k. NInt (int k)) ks)] (erase (RArr i xs)) (JArr (map (\<lambda>k. map erase xs ! k) ks))"
        using edits_permute [OF p, of ks "map erase xs"] r(1-4) by simp
      show "similar (JArr (map (\<lambda>k. map erase xs ! k) ks)) (erase (RArr j ys))" using sim by simp
    qed
    moreover have "diff_array i xs j ys p = emit_operation (OpM p (map (\<lambda>k. NInt (int k)) ks))"
      by (rule ext) (subst diff_array.simps, simp only: differ Some if_False option.case)
    ultimately show ?thesis by (simp only: value_spec_def)
  qed
qed

section \<open>Objects\<close>

lemma path_ok_member: "path_ok p \<Longrightarrow> k \<notin> set RESERVED_SEGMENTS \<Longrightarrow> path_ok (p @ [SStr k])"
  by simp

lemma obj_ordered_distinct: "obj_ordered ps \<Longrightarrow> distinct (map fst ps)"
  by (simp add: obj_ordered_def)

text \<open>What the first loop has achieved for the keys of \<open>qs\<close>, starting from \<open>cur\<close>.\<close>

definition updated :: "props \<Rightarrow> (js_string \<times> rev) list \<Rightarrow> props \<Rightarrow> bool" where
  "updated cur qs new \<longleftrightarrow> obj_ordered new \<and>
     (\<forall>k. case obj_get qs k of
        Some v \<Rightarrow> \<exists>d. obj_get new k = Some d \<and> similar d (erase v)
      | None \<Rightarrow> obj_get new k = obj_get cur k)"

lemma updated_Cons:
  assumes "updated (obj_put k d cur) qs new" "similar d (erase v)" "k \<notin> fst ` set qs"
  shows "updated cur ((k, v) # qs) new"
  unfolding updated_def
proof (intro conjI allI)
  show "obj_ordered new" using assms(1) by (simp add: updated_def)
  fix l
  have l: "case obj_get qs l of Some v \<Rightarrow> \<exists>d. obj_get new l = Some d \<and> similar d (erase v)
      | None \<Rightarrow> obj_get new l = obj_get (obj_put k d cur) l"
    using assms(1) unfolding updated_def by blast
  show "case obj_get ((k, v) # qs) l of Some v \<Rightarrow> \<exists>d. obj_get new l = Some d \<and> similar d (erase v)
      | None \<Rightarrow> obj_get new l = obj_get cur l"
  proof (cases "l = k")
    case True
    have "obj_get qs k = None" using assms(3) by (simp add: obj_get_None)
    with l True assms(2) show ?thesis by (simp add: obj_get_put)
  next
    case False
    with l show ?thesis by (auto simp: obj_get_put split: option.splits)
  qed
qed

lemma first_loop:
  assumes p: "path_ok p"
    and keys: "\<forall>k \<in> fst ` set qs. k \<notin> set RESERVED_SEGMENTS" "distinct (map fst qs)"
    and ok: "\<forall>(k, v) \<in> set qs. json_ok (erase v)"
    and "value": "\<And>k v w. (k, v) \<in> set qs \<Longrightarrow> obj_get ps k = Some w \<Longrightarrow>
      value_spec (p @ [SStr k]) w v (diff_value w v (p @ [SStr k]))"
    and cur: "obj_ordered cur" "\<forall>k \<in> fst ` set qs. obj_get cur k = map_option erase (obj_get ps k)"
  shows "diffs p
    (fold (\<lambda>(k, v) s. if overflowed s then s
       else case obj_get ps k of Some w \<Rightarrow> diff_value w v (p @ [SStr k]) s
            | None \<Rightarrow> emit_set (p @ [SStr k]) v s) qs)
    (JObj cur) (\<lambda>w. \<exists>new. w = JObj new \<and> updated cur qs new)"
    (is "diffs p (fold ?step qs) _ _")
  using keys ok "value" cur
proof (induction qs arbitrary: cur)
  case Nil
  then have "updated cur [] cur" by (simp add: updated_def)
  then have "diffs p (\<lambda>s. s) (JObj cur) (\<lambda>w. \<exists>new. w = JObj new \<and> updated cur [] new)"
    by (intro diffs_same) blast
  then show ?case by (simp add: id_def)
next
  case (Cons q qs)
  obtain k v where q: "q = (k, v)" by (cases q)
  from Cons.prems(1) have k: "path_ok (p @ [SStr k])" using p by (simp add: q)
  from Cons.prems(2) have new: "k \<notin> fst ` set qs" by (simp add: q)
  from Cons.prems(3) have v: "json_ok (erase v)" by (simp add: q)
  let ?P = "\<lambda>w. \<exists>d. w = JObj (obj_put k d cur) \<and> similar d (erase v)"
  have "diffs p (\<lambda>s. case obj_get ps k of Some w \<Rightarrow> diff_value w v (p @ [SStr k]) s
            | None \<Rightarrow> emit_set (p @ [SStr k]) v s) (JObj cur) ?P"
  proof (cases "obj_get ps k")
    case None
    have "edits p [OpS (p @ [SStr k]) (erase v)] (JObj cur) (JObj (obj_put k (erase v) cur))"
      by (rule edits_insert [OF k])
    moreover have "?P (JObj (obj_put k (erase v) cur))" using similar_refl [OF v] by blast
    ultimately show ?thesis using None by (simp add: emit_set_def diffs_emit)
  next
    case (Some w)
    have "obj_get cur k = Some (erase w)" using Cons.prems(6) by (simp add: q Some)
    from diffs_object_child [where Q = ?P, OF Cons.prems(4) [of k v w, unfolded value_spec_def] this
        obj_ordered_distinct [OF Cons.prems(5)]] Some
    show ?thesis by (simp add: q) blast
  qed
  then have first: "diffs p (?step (k, v)) (JObj cur) ?P" by (simp add: diffs_guard)
  have rest: "diffs p (fold ?step qs) w (\<lambda>w. \<exists>new. w = JObj new \<and> updated cur (q # qs) new)" if "?P w" for w
  proof -
    from that obtain d where d: "w = JObj (obj_put k d cur)" "similar d (erase v)" by blast
    have "\<forall>l \<in> fst ` set qs. obj_get (obj_put k d cur) l = map_option erase (obj_get ps l)"
      using Cons.prems(6) new by (auto simp: q obj_get_put)
    then have "diffs p (fold ?step qs) (JObj (obj_put k d cur))
        (\<lambda>w. \<exists>new. w = JObj new \<and> updated (obj_put k d cur) qs new)"
      using Cons.prems(1-4) by (intro Cons.IH obj_ordered_put [OF Cons.prems(5)]) (simp_all add: q)
    then show ?thesis
      unfolding d(1) by (rule diffs_weaken) (use updated_Cons [OF _ d(2) new] q in blast)
  qed
  have "stuck (fold ?step qs)"
    unfolding stuck_def case_prod_unfold by (intro allI impI) (rule stuck_fold)
  from diffs_then [OF p first rest this] show ?case by (simp add: q o_def)
qed

lemma second_loop:
  assumes p: "path_ok p" and keys: "\<forall>k \<in> fst ` set ps. k \<notin> set RESERVED_SEGMENTS" and cur: "obj_ordered cur"
  shows "diffs p
    (fold (\<lambda>(k, w) s. if overflowed s then s
       else if obj_get (qs :: (js_string \<times> rev) list) k = None then emit_operation (OpD (p @ [SStr k])) s else s) ps)
    (JObj cur)
    (\<lambda>w. \<exists>new. w = JObj new \<and> obj_ordered new \<and>
       (\<forall>k. obj_get new k = (if k \<in> fst ` set ps \<and> obj_get qs k = None then None else obj_get cur k)))"
    (is "diffs p (fold ?step ps) _ (?Q ps cur)")
  using keys cur
proof (induction ps arbitrary: cur)
  case Nil
  have "diffs p (\<lambda>s. s) (JObj cur) (?Q [] cur)" using Nil.prems(2) by (intro diffs_same) auto
  then show ?case by (simp add: id_def)
next
  case (Cons q ps)
  obtain k u where q: "q = (k, u)" by (cases q)
  from Cons.prems(1) have k: "path_ok (p @ [SStr k])" using p by (simp add: q)
  let ?new = "if obj_get qs k = None then obj_del k cur else cur"
  have "diffs p (\<lambda>s. if obj_get qs k = None then emit_operation (OpD (p @ [SStr k])) s else s) (JObj cur)
      (\<lambda>w. w = JObj ?new)"
  proof (cases "obj_get qs k")
    case None
    then show ?thesis using diffs_emit [OF edits_delete [OF k], of "\<lambda>w. w = JObj (obj_del k cur)"] by simp
  qed (simp add: diffs_same)
  then have first: "diffs p (?step (k, u)) (JObj cur) (\<lambda>w. w = JObj ?new)" by (simp add: diffs_guard)
  have rest: "diffs p (fold ?step ps) w (?Q (q # ps) cur)" if w: "w = JObj ?new" for w
  proof -
    have "obj_ordered ?new" using Cons.prems(2) obj_ordered_del by auto
    then have "diffs p (fold ?step ps) (JObj ?new) (?Q ps ?new)"
      using Cons.prems(1) by (intro Cons.IH) auto
    then show ?thesis
      unfolding w
    proof (rule diffs_weaken)
      fix w'
      assume "?Q ps ?new w'"
      then obtain new where n: "w' = JObj new" "obj_ordered new"
        "\<And>l. obj_get new l = (if l \<in> fst ` set ps \<and> obj_get qs l = None then None else obj_get ?new l)" by blast
      have "obj_get new l = (if l \<in> fst ` set (q # ps) \<and> obj_get qs l = None then None else obj_get cur l)" for l
        by (cases "l = k") (simp_all add: n(3) q obj_get_del)
      with n(1,2) show "?Q (q # ps) cur w'" by blast
    qed
  qed
  have "stuck (fold ?step ps)"
    unfolding stuck_def case_prod_unfold by (intro allI impI) (rule stuck_fold)
  from diffs_then [OF p first rest this] show ?case by (simp add: q o_def)
qed

lemma object_step:
  assumes p: "path_ok p" and c: "comparable (RObj i ps) (RObj j qs)"
    and "value": "\<And>k v w. \<not> list_ex (\<lambda>k. k \<in> set RESERVED_SEGMENTS) (map fst ps @ map fst qs) \<Longrightarrow>
      (k, v) \<in> set qs \<Longrightarrow> obj_get ps k = Some w \<Longrightarrow>
      value_spec (p @ [SStr k]) w v (diff_value w v (p @ [SStr k]))"
  shows "value_spec p (RObj i ps) (RObj j qs) (diff_object i ps j qs p)"
proof (cases "list_ex (\<lambda>k. k \<in> set RESERVED_SEGMENTS) (map fst ps @ map fst qs)")
  case True
  show ?thesis
  proof (cases "equal_json (RObj i ps) (RObj j qs)")
    case eq: True
    then have "similar (erase (RObj i ps)) (erase (RObj j qs))" by (rule equal_json_similar(1) [OF c])
    moreover have "diff_object i ps j qs p = (\<lambda>s. s)"
      by (rule ext) (subst diff_object.simps, simp only: True eq if_True)
    ultimately show ?thesis by (simp only: value_spec_def diffs_same)
  next
    case False
    have "diff_object i ps j qs p = emit_set p (RObj j qs)"
      by (rule ext) (subst diff_object.simps, simp only: True False if_True if_False)
    moreover have "similar (erase (RObj j qs)) (erase (RObj j qs))"
      using c by (intro similar_refl) (simp add: comparable_def)
    ultimately show ?thesis by (simp only: value_spec_def diffs_set [OF p])
  qed
next
  case False
  let ?first = "fold (\<lambda>(k, v) s. if overflowed s then s
       else case obj_get ps k of Some w \<Rightarrow> diff_value w v (p @ [SStr k]) s
            | None \<Rightarrow> emit_set (p @ [SStr k]) v s) qs"
  let ?second = "fold (\<lambda>(k, w) s. if overflowed s then s
       else if obj_get qs k = None then emit_operation (OpD (p @ [SStr k])) s else s) ps"
  let ?ps = "map (\<lambda>(k, v). (k, erase v)) ps" and ?qs = "map (\<lambda>(k, v). (k, erase v)) qs"
  have keys: "\<forall>k \<in> fst ` set ps. k \<notin> set RESERVED_SEGMENTS" "\<forall>k \<in> fst ` set qs. k \<notin> set RESERVED_SEGMENTS"
    using False by (simp_all add: list_ex_iff)
  have dist: "distinct (map fst ps)" "distinct (map fst qs)" using comparable_obj_distinct [OF c] by simp_all
  have ord: "obj_ordered ?ps" and ok: "\<forall>(k, v) \<in> set qs. json_ok (erase v)"
    using c by (auto simp: comparable_def json_ok_obj)
  have "diffs p (\<lambda>s. ?second (?first s)) (JObj ?ps) (\<lambda>w. similar w (JObj ?qs))"
  proof (rule diffs_then [where f = ?first and g = ?second and
        P = "\<lambda>w. \<exists>new. w = JObj new \<and> updated ?ps qs new", OF p])
    show "diffs p ?first (JObj ?ps) (\<lambda>w. \<exists>new. w = JObj new \<and> updated ?ps qs new)"
      by (rule first_loop [OF p keys(2) dist(2) ok "value" [OF False] ord]) (simp_all add: obj_get_map_snd)
    show "stuck ?second"
      unfolding stuck_def case_prod_unfold by (intro allI impI) (rule stuck_fold)
    fix w
    assume "\<exists>new. w = JObj new \<and> updated ?ps qs new"
    then obtain cur where cur: "w = JObj cur" "updated ?ps qs cur" by blast
    then have "obj_ordered cur" by (simp add: updated_def)
    from second_loop [OF p keys(1) this, of qs]
    show "diffs p ?second w (\<lambda>w. similar w (JObj ?qs))"
      unfolding cur(1)
    proof (rule diffs_weaken)
      fix w'
      assume "\<exists>new. w' = JObj new \<and> obj_ordered new \<and>
        (\<forall>k. obj_get new k = (if k \<in> fst ` set ps \<and> obj_get qs k = None then None else obj_get cur k))"
      then obtain new where new: "w' = JObj new" "obj_ordered new"
        "\<And>k. obj_get new k = (if k \<in> fst ` set ps \<and> obj_get qs k = None then None else obj_get cur k)" by blast
      have final: "case obj_get qs k of Some v \<Rightarrow> \<exists>d. obj_get new k = Some d \<and> similar d (erase v)
          | None \<Rightarrow> obj_get new k = None" for k
      proof (cases "obj_get qs k")
        case None
        with cur(2) have "obj_get cur k = map_option erase (obj_get ps k)"
          by (auto simp: updated_def obj_get_map_snd dest: spec [of _ k])
        with None show ?thesis using obj_get_None [of ps k] by (auto simp: new(3))
      next
        case (Some v)
        with cur(2) show ?thesis by (auto simp: updated_def new(3) dest: spec [of _ k])
      qed
      have "k \<in> fst ` set new \<longleftrightarrow> k \<in> fst ` set qs" for k
        using final [of k] obj_get_None [of new k] obj_get_None [of qs k] by (auto split: option.splits)
      then have "fst ` set new = fst ` set ?qs" by (auto simp: image_image case_prod_unfold)
      moreover have "similar d u" if "obj_get new k = Some d" "obj_get ?qs k = Some u" for k d u
        using final [of k] that by (auto simp: obj_get_map_snd split: option.splits)
      ultimately show "similar w' (JObj ?qs)"
        unfolding new(1) similar_obj [OF obj_ordered_distinct [OF new(2)]] by blast
    qed
  qed
  moreover have "diff_object i ps j qs p = (\<lambda>s. ?second (?first s))"
    by (rule ext) (subst diff_object.simps, simp only: False if_False Let_def)
  ultimately show ?thesis by (simp add: value_spec_def)
qed

section \<open>The whole recursion\<close>

lemma value_step:
  assumes p: "path_ok p" and c: "comparable b a"
    and array: "\<And>i xs j ys. \<not> identical b a \<Longrightarrow> b = RArr i xs \<Longrightarrow> a = RArr j ys \<Longrightarrow> value_spec p b a (diff_array i xs j ys p)"
    and object: "\<And>i ps j qs. \<not> identical b a \<Longrightarrow> b = RObj i ps \<Longrightarrow> a = RObj j qs \<Longrightarrow> value_spec p b a (diff_object i ps j qs p)"
  shows "value_spec p b a (diff_value b a p)"
proof (cases "identical b a")
  case True
  have "diff_value b a p = (\<lambda>s. s)" by (rule ext) (subst diff_value.simps, simp add: True)
  with identical_similar [OF c True] show ?thesis by (simp add: value_spec_def diffs_same)
next
  case False
  let ?f = "\<lambda>s. case (b, a) of
        (RStr t, RStr u) \<Rightarrow> if p \<noteq> [] then emit_string t u p s else emit_set p a s
      | (RArr i xs, RArr j ys) \<Rightarrow> diff_array i xs j ys p s
      | (RObj i ps, RObj j qs) \<Rightarrow> diff_object i ps j qs p s
      | _ \<Rightarrow> emit_set p a s"
  have "similar (erase a) (erase a)" using c by (intro similar_refl) (simp add: comparable_def)
  then have set: "diffs p (emit_set p a) u (\<lambda>w. similar w (erase a))" for u by (rule diffs_set [OF p])
  have "diffs p ?f (erase b) (\<lambda>w. similar w (erase a))"
  proof -
    consider (str) t u where "b = RStr t" "a = RStr u" "p \<noteq> []"
      | (arr) i xs j ys where "b = RArr i xs" "a = RArr j ys"
      | (obj) i ps j qs where "b = RObj i ps" "a = RObj j qs"
      | (other) "?f = emit_set p a"
      by (cases b; cases a; cases "p = []") auto
    then show ?thesis
    proof cases
      case str
      have "diffs p (emit_string t u p) (JStr t) (\<lambda>w. similar w (JStr u))"
        by (rule diffs_weaken [OF diffs_string [OF p str(3)]]) simp
      with str show ?thesis by simp
    next
      case arr
      with array [OF False arr] show ?thesis by (simp add: value_spec_def)
    next
      case obj
      with object [OF False obj] show ?thesis by (simp add: value_spec_def)
    next
      case other
      then show ?thesis using set by (simp only:)
    qed
  qed
  then have "diffs p (\<lambda>s. if overflowed s then s else ?f s) (erase b) (\<lambda>w. similar w (erase a))"
    by (rule diffs_guard)
  moreover have "diff_value b a p = (\<lambda>s. if overflowed s then s else ?f s)"
    by (rule ext) (subst diff_value.simps, simp only: False simp_thms)
  ultimately show ?thesis by (simp only: value_spec_def)
qed

lemma gaps_set: "(us, vs) \<in> set (gaps xs ys ms i j) \<Longrightarrow> set us \<subseteq> set xs \<and> set vs \<subseteq> set ys"
  by (induction xs ys ms i j rule: gaps.induct)
    (auto simp: slice_def dest: in_set_takeD in_set_dropD)

text \<open>
  The induction follows the recursion of the functions.  Their last argument does not matter, as
  long as it has not overflowed.
\<close>

lemma diff_spec:
  "\<not> overflowed (s :: batch) \<Longrightarrow> comparable b a \<Longrightarrow> path_ok p \<Longrightarrow> value_spec p b a (diff_value b a p)"
  "\<not> overflowed (s :: batch) \<Longrightarrow> comparable (RArr i xs) (RArr j ys) \<Longrightarrow> path_ok p \<Longrightarrow>
     value_spec p (RArr i xs) (RArr j ys) (diff_array i xs j ys p)"
  "\<not> overflowed (s :: batch) \<Longrightarrow> comparable (RObj i ps) (RObj j qs) \<Longrightarrow> path_ok p \<Longrightarrow>
     value_spec p (RObj i ps) (RObj j qs) (diff_object i ps j qs p)"
  "\<not> overflowed (s :: batch) \<Longrightarrow> comparable_items xs ys \<Longrightarrow> path_ok p \<Longrightarrow>
     region_spec p xs ys k (diff_region p xs ys k)"
proof (induction b a p s and i xs j ys p s and i ps j qs p s and p xs ys k s
    rule: diff_value_diff_array_diff_object_diff_region.induct)
  case (1 before after p s)
  show ?case
    by (rule value_step [OF "1.prems"(3,2)]) (use 1 in auto)
next
  case (2 i xs j ys p s)
  show ?case
    by (rule array_step [OF "2.prems"(3,2)]) (rule "2.IH"; use "2.prems" comparable_arr in auto)
next
  case (3 i ps j qs p s)
  show ?case
  proof (rule object_step [OF "3.prems"(3,2)])
    fix k v w
    assume r: "\<not> list_ex (\<lambda>k. k \<in> set RESERVED_SEGMENTS) (map fst ps @ map fst qs)"
      and v: "(k, v) \<in> set qs" and w: "obj_get ps k = Some w"
    from r v have "k \<notin> set RESERVED_SEGMENTS" by (force simp: list_ex_iff)
    with "3.prems"(3) have p: "path_ok (p @ [SStr k])" by simp
    have "comparable w v" by (rule comparable_members [OF "3.prems"(2) obj_get_set [OF w] v])
    then show "value_spec (p @ [SStr k]) w v (diff_value w v (p @ [SStr k]))"
      by (rule "3.IH" [OF r v refl "3.prems"(1) w "3.prems"(1) _ p])
  qed
next
  case (4 p xs0 ys0 k0 s)
  obtain xs ys k where t: "trim xs0 ys0 k0 = (xs, ys, k)" by (cases "trim xs0 ys0 k0")
  from trim_split [OF t] have "set xs \<subseteq> set xs0" "set ys \<subseteq> set ys0" by auto
  then have c: "comparable_items xs ys" by (rule comparable_items_sub [OF "4.prems"(2)])
  have p: "path_ok (p @ [SNum (NInt (int l))])" for l using "4.prems"(3) by simp
  have nonempty: "\<not> (xs = [] \<and> ys = []) \<and> \<not> (xs = [] \<or> ys = [])" if "anchors xs ys \<noteq> []"
    using chain_anchors [of xs ys] that by (cases "anchors xs ys") (auto simp: chain_Cons)
  show ?case
  proof (rule region_step [OF "4.prems"(3,2) t])
    fix us vs l
    assume a: "anchors xs ys \<noteq> []" and g: "(us, vs) \<in> set (gaps xs ys (anchors xs ys) 0 0)"
    from gaps_set [OF g] have "comparable_items us vs" by (intro comparable_items_sub [OF c]) simp_all
    with a g nonempty [OF a] show "region_spec p us vs l (diff_region p us vs l)"
      by (intro "4.IH"(1) [OF "4.prems"(1) t [symmetric] refl]) (use "4.prems" in simp_all)
  next
    fix x y l
    assume a: "anchors xs ys \<noteq> []" and m: "(x, y) \<in> set (matched xs ys (anchors xs ys))"
    from matched_in [OF chain_anchors m] c have "comparable x y" by (simp add: comparable_items_def)
    with a m nonempty [OF a] p
    show "value_spec (p @ [SNum (NInt (int l))]) x y (diff_value x y (p @ [SNum (NInt (int l))]))"
      by (intro "4.IH"(2) [OF "4.prems"(1) t [symmetric] refl]) (use "4.prems" in simp_all)
  next
    assume "anchors xs ys = []" "length xs = 1" "length ys = 1"
    moreover from this c have "comparable (xs ! 0) (ys ! 0)"
      by (auto simp: comparable_items_def length_Suc_conv)
    ultimately show "value_spec (p @ [SNum (NInt (int k))]) (xs ! 0) (ys ! 0)
        (diff_value (xs ! 0) (ys ! 0) (p @ [SNum (NInt (int k))]))"
      using p by (intro "4.IH"(3) [OF "4.prems"(1) t [symmetric] refl]) (use "4.prems" in auto)
  qed
qed


lemma diff_applies:
  assumes "comparable before after"
  shows "\<exists>w. apply_ops (diff_revisions len before after) (erase before) = Inr w \<and> similar w (erase after)"
proof -
  let ?s0 = "\<lparr>operations = [], overflowed = False\<rparr>"
  let ?s = "diff_value before after [] ?s0"
  have replace: "\<exists>w. apply_ops [OpR (erase after)] (erase before) = Inr w \<and> similar w (erase after)"
    using assms similar_refl by (simp add: apply_ops_single apply_op_valid comparable_def)
  show ?thesis
  proof (cases "overflowed ?s")
    case True
    with replace show ?thesis by (simp add: diff_revisions_def Let_def)
  next
    case False
    have "value_spec [] before after (diff_value before after [])"
      by (rule diff_spec(1) [OF False assms]) (simp add: path_ok_def)
    from diffsD [OF this [unfolded value_spec_def] False]
    obtain L w where "operations ?s = L" "edits [] L (erase before) w" "similar w (erase after)" by auto
    then have "\<exists>w. apply_ops (operations ?s) (erase before) = Inr w \<and> similar w (erase after)"
      by (auto simp: edits_def)
    with replace False show ?thesis by (simp add: diff_revisions_def Let_def)
  qed
qed

section \<open>Equal revisions\<close>

lemma fold_same: "(\<And>x s. x \<in> set xs \<Longrightarrow> f x s = s) \<Longrightarrow> fold f xs s = s"
  by (induction xs) simp_all

lemma similar_members_get:
  assumes "similar_members (map (\<lambda>(k, v). (k, erase v)) ps) (map (\<lambda>(k, v). (k, erase v)) qs)" "obj_get ps k = Some w"
  shows "\<exists>v. obj_get qs k = Some v \<and> similar (erase w) (erase v)"
proof -
  have "(k, erase w) \<in> set (map (\<lambda>(k, v). (k, erase v)) ps)" using obj_get_set [OF assms(2)] by force
  with assms(1) show ?thesis unfolding similar_members_iff by (fastforce simp: obj_get_map_snd)
qed

lemma similar_no_operation:
  "json_ok (erase b) \<Longrightarrow> json_ok (erase a) \<Longrightarrow> similar (erase b) (erase a) \<Longrightarrow> diff_value b a p s = s"
  "equal_json (RArr i xs) (RArr j ys) \<Longrightarrow> diff_array i xs j ys p s = s"
  "json_ok (erase (RObj i ps)) \<Longrightarrow> json_ok (erase (RObj j qs)) \<Longrightarrow>
     similar (erase (RObj i ps)) (erase (RObj j qs)) \<Longrightarrow> diff_object i ps j qs p s = s"
  "True"
proof (induction b a p s and i xs j ys p s and i ps j qs p s and p xs ys "k :: nat" s
    rule: diff_value_diff_array_diff_object_diff_region.induct)
  case (1 before after p s)
  show ?case
  proof (cases "identical before after \<or> overflowed s")
    case True
    then show ?thesis by (subst diff_value.simps) simp
  next
    case False
    have eq: "equal_json before after" by (rule similar_equal_json(1) [OF "1.prems"])
    from eq False consider i xs j ys where "before = RArr i xs" "after = RArr j ys"
      | i ps j qs where "before = RObj i ps" "after = RObj j qs"
      by (cases before; cases after) auto
    then show ?thesis
    proof cases
      case 1
      with "1.IH"(1) [OF False] eq show ?thesis by (subst diff_value.simps) simp
    next
      case 2
      with "1.IH"(2) [OF False] "1.prems" show ?thesis by (subst diff_value.simps) simp
    qed
  qed
next
  case (3 i ps j qs p s)
  note eq = similar_equal_json(1) [OF "3.prems"]
  show ?case
  proof (cases "list_ex (\<lambda>k. k \<in> set RESERVED_SEGMENTS) (map fst ps @ map fst qs)")
    case True
    with eq show ?thesis by (subst diff_object.simps) simp
  next
    case False
    have sim: "similar_members (map (\<lambda>(k, v). (k, erase v)) ps) (map (\<lambda>(k, v). (k, erase v)) qs)"
      and keys: "fst ` set ps = fst ` set qs"
      using "3.prems"(3) by (simp_all add: image_image case_prod_unfold)
    have dist: "distinct (map fst qs)"
      using "3.prems"(2) by (simp add: json_ok_obj obj_ordered_def o_def case_prod_unfold)
    have first: "(if overflowed t then t else case obj_get ps k of Some w \<Rightarrow> diff_value w v (p @ [SStr k]) t
        | None \<Rightarrow> emit_set (p @ [SStr k]) v t) = t" if kv: "(k, v) \<in> set qs" for k v t
    proof (cases "overflowed t")
      case go: False
      from kv have "k \<in> fst ` set ps" unfolding keys by (rule image_eqI [rotated]) simp
      then obtain w where w: "obj_get ps k = Some w" using obj_get_None [of ps k] by auto
      from similar_members_get [OF sim w] obtain u where u: "obj_get qs k = Some u" "similar (erase w) (erase u)"
        by blast
      from eq_key_imp_eq_value [OF dist obj_get_set [OF u(1)] kv] have "u = v" .
      moreover have "json_ok (erase w)" "json_ok (erase v)"
        using "3.prems"(1,2) obj_get_set [OF w] kv by (auto simp: json_ok_obj)
      ultimately have "diff_value w v (p @ [SStr k]) t = t"
        using "3.IH" [OF False kv refl go w] u(2) by blast
      with w show ?thesis by simp
    qed simp
    have second: "obj_get qs k \<noteq> None" if "(k, w) \<in> set ps" for k w
    proof -
      from that have "k \<in> fst ` set qs" unfolding keys [symmetric] by (rule image_eqI [rotated]) simp
      then show ?thesis using obj_get_None [of qs k] by simp
    qed
    have loop1: "fold (\<lambda>(k, v) s. if overflowed s then s
        else case obj_get ps k of Some w \<Rightarrow> diff_value w v (p @ [SStr k]) s
             | None \<Rightarrow> emit_set (p @ [SStr k]) v s) qs s = s"
      by (rule fold_same) (simp only: split_paired_all prod.case first)
    have loop2: "fold (\<lambda>(k, w) s. if overflowed s then s
        else if obj_get qs k = None then emit_operation (OpD (p @ [SStr k])) s else s) ps s = s"
      by (rule fold_same) (auto dest: second)
    show ?thesis
      by (subst diff_object.simps) (simp only: False if_False Let_def loop1 loop2)
  qed
qed (simp_all add: diff_array.simps)

section \<open>What every emission keeps\<close>

locale kept_by_emission =
  fixes I :: "batch \<Rightarrow> bool"
  assumes emit: "I s \<Longrightarrow> I (emit_operation x s)"
begin

lemma emit_set_kept: "I s \<Longrightarrow> I (emit_set p v s)"
  by (simp add: emit_set_def emit)

lemma emit_string_kept: "I s \<Longrightarrow> I (emit_string t u p s)"
  by (simp add: emit_string_def Let_def emit)

lemma process_kept:
  assumes "\<And>us vs k t. (us, vs) \<in> set (gaps xs ys ms i j) \<Longrightarrow> I t \<Longrightarrow> I (region us vs k t)"
    and "\<And>x y k t. (x, y) \<in> set (matched xs ys ms) \<Longrightarrow> I t \<Longrightarrow> I (value x y k t)"
    and "I s"
  shows "I (process_matches region value xs ys ms i j k s)"
  using assms
proof (induction ms arbitrary: i j k s)
  case (Cons m ms)
  obtain a b where m: "m = (a, b)" by (cases m)
  show ?case
    unfolding m process_matches.simps Let_def
    using Cons.prems by (auto simp: m matched_def intro!: Cons.IH)
qed simp

lemma fold_kept: "(\<And>x s. x \<in> set xs \<Longrightarrow> I s \<Longrightarrow> I (f x s)) \<Longrightarrow> I s \<Longrightarrow> I (fold f xs s)"
  by (induction xs arbitrary: s) simp_all

lemma diff_kept:
  "I s \<Longrightarrow> I (diff_value b a p s)"
  "I s \<Longrightarrow> I (diff_array i xs j ys p s)"
  "I s \<Longrightarrow> I (diff_object i ps j qs p s)"
  "I s \<Longrightarrow> I (diff_region p xs ys k s)"
proof (induction b a p s and i xs j ys p s and i ps j qs p s and p xs ys k s
    rule: diff_value_diff_array_diff_object_diff_region.induct)
  case (1 before after p s)
  then show ?case
    by (subst diff_value.simps) (simp add: emit_set_kept emit_string_kept split: rev.splits)
next
  case (2 i xs j ys p s)
  then show ?case by (subst diff_array.simps) (simp add: emit split: option.splits)
next
  case (3 i ps j qs p s)
  show ?case
    by (subst diff_object.simps, simp only: Let_def)
      (auto intro!: fold_kept emit_set_kept emit "3.IH" "3.prems" split: option.splits)
next
  case (4 p xs ys k s)
  obtain us vs l where t: "trim xs ys k = (us, vs, l)" by (cases "trim xs ys k")
  show ?case
    by (subst diff_region.simps, simp only: t prod.case)
      (auto intro!: process_kept emit "4.IH" [OF _ t [symmetric]] "4.prems")
qed

end

interpretation count: kept_by_emission "\<lambda>s. length (operations s) \<le> MAX_DELTA_OPERATIONS"
  by unfold_locales (simp add: emit_operation_def)

lemma diff_revisions_count: "length (diff_revisions len before after) \<le> MAX_DELTA_OPERATIONS"
  using count.diff_kept(1) [of "\<lparr>operations = [], overflowed = False\<rparr>" before after "[]"]
  by (simp add: diff_revisions_def Let_def MAX_DELTA_OPERATIONS_def)

lemma diff_revisions_cost:
  "is_base (diff_revisions len before after) \<or> delta_cost len (diff_revisions len before after) < 65536 \<or>
     delta_cost len (diff_revisions len before after) < json_cost len (erase after) + 6"
  by (simp add: diff_revisions_def Let_def is_base_def is_replace_def delta_cost_def)

section \<open>The comparison of two revisions\<close>

text \<open>
  C7.  \<open>diffRevisions\<close> is correct: applied to the old revision, its operations never fail and give the
  new revision, up to the order of keys and the sign of zero, for every sharing of parts between
  the two and whatever the limits and heuristics decide.
\<close>

theorem diff_revisions_correct:
  assumes "comparable before after"
  shows "\<exists>w. apply_ops (diff_revisions len before after) (erase before) = Inr w \<and> similar w (erase after)"
  using assms by (rule diff_applies)

text \<open>
  C15.  The batch is empty exactly when the two revisions are similar: no change is lost and none is
  invented.
\<close>

theorem diff_revisions_empty:
  assumes "comparable before after"
  shows "diff_revisions len before after = [] \<longleftrightarrow> similar (erase before) (erase after)"
proof
  assume "diff_revisions len before after = []"
  with diff_applies [OF assms, of len] show "similar (erase before) (erase after)"
    by (simp add: apply_ops_def)
next
  assume "similar (erase before) (erase after)"
  with assms similar_no_operation(1) [of before after "[]"] show "diff_revisions len before after = []"
    by (simp add: comparable_def diff_revisions_def Let_def)
qed

text \<open>
  C16.  A batch has at most 4096 operations, and one that is no replacement costs less than 64 KiB or
  less than the replacement.
\<close>

theorem diff_revisions_bounds:
  "length (diff_revisions len before after) \<le> 4096 \<and>
   (is_base (diff_revisions len before after) \<or> delta_cost len (diff_revisions len before after) < 65536 \<or>
    delta_cost len (diff_revisions len before after) < json_cost len (erase after) + 6)"
  using diff_revisions_count [of len before after] diff_revisions_cost [of len before after]
  by (simp add: MAX_DELTA_OPERATIONS_def)

section \<open>Witnesses\<close>

text \<open>A list in front of which an element is put, next to a shared object.\<close>

definition shared_part :: rev where
  "shared_part = RObj 7 [(js ''id'', RNum (NInt 1))]"

definition old_revision :: rev where
  "old_revision = RObj 0 [(js ''list'', RArr 1 [shared_part, RStr (js ''x'')])]"

definition new_revision :: rev where
  "new_revision = RObj 2 [(js ''list'', RArr 3 [RNull, shared_part, RStr (js ''xy'')])]"

lemma sample_comparable: "comparable old_revision new_revision"
  by (simp add: comparable_def shares_def old_revision_def new_revision_def shared_part_def json_ok_def
      obj_ordered_def)

theorem diff_revisions_correct_witness:
  "\<exists>w. apply_ops (diff_revisions (\<lambda>_. 0) old_revision new_revision) (erase old_revision) = Inr w \<and>
     similar w (erase new_revision)"
  by (rule diff_revisions_correct [OF sample_comparable])

theorem diff_revisions_empty_witness:
  "diff_revisions (\<lambda>_. 0) old_revision new_revision \<noteq> []"
  unfolding diff_revisions_empty [OF sample_comparable]
  by (simp add: old_revision_def new_revision_def)

end
