(* ===== verification/DurableTypes.thy ===== *)
theory DurableTypes
  imports DeltaOps JsonText SortedIds
begin

text \<open>
  The records of \<open>packages/durable/src/types.ts\<close>.  IDs and commit sequences are branded numbers in the
  code and integers here.  A model message list is kept as one JSON value.  A conversation document's
  \<open>history\<close> and \<open>fork\<close> are options, absent for the other scopes.
\<close>

definition ROOT_CONVERSATION_ID :: int where
  "ROOT_CONVERSATION_ID = 1"

section \<open>Conversations, entries, submissions\<close>

record parent_edge =
  parent_conversation :: int
  parent_at :: int

record owner_edge =
  owner_conversation :: int
  owner_task :: int

record conversation_record =
  conv_id :: int
  conv_parent :: "parent_edge option"
  conv_owner :: "owner_edge option"

datatype context_edit = EditOmit int | EditReplace int jsv

record entry_record =
  ent_id :: int
  ent_conversation :: int
  ent_kind :: js_string
  ent_model :: "jsv option"
  ent_data :: "jsv option"
  ent_head :: "int option"
  ent_edits :: "context_edit list option"
  ent_task :: "int option"

datatype submission_state =
    InputQueued
  | InputPlaced int
  | InputDone int int
  | InputUnanswered "int option" js_string "jsv option"
  | WriteQueued
  | WriteDone int
  | WriteUnanswered js_string "jsv option"

record submission_record =
  sub_id :: int
  sub_conversation :: int
  sub_request :: "js_string option"
  sub_state :: submission_state

section \<open>Tasks\<close>

record outcome_error =
  outcome_message :: js_string
  outcome_detail :: "jsv option"

datatype task_outcome =
    Completed jsv
  | FailedWith outcome_error "jsv option"
  | Aborted "js_string option" "jsv option"
  | Orphaned js_string
  | Faulted outcome_error

datatype task_state = PendingAt jsv | RunningAt jsv | TerminalWith task_outcome

datatype task_status = StatusPending | StatusRunning | StatusTerminal

fun status_of :: "task_state \<Rightarrow> task_status" where
  "status_of (PendingAt c) = StatusPending"
| "status_of (RunningAt c) = StatusRunning"
| "status_of (TerminalWith r) = StatusTerminal"

record task_record =
  task_id :: int
  task_conversation :: int
  task_kind :: js_string
  task_version :: int
  task_input :: jsv
  task_after :: "int list"
  task_background :: bool
  task_abort :: bool
  task_state :: task_state
  task_memos :: "props option"

section \<open>Documents\<close>

datatype doc_scope = SessionScope | ConversationScope int | TaskScope int

datatype doc_history = Latest | Rewindable

datatype doc_fork = ForkAsOf | ForkCurrent | ForkInitial

record document_create =
  doc_id :: int
  doc_kind :: js_string
  doc_key :: "js_string option"
  doc_scope :: doc_scope
  doc_history :: "doc_history option"
  doc_fork :: "doc_fork option"

record document_record = document_create +
  doc_created :: int
  doc_retired :: "int option"

datatype document_point = Current | At int

record document_address =
  addr_kind :: js_string
  addr_scope :: doc_scope
  addr_key :: "js_string option"

datatype document_content = BaseContent int jsv | DeltaContent int "op list"

fun content_version :: "document_content \<Rightarrow> int" where
  "content_version (BaseContent v x) = v"
| "content_version (DeltaContent v ops) = v"

fun is_base_content :: "document_content \<Rightarrow> bool" where
  "is_base_content (BaseContent v x) = True"
| "is_base_content (DeltaContent v ops) = False"

record stored_document =
  stored_record :: document_record
  stored_version :: int
  stored_value :: jsv

section \<open>Queries and writes\<close>

record conversation_query =
  cq_owner_conversation :: "int option"
  cq_owner_task :: "int option"

record entry_query =
  eq_conversation :: int
  eq_min :: "int option"
  eq_max :: "int option"

record task_query =
  tq_conversation :: "int option"
  tq_kind :: "js_string option"
  tq_status :: "task_status option"
  tq_abort :: "bool option"
  tq_background :: "bool option"

record document_query =
  dq_scope :: doc_scope
  dq_at :: document_point
  dq_kind :: "js_string option"

record 'a page =
  page_items :: "'a list"
  page_next :: "props option"

datatype storage_write =
    WConversation conversation_record
  | WEntry entry_record
  | WTask task_record
  | WSubmission submission_record
  | WDocCreate document_create int jsv
  | WDocCopy document_create int document_point
  | WDocChange int document_content
  | WDocRetire int

section \<open>Keys of the document indexes\<close>

fun scope_text :: "doc_scope \<Rightarrow> jtext" where
  "scope_text SessionScope = TArr [TStr (js ''session'')]"
| "scope_text (ConversationScope c) = TArr [TStr (js ''conversation''), TInt c]"
| "scope_text (TaskScope t) = TArr [TStr (js ''task''), TInt t]"

definition scope_key :: "doc_scope \<Rightarrow> js_string" where
  "scope_key s = stringify (scope_text s)"

definition address_key :: "document_address \<Rightarrow> js_string" where
  "address_key a =
     stringify (TArr [TStr (addr_kind a), TStr (scope_key (addr_scope a)),
       (case addr_key a of
          None \<Rightarrow> TArr [TStr (js ''singleton'')]
        | Some k \<Rightarrow> TArr [TStr (js ''family''), TStr k])])"

definition record_address :: "'a document_create_scheme \<Rightarrow> document_address" where
  "record_address r = \<lparr>addr_kind = doc_kind r, addr_scope = doc_scope r, addr_key = doc_key r\<rparr>"

definition record_address_key :: "'a document_create_scheme \<Rightarrow> js_string" where
  "record_address_key r = address_key (record_address r)"

lemma scope_key_inject [simp]: "scope_key a = scope_key b \<longleftrightarrow> a = b"
  by (cases a; cases b) (simp_all add: scope_key_def stringify_inject del: stringify.simps)

text \<open>
  The key texts determine scope and address: two documents share an index entry exactly when they
  have the same kind, scope and family member.
\<close>

lemma address_key_inject [simp]: "address_key a = address_key b \<longleftrightarrow> a = b"
  by (cases a; cases b) (auto simp: address_key_def stringify_inject simp del: stringify.simps split: option.splits)

definition is_alive_at :: "document_record \<Rightarrow> document_point \<Rightarrow> bool" where
  "is_alive_at r at =
     (case at of
        Current \<Rightarrow> doc_retired r = None
      | At s \<Rightarrow> doc_created r \<le> s \<and> (case doc_retired r of None \<Rightarrow> True | Some t \<Rightarrow> s < t))"

definition is_current_only :: "document_record \<Rightarrow> bool" where
  "is_current_only r \<longleftrightarrow>
     (case doc_scope r of ConversationScope _ \<Rightarrow> False | _ \<Rightarrow> True) \<or> doc_history r = Some Latest"

end
