(* ===== verification/MemoryStorage.thy ===== *)
theory MemoryStorage
  imports DurableTypes "HOL-Library.AList"
begin

text \<open>
  The class \<open>MemoryStorage\<close> of \<open>packages/durable/src/storage/memory.ts\<close>: the tables, the sorted indexes
  beside them, and the preparation and application of a commit.  Every promise of the class resolves
  at once, so its methods are functions on the state; \<open>clone\<close> and \<open>freeze\<close> guard against aliasing and
  are the identity on values.  A JavaScript \<open>Map\<close> whose iteration or size matters is an association
  list, the others are partial functions.
\<close>

section \<open>State\<close>

datatype table = ConversationTable | EntryTable | TaskTable | SubmissionTable | DocumentTable

datatype storage_error =
    StorageClosed
  | SeqNotIncreasing int
  | IdTaken int table
  | IdTwice int
  | TwoTables int
  | CopySourceChanged int
  | CopySourceUnreadable int
  | CopyMismatch int
  | CopyRejected int storage_error
  | TwoContents int
  | RetiredTwice int
  | UnknownDocument int
  | DocumentExists int
  | DocumentRetired int
  | DeltaWithoutBase int
  | VersionTransition int
  | AddressOccupied
  | CopyNotResolved
  | MissingRecord int
  | NoHistory int
  | MissingBase int
  | VersionBoundary int
  | DeltaFailure delta_error
  | UnknownConversation int
  | IdsExhausted
  | InvalidCursor
  | EmptyPage

type_synonym revision = "document_content \<times> int"

record document_state =
  ds_record :: document_record
  ds_revisions :: "revision list"

record address_index =
  ai_ids :: "int list"
  ai_current :: "int option"

record storage =
  recordTypes :: "int \<Rightarrow> table option"
  conversations :: "int \<Rightarrow> conversation_record option"
  conversationIds :: "int list"
  conversationIdsByOwnerConversation :: "int \<Rightarrow> int list option"
  conversationIdsByOwnerTask :: "int \<Rightarrow> int list option"
  entries :: "int \<Rightarrow> entry_record option"
  entryIds :: "int \<Rightarrow> int list option"
  headEntryIds :: "int \<Rightarrow> int list option"
  entryCommitSeqs :: "int \<Rightarrow> int option"
  tasks :: "int \<Rightarrow> task_record option"
  taskIds :: "int list"
  taskIdsByStatus :: "task_status \<Rightarrow> int list"
  submissions :: "int \<Rightarrow> submission_record option"
  submissionIdsByRequest :: "int \<Rightarrow> (js_string \<times> int) list option"
  documents :: "int \<Rightarrow> document_state option"
  documentAddresses :: "js_string \<Rightarrow> address_index option"
  documentIdsByScope :: "js_string \<Rightarrow> int list option"
  nextId :: int
  nextSeq :: int
  closed :: bool

definition new_storage :: storage where
  "new_storage =
     \<lparr>recordTypes = (\<lambda>_. None), conversations = (\<lambda>_. None), conversationIds = [],
      conversationIdsByOwnerConversation = (\<lambda>_. None), conversationIdsByOwnerTask = (\<lambda>_. None),
      entries = (\<lambda>_. None), entryIds = (\<lambda>_. None), headEntryIds = (\<lambda>_. None),
      entryCommitSeqs = (\<lambda>_. None), tasks = (\<lambda>_. None), taskIds = [],
      taskIdsByStatus = (\<lambda>_. []), submissions = (\<lambda>_. None), submissionIdsByRequest = (\<lambda>_. None),
      documents = (\<lambda>_. None), documentAddresses = (\<lambda>_. None), documentIdsByScope = (\<lambda>_. None),
      nextId = 2, nextSeq = 1, closed = False\<rparr>"

definition assert_open :: "storage \<Rightarrow> storage_error + unit" where
  "assert_open st = rguard (\<not> closed st) StorageClosed"

section \<open>Reading a document\<close>

text \<open>
  \<open>documentDeltaBatches\<close> under \<open>applyImmutableBatches\<close>: each revision after the base is checked when
  the replay reaches it.
\<close>

definition replay_revision :: "int \<Rightarrow> int \<Rightarrow> revision \<Rightarrow> jsv \<Rightarrow> storage_error + jsv" where
  "replay_revision i version r v =
     (case fst r of
        DeltaContent version' ops \<Rightarrow>
          if version' \<noteq> version then Inl (VersionBoundary i)
          else (case apply_immutable ops v of Inl e \<Rightarrow> Inl (DeltaFailure e) | Inr w \<Rightarrow> Inr w)
      | BaseContent _ _ \<Rightarrow> Inl (VersionBoundary i))"

text \<open>The index of the last base revision, searched from the end.\<close>

fun base_index :: "revision list \<Rightarrow> nat \<Rightarrow> nat option" where
  "base_index rs 0 = None"
| "base_index rs (Suc k) = (if is_base_content (fst (rs ! k)) then Some k else base_index rs k)"

definition materialize_document :: "storage \<Rightarrow> int \<Rightarrow> document_point \<Rightarrow> storage_error + stored_document option" where
  "materialize_document st i at =
     (case documents st i of
        None \<Rightarrow> Inr None
      | Some stored \<Rightarrow>
          if at \<noteq> Current \<and> is_current_only (ds_record stored) then Inl (NoHistory i)
          else if \<not> is_alive_at (ds_record stored) at then Inr None
          else (let revisions = (case at of
                      Current \<Rightarrow> ds_revisions stored
                    | At s \<Rightarrow> filter (\<lambda>r. snd r \<le> s) (ds_revisions stored)) in
                case base_index revisions (length revisions) of
                  None \<Rightarrow> Inl (MissingBase i)
                | Some b \<Rightarrow>
                    (case fst (revisions ! b) of
                       DeltaContent _ _ \<Rightarrow> Inl (MissingBase i)
                     | BaseContent version value \<Rightarrow>
                         rbind (rfold (replay_revision i version) (drop (b + 1) revisions) value) (\<lambda>v.
                         Inr (Some \<lparr>stored_record = ds_record stored, stored_version = version,
                                    stored_value = v\<rparr>)))))"

section \<open>Preparing a commit\<close>

fun changed_id :: "storage_write \<Rightarrow> int option" where
  "changed_id (WDocCreate r v x) = Some (doc_id r)"
| "changed_id (WDocCopy r i at) = Some (doc_id r)"
| "changed_id (WDocChange i c) = Some i"
| "changed_id (WDocRetire i) = Some i"
| "changed_id w = None"

fun is_copy :: "storage_write \<Rightarrow> bool" where
  "is_copy (WDocCopy r i at) = True"
| "is_copy w = False"

definition is_conversation_scope :: "doc_scope \<Rightarrow> bool" where
  "is_conversation_scope s = (case s of ConversationScope _ \<Rightarrow> True | _ \<Rightarrow> False)"

text \<open>One write of \<open>resolveDocumentCopies\<close>; any failure is wrapped as a rejection.\<close>

definition resolve_copy :: "storage \<Rightarrow> int set \<Rightarrow> document_create \<Rightarrow> int \<Rightarrow> document_point
    \<Rightarrow> storage_error + storage_write" where
  "resolve_copy st changed r source at =
     map_sum (CopyRejected (doc_id r)) id
       (if source \<in> changed then Inl (CopySourceChanged source)
        else rbind (materialize_document st source at) (\<lambda>found.
          case found of
            None \<Rightarrow> Inl (CopySourceUnreadable source)
          | Some stored \<Rightarrow>
              (let s = stored_record stored in
               if \<not> is_conversation_scope (doc_scope s) \<or> \<not> is_conversation_scope (doc_scope r) \<or>
                  doc_kind s \<noteq> doc_kind r \<or> doc_key s \<noteq> doc_key r \<or>
                  doc_history s \<noteq> doc_history r \<or> doc_fork s \<noteq> doc_fork r
               then Inl (CopyMismatch source)
               else Inr (WDocCreate r (stored_version stored) (stored_value stored)))))"

fun resolve_write :: "storage \<Rightarrow> int set \<Rightarrow> storage_write \<Rightarrow> storage_error + storage_write" where
  "resolve_write st changed (WDocCopy r i at) = resolve_copy st changed r i at"
| "resolve_write st changed w = Inr w"

definition resolve_document_copies :: "storage \<Rightarrow> storage_write list \<Rightarrow> storage_error + storage_write list" where
  "resolve_document_copies st writes =
     (if \<not> list_ex is_copy writes then Inr writes
      else rmap (resolve_write st (set (List.map_filter changed_id writes))) writes)"

text \<open>The table and ID that a write claims; changes and retirements claim none.\<close>

fun claim :: "storage_write \<Rightarrow> (table \<times> int) option" where
  "claim (WConversation c) = Some (ConversationTable, conv_id c)"
| "claim (WEntry e) = Some (EntryTable, ent_id e)"
| "claim (WTask t) = Some (TaskTable, task_id t)"
| "claim (WSubmission s) = Some (SubmissionTable, sub_id s)"
| "claim (WDocCreate r v x) = Some (DocumentTable, doc_id r)"
| "claim (WDocCopy r i at) = Some (DocumentTable, doc_id r)"
| "claim (WDocChange i c) = None"
| "claim (WDocRetire i) = None"

fun create_only :: "table \<Rightarrow> bool" where
  "create_only TaskTable = False"
| "create_only SubmissionTable = False"
| "create_only t = True"

definition check_claim :: "storage \<Rightarrow> storage_write \<Rightarrow> (int \<Rightarrow> table option) \<Rightarrow> storage_error + (int \<Rightarrow> table option)" where
  "check_claim st w claimed =
     (case claim w of
        None \<Rightarrow> Inr claimed
      | Some (t, i) \<Rightarrow>
          (if create_only t then
             (case recordTypes st i of
                Some t' \<Rightarrow> Inl (IdTaken i t')
              | None \<Rightarrow> if claimed i \<noteq> None then Inl (IdTwice i) else Inr (claimed(i \<mapsto> t)))
           else if recordTypes st i \<noteq> None \<and> recordTypes st i \<noteq> Some t
           then Inl (IdTaken i (the (recordTypes st i)))
           else if claimed i \<noteq> None \<and> claimed i \<noteq> Some t then Inl (TwoTables i)
           else Inr (claimed(i \<mapsto> t))))"

definition check_global_ids :: "storage \<Rightarrow> storage_write list \<Rightarrow> storage_error + unit" where
  "check_global_ids st writes = rbind (rfold (check_claim st) writes (\<lambda>_. None)) (\<lambda>_. Inr ())"

record document_action =
  act_create :: "document_create option"
  act_content :: "document_content option"
  act_retire :: bool

definition new_action :: document_action where
  "new_action = \<lparr>act_create = None, act_content = None, act_retire = False\<rparr>"

type_synonym actions = "(int \<times> document_action) list"

definition action_of :: "actions \<Rightarrow> int \<Rightarrow> document_action" where
  "action_of acts i = (case map_of acts i of None \<Rightarrow> new_action | Some a \<Rightarrow> a)"

fun add_action :: "storage_write \<Rightarrow> actions \<Rightarrow> storage_error + actions" where
  "add_action (WDocCreate r v x) acts =
     (let i = doc_id r; a = action_of acts i in
      if act_create a \<noteq> None \<or> act_content a \<noteq> None then Inl (TwoContents i)
      else Inr (AList.update i (a\<lparr>act_create := Some r, act_content := Some (BaseContent v x)\<rparr>) acts))"
| "add_action (WDocChange i c) acts =
     (let a = action_of acts i in
      if act_content a \<noteq> None then Inl (TwoContents i)
      else Inr (AList.update i (a\<lparr>act_content := Some c\<rparr>) acts))"
| "add_action (WDocRetire i) acts =
     (let a = action_of acts i in
      if act_retire a then Inl (RetiredTwice i)
      else Inr (AList.update i (a\<lparr>act_retire := True\<rparr>) acts))"
| "add_action w acts = Inr acts"

definition prepare_document_actions :: "storage_write list \<Rightarrow> storage_error + actions" where
  "prepare_document_actions writes = rfold add_action writes []"

text \<open>\<open>checkDocumentActions\<close>: one action, then the count of live incarnations per address.\<close>

definition check_action_record :: "storage \<Rightarrow> int \<Rightarrow> document_action \<Rightarrow> storage_error + document_address" where
  "check_action_record st i a =
     (case (act_create a, documents st i) of
        (None, None) \<Rightarrow> Inl (UnknownDocument i)
      | (Some _, Some _) \<Rightarrow> Inl (DocumentExists i)
      | (Some r, None) \<Rightarrow>
          (case act_content a of
             Some (DeltaContent _ _) \<Rightarrow> Inl (DeltaWithoutBase i)
           | _ \<Rightarrow> Inr (record_address r))
      | (None, Some existing) \<Rightarrow>
          if doc_retired (ds_record existing) \<noteq> None then Inl (DocumentRetired i)
          else (case act_content a of
                  Some (DeltaContent version _) \<Rightarrow>
                    if ds_revisions existing = [] then Inl (DeltaWithoutBase i)
                    else if content_version (fst (last (ds_revisions existing))) \<noteq> version
                    then Inl (VersionTransition i)
                    else Inr (record_address (ds_record existing))
                | _ \<Rightarrow> Inr (record_address (ds_record existing))))"

definition current_at :: "storage \<Rightarrow> js_string \<Rightarrow> int option" where
  "current_at st key = (case documentAddresses st key of None \<Rightarrow> None | Some a \<Rightarrow> ai_current a)"

definition count_live :: "storage \<Rightarrow> int \<times> document_action \<Rightarrow> (js_string \<times> int) list
    \<Rightarrow> storage_error + (js_string \<times> int) list" where
  "count_live st p counts =
     (case p of (i, a) \<Rightarrow>
        rbind (check_action_record st i a) (\<lambda>address.
          let key = address_key address;
              live = (case map_of counts key of
                        Some n \<Rightarrow> n
                      | None \<Rightarrow> if current_at st key = None then 0 else 1);
              live = (if act_retire a \<and> current_at st key = Some i then live - 1 else live);
              live = (if act_create a \<noteq> None \<and> \<not> act_retire a then live + 1 else live)
          in Inr (AList.update key live counts)))"

definition check_document_actions :: "storage \<Rightarrow> actions \<Rightarrow> storage_error + unit" where
  "check_document_actions st acts =
     rbind (rfold (count_live st) acts []) (\<lambda>counts.
       rguard (\<forall>p \<in> set counts. snd p \<le> 1) AddressOccupied)"

record prepared_commit =
  pc_seq :: int
  pc_writes :: "storage_write list"
  pc_actions :: actions
  pc_applied :: bool

definition prepare_commit :: "storage \<Rightarrow> storage_write list \<Rightarrow> int \<Rightarrow> storage_error + prepared_commit" where
  "prepare_commit st writes seq =
     rbind (assert_open st) (\<lambda>_.
     rbind (rguard (\<bar>seq\<bar> \<le> max_safe \<and> nextSeq st \<le> seq) (SeqNotIncreasing seq)) (\<lambda>_.
     rbind (resolve_document_copies st writes) (\<lambda>detached.
     rbind (check_global_ids st detached) (\<lambda>_.
     rbind (prepare_document_actions detached) (\<lambda>acts.
     rbind (check_document_actions st acts) (\<lambda>_.
     Inr \<lparr>pc_seq = seq, pc_writes = detached, pc_actions = acts, pc_applied = False\<rparr>))))))"

section \<open>Applying a commit\<close>

definition apply_conversation :: "conversation_record \<Rightarrow> storage \<Rightarrow> storage" where
  "apply_conversation c st =
     (let i = conv_id c;
          st = st\<lparr>recordTypes := (recordTypes st)(i \<mapsto> ConversationTable),
                  conversations := (conversations st)(i \<mapsto> c),
                  conversationIds := insert_sorted (conversationIds st) i\<rparr>;
          st = (case conv_owner c of
                  None \<Rightarrow> st
                | Some owner \<Rightarrow>
                    st\<lparr>conversationIdsByOwnerConversation :=
                         insert_map_id (conversationIdsByOwnerConversation st) (owner_conversation owner) i,
                       conversationIdsByOwnerTask :=
                         insert_map_id (conversationIdsByOwnerTask st) (owner_task owner) i\<rparr>)
      in st\<lparr>nextId := max (nextId st) (i + 1)\<rparr>)"

definition apply_entry :: "int \<Rightarrow> entry_record \<Rightarrow> storage \<Rightarrow> storage" where
  "apply_entry seq e st =
     (let i = ent_id e;
          st = st\<lparr>recordTypes := (recordTypes st)(i \<mapsto> EntryTable),
                  entries := (entries st)(i \<mapsto> e),
                  entryCommitSeqs := (entryCommitSeqs st)(i \<mapsto> seq),
                  entryIds := insert_map_id (entryIds st) (ent_conversation e) i\<rparr>;
          st = (case ent_head e of
                  None \<Rightarrow> st
                | Some _ \<Rightarrow> st\<lparr>headEntryIds := insert_map_id (headEntryIds st) (ent_conversation e) i\<rparr>)
      in st\<lparr>nextId := max (nextId st) (i + 1)\<rparr>)"

definition stored_status :: "task_record \<Rightarrow> task_status" where
  "stored_status t = status_of (task_state t)"

definition apply_task :: "task_record \<Rightarrow> storage \<Rightarrow> storage" where
  "apply_task t st =
     (let i = task_id t;
          status = stored_status t;
          st = st\<lparr>recordTypes := (recordTypes st)(i \<mapsto> TaskTable)\<rparr>;
          st = (case tasks st i of
                  None \<Rightarrow>
                    st\<lparr>taskIds := insert_sorted (taskIds st) i,
                       taskIdsByStatus :=
                         (taskIdsByStatus st)(status := insert_sorted (taskIdsByStatus st status) i)\<rparr>
                | Some previous \<Rightarrow>
                    if stored_status previous \<noteq> status
                    then (let by = (taskIdsByStatus st)
                                (stored_status previous := remove_sorted (taskIdsByStatus st (stored_status previous)) i)
                          in st\<lparr>taskIdsByStatus := by(status := insert_sorted (by status) i)\<rparr>)
                    else st)
      in st\<lparr>tasks := (tasks st)(i \<mapsto> t), nextId := max (nextId st) (i + 1)\<rparr>)"

text \<open>Taking an old submission out of the request index.\<close>

definition drop_request :: "int \<Rightarrow> submission_record \<Rightarrow> (int \<Rightarrow> (js_string \<times> int) list option)
    \<Rightarrow> int \<Rightarrow> (js_string \<times> int) list option" where
  "drop_request i previous index =
     (case sub_request previous of
        None \<Rightarrow> index
      | Some request \<Rightarrow>
          (case index (sub_conversation previous) of
             None \<Rightarrow> index
           | Some requests \<Rightarrow>
               if map_of requests request = Some i
               then (let rest = AList.delete request requests in
                     if rest = [] then index(sub_conversation previous := None)
                     else index(sub_conversation previous \<mapsto> rest))
               else index))"

definition add_request :: "int \<Rightarrow> submission_record \<Rightarrow> (int \<Rightarrow> (js_string \<times> int) list option)
    \<Rightarrow> int \<Rightarrow> (js_string \<times> int) list option" where
  "add_request i value index =
     (case sub_request value of
        None \<Rightarrow> index
      | Some request \<Rightarrow>
          index(sub_conversation value \<mapsto>
            AList.update request i (case index (sub_conversation value) of None \<Rightarrow> [] | Some r \<Rightarrow> r)))"

definition apply_submission :: "submission_record \<Rightarrow> storage \<Rightarrow> storage" where
  "apply_submission s st =
     (let i = sub_id s;
          index = (case submissions st i of
                     None \<Rightarrow> submissionIdsByRequest st
                   | Some previous \<Rightarrow> drop_request i previous (submissionIdsByRequest st))
      in st\<lparr>recordTypes := (recordTypes st)(i \<mapsto> SubmissionTable),
            submissions := (submissions st)(i \<mapsto> s),
            submissionIdsByRequest := add_request i s index,
            nextId := max (nextId st) (i + 1)\<rparr>)"

fun apply_write :: "int \<Rightarrow> storage_write \<Rightarrow> storage \<Rightarrow> storage_error + storage" where
  "apply_write seq (WConversation c) st = Inr (apply_conversation c st)"
| "apply_write seq (WEntry e) st = Inr (apply_entry seq e st)"
| "apply_write seq (WTask t) st = Inr (apply_task t st)"
| "apply_write seq (WSubmission s) st = Inr (apply_submission s st)"
| "apply_write seq (WDocCopy r i at) st = Inl CopyNotResolved"
| "apply_write seq (WDocCreate r v x) st = Inr st"
| "apply_write seq (WDocChange i c) st = Inr st"
| "apply_write seq (WDocRetire i) st = Inr st"

text \<open>The new record of a created document.\<close>

definition stamp :: "document_create \<Rightarrow> int \<Rightarrow> bool \<Rightarrow> document_record" where
  "stamp r seq retire =
     document_create.extend r (document_record.fields seq (if retire then Some seq else None))"

definition create_document :: "int \<Rightarrow> int \<Rightarrow> document_action \<Rightarrow> document_create \<Rightarrow> storage
    \<Rightarrow> document_state \<times> storage" where
  "create_document seq i a r st =
     (let record = stamp r seq (act_retire a);
          stored = \<lparr>ds_record = record, ds_revisions = [(the (act_content a), seq)]\<rparr>;
          key = record_address_key record;
          address = (case documentAddresses st key of None \<Rightarrow> \<lparr>ai_ids = [], ai_current = None\<rparr> | Some x \<Rightarrow> x)
      in (stored,
          st\<lparr>recordTypes := (recordTypes st)(i \<mapsto> DocumentTable),
             documents := (documents st)(i \<mapsto> stored),
             documentAddresses := (documentAddresses st)
               (key \<mapsto> address\<lparr>ai_ids := insert_sorted (ai_ids address) i\<rparr>),
             documentIdsByScope := insert_map_id (documentIdsByScope st) (scope_key (doc_scope record)) i,
             nextId := max (nextId st) (i + 1)\<rparr>))"

definition change_document :: "int \<Rightarrow> document_content \<Rightarrow> document_state \<Rightarrow> document_state" where
  "change_document seq c stored =
     (if is_base_content c \<and> is_current_only (ds_record stored)
      then stored\<lparr>ds_revisions := [(c, seq)]\<rparr>
      else stored\<lparr>ds_revisions := ds_revisions stored @ [(c, seq)]\<rparr>)"

definition retire_document :: "int \<Rightarrow> document_action \<Rightarrow> document_state \<Rightarrow> document_state" where
  "retire_document seq a stored =
     (let stored = (if act_retire a \<and> act_create a = None
                    then stored\<lparr>ds_record := (ds_record stored)\<lparr>doc_retired := Some seq\<rparr>\<rparr> else stored)
      in if act_retire a \<and> is_current_only (ds_record stored) then stored\<lparr>ds_revisions := []\<rparr> else stored)"

definition set_current :: "int \<Rightarrow> document_action \<Rightarrow> address_index \<Rightarrow> address_index" where
  "set_current i a address =
     (let address = (if act_retire a \<and> ai_current address = Some i then address\<lparr>ai_current := None\<rparr> else address)
      in if act_create a \<noteq> None \<and> \<not> act_retire a then address\<lparr>ai_current := Some i\<rparr> else address)"

definition apply_action :: "int \<Rightarrow> int \<times> document_action \<Rightarrow> storage \<Rightarrow> storage_error + storage" where
  "apply_action seq p st =
     (case p of (i, a) \<Rightarrow>
        rbind (case act_create a of
            Some r \<Rightarrow> Inr (create_document seq i a r st)
          | None \<Rightarrow>
              (case documents st i of
                 None \<Rightarrow> Inl (MissingRecord i)
               | Some stored \<Rightarrow>
                   Inr (case act_content a of None \<Rightarrow> stored | Some c \<Rightarrow> change_document seq c stored, st)))
          (\<lambda>(stored, st).
            let stored = retire_document seq a stored;
                st = st\<lparr>documents := (documents st)(i \<mapsto> stored)\<rparr>
            in if act_create a \<noteq> None \<or> act_retire a
               then (case documentAddresses st (record_address_key (ds_record stored)) of
                       None \<Rightarrow> Inl (MissingRecord i)
                     | Some address \<Rightarrow>
                         Inr (st\<lparr>documentAddresses := (documentAddresses st)
                           (record_address_key (ds_record stored) \<mapsto> set_current i a address)\<rparr>))
               else Inr st))"

definition apply_prepared :: "prepared_commit \<Rightarrow> storage \<Rightarrow> storage_error + prepared_commit \<times> storage" where
  "apply_prepared pc st =
     (if pc_applied pc then Inr (pc, st)
      else rbind (rfold (apply_write (pc_seq pc)) (pc_writes pc) st) (\<lambda>st.
           rbind (rfold (apply_action (pc_seq pc)) (pc_actions pc) st) (\<lambda>st.
           Inr (pc\<lparr>pc_applied := True\<rparr>, st\<lparr>nextSeq := pc_seq pc + 1\<rparr>))))"

definition commit :: "storage \<Rightarrow> storage_write list \<Rightarrow> storage_error + int \<times> storage" where
  "commit st writes =
     rbind (prepare_commit st writes (nextSeq st)) (\<lambda>pc.
     rbind (apply_prepared pc st) (\<lambda>(pc, st). Inr (pc_seq pc, st)))"

definition mint_id :: "storage \<Rightarrow> storage_error + int \<times> storage" where
  "mint_id st =
     rbind (assert_open st) (\<lambda>_.
       if max_safe < \<bar>nextId st\<bar> then Inl IdsExhausted
       else Inr (nextId st, st\<lparr>nextId := nextId st + 1\<rparr>))"

definition close_storage :: "storage \<Rightarrow> storage" where
  "close_storage st = st\<lparr>closed := True\<rparr>"

section \<open>Reads and scans\<close>

definition cursor_id :: "props option \<Rightarrow> storage_error + int option" where
  "cursor_id cursor =
     (case cursor of
        None \<Rightarrow> Inr None
      | Some ps \<Rightarrow>
          (case obj_get ps (js ''after'') of
             None \<Rightarrow> Inr None
           | Some JUndef \<Rightarrow> Inr None
           | Some (JNum n) \<Rightarrow>
               if num_safe n then Inr (Some (case n of NInt i \<Rightarrow> i | NFlt _ \<Rightarrow> 0)) else Inl InvalidCursor
           | Some _ \<Rightarrow> Inl InvalidCursor))"

text \<open>With a limit of zero there is no last item to continue after, and the access to its ID throws.\<close>

definition make_page :: "('a \<Rightarrow> int) \<Rightarrow> 'a list \<Rightarrow> nat \<Rightarrow> storage_error + 'a page" where
  "make_page get_id values limit =
     (let items = take limit values in
      if length values \<le> limit then Inr \<lparr>page_items = items, page_next = None\<rparr>
      else if items = [] then Inl EmptyPage
      else Inr \<lparr>page_items = items, page_next = Some [(js ''after'', JNum (NInt (get_id (last items))))]\<rparr>)"

text \<open>The scan loop: it stops once it has one value more than the limit.\<close>

fun scan_loop :: "(int \<Rightarrow> 'a option) \<Rightarrow> ('a \<Rightarrow> bool) \<Rightarrow> nat \<Rightarrow> int list \<Rightarrow> 'a list \<Rightarrow> storage_error + 'a list" where
  "scan_loop lookup keep limit [] values = Inr values"
| "scan_loop lookup keep limit (i # ids) values =
     (if limit < length values then Inr values
      else (case lookup i of
              None \<Rightarrow> Inl (MissingRecord i)
            | Some v \<Rightarrow> scan_loop lookup keep limit ids (if keep v then values @ [v] else values)))"

definition start_after :: "int list \<Rightarrow> int option \<Rightarrow> int list" where
  "start_after ids after = (case after of None \<Rightarrow> ids | Some a \<Rightarrow> drop (upper_bound ids (Fin a)) ids)"

definition matches :: "'a option \<Rightarrow> 'a \<Rightarrow> bool" where
  "matches q v = (case q of None \<Rightarrow> True | Some x \<Rightarrow> v = x)"

definition read_conversation :: "storage \<Rightarrow> int \<Rightarrow> storage_error + conversation_record option" where
  "read_conversation st i = rbind (assert_open st) (\<lambda>_. Inr (conversations st i))"

definition read_task :: "storage \<Rightarrow> int \<Rightarrow> storage_error + task_record option" where
  "read_task st i = rbind (assert_open st) (\<lambda>_. Inr (tasks st i))"

definition read_submission :: "storage \<Rightarrow> int \<Rightarrow> storage_error + submission_record option" where
  "read_submission st i = rbind (assert_open st) (\<lambda>_. Inr (submissions st i))"

definition submission_by_request :: "storage \<Rightarrow> int \<Rightarrow> js_string \<Rightarrow> storage_error + submission_record option" where
  "submission_by_request st c request =
     rbind (assert_open st) (\<lambda>_.
       case submissionIdsByRequest st c of
         None \<Rightarrow> Inr None
       | Some requests \<Rightarrow>
           (case map_of requests request of
              None \<Rightarrow> Inr None
            | Some i \<Rightarrow> (case submissions st i of None \<Rightarrow> Inl (MissingRecord i) | Some s \<Rightarrow> Inr (Some s))))"

definition scan_conversations :: "storage \<Rightarrow> conversation_query \<Rightarrow> nat \<Rightarrow> props option
    \<Rightarrow> storage_error + conversation_record page" where
  "scan_conversations st q limit cursor =
     rbind (assert_open st) (\<lambda>_.
     rbind (cursor_id cursor) (\<lambda>after.
       let ids = (case cq_owner_task q of
                    Some t \<Rightarrow> ids_at (conversationIdsByOwnerTask st) t
                  | None \<Rightarrow>
                      (case cq_owner_conversation q of
                         Some c \<Rightarrow> ids_at (conversationIdsByOwnerConversation st) c
                       | None \<Rightarrow> conversationIds st));
           keep = (\<lambda>v. case cq_owner_conversation q of
                     None \<Rightarrow> True
                   | Some c \<Rightarrow> map_option owner_conversation (conv_owner v) = Some c)
       in rbind (scan_loop (conversations st) keep limit (start_after ids after) []) (\<lambda>values.
          make_page conv_id values limit)))"

definition task_matches :: "task_query \<Rightarrow> task_record \<Rightarrow> bool" where
  "task_matches q v \<longleftrightarrow>
     matches (tq_conversation q) (task_conversation v) \<and> matches (tq_kind q) (task_kind v) \<and>
     matches (tq_abort q) (task_abort v) \<and> matches (tq_background q) (task_background v)"

definition scan_tasks :: "storage \<Rightarrow> task_query \<Rightarrow> nat \<Rightarrow> props option \<Rightarrow> storage_error + task_record page" where
  "scan_tasks st q limit cursor =
     rbind (assert_open st) (\<lambda>_.
     rbind (cursor_id cursor) (\<lambda>after.
       let ids = (case tq_status q of None \<Rightarrow> taskIds st | Some s \<Rightarrow> taskIdsByStatus st s) in
       rbind (scan_loop (tasks st) (task_matches q) limit (start_after ids after) []) (\<lambda>values.
       make_page task_id values limit)))"

definition scan_documents :: "storage \<Rightarrow> document_query \<Rightarrow> nat \<Rightarrow> props option
    \<Rightarrow> storage_error + document_record page" where
  "scan_documents st q limit cursor =
     rbind (assert_open st) (\<lambda>_.
     let ids = ids_at (documentIdsByScope st) (scope_key (dq_scope q)) in
     rbind (cursor_id cursor) (\<lambda>after.
     rbind (scan_loop (\<lambda>i. map_option ds_record (documents st i))
              (\<lambda>r. matches (dq_kind q) (doc_kind r) \<and> is_alive_at r (dq_at q)) limit (start_after ids after) [])
       (\<lambda>values. make_page doc_id values limit)))"

definition find_document :: "storage \<Rightarrow> document_address \<Rightarrow> document_point \<Rightarrow> storage_error + document_record option" where
  "find_document st address at =
     rbind (assert_open st) (\<lambda>_.
       let index = documentAddresses st (address_key address) in
       case at of
         Current \<Rightarrow>
           (case current_at st (address_key address) of
              None \<Rightarrow> Inr None
            | Some i \<Rightarrow> (case documents st i of None \<Rightarrow> Inl (MissingRecord i) | Some d \<Rightarrow> Inr (Some (ds_record d))))
       | At _ \<Rightarrow>
           Inr (List.find (\<lambda>r. is_alive_at r at)
             (List.map_filter (\<lambda>i. map_option ds_record (documents st i))
               (case index of None \<Rightarrow> [] | Some a \<Rightarrow> ai_ids a))))"

definition read_document :: "storage \<Rightarrow> int \<Rightarrow> document_point \<Rightarrow> storage_error + stored_document option" where
  "read_document st i at = rbind (assert_open st) (\<lambda>_. materialize_document st i at)"

section \<open>Entries of a conversation and of its ancestors\<close>

text \<open>
  \<open>visibleEntries\<close> is a generator.  Its consumers read a bounded number of values, so the loop
  carries that number and stops as soon as it has them, as a suspended generator does.  The walk along
  the parents ends only if the stored edges have no cycle, so it is a partial function.
\<close>

fun entries_down :: "int list \<Rightarrow> bound \<Rightarrow> nat \<Rightarrow> int list" where
  "entries_down ids lo 0 = []"
| "entries_down ids lo (Suc k) = (if Fin (ids ! k) < lo then [] else ids ! k # entries_down ids lo k)"

partial_function (option) visible_loop :: "storage \<Rightarrow> bound \<Rightarrow> nat \<Rightarrow> int \<Rightarrow> bound \<Rightarrow> int list
    \<Rightarrow> (storage_error + int list) option" where
  "visible_loop st lo want current upper found =
     (let ids = ids_at (entryIds st) current;
          found = found @ entries_down ids lo (upper_bound ids upper)
      in if want \<le> length found then Some (Inr (take want found))
         else (case conversations st current of
                 None \<Rightarrow> Some (Inl (MissingRecord current))
               | Some c \<Rightarrow>
                   (case conv_parent c of
                      None \<Rightarrow> Some (Inr found)
                    | Some p \<Rightarrow>
                        if min upper (Fin (parent_at p)) < lo then Some (Inr found)
                        else visible_loop st lo want (parent_conversation p) (min upper (Fin (parent_at p))) found)))"

definition entry_at :: "storage \<Rightarrow> int \<Rightarrow> storage_error + entry_record" where
  "entry_at st i = (case entries st i of None \<Rightarrow> Inl (MissingRecord i) | Some e \<Rightarrow> Inr e)"

definition visible_entries :: "storage \<Rightarrow> int \<Rightarrow> bound \<Rightarrow> bound \<Rightarrow> nat
    \<Rightarrow> (storage_error + entry_record list) option" where
  "visible_entries st c lo hi want =
     (if conversations st c = None then Some (Inl (UnknownConversation c))
      else map_option (\<lambda>r. rbind r (rmap (entry_at st))) (visible_loop st lo want c hi []))"

definition fin_or :: "bound \<Rightarrow> int option \<Rightarrow> bound" where
  "fin_or d q = (case q of None \<Rightarrow> d | Some i \<Rightarrow> Fin i)"

text \<open>The two forms of \<open>entry\<close>, and the scan.\<close>

definition read_entry :: "storage \<Rightarrow> int \<Rightarrow> storage_error + (entry_record \<times> int) option" where
  "read_entry st i =
     rbind (assert_open st) (\<lambda>_.
       case entries st i of
         None \<Rightarrow> Inr None
       | Some e \<Rightarrow> (case entryCommitSeqs st i of None \<Rightarrow> Inl (MissingRecord i) | Some s \<Rightarrow> Inr (Some (e, s))))"

definition read_visible_entry :: "storage \<Rightarrow> int \<Rightarrow> int \<Rightarrow> (storage_error + (entry_record \<times> int) option) option" where
  "read_visible_entry st c i =
     (case assert_open st of
        Inl e \<Rightarrow> Some (Inl e)
      | Inr _ \<Rightarrow>
          map_option (\<lambda>r. rbind r (\<lambda>es.
              case es of
                [] \<Rightarrow> Inr None
              | e # _ \<Rightarrow> (case entryCommitSeqs st i of None \<Rightarrow> Inl (MissingRecord i) | Some s \<Rightarrow> Inr (Some (e, s)))))
            (visible_entries st c (Fin i) (Fin i) 1))"

definition scan_entries :: "storage \<Rightarrow> entry_query \<Rightarrow> nat \<Rightarrow> props option
    \<Rightarrow> (storage_error + entry_record page) option" where
  "scan_entries st q limit cursor =
     (case rbind (assert_open st) (\<lambda>_. cursor_id cursor) of
        Inl e \<Rightarrow> Some (Inl e)
      | Inr after \<Rightarrow>
          let hi = (case after of
                      None \<Rightarrow> fin_or PosInf (eq_max q)
                    | Some a \<Rightarrow> min (fin_or PosInf (eq_max q)) (Fin (a - 1)))
          in map_option (\<lambda>r. rbind r (\<lambda>visible. make_page ent_id visible limit))
               (visible_entries st (eq_conversation q) (fin_or NegInf (eq_min q)) hi (limit + 1)))"

partial_function (option) head_loop :: "storage \<Rightarrow> int \<Rightarrow> bound \<Rightarrow> (storage_error + entry_record option) option" where
  "head_loop st current upper =
     (let ids = ids_at (headEntryIds st) current; index = upper_bound ids upper
      in if 0 < index then Some (rbind (entry_at st (ids ! (index - 1))) (\<lambda>e. Inr (Some e)))
         else (case conversations st current of
                 None \<Rightarrow> Some (Inl (MissingRecord current))
               | Some c \<Rightarrow>
                   (case conv_parent c of
                      None \<Rightarrow> Some (Inr None)
                    | Some p \<Rightarrow> head_loop st (parent_conversation p) (min upper (Fin (parent_at p))))))"

definition find_latest_head_marker :: "storage \<Rightarrow> int \<Rightarrow> int option
    \<Rightarrow> (storage_error + entry_record option) option" where
  "find_latest_head_marker st c at_or_before =
     (case assert_open st of
        Inl e \<Rightarrow> Some (Inl e)
      | Inr _ \<Rightarrow>
          if conversations st c = None then Some (Inl (UnknownConversation c))
          else head_loop st c (fin_or PosInf at_or_before))"

end
