(* ===== verification/MemoryInvariant.thy ===== *)
theory MemoryInvariant
  imports MemoryStorage
begin

text \<open>
  The invariant of \<open>MemoryStorage\<close> and its preservation by the writes of a commit: record types agree
  with the tables, every ID array lists exactly the records it is an index of, every ID is below the
  next one, and every document has the revisions its reads need.
\<close>

section \<open>Indexes over a table\<close>

text \<open>A table holds each record under its own ID.\<close>

definition keyed :: "(int \<Rightarrow> 'v option) \<Rightarrow> ('v \<Rightarrow> int) \<Rightarrow> bool" where
  "keyed T f \<longleftrightarrow> (\<forall>i v. T i = Some v \<longrightarrow> f v = i)"

lemma keyed_empty [simp]: "keyed (\<lambda>_. None) f"
  by (simp add: keyed_def)

lemma keyed_insert: "keyed T f \<Longrightarrow> f v = i \<Longrightarrow> keyed (T(i \<mapsto> v)) f"
  by (simp add: keyed_def)

lemma keyedD: "keyed T f \<Longrightarrow> T i = Some v \<Longrightarrow> f v = i"
  by (simp add: keyed_def)

text \<open>An ID map indexes a table by a key that a record may lack.\<close>

definition indexes :: "('k \<Rightarrow> int list option) \<Rightarrow> (int \<Rightarrow> 'v option) \<Rightarrow> ('v \<Rightarrow> 'k option) \<Rightarrow> bool" where
  "indexes m T key \<longleftrightarrow> (\<forall>k. lists_ids (ids_at m k) {i. \<exists>v. T i = Some v \<and> key v = Some k})"

lemma ids_at_insert [simp]:
  "ids_at (insert_map_id m k i) k' = (if k' = k then insert_sorted (ids_at m k) i else ids_at m k')"
  by (simp add: ids_at_def insert_map_id_def)

lemma ids_at_empty [simp]: "ids_at (\<lambda>_. None) k = []"
  by (simp add: ids_at_def)

lemma indexes_empty [simp]: "indexes (\<lambda>_. None) (\<lambda>_. None) key"
  by (simp add: indexes_def)

lemma indexes_add:
  assumes "indexes m T key" "T i = None"
  shows "indexes (case key v of None \<Rightarrow> m | Some k \<Rightarrow> insert_map_id m k i) (T(i \<mapsto> v)) key"
proof -
  have "{j. \<exists>w. (T(i \<mapsto> v)) j = Some w \<and> key w = Some k} =
      (if key v = Some k then insert i else id) {j. \<exists>w. T j = Some w \<and> key w = Some k}" for k
    using assms(2) by auto
  with assms show ?thesis by (auto simp: indexes_def insert_sorted_ids split: option.split)
qed

lemma indexes_same_key:
  assumes "indexes m T key" "T i = Some w" "key v = key w"
  shows "indexes m (T(i \<mapsto> v)) key"
proof -
  have "{j. \<exists>u. (T(i \<mapsto> v)) j = Some u \<and> key u = Some k} = {j. \<exists>u. T j = Some u \<and> key u = Some k}" for k
    using assms(2,3) by auto
  with assms(1) show ?thesis by (simp add: indexes_def)
qed

lemma lists_dom_insert: "lists_ids ids (dom T) \<Longrightarrow> T i = None \<Longrightarrow> lists_ids (insert_sorted ids i) (dom (T(i \<mapsto> v)))"
  using insert_sorted_ids [of ids "dom T" i] by (simp add: domIff)

lemma indexesD: "indexes m T key \<Longrightarrow> i \<in> set (ids_at m k) \<longleftrightarrow> (\<exists>v. T i = Some v \<and> key v = Some k)"
  by (simp add: indexes_def lists_ids_def set_eq_iff)

lemma indexes_sorted: "indexes m T key \<Longrightarrow> sorted_wrt (<) (ids_at m k)"
  by (simp add: indexes_def lists_ids_def)

section \<open>The invariant\<close>

fun in_table :: "storage \<Rightarrow> table \<Rightarrow> int \<Rightarrow> bool" where
  "in_table st ConversationTable i = (conversations st i \<noteq> None)"
| "in_table st EntryTable i = (entries st i \<noteq> None)"
| "in_table st TaskTable i = (tasks st i \<noteq> None)"
| "in_table st SubmissionTable i = (submissions st i \<noteq> None)"
| "in_table st DocumentTable i = (documents st i \<noteq> None)"

definition types_inv :: "storage \<Rightarrow> bool" where
  "types_inv st \<longleftrightarrow>
     (\<forall>i t. recordTypes st i = Some t \<longleftrightarrow> in_table st t i) \<and>
     (\<forall>i. recordTypes st i \<noteq> None \<longrightarrow> i < nextId st)"

definition owning_conversation :: "conversation_record \<Rightarrow> int option" where
  "owning_conversation c = map_option owner_conversation (conv_owner c)"

definition owning_task :: "conversation_record \<Rightarrow> int option" where
  "owning_task c = map_option owner_task (conv_owner c)"

definition conversation_inv :: "storage \<Rightarrow> bool" where
  "conversation_inv st \<longleftrightarrow>
     keyed (conversations st) conv_id \<and>
     lists_ids (conversationIds st) (dom (conversations st)) \<and>
     indexes (conversationIdsByOwnerConversation st) (conversations st) owning_conversation \<and>
     indexes (conversationIdsByOwnerTask st) (conversations st) owning_task"

definition head_key :: "entry_record \<Rightarrow> int option" where
  "head_key e = (if ent_head e = None then None else Some (ent_conversation e))"

definition entry_inv :: "storage \<Rightarrow> bool" where
  "entry_inv st \<longleftrightarrow>
     keyed (entries st) ent_id \<and>
     indexes (entryIds st) (entries st) (\<lambda>e. Some (ent_conversation e)) \<and>
     indexes (headEntryIds st) (entries st) head_key \<and>
     dom (entryCommitSeqs st) = dom (entries st)"

definition task_inv :: "storage \<Rightarrow> bool" where
  "task_inv st \<longleftrightarrow>
     keyed (tasks st) task_id \<and>
     lists_ids (taskIds st) (dom (tasks st)) \<and>
     (\<forall>s. lists_ids (taskIdsByStatus st s) {i. \<exists>t. tasks st i = Some t \<and> stored_status t = s})"

definition request_id :: "(int \<Rightarrow> (js_string \<times> int) list option) \<Rightarrow> int \<Rightarrow> js_string \<Rightarrow> int option" where
  "request_id index c request = (case index c of None \<Rightarrow> None | Some rs \<Rightarrow> map_of rs request)"

definition submission_inv :: "storage \<Rightarrow> bool" where
  "submission_inv st \<longleftrightarrow>
     keyed (submissions st) sub_id \<and>
     (\<forall>c r i. request_id (submissionIdsByRequest st) c r = Some i \<longrightarrow>
        (\<exists>s. submissions st i = Some s \<and> sub_conversation s = c \<and> sub_request s = Some r))"

text \<open>
  The revisions of a document: a base comes first, a delta continues the version before it, and the
  sequences increase.  Only a retired document without history has none.
\<close>

fun chained :: "revision list \<Rightarrow> bool" where
  "chained [] = True"
| "chained [r] = True"
| "chained (r # q # rs) \<longleftrightarrow>
     snd r < snd q \<and> (is_base_content (fst q) \<or> content_version (fst q) = content_version (fst r)) \<and>
     chained (q # rs)"

definition revisions_ok :: "revision list \<Rightarrow> bool" where
  "revisions_ok rs \<longleftrightarrow> rs \<noteq> [] \<and> is_base_content (fst (hd rs)) \<and> chained rs"

definition document_ok :: "int \<Rightarrow> document_state \<Rightarrow> bool" where
  "document_ok seq d \<longleftrightarrow>
     doc_created (ds_record d) < seq \<and>
     (\<forall>t. doc_retired (ds_record d) = Some t \<longrightarrow> doc_created (ds_record d) \<le> t \<and> t < seq) \<and>
     (if is_current_only (ds_record d) \<and> doc_retired (ds_record d) \<noteq> None then ds_revisions d = []
      else revisions_ok (ds_revisions d) \<and> snd (last (ds_revisions d)) < seq \<and>
        (is_current_only (ds_record d) \<or> snd (hd (ds_revisions d)) = doc_created (ds_record d)))"

definition alive :: "document_state \<Rightarrow> bool" where
  "alive d \<longleftrightarrow> doc_retired (ds_record d) = None"

definition address_ids :: "storage \<Rightarrow> js_string \<Rightarrow> int list" where
  "address_ids st key = (case documentAddresses st key of None \<Rightarrow> [] | Some a \<Rightarrow> ai_ids a)"

definition at_address :: "storage \<Rightarrow> js_string \<Rightarrow> int set" where
  "at_address st key = {i. \<exists>d. documents st i = Some d \<and> record_address_key (ds_record d) = key}"

definition document_inv :: "int \<Rightarrow> storage \<Rightarrow> bool" where
  "document_inv n st \<longleftrightarrow>
     keyed (documents st) (\<lambda>d. doc_id (ds_record d)) \<and>
     (\<forall>d \<in> ran (documents st). document_ok n d) \<and>
     indexes (documentIdsByScope st) (documents st) (\<lambda>d. Some (scope_key (doc_scope (ds_record d)))) \<and>
     (\<forall>key. lists_ids (address_ids st key) (at_address st key))"

definition current_inv :: "storage \<Rightarrow> bool" where
  "current_inv st \<longleftrightarrow>
     (\<forall>key i. current_at st key = Some i \<longleftrightarrow>
        (\<exists>d. documents st i = Some d \<and> record_address_key (ds_record d) = key \<and> alive d))"

definition seqs_below :: "int \<Rightarrow> storage \<Rightarrow> bool" where
  "seqs_below n st \<longleftrightarrow> (\<forall>s \<in> ran (entryCommitSeqs st). s < n)"

definition storage_inv :: "storage \<Rightarrow> bool" where
  "storage_inv st \<longleftrightarrow>
     types_inv st \<and> conversation_inv st \<and> entry_inv st \<and> task_inv st \<and> submission_inv st \<and>
     document_inv (nextSeq st) st \<and> current_inv st \<and> seqs_below (nextSeq st) st"

lemmas inv_defs = types_inv_def conversation_inv_def entry_inv_def task_inv_def submission_inv_def
  document_inv_def current_inv_def seqs_below_def address_ids_def at_address_def

text \<open>While a commit is applied everything but the current documents keeps the invariant.\<close>

definition working_inv :: "int \<Rightarrow> storage \<Rightarrow> bool" where
  "working_inv n st \<longleftrightarrow>
     types_inv st \<and> conversation_inv st \<and> entry_inv st \<and> task_inv st \<and> submission_inv st \<and> document_inv n st"

lemma storage_inv_working: "storage_inv st \<longleftrightarrow> working_inv (nextSeq st) st \<and> current_inv st \<and> seqs_below (nextSeq st) st"
  by (auto simp: storage_inv_def working_inv_def)

lemma in_table_new: "\<not> in_table new_storage t i"
  by (cases t) (simp_all add: new_storage_def)

lemma new_storage_inv: "storage_inv new_storage"
  unfolding storage_inv_def types_inv_def using in_table_new
  by (auto simp: inv_defs new_storage_def request_id_def current_at_def)

section \<open>The record writes of a commit\<close>

lemma in_table_type: "types_inv st \<Longrightarrow> in_table st t i \<longleftrightarrow> recordTypes st i = Some t"
  by (simp add: types_inv_def)

lemma free_id:
  assumes "types_inv st" "recordTypes st i = None"
  shows "conversations st i = None" "entries st i = None" "tasks st i = None" "submissions st i = None"
    "documents st i = None"
  using in_table_type [OF assms(1), of ConversationTable i] in_table_type [OF assms(1), of EntryTable i]
    in_table_type [OF assms(1), of TaskTable i] in_table_type [OF assms(1), of SubmissionTable i]
    in_table_type [OF assms(1), of DocumentTable i] assms(2)
  by simp_all

lemma typed_id:
  assumes "types_inv st" "recordTypes st i = None \<or> recordTypes st i = Some t"
  shows "t \<noteq> ConversationTable \<Longrightarrow> conversations st i = None"
    "t \<noteq> EntryTable \<Longrightarrow> entries st i = None" "t \<noteq> TaskTable \<Longrightarrow> tasks st i = None"
    "t \<noteq> SubmissionTable \<Longrightarrow> submissions st i = None" "t \<noteq> DocumentTable \<Longrightarrow> documents st i = None"
  using in_table_type [OF assms(1), of ConversationTable i] in_table_type [OF assms(1), of EntryTable i]
    in_table_type [OF assms(1), of TaskTable i] in_table_type [OF assms(1), of SubmissionTable i]
    in_table_type [OF assms(1), of DocumentTable i] assms(2)
  by auto

text \<open>Setting a record type, its table and the next ID together keeps the types right.\<close>

lemma types_inv_set:
  assumes "types_inv st" "recordTypes st i = None \<or> recordTypes st i = Some t"
    and "recordTypes st' = (recordTypes st)(i \<mapsto> t)" "nextId st' = max (nextId st) (i + 1)"
    and "\<And>t' j. in_table st' t' j \<longleftrightarrow> (if j = i \<and> t' = t then True else in_table st t' j)"
  shows "types_inv st'"
proof -
  have "recordTypes st' j = Some t' \<longleftrightarrow> in_table st' t' j" for j t'
    using assms(1,2) assms(5) [of t' j] unfolding assms(3) types_inv_def
    by (cases "j = i"; cases "t' = t") (simp_all, metis option.distinct(1) option.inject)
  moreover have "j < nextId st'" if "recordTypes st' j \<noteq> None" for j
    using assms(1) that by (auto simp: assms(3,4) types_inv_def max_def split: if_splits)
  ultimately show ?thesis by (simp add: types_inv_def)
qed

definition same_documents :: "storage \<Rightarrow> storage \<Rightarrow> bool" where
  "same_documents st st' \<longleftrightarrow>
     documents st' = documents st \<and> documentAddresses st' = documentAddresses st \<and>
     documentIdsByScope st' = documentIdsByScope st \<and> nextSeq st' = nextSeq st \<and> closed st' = closed st"

lemma same_documents_refl [simp]: "same_documents st st"
  by (simp add: same_documents_def)

lemma same_documents_trans: "same_documents a b \<Longrightarrow> same_documents b c \<Longrightarrow> same_documents a c"
  by (simp add: same_documents_def)

lemma same_documents_inv: "same_documents st st' \<Longrightarrow> document_inv n st' \<longleftrightarrow> document_inv n st"
  by (simp add: same_documents_def document_inv_def address_ids_def at_address_def)

lemma apply_conversation_frame:
  "same_documents st (apply_conversation c st)"
  "recordTypes (apply_conversation c st) = (recordTypes st)(conv_id c \<mapsto> ConversationTable)"
  "conversations (apply_conversation c st) = (conversations st)(conv_id c \<mapsto> c)"
  "entries (apply_conversation c st) = entries st" "tasks (apply_conversation c st) = tasks st"
  "submissions (apply_conversation c st) = submissions st"
  "nextId (apply_conversation c st) = max (nextId st) (conv_id c + 1)"
  by (simp_all add: apply_conversation_def same_documents_def Let_def split: option.split)

lemma apply_conversation_index:
  "conversationIds (apply_conversation c st) = insert_sorted (conversationIds st) (conv_id c)"
  "conversationIdsByOwnerConversation (apply_conversation c st) =
     (case owning_conversation c of
        None \<Rightarrow> conversationIdsByOwnerConversation st
      | Some k \<Rightarrow> insert_map_id (conversationIdsByOwnerConversation st) k (conv_id c))"
  "conversationIdsByOwnerTask (apply_conversation c st) =
     (case owning_task c of
        None \<Rightarrow> conversationIdsByOwnerTask st
      | Some k \<Rightarrow> insert_map_id (conversationIdsByOwnerTask st) k (conv_id c))"
  by (simp_all add: apply_conversation_def owning_conversation_def owning_task_def Let_def split: option.split)

lemma apply_conversation_inv:
  assumes "working_inv n st" "recordTypes st (conv_id c) = None"
  shows "working_inv n (apply_conversation c st)"
proof -
  let ?st = "apply_conversation c st"
  from assms(1) have inv: "types_inv st" "conversation_inv st" "entry_inv st" "task_inv st"
    "submission_inv st" "document_inv n st" by (simp_all add: working_inv_def)
  note frame = apply_conversation_frame [where c = c and st = st]
  have fresh: "conversations st (conv_id c) = None" by (rule free_id [OF inv(1) assms(2)])
  have "types_inv ?st"
  proof (rule types_inv_set [OF inv(1) _ frame(2,7)])
    show "in_table ?st t j \<longleftrightarrow> (if j = conv_id c \<and> t = ConversationTable then True else in_table st t j)" for t j
      using frame(1) by (cases t) (simp_all add: frame same_documents_def)
  qed (use assms(2) in simp)
  moreover have "conversation_inv ?st"
    using inv(2) unfolding conversation_inv_def frame
    by (simp add: keyed_insert lists_dom_insert indexes_add fresh apply_conversation_index del: dom_fun_upd)
  moreover have "entry_inv ?st" "task_inv ?st" "submission_inv ?st"
    using inv(3-5) by (simp_all add: entry_inv_def task_inv_def submission_inv_def apply_conversation_def Let_def
        split: option.split)
  ultimately show ?thesis
    using inv(6) same_documents_inv [OF frame(1)] by (simp add: working_inv_def)
qed

lemma indexes_add_some:
  assumes "indexes m T key" "T i = None" "key v = Some k"
  shows "indexes (insert_map_id m k i) (T(i \<mapsto> v)) key"
  using indexes_add [OF assms(1,2), of v] assms(3) by simp

lemma apply_entry_frame:
  "same_documents st (apply_entry seq e st)"
  "recordTypes (apply_entry seq e st) = (recordTypes st)(ent_id e \<mapsto> EntryTable)"
  "entries (apply_entry seq e st) = (entries st)(ent_id e \<mapsto> e)"
  "conversations (apply_entry seq e st) = conversations st" "tasks (apply_entry seq e st) = tasks st"
  "submissions (apply_entry seq e st) = submissions st"
  "nextId (apply_entry seq e st) = max (nextId st) (ent_id e + 1)"
  "entryIds (apply_entry seq e st) = insert_map_id (entryIds st) (ent_conversation e) (ent_id e)"
  "headEntryIds (apply_entry seq e st) =
     (case head_key e of None \<Rightarrow> headEntryIds st | Some k \<Rightarrow> insert_map_id (headEntryIds st) k (ent_id e))"
  "entryCommitSeqs (apply_entry seq e st) = (entryCommitSeqs st)(ent_id e \<mapsto> seq)"
  by (simp_all add: apply_entry_def same_documents_def head_key_def Let_def split: option.split)

lemma apply_entry_inv:
  assumes "working_inv n st" "recordTypes st (ent_id e) = None"
  shows "working_inv n (apply_entry seq e st)"
proof -
  let ?st = "apply_entry seq e st"
  from assms(1) have inv: "types_inv st" "conversation_inv st" "entry_inv st" "task_inv st"
    "submission_inv st" "document_inv n st" by (simp_all add: working_inv_def)
  note frame = apply_entry_frame [where e = e and st = st and seq = seq]
  have fresh: "entries st (ent_id e) = None" by (rule free_id [OF inv(1) assms(2)])
  have "types_inv ?st"
  proof (rule types_inv_set [OF inv(1) _ frame(2,7)])
    show "in_table ?st t j \<longleftrightarrow> (if j = ent_id e \<and> t = EntryTable then True else in_table st t j)" for t j
      using frame(1) by (cases t) (simp_all add: frame same_documents_def)
  qed (use assms(2) in simp)
  moreover have "entry_inv ?st"
    using inv(3) unfolding entry_inv_def frame
    by (simp add: keyed_insert indexes_add indexes_add_some fresh)
  moreover have "conversation_inv ?st" "task_inv ?st" "submission_inv ?st"
    using inv(2,4,5) by (simp_all add: conversation_inv_def task_inv_def submission_inv_def apply_entry_def Let_def
        split: option.split)
  ultimately show ?thesis
    using inv(6) same_documents_inv [OF frame(1)] by (simp add: working_inv_def)
qed

lemma apply_task_frame:
  "same_documents st (apply_task t st)"
  "recordTypes (apply_task t st) = (recordTypes st)(task_id t \<mapsto> TaskTable)"
  "tasks (apply_task t st) = (tasks st)(task_id t \<mapsto> t)"
  "conversations (apply_task t st) = conversations st" "entries (apply_task t st) = entries st"
  "submissions (apply_task t st) = submissions st"
  "nextId (apply_task t st) = max (nextId st) (task_id t + 1)"
  by (simp_all add: apply_task_def same_documents_def Let_def split: option.split)

lemma apply_task_index:
  "taskIds (apply_task t st) =
     (if tasks st (task_id t) = None then insert_sorted (taskIds st) (task_id t) else taskIds st)"
  "taskIdsByStatus (apply_task t st) s =
     (case tasks st (task_id t) of
        None \<Rightarrow> if s = stored_status t then insert_sorted (taskIdsByStatus st s) (task_id t) else taskIdsByStatus st s
      | Some p \<Rightarrow>
          if stored_status p = stored_status t then taskIdsByStatus st s
          else if s = stored_status t then insert_sorted (taskIdsByStatus st s) (task_id t)
          else if s = stored_status p then remove_sorted (taskIdsByStatus st s) (task_id t)
          else taskIdsByStatus st s)"
  by (auto simp: apply_task_def Let_def split: option.split)

lemma apply_task_inv:
  assumes "working_inv n st" "recordTypes st (task_id t) = None \<or> recordTypes st (task_id t) = Some TaskTable"
  shows "working_inv n (apply_task t st)"
proof -
  let ?st = "apply_task t st"
  from assms(1) have inv: "types_inv st" "conversation_inv st" "entry_inv st" "task_inv st"
    "submission_inv st" "document_inv n st" by (simp_all add: working_inv_def)
  note frame = apply_task_frame [where t = t and st = st]
  have "types_inv ?st"
  proof (rule types_inv_set [OF inv(1) assms(2) frame(2,7)])
    show "in_table ?st u j \<longleftrightarrow> (if j = task_id t \<and> u = TaskTable then True else in_table st u j)" for u j
      using frame(1) by (cases u) (simp_all add: frame same_documents_def)
  qed
  moreover have "task_inv ?st"
  proof -
    have by_status: "lists_ids (taskIdsByStatus st s) {i. \<exists>u. tasks st i = Some u \<and> stored_status u = s}" for s
      using inv(4) by (simp add: task_inv_def)
    have "lists_ids (taskIdsByStatus ?st s) {i. \<exists>u. tasks ?st i = Some u \<and> stored_status u = s}" for s
    proof (cases "tasks st (task_id t)")
      case None
      then have "{i. \<exists>u. tasks ?st i = Some u \<and> stored_status u = s} =
          (if s = stored_status t then insert (task_id t) else id) {i. \<exists>u. tasks st i = Some u \<and> stored_status u = s}"
        by (auto simp: frame)
      with None by_status [of s] show ?thesis
        by (cases "s = stored_status t") (auto simp: apply_task_index intro!: insert_sorted_ids)
    next
      case (Some p)
      have "{i. \<exists>u. tasks ?st i = Some u \<and> stored_status u = s} =
          (if s = stored_status t then insert (task_id t) {i. \<exists>u. tasks st i = Some u \<and> stored_status u = s}
           else {i. \<exists>u. tasks st i = Some u \<and> stored_status u = s} - {task_id t})"
        by (auto simp: frame)
      moreover from Some have "task_id t \<in> {i. \<exists>u. tasks st i = Some u \<and> stored_status u = s} \<longleftrightarrow> s = stored_status p"
        by auto
      ultimately show ?thesis
        using Some by_status [of s] by (auto simp: apply_task_index insert_sorted_ids remove_sorted_ids insert_absorb)
    qed
    moreover have "lists_ids (taskIds ?st) (dom (tasks ?st))"
      using inv(4) lists_dom_insert [of "taskIds st" "tasks st" "task_id t" t]
      by (auto simp: task_inv_def apply_task_index frame insert_absorb domIff)
    moreover have "keyed (tasks ?st) task_id"
      using inv(4) by (simp add: task_inv_def frame keyed_insert)
    ultimately show ?thesis by (simp add: task_inv_def)
  qed
  moreover have "conversation_inv ?st" "entry_inv ?st" "submission_inv ?st"
    using inv(2,3,5) by (simp_all add: conversation_inv_def entry_inv_def submission_inv_def apply_task_def Let_def
        split: option.split)
  ultimately show ?thesis
    using inv(6) same_documents_inv [OF frame(1)] by (simp add: working_inv_def)
qed

lemma map_of_deleted_last: "AList.delete k xs = [] \<Longrightarrow> r \<noteq> k \<Longrightarrow> map_of xs r = None"
  using fun_cong [OF delete_conv' [of k xs], of r] by simp

lemma request_id_drop:
  "request_id (drop_request i p index) c r =
     (if sub_request p = Some r \<and> sub_conversation p = c \<and> request_id index c r = Some i then None
      else request_id index c r)"
  by (auto simp: drop_request_def request_id_def Let_def delete_conv' map_of_deleted_last
      split: option.splits if_splits)

lemma request_id_add:
  "request_id (add_request i v index) c r =
     (if sub_request v = Some r \<and> sub_conversation v = c then Some i else request_id index c r)"
  by (auto simp: add_request_def request_id_def update_conv' split: option.splits)

lemma apply_submission_frame:
  "same_documents st (apply_submission s st)"
  "recordTypes (apply_submission s st) = (recordTypes st)(sub_id s \<mapsto> SubmissionTable)"
  "submissions (apply_submission s st) = (submissions st)(sub_id s \<mapsto> s)"
  "conversations (apply_submission s st) = conversations st" "entries (apply_submission s st) = entries st"
  "tasks (apply_submission s st) = tasks st"
  "nextId (apply_submission s st) = max (nextId st) (sub_id s + 1)"
  by (simp_all add: apply_submission_def same_documents_def Let_def)

text \<open>The request index after a write: the new request, and the old ones that another submission holds.\<close>

lemma apply_submission_requests:
  "request_id (submissionIdsByRequest (apply_submission s st)) c r =
     (if sub_request s = Some r \<and> sub_conversation s = c then Some (sub_id s)
      else case submissions st (sub_id s) of
        None \<Rightarrow> request_id (submissionIdsByRequest st) c r
      | Some p \<Rightarrow>
          if sub_request p = Some r \<and> sub_conversation p = c \<and>
             request_id (submissionIdsByRequest st) c r = Some (sub_id s) then None
          else request_id (submissionIdsByRequest st) c r)"
  by (simp add: apply_submission_def Let_def request_id_add request_id_drop split: option.split)

lemma apply_submission_inv:
  assumes "working_inv n st"
    and "recordTypes st (sub_id s) = None \<or> recordTypes st (sub_id s) = Some SubmissionTable"
  shows "working_inv n (apply_submission s st)"
proof -
  let ?st = "apply_submission s st"
  from assms(1) have inv: "types_inv st" "conversation_inv st" "entry_inv st" "task_inv st"
    "submission_inv st" "document_inv n st" by (simp_all add: working_inv_def)
  note frame = apply_submission_frame [where s = s and st = st]
  have "types_inv ?st"
  proof (rule types_inv_set [OF inv(1) assms(2) frame(2,7)])
    show "in_table ?st u j \<longleftrightarrow> (if j = sub_id s \<and> u = SubmissionTable then True else in_table st u j)" for u j
      using frame(1) by (cases u) (simp_all add: frame same_documents_def)
  qed
  moreover have "submission_inv ?st"
  proof -
    have old: "\<exists>v. submissions st i = Some v \<and> sub_conversation v = c \<and> sub_request v = Some r"
      if "request_id (submissionIdsByRequest st) c r = Some i" for c r i
      using inv(5) that by (simp add: submission_inv_def)
    have "\<exists>v. submissions ?st i = Some v \<and> sub_conversation v = c \<and> sub_request v = Some r"
      if "request_id (submissionIdsByRequest ?st) c r = Some i" for c r i
      using that old [of c r i] unfolding apply_submission_requests frame
      by (auto split: if_splits option.splits)
    moreover have "keyed (submissions ?st) sub_id"
      using inv(5) by (simp add: submission_inv_def frame keyed_insert)
    ultimately show ?thesis by (simp add: submission_inv_def)
  qed
  moreover have "conversation_inv ?st" "entry_inv ?st" "task_inv ?st"
    using inv(2-4) by (simp_all add: conversation_inv_def entry_inv_def task_inv_def apply_submission_def Let_def)
  ultimately show ?thesis
    using inv(6) same_documents_inv [OF frame(1)] by (simp add: working_inv_def)
qed

end
