(* ===== verification/MemoryCommit.thy ===== *)
theory MemoryCommit
  imports MemoryInvariant
begin

text \<open>
  A commit of \<open>MemoryStorage\<close> is all or nothing: once \<open>prepareCommit\<close> has accepted the writes, applying
  them cannot fail and keeps the invariant.  First the claims of IDs and the record writes, then the
  document actions, then the current document of each address.
\<close>

section \<open>Claims\<close>

definition taken :: "storage \<Rightarrow> (int \<Rightarrow> table option) \<Rightarrow> int \<Rightarrow> table option" where
  "taken st claimed = recordTypes st ++ claimed"

lemma check_claim_taken:
  assumes "check_claim st w claimed = Inr claimed'" "claim w = Some (t, i)"
  shows "taken st claimed' = (taken st claimed)(i \<mapsto> t)"
    and "create_only t \<Longrightarrow> taken st claimed i = None"
    and "taken st claimed i = None \<or> taken st claimed i = Some t"
  using assms by (auto simp: check_claim_def taken_def map_add_def split: if_splits option.splits)

lemma check_claim_none: "check_claim st w claimed = Inr claimed' \<Longrightarrow> claim w = None \<Longrightarrow> claimed' = claimed"
  by (simp add: check_claim_def)

lemma check_claim_mono:
  assumes "check_claim st w claimed = Inr claimed'"
  shows "claimed \<subseteq>\<^sub>m claimed'"
  using assms by (auto simp: check_claim_def map_le_def dom_def split: option.splits prod.splits if_splits)

lemma check_claims_mono: "rfold (check_claim st) ws claimed = Inr claimed' \<Longrightarrow> claimed \<subseteq>\<^sub>m claimed'"
proof (induction ws arbitrary: claimed)
  case (Cons w ws)
  then show ?case by (auto simp: res_simps intro: map_le_trans check_claim_mono)
qed simp

text \<open>A create claims an ID that no record had.\<close>

lemma check_claims_create:
  assumes "rfold (check_claim st) ws claimed = Inr claimed'" "w \<in> set ws" "claim w = Some (t, i)" "create_only t"
  shows "recordTypes st i = None \<and> claimed' i = Some t"
  using assms(1,2)
proof (induction ws arbitrary: claimed)
  case (Cons v ws)
  from Cons.prems(1) obtain c where c: "check_claim st v claimed = Inr c" "rfold (check_claim st) ws c = Inr claimed'"
    by (auto simp: res_simps)
  show ?case
  proof (cases "v = w")
    case True
    with c(1) assms(3,4) have "recordTypes st i = None \<and> c i = Some t"
      by (auto simp: check_claim_def split: option.splits if_splits)
    with check_claims_mono [OF c(2)] show ?thesis by (auto simp: map_le_def dom_def)
  next
    case False
    with Cons.prems(2) Cons.IH [OF c(2)] show ?thesis by simp
  qed
qed simp

section \<open>The record writes\<close>

lemma apply_write_inv:
  assumes "check_claim st0 w claimed = Inr claimed'" "\<not> is_copy w"
    and "working_inv n st" "recordTypes st \<subseteq>\<^sub>m taken st0 claimed"
  shows "\<exists>st'. apply_write seq w st = Inr st' \<and> working_inv n st' \<and> same_documents st st' \<and>
    recordTypes st' \<subseteq>\<^sub>m taken st0 claimed'"
proof -
  have free: "recordTypes st i = None" if "taken st0 claimed i = None" for i
    using assms(4) that by (auto simp: map_le_def dom_def)
  have free': "recordTypes st i = None \<or> recordTypes st i = Some t"
    if "taken st0 claimed i = None \<or> taken st0 claimed i = Some t" for i t
    using assms(4) that by (fastforce simp: map_le_def dom_def)
  have le: "(recordTypes st)(i \<mapsto> t) \<subseteq>\<^sub>m (taken st0 claimed)(i \<mapsto> t)" for i t
    using assms(4) by (rule map_le_upd)
  have doc: "recordTypes st \<subseteq>\<^sub>m (taken st0 claimed)(i \<mapsto> t)" if "taken st0 claimed i = None" for i t
    using assms(4) free [OF that] by (auto simp: map_le_def dom_def)
  note ct = check_claim_taken [OF assms(1)]
  show ?thesis
  proof (cases w)
    case (WConversation c)
    with ct [of ConversationTable "conv_id c"] assms(3) free le show ?thesis
      by (simp add: apply_conversation_inv apply_conversation_frame)
  next
    case (WEntry e)
    with ct [of EntryTable "ent_id e"] assms(3) free le show ?thesis
      by (simp add: apply_entry_inv apply_entry_frame)
  next
    case (WTask t)
    with ct [of TaskTable "task_id t"] assms(3) free' [of "task_id t" TaskTable] le show ?thesis
      by (simp add: apply_task_inv apply_task_frame)
  next
    case (WSubmission s)
    with ct [of SubmissionTable "sub_id s"] assms(3) free' [of "sub_id s" SubmissionTable] le show ?thesis
      by (simp add: apply_submission_inv apply_submission_frame)
  next
    case (WDocCreate r v x)
    with ct [of DocumentTable "doc_id r"] assms(3) doc show ?thesis by simp
  qed (use assms check_claim_none [OF assms(1)] in auto)
qed

lemma writes_inv:
  assumes "rfold (check_claim st0) ws claimed = Inr claimed'" "\<not> list_ex is_copy ws"
    and "working_inv n st" "recordTypes st \<subseteq>\<^sub>m taken st0 claimed"
  shows "\<exists>st'. rfold (apply_write seq) ws st = Inr st' \<and> working_inv n st' \<and> same_documents st st' \<and>
    recordTypes st' \<subseteq>\<^sub>m taken st0 claimed'"
  using assms
proof (induction ws arbitrary: claimed st)
  case (Cons w ws)
  from Cons.prems(1) obtain c where c: "check_claim st0 w claimed = Inr c" "rfold (check_claim st0) ws c = Inr claimed'"
    by (auto simp: res_simps)
  from apply_write_inv [OF c(1) _ Cons.prems(3,4), of seq] Cons.prems(2) obtain st1
    where st1: "apply_write seq w st = Inr st1" "working_inv n st1" "same_documents st st1"
      "recordTypes st1 \<subseteq>\<^sub>m taken st0 c" by auto
  from Cons.IH [OF c(2) _ st1(2,4)] Cons.prems(2) st1(1,3) show ?case
    by (auto intro: same_documents_trans)
qed simp

lemma typed_below: "types_inv st \<Longrightarrow> recordTypes st i = Some t \<Longrightarrow> i < nextId st"
  unfolding types_inv_def by blast

section \<open>Revisions\<close>

lemma chained_snoc:
  "chained (rs @ [q]) \<longleftrightarrow> chained rs \<and>
     (rs \<noteq> [] \<longrightarrow> snd (last rs) < snd q \<and>
       (is_base_content (fst q) \<or> content_version (fst q) = content_version (fst (last rs))))"
  by (induction rs rule: chained.induct) auto

lemma revisions_ok_snoc:
  assumes "revisions_ok rs" "snd (last rs) < seq"
    and "is_base_content c \<or> content_version c = content_version (fst (last rs))"
  shows "revisions_ok (rs @ [(c, seq)])"
  using assms by (auto simp: revisions_ok_def chained_snoc hd_append)

lemma document_ok_mono: "document_ok n d \<Longrightarrow> n \<le> m \<Longrightarrow> document_ok m d"
  by (auto simp: document_ok_def)

text \<open>What a document becomes under its action.\<close>

definition final_document :: "int \<Rightarrow> document_action \<Rightarrow> document_state option \<Rightarrow> document_state" where
  "final_document seq a old =
     retire_document seq a
       (case act_create a of
          Some r \<Rightarrow> \<lparr>ds_record = stamp r seq (act_retire a), ds_revisions = [(the (act_content a), seq)]\<rparr>
        | None \<Rightarrow> (case act_content a of None \<Rightarrow> the old | Some c \<Rightarrow> change_document seq c (the old)))"

text \<open>What \<open>checkDocumentActions\<close> has established of one action.\<close>

fun action_ok :: "int \<Rightarrow> storage \<Rightarrow> int \<times> document_action \<Rightarrow> bool" where
  "action_ok seq st (i, a) =
     (case act_create a of
        Some r \<Rightarrow>
          recordTypes st i = None \<and> doc_id r = i \<and> (\<exists>v x. act_content a = Some (BaseContent v x))
      | None \<Rightarrow>
          (\<exists>d. documents st i = Some d \<and> alive d \<and> document_ok seq d \<and>
            (\<forall>c. act_content a = Some c \<longrightarrow> is_base_content c \<or>
               content_version c = content_version (fst (last (ds_revisions d))))))"

lemma stamp_simps [simp]:
  "doc_id (stamp r seq b) = doc_id r" "doc_kind (stamp r seq b) = doc_kind r" "doc_key (stamp r seq b) = doc_key r"
  "doc_scope (stamp r seq b) = doc_scope r" "doc_history (stamp r seq b) = doc_history r"
  "doc_fork (stamp r seq b) = doc_fork r" "doc_created (stamp r seq b) = seq"
  "doc_retired (stamp r seq b) = (if b then Some seq else None)"
  by (simp_all add: stamp_def document_create.extend_def document_record.fields_def)

lemma retire_record:
  "doc_id (ds_record (retire_document seq a d)) = doc_id (ds_record d)"
  "doc_scope (ds_record (retire_document seq a d)) = doc_scope (ds_record d)"
  "record_address_key (ds_record (retire_document seq a d)) = record_address_key (ds_record d)"
  "is_current_only (ds_record (retire_document seq a d)) = is_current_only (ds_record d)"
  by (simp_all add: retire_document_def Let_def record_address_key_def record_address_def is_current_only_def)

lemma change_record [simp]: "ds_record (change_document seq c d) = ds_record d"
  by (simp add: change_document_def)

lemma final_create:
  assumes "act_create a = Some r"
  shows "doc_id (ds_record (final_document seq a old)) = doc_id r"
    "doc_scope (ds_record (final_document seq a old)) = doc_scope r"
    "record_address_key (ds_record (final_document seq a old)) = record_address_key r"
    "alive (final_document seq a old) \<longleftrightarrow> \<not> act_retire a"
  using assms
  by (auto simp: final_document_def retire_document_def Let_def alive_def record_address_key_def record_address_def)

lemma final_change:
  assumes "act_create a = None"
  shows "doc_id (ds_record (final_document seq a (Some d))) = doc_id (ds_record d)"
    "doc_scope (ds_record (final_document seq a (Some d))) = doc_scope (ds_record d)"
    "record_address_key (ds_record (final_document seq a (Some d))) = record_address_key (ds_record d)"
    "alive (final_document seq a (Some d)) \<longleftrightarrow> alive d \<and> \<not> act_retire a"
  using assms
  by (simp_all add: final_document_def retire_record split: option.split)
    (auto simp: alive_def retire_document_def Let_def split: option.split)

lemma final_create_ok:
  assumes "act_create a = Some r" "act_content a = Some (BaseContent v x)"
  shows "document_ok (seq + 1) (final_document seq a old)"
proof (cases "act_retire a")
  case True
  with assms show ?thesis
    by (simp add: document_ok_def final_document_def retire_document_def Let_def revisions_ok_def)
next
  case False
  with assms show ?thesis
    by (simp add: document_ok_def final_document_def retire_document_def Let_def revisions_ok_def)
qed

lemma change_document_ok:
  assumes "document_ok seq d" "alive d"
    and "is_base_content c \<or> content_version c = content_version (fst (last (ds_revisions d)))"
  shows "document_ok (seq + 1) (change_document seq c d)"
proof -
  from assms(1,2) have d: "revisions_ok (ds_revisions d)" "snd (last (ds_revisions d)) < seq"
    "is_current_only (ds_record d) \<or> snd (hd (ds_revisions d)) = doc_created (ds_record d)"
    "doc_created (ds_record d) < seq"
    by (auto simp: document_ok_def alive_def)
  from revisions_ok_snoc [OF d(1,2) assms(3)] d assms(2) show ?thesis
    by (auto simp: document_ok_def change_document_def alive_def revisions_ok_def)
qed

lemma final_change_ok:
  assumes "act_create a = None" "document_ok seq d" "alive d"
    and "\<And>c. act_content a = Some c \<Longrightarrow>
      is_base_content c \<or> content_version c = content_version (fst (last (ds_revisions d)))"
  shows "document_ok (seq + 1) (final_document seq a (Some d))"
proof -
  let ?d = "case act_content a of None \<Rightarrow> d | Some c \<Rightarrow> change_document seq c d"
  have "document_ok (seq + 1) ?d" "alive ?d"
    using assms change_document_ok [OF assms(2,3)] document_ok_mono [OF assms(2), of "seq + 1"]
    by (auto simp: alive_def split: option.split)
  moreover have "doc_created (ds_record ?d) < seq"
    using assms(2) by (auto simp: document_ok_def split: option.split)
  ultimately have "document_ok (seq + 1) (retire_document seq a ?d)"
    using assms(1) by (auto simp: document_ok_def retire_document_def Let_def alive_def is_current_only_def)
  with assms(1) show ?thesis by (cases "act_content a") (simp_all add: final_document_def)
qed

section \<open>One document action\<close>

text \<open>The parts of the state that an action leaves alone.\<close>

definition same_records :: "storage \<Rightarrow> storage \<Rightarrow> bool" where
  "same_records st st' \<longleftrightarrow>
     conversations st' = conversations st \<and> conversationIds st' = conversationIds st \<and>
     conversationIdsByOwnerConversation st' = conversationIdsByOwnerConversation st \<and>
     conversationIdsByOwnerTask st' = conversationIdsByOwnerTask st \<and>
     entries st' = entries st \<and> entryIds st' = entryIds st \<and> headEntryIds st' = headEntryIds st \<and>
     entryCommitSeqs st' = entryCommitSeqs st \<and> tasks st' = tasks st \<and> taskIds st' = taskIds st \<and>
     taskIdsByStatus st' = taskIdsByStatus st \<and> submissions st' = submissions st \<and>
     submissionIdsByRequest st' = submissionIdsByRequest st \<and> nextSeq st' = nextSeq st \<and> closed st' = closed st"

lemma same_records_refl [simp]: "same_records st st"
  by (simp add: same_records_def)

lemma same_records_trans: "same_records a b \<Longrightarrow> same_records b c \<Longrightarrow> same_records a c"
  by (simp add: same_records_def)

lemma same_records_inv:
  assumes "same_records st st'"
  shows "conversation_inv st' \<longleftrightarrow> conversation_inv st" "entry_inv st' \<longleftrightarrow> entry_inv st"
    "task_inv st' \<longleftrightarrow> task_inv st" "submission_inv st' \<longleftrightarrow> submission_inv st"
    "seqs_below n st' \<longleftrightarrow> seqs_below n st"
  using assms by (simp_all add: same_records_def conversation_inv_def entry_inv_def task_inv_def submission_inv_def
      seqs_below_def)

text \<open>The current document of an address after an action on a document at that address.\<close>

definition next_current :: "int \<Rightarrow> document_action \<Rightarrow> int option \<Rightarrow> int option" where
  "next_current i a cur =
     (if act_create a \<noteq> None \<and> \<not> act_retire a then Some i
      else if act_retire a \<and> cur = Some i then None else cur)"

text \<open>What one action does to the state, as a relation between the states before and after.\<close>

definition acted :: "int \<Rightarrow> int \<Rightarrow> document_action \<Rightarrow> storage \<Rightarrow> storage \<Rightarrow> bool" where
  "acted seq i a st st' \<longleftrightarrow>
     same_records st st' \<and>
     documents st' = (documents st)(i \<mapsto> final_document seq a (documents st i)) \<and>
     recordTypes st' = (recordTypes st)(i \<mapsto> DocumentTable) \<and>
     (let key = record_address_key (ds_record (final_document seq a (documents st i))) in
      \<forall>k. current_at st' k = (if k = key then next_current i a (current_at st k) else current_at st k))"

lemma final_create_eq:
  assumes "act_create a = Some r"
  shows "retire_document seq a (fst (create_document seq i a r st)) = final_document seq a old"
  using assms by (simp add: final_document_def create_document_def Let_def)

lemma set_current_ids [simp]: "ai_ids (set_current i a address) = ai_ids address"
  by (simp add: set_current_def Let_def)

lemma set_current_current: "ai_current (set_current i a address) = next_current i a (ai_current address)"
  by (auto simp: set_current_def next_current_def Let_def)

text \<open>Creation: the state after it, field by field.\<close>

lemma apply_create:
  assumes "act_create a = Some r"
  obtains st' where "apply_action seq (i, a) st = Inr st'" "acted seq i a st st'"
    "nextId st' = max (nextId st) (i + 1)"
    "documentIdsByScope st' = insert_map_id (documentIdsByScope st) (scope_key (doc_scope r)) i"
    "\<And>k. address_ids st' k =
       (if k = record_address_key r then insert_sorted (address_ids st k) i else address_ids st k)"
proof -
  let ?f = "final_document seq a (documents st i)"
  obtain stored st1 where c: "create_document seq i a r st = (stored, st1)" by (cases "create_document seq i a r st") auto
  from final_create_eq [OF assms, of seq i st "documents st i"] c have f: "retire_document seq a stored = ?f" by simp
  have key: "record_address_key (ds_record ?f) = record_address_key r" using final_create(3) [OF assms] by simp
  define old where "old = (case documentAddresses st (record_address_key r) of
      None \<Rightarrow> \<lparr>ai_ids = [], ai_current = None\<rparr> | Some x \<Rightarrow> x)"
  define x where "x = old\<lparr>ai_ids := insert_sorted (ai_ids old) i\<rparr>"
  have old: "ai_ids old = address_ids st (record_address_key r)" "ai_current old = current_at st (record_address_key r)"
    by (simp_all add: old_def address_ids_def current_at_def split: option.split)
  have stamped: "record_address_key (stamp r seq b) = record_address_key r" for b
    by (simp add: record_address_key_def record_address_def)
  have addresses: "documentAddresses st1 = (documentAddresses st)(record_address_key r \<mapsto> x)"
    using c by (auto simp: create_document_def Let_def stamped x_def old_def)
  have x: "documentAddresses st1 (record_address_key r) = Some x"
    "ai_ids x = insert_sorted (address_ids st (record_address_key r)) i"
    "ai_current x = current_at st (record_address_key r)"
    "\<And>k. k \<noteq> record_address_key r \<Longrightarrow> documentAddresses st1 k = documentAddresses st k"
    by (simp_all add: addresses old x_def)
  let ?st = "st1\<lparr>documents := (documents st1)(i \<mapsto> ?f),
      documentAddresses := (documentAddresses st1)(record_address_key r \<mapsto> set_current i a x)\<rparr>"
  have st1: "same_records st st1" "recordTypes st1 = (recordTypes st)(i \<mapsto> DocumentTable)"
    "(documents st1)(i \<mapsto> ?f) = (documents st)(i \<mapsto> ?f)" "nextId st1 = max (nextId st) (i + 1)"
    "documentIdsByScope st1 = insert_map_id (documentIdsByScope st) (scope_key (doc_scope r)) i"
    using c by (auto simp: create_document_def Let_def same_records_def)
  show thesis
  proof (rule that)
    show "apply_action seq (i, a) st = Inr ?st"
      using assms x(1) by (simp add: apply_action_def c f key Let_def)
    show "acted seq i a st ?st"
      using st1 x by (auto simp: acted_def key current_at_def set_current_current same_records_def Let_def)
    show "nextId ?st = max (nextId st) (i + 1)" using st1(4) by simp
    show "documentIdsByScope ?st = insert_map_id (documentIdsByScope st) (scope_key (doc_scope r)) i"
      using st1(5) by simp
    show "address_ids ?st k =
        (if k = record_address_key r then insert_sorted (address_ids st k) i else address_ids st k)" for k
      using x by (simp add: address_ids_def)
  qed
qed

text \<open>A change or a retirement: only the document and, on retirement, the current document move.\<close>

lemma apply_change:
  assumes "act_create a = None" "documents st i = Some d" "types_inv st" "document_inv n st"
  obtains st' where "apply_action seq (i, a) st = Inr st'" "acted seq i a st st'"
    "nextId st' = nextId st" "documentIdsByScope st' = documentIdsByScope st"
    "\<And>k. address_ids st' k = address_ids st k"
proof -
  let ?f = "final_document seq a (documents st i)" and ?key = "record_address_key (ds_record d)"
  let ?st1 = "st\<lparr>documents := (documents st)(i \<mapsto> ?f)\<rparr>"
  have f: "?f = retire_document seq a (case act_content a of None \<Rightarrow> d | Some c \<Rightarrow> change_document seq c d)"
    using assms(1,2) by (simp add: final_document_def split: option.split)
  have key: "record_address_key (ds_record ?f) = ?key"
    using final_change(3) [OF assms(1)] assms(2) by simp
  have typed: "(recordTypes st)(i \<mapsto> DocumentTable) = recordTypes st"
    using in_table_type [OF assms(3), of DocumentTable i] assms(2) by auto
  from assms(2) have "i \<in> at_address st ?key" by (auto simp: at_address_def)
  with assms(4) have "i \<in> set (address_ids st ?key)" by (simp add: document_inv_def lists_ids_def)
  then obtain x where x: "documentAddresses st ?key = Some x"
    by (cases "documentAddresses st ?key") (auto simp: address_ids_def)
  show thesis
  proof (cases "act_retire a")
    case False
    with assms(1) have "next_current i a cur = cur" for cur by (simp add: next_current_def)
    with assms(1,2) False key show thesis
      by (intro that [of ?st1])
        (simp_all add: apply_action_def f [symmetric] acted_def same_records_def typed current_at_def address_ids_def
          Let_def)
  next
    case True
    let ?st = "?st1\<lparr>documentAddresses := (documentAddresses st)(?key \<mapsto> set_current i a x)\<rparr>"
    show thesis
    proof (rule that)
      show "apply_action seq (i, a) st = Inr ?st"
        using assms(1,2) True x key by (simp add: apply_action_def f [symmetric] Let_def)
      show "acted seq i a st ?st"
        using x by (simp add: acted_def same_records_def typed key current_at_def set_current_current Let_def)
      show "address_ids ?st k = address_ids st k" for k
        using x by (simp add: address_ids_def)
    qed simp_all
  qed
qed

lemma ran_upd_all: "\<forall>d \<in> ran T. P d \<Longrightarrow> P v \<Longrightarrow> \<forall>d \<in> ran (T(i \<mapsto> v)). P d"
  by (auto simp: ran_def split: if_splits)

text \<open>An action that passed its check is applied, and everything but the current documents stays right.\<close>

lemma apply_action_inv:
  assumes "working_inv (seq + 1) st" "action_ok seq st (i, a)"
  shows "\<exists>st'. apply_action seq (i, a) st = Inr st' \<and> acted seq i a st st' \<and> working_inv (seq + 1) st'"
proof -
  let ?f = "final_document seq a (documents st i)"
  from assms(1) have inv: "types_inv st" "conversation_inv st" "entry_inv st" "task_inv st" "submission_inv st"
    and doc: "document_inv (seq + 1) st" by (simp_all add: working_inv_def)
  from doc have docs: "keyed (documents st) (\<lambda>d. doc_id (ds_record d))"
    "\<forall>d \<in> ran (documents st). document_ok (seq + 1) d"
    "indexes (documentIdsByScope st) (documents st) (\<lambda>d. Some (scope_key (doc_scope (ds_record d))))"
    "\<And>k. lists_ids (address_ids st k) (at_address st k)"
    by (simp_all add: document_inv_def)
  have wrap: "working_inv (seq + 1) st'" if "acted seq i a st st'" "types_inv st'" "document_inv (seq + 1) st'" for st'
    using that(2,3) inv same_records_inv [of st st'] that(1) by (simp add: working_inv_def acted_def Let_def)
  have types: "types_inv st'"
    if "acted seq i a st st'" "nextId st' = max (nextId st) (i + 1)"
      "recordTypes st i = None \<or> recordTypes st i = Some DocumentTable" for st'
  proof (rule types_inv_set [OF inv(1) that(3) _ that(2)])
    show "recordTypes st' = (recordTypes st)(i \<mapsto> DocumentTable)" using that(1) by (simp add: acted_def)
    show "in_table st' t j \<longleftrightarrow> (if j = i \<and> t = DocumentTable then True else in_table st t j)" for t j
      using that(1) by (cases t) (simp_all add: acted_def same_records_def)
  qed
  show ?thesis
  proof (cases "act_create a")
    case (Some r)
    with assms(2) obtain v x where a: "recordTypes st i = None" "doc_id r = i" "act_content a = Some (BaseContent v x)"
      by auto
    have fresh: "documents st i = None" by (rule free_id [OF inv(1) a(1)])
    obtain st' where st': "apply_action seq (i, a) st = Inr st'" "acted seq i a st st'"
      "nextId st' = max (nextId st) (i + 1)"
      "documentIdsByScope st' = insert_map_id (documentIdsByScope st) (scope_key (doc_scope r)) i"
      "\<And>k. address_ids st' k =
         (if k = record_address_key r then insert_sorted (address_ids st k) i else address_ids st k)"
      using apply_create [OF Some] by metis
    have upd: "documents st' = (documents st)(i \<mapsto> ?f)" using st'(2) by (simp add: acted_def)
    have "at_address st' k = (if k = record_address_key r then insert i (at_address st k) else at_address st k)" for k
      using fresh final_create(3) [OF Some] by (auto simp: at_address_def upd)
    moreover have "i \<notin> at_address st k" for k using fresh by (simp add: at_address_def)
    ultimately have "lists_ids (address_ids st' k) (at_address st' k)" for k
      using docs(4) [of k] by (cases "k = record_address_key r") (simp_all add: st'(5) insert_sorted_ids)
    moreover have "indexes (documentIdsByScope st') (documents st') (\<lambda>d. Some (scope_key (doc_scope (ds_record d))))"
      unfolding st'(4) upd by (rule indexes_add_some [OF docs(3) fresh]) (simp add: final_create(2) [OF Some])
    moreover have "keyed (documents st') (\<lambda>d. doc_id (ds_record d))"
      unfolding upd by (rule keyed_insert [OF docs(1)]) (simp add: final_create(1) [OF Some] a(2))
    moreover have "\<forall>d \<in> ran (documents st'). document_ok (seq + 1) d"
      unfolding upd by (rule ran_upd_all [OF docs(2)]) (rule final_create_ok [OF Some a(3)])
    ultimately have "document_inv (seq + 1) st'" by (simp add: document_inv_def)
    with wrap [OF st'(2) types [OF st'(2,3)]] a(1) st'(1,2) show ?thesis by auto
  next
    case None
    with assms(2) obtain d where d: "documents st i = Some d" "alive d" "document_ok seq d"
      "\<And>c. act_content a = Some c \<Longrightarrow>
        is_base_content c \<or> content_version c = content_version (fst (last (ds_revisions d)))"
      by auto
    obtain st' where st': "apply_action seq (i, a) st = Inr st'" "acted seq i a st st'"
      "nextId st' = nextId st" "documentIdsByScope st' = documentIdsByScope st"
      "\<And>k. address_ids st' k = address_ids st k"
      using apply_change [OF None d(1) inv(1) doc] by metis
    have upd: "documents st' = (documents st)(i \<mapsto> final_document seq a (Some d))"
      using st'(2) d(1) by (simp add: acted_def)
    note same = final_change [OF None, of seq d]
    have typed: "recordTypes st i = Some DocumentTable"
      using in_table_type [OF inv(1), of DocumentTable i] d(1) by simp
    then have "nextId st' = max (nextId st) (i + 1)"
      using typed_below [OF inv(1) typed] by (simp add: st'(3))
    with typed have "types_inv st'" by (intro types [OF st'(2)]) simp_all
    moreover have "at_address st' k = at_address st k" for k
      using d(1) same(3) by (auto simp: at_address_def upd)
    moreover have "indexes (documentIdsByScope st') (documents st') (\<lambda>d. Some (scope_key (doc_scope (ds_record d))))"
      unfolding st'(4) upd by (rule indexes_same_key [OF docs(3) d(1)]) (simp add: same(2))
    moreover have "keyed (documents st') (\<lambda>d. doc_id (ds_record d))"
      unfolding upd by (rule keyed_insert [OF docs(1)]) (simp add: same(1) keyedD [OF docs(1) d(1)])
    moreover have "\<forall>d \<in> ran (documents st'). document_ok (seq + 1) d"
      unfolding upd by (rule ran_upd_all [OF docs(2)]) (rule final_change_ok [OF None d(3,2,4)])
    ultimately have "types_inv st' \<and> document_inv (seq + 1) st'" using docs(4) by (simp add: document_inv_def st'(5))
    with wrap [OF st'(2)] st'(1,2) show ?thesis by auto
  qed
qed

section \<open>All document actions\<close>

text \<open>The documents that actions bring to life at an address, and those they retire.\<close>

definition created_at :: "js_string \<Rightarrow> actions \<Rightarrow> int list" where
  "created_at key acts = map fst (filter (\<lambda>(i, a).
     case act_create a of None \<Rightarrow> False | Some r \<Rightarrow> \<not> act_retire a \<and> record_address_key r = key) acts)"

definition retires :: "actions \<Rightarrow> int \<Rightarrow> bool" where
  "retires acts i \<longleftrightarrow> list_ex (\<lambda>(j, a). j = i \<and> act_retire a \<and> act_create a = None) acts"

definition current_after :: "js_string \<Rightarrow> actions \<Rightarrow> int option \<Rightarrow> int option" where
  "current_after key acts cur =
     (if created_at key acts \<noteq> [] then Some (last (created_at key acts))
      else case cur of None \<Rightarrow> None | Some i \<Rightarrow> if retires acts i then None else Some i)"

definition current_placed :: "storage \<Rightarrow> bool" where
  "current_placed st \<longleftrightarrow> (\<forall>k i. current_at st k = Some i \<longrightarrow> i \<in> at_address st k)"

lemma placedD:
  "current_placed st \<Longrightarrow> current_at st k = Some i \<Longrightarrow>
     \<exists>d. documents st i = Some d \<and> record_address_key (ds_record d) = k"
  unfolding current_placed_def at_address_def by blast

lemma created_at_Cons:
  "created_at key ((i, a) # acts) =
     (case act_create a of
        None \<Rightarrow> created_at key acts
      | Some r \<Rightarrow> if \<not> act_retire a \<and> record_address_key r = key then i # created_at key acts else created_at key acts)"
  by (simp add: created_at_def split: option.split)

lemma created_at_subset: "set (created_at key acts) \<subseteq> set (map fst acts)"
  by (auto simp: created_at_def)

lemma retires_Cons: "retires ((j, a) # acts) i \<longleftrightarrow> j = i \<and> act_retire a \<and> act_create a = None \<or> retires acts i"
  by (simp add: retires_def)

lemma retires_in: "retires acts i \<Longrightarrow> i \<in> set (map fst acts)"
  by (force simp: retires_def list_ex_iff)

lemma acted_other:
  assumes "acted seq i a st st'" "j \<noteq> i"
  shows "action_ok seq st' (j, b) \<longleftrightarrow> action_ok seq st (j, b)" "documents st' j = documents st j"
  using assms by (simp_all add: acted_def Let_def split: option.split)

lemma acted_placed:
  assumes "acted seq i a st st'" "current_placed st" "action_ok seq st (i, a)" "types_inv st"
  shows "current_placed st'"
  unfolding current_placed_def
proof (intro allI impI)
  fix k j
  assume cur: "current_at st' k = Some j"
  let ?f = "final_document seq a (documents st i)"
  have docs: "documents st' = (documents st)(i \<mapsto> ?f)" using assms(1) by (simp add: acted_def)
  have moved: "current_at st' k =
      (if k = record_address_key (ds_record ?f) then next_current i a (current_at st k) else current_at st k)"
    using assms(1) by (simp add: acted_def Let_def)
  show "j \<in> at_address st' k"
  proof (cases "j = i \<and> k = record_address_key (ds_record ?f)")
    case True
    then show ?thesis by (simp add: at_address_def docs)
  next
    case False
    with cur moved have old: "current_at st k = Some j"
      by (auto simp: next_current_def split: if_splits)
    with assms(2) have j: "j \<in> at_address st k" by (simp add: current_placed_def)
    show ?thesis
    proof (cases "j = i")
      case True
      with j obtain d where d: "documents st i = Some d" "record_address_key (ds_record d) = k"
        by (auto simp: at_address_def)
      then have "act_create a = None"
        using assms(3,4) free_id(5) [of st i] by (auto split: option.splits)
      with d False True show ?thesis by (simp add: final_change(3))
    next
      case neq: False
      with j show ?thesis by (simp add: at_address_def docs)
    qed
  qed
qed

text \<open>The effect of one action on the current document is the first step of \<open>current_after\<close>.\<close>

lemma current_after_Cons:
  assumes "acted seq i a st st'" "current_placed st" "action_ok seq st (i, a)" "types_inv st"
    and "i \<notin> set (map fst acts)"
  shows "current_after k acts (current_at st' k) = current_after k ((i, a) # acts) (current_at st k)"
proof -
  let ?f = "final_document seq a (documents st i)"
  have moved: "current_at st' k =
      (if k = record_address_key (ds_record ?f) then next_current i a (current_at st k) else current_at st k)"
    using assms(1) by (simp add: acted_def Let_def)
  have ni: "\<not> retires acts i" using assms(5) retires_in by blast
  show ?thesis
  proof (cases "act_create a")
    case (Some r)
    have "documents st i = None" using assms(3,4) Some free_id(5) [of st i] by simp
    with placedD [OF assms(2), of k i] have "current_at st k \<noteq> Some i" by auto
    with Some ni show ?thesis
      by (auto simp: moved final_create(3) next_current_def current_after_def created_at_Cons retires_Cons
          split: option.split)
  next
    case None
    with assms(3) obtain d where d: "documents st i = Some d" by auto
    show ?thesis
    proof (cases "current_at st k = Some i")
      case True
      with placedD [OF assms(2) True] d None have "k = record_address_key (ds_record ?f)"
        by (simp add: final_change(3))
      with moved True None have "current_at st' k = (if act_retire a then None else Some i)"
        by (simp add: next_current_def)
      with True None ni show ?thesis
        by (simp add: current_after_def created_at_Cons retires_Cons)
    next
      case False
      with None have "current_at st' k = current_at st k" by (auto simp: moved next_current_def)
      with None False show ?thesis
        by (cases "current_at st k") (auto simp: current_after_def created_at_Cons retires_Cons)
    qed
  qed
qed

definition documents_after :: "int \<Rightarrow> actions \<Rightarrow> (int \<Rightarrow> document_state option) \<Rightarrow> int \<Rightarrow> document_state option" where
  "documents_after seq acts docs i =
     (case map_of acts i of None \<Rightarrow> docs i | Some a \<Rightarrow> Some (final_document seq a (docs i)))"

lemma actions_inv:
  assumes "distinct (map fst acts)" "\<forall>p \<in> set acts. action_ok seq st p"
    and "working_inv (seq + 1) st" "current_placed st"
  shows "\<exists>st'. rfold (apply_action seq) acts st = Inr st' \<and> working_inv (seq + 1) st' \<and> same_records st st' \<and>
    documents st' = documents_after seq acts (documents st) \<and>
    (\<forall>k. current_at st' k = current_after k acts (current_at st k))"
  using assms
proof (induction acts arbitrary: st)
  case Nil
  then show ?case by (simp add: documents_after_def current_after_def created_at_def retires_def fun_eq_iff
      split: option.split)
next
  case (Cons p acts)
  obtain i a where p: "p = (i, a)" by (cases p)
  from Cons.prems p have ok: "action_ok seq st (i, a)" and types: "types_inv st"
    and other: "i \<notin> set (map fst acts)" "distinct (map fst acts)"
    by (simp_all add: working_inv_def)
  from apply_action_inv [OF Cons.prems(3) ok] obtain st1
    where st1: "apply_action seq (i, a) st = Inr st1" "acted seq i a st st1" "working_inv (seq + 1) st1" by blast
  have "\<forall>q \<in> set acts. action_ok seq st1 q"
  proof
    fix q
    assume q: "q \<in> set acts"
    then have "fst q \<noteq> i" using other(1) by auto
    with acted_other(1) [OF st1(2), of "fst q" "snd q"] Cons.prems(2) q show "action_ok seq st1 q" by simp
  qed
  from Cons.IH [OF other(2) this st1(3) acted_placed [OF st1(2) Cons.prems(4) ok types]] obtain st'
    where st': "rfold (apply_action seq) acts st1 = Inr st'" "working_inv (seq + 1) st'" "same_records st1 st'"
      "documents st' = documents_after seq acts (documents st1)"
      "\<forall>k. current_at st' k = current_after k acts (current_at st1 k)" by blast
  have none: "map_of acts i = None" using other(1) by (simp add: map_of_eq_None_iff)
  have "documents_after seq acts (documents st1) = documents_after seq (p # acts) (documents st)"
  proof
    fix j
    show "documents_after seq acts (documents st1) j = documents_after seq (p # acts) (documents st) j"
      using st1(2) none by (cases "j = i") (simp_all add: documents_after_def p acted_def split: option.split)
  qed
  moreover have "same_records st st'"
    using st1(2) st'(3) by (auto simp: acted_def intro: same_records_trans)
  ultimately show ?case
    using st1(1) st' current_after_Cons [OF st1(2) Cons.prems(4) ok types other(1)] by (simp add: p)
qed

section \<open>What preparation establishes\<close>

lemma resolve_write_no_copy: "resolve_write st changed w = Inr w' \<Longrightarrow> \<not> is_copy w'"
  by (cases w) (auto simp: resolve_copy_def Let_def res_simps map_sum_def split: sum.splits if_splits option.splits)

lemma resolved_no_copy:
  assumes "resolve_document_copies st ws = Inr ws'"
  shows "\<not> list_ex is_copy ws'"
proof -
  have "\<not> list_ex is_copy ys" if "rmap (resolve_write st C) xs = Inr ys" for C xs ys
    using that by (induction xs arbitrary: ys) (auto simp: res_simps dest: resolve_write_no_copy)
  with assms show ?thesis by (auto simp: resolve_document_copies_def split: if_splits)
qed

text \<open>The actions that writes give rise to: one per document, a creation with a base as its content.\<close>

definition actions_of :: "storage_write set \<Rightarrow> actions \<Rightarrow> bool" where
  "actions_of W acts \<longleftrightarrow>
     distinct (map fst acts) \<and>
     (\<forall>i a. map_of acts i = Some a \<longrightarrow> (\<forall>r. act_create a = Some r \<longrightarrow>
        doc_id r = i \<and> (\<exists>v x. act_content a = Some (BaseContent v x) \<and> WDocCreate r v x \<in> W)))"

lemma add_action_actions:
  assumes "actions_of W acts" "w \<in> W" "add_action w acts = Inr acts'"
  shows "actions_of W acts'"
proof -
  have d: "distinct (map fst acts)" and
    a: "\<And>i a r. map_of acts i = Some a \<Longrightarrow> act_create a = Some r \<Longrightarrow>
        doc_id r = i \<and> (\<exists>v x. act_content a = Some (BaseContent v x) \<and> WDocCreate r v x \<in> W)"
    using assms(1) by (auto simp: actions_of_def)
  have upd: "actions_of W (AList.update i b acts)"
    if "\<And>r. act_create b = Some r \<Longrightarrow>
      doc_id r = i \<and> (\<exists>v x. act_content b = Some (BaseContent v x) \<and> WDocCreate r v x \<in> W)" for i b
    using that d a by (simp add: actions_of_def update_conv' distinct_update)
  show ?thesis
  proof (cases w)
    case (WDocCreate r v x)
    with assms(2,3) show ?thesis by (auto simp: Let_def split: if_splits intro!: upd)
  next
    case (WDocChange i c)
    with assms(3) have "act_content (action_of acts i) = None" "acts' = AList.update i ((action_of acts i)\<lparr>act_content := Some c\<rparr>) acts"
      by (auto simp: Let_def split: if_splits)
    moreover have "act_create (action_of acts i) = None"
      using a [of i] calculation(1)
      by (cases "map_of acts i"; cases "act_create (action_of acts i)") (force simp: action_of_def new_action_def)+
    ultimately show ?thesis by (auto intro!: upd)
  next
    case (WDocRetire i)
    with assms(3) have "acts' = AList.update i ((action_of acts i)\<lparr>act_retire := True\<rparr>) acts"
      by (auto simp: Let_def split: if_splits)
    then show ?thesis
      using a [of i] by (auto simp: action_of_def new_action_def split: option.splits intro!: upd)
  qed (use assms in auto)
qed

lemma prepare_actions_of: "prepare_document_actions ws = Inr acts \<Longrightarrow> actions_of (set ws) acts"
  unfolding prepare_document_actions_def
proof (erule rfold_invariant)
  show "actions_of (set ws) []" by (simp add: actions_of_def)
qed (rule add_action_actions)

lemma check_action_record_ok:
  assumes "check_action_record st i a = Inr address"
  shows "act_create a = Some r \<Longrightarrow> documents st i = None \<and> address = record_address r"
    and "act_create a = None \<Longrightarrow> \<exists>d. documents st i = Some d \<and> alive d \<and> address = record_address (ds_record d) \<and>
      (\<forall>c. act_content a = Some c \<longrightarrow> is_base_content c \<or>
        content_version c = content_version (fst (last (ds_revisions d))))"
  using assms
  by (auto simp: check_action_record_def alive_def split: option.splits if_splits document_content.splits)

text \<open>The number of live documents at an address before and after the actions.\<close>

definition live_before :: "storage \<Rightarrow> js_string \<Rightarrow> int" where
  "live_before st key = (if current_at st key = None then 0 else 1)"

definition live_change :: "storage \<Rightarrow> js_string \<Rightarrow> actions \<Rightarrow> int" where
  "live_change st key acts =
     int (length (created_at key acts)) -
     (case current_at st key of None \<Rightarrow> 0 | Some i \<Rightarrow> if retires acts i then 1 else 0)"

definition counted :: "storage \<Rightarrow> (js_string \<times> int) list \<Rightarrow> js_string \<Rightarrow> int" where
  "counted st counts key = (case map_of counts key of None \<Rightarrow> live_before st key | Some n \<Rightarrow> n)"

lemma count_live_step:
  assumes "count_live st (i, a) counts = Inr counts'" "current_placed st"
  shows "counted st counts' key = counted st counts key
    + (case act_create a of None \<Rightarrow> 0 | Some r \<Rightarrow> if \<not> act_retire a \<and> record_address_key r = key then 1 else 0)
    - (if act_retire a \<and> act_create a = None \<and> current_at st key = Some i then 1 else 0)"
proof -
  from assms(1) obtain address where address: "check_action_record st i a = Inr address"
    and counts': "counts' = AList.update (address_key address)
      (counted st counts (address_key address)
        - (if act_retire a \<and> current_at st (address_key address) = Some i then 1 else 0)
        + (if act_create a \<noteq> None \<and> \<not> act_retire a then 1 else 0)) counts"
    by (auto simp: count_live_def res_simps Let_def counted_def live_before_def split: option.splits if_splits)
  show ?thesis
  proof (cases "act_create a")
    case (Some r)
    from check_action_record_ok(1) [OF address Some] have none: "documents st i = None"
      and key: "address_key address = record_address_key r" by (simp_all add: record_address_key_def)
    have "current_at st k \<noteq> Some i" for k using placedD [OF assms(2), of k i] none by auto
    with Some key show ?thesis by (auto simp: counts' counted_def update_conv')
  next
    case None
    from check_action_record_ok(2) [OF address None] obtain d where d: "documents st i = Some d"
      "address_key address = record_address_key (ds_record d)" by (auto simp: record_address_key_def)
    have "key = address_key address" if "current_at st key = Some i"
      using placedD [OF assms(2) that] d by simp
    with None show ?thesis
      by (cases "key = address_key address") (simp add: counts' counted_def update_conv', auto simp: counts' counted_def update_conv')
  qed
qed

lemma count_live_all:
  assumes "rfold (count_live st) acts counts = Inr counts'" "current_placed st" "distinct (map fst acts)"
  shows "counted st counts' key = counted st counts key + live_change st key acts"
  using assms(1,3)
proof (induction acts arbitrary: counts)
  case Nil
  then show ?case by (simp add: live_change_def created_at_def retires_def split: option.split)
next
  case (Cons p acts)
  obtain i a where p: "p = (i, a)" by (cases p)
  from Cons.prems(1) obtain c where c: "count_live st (i, a) counts = Inr c" "rfold (count_live st) acts c = Inr counts'"
    by (auto simp: p res_simps)
  have ni: "\<not> retires acts i" using Cons.prems(2) retires_in [of acts i] by (auto simp: p)
  from Cons.IH [OF c(2)] Cons.prems(2) count_live_step [OF c(1) assms(2), of key] ni show ?case
    by (auto simp: p live_change_def created_at_Cons retires_Cons split: option.splits)
qed

lemma check_document_actions_ok:
  assumes "check_document_actions st acts = Inr u" "current_placed st" "distinct (map fst acts)"
  shows "live_before st key + live_change st key acts \<le> 1"
    and "(i, a) \<in> set acts \<Longrightarrow> \<exists>address. check_action_record st i a = Inr address"
proof -
  from assms(1) obtain counts where counts: "rfold (count_live st) acts [] = Inr counts" "\<forall>p \<in> set counts. snd p \<le> 1"
    by (auto simp: check_document_actions_def res_simps)
  have "counted st counts key \<le> 1"
    using counts(2) map_of_SomeD [of counts key] by (cases "map_of counts key") (force simp: counted_def live_before_def)+
  with count_live_all [OF counts(1) assms(2,3), of key] show "live_before st key + live_change st key acts \<le> 1"
    by (simp add: counted_def)
  have "\<exists>address. check_action_record st i a = Inr address"
    if "rfold (count_live st) acts c = Inr c'" "(i, a) \<in> set acts" for acts c c'
    using that by (induction acts arbitrary: c) (auto simp: res_simps count_live_def)
  with counts(1) show "(i, a) \<in> set acts \<Longrightarrow> \<exists>address. check_action_record st i a = Inr address" by blast
qed

section \<open>Commits\<close>

lemma prepare_commit_steps:
  assumes "prepare_commit st ws seq = Inr pc"
  obtains acts claimed where "\<not> closed st" "nextSeq st \<le> seq" "\<bar>seq\<bar> \<le> max_safe" "pc_seq pc = seq" "\<not> pc_applied pc"
    "resolve_document_copies st ws = Inr (pc_writes pc)"
    "rfold (check_claim st) (pc_writes pc) (\<lambda>_. None) = Inr claimed"
    "pc_actions pc = acts" "actions_of (set (pc_writes pc)) acts" "check_document_actions st acts = Inr ()"
proof -
  from assms obtain ws' claimed acts where "\<not> closed st" "\<bar>seq\<bar> \<le> max_safe" "nextSeq st \<le> seq"
    "resolve_document_copies st ws = Inr ws'" "rfold (check_claim st) ws' (\<lambda>_. None) = Inr claimed"
    "prepare_document_actions ws' = Inr acts" "check_document_actions st acts = Inr ()"
    "pc = \<lparr>pc_seq = seq, pc_writes = ws', pc_actions = acts, pc_applied = False\<rparr>"
    by (auto simp: prepare_commit_def assert_open_def check_global_ids_def res_simps)
  then show thesis by (intro that [where acts = acts and claimed = claimed]) (simp_all add: prepare_actions_of)
qed

lemma storage_current_placed: "current_inv st \<Longrightarrow> current_placed st"
  by (auto simp: current_inv_def current_placed_def at_address_def)

lemma apply_write_entry_seqs:
  assumes "apply_write seq w st = Inr st'"
  shows "entryCommitSeqs st' =
    (case w of WEntry e \<Rightarrow> (entryCommitSeqs st)(ent_id e \<mapsto> seq) | _ \<Rightarrow> entryCommitSeqs st)"
proof (cases w)
  case (WConversation c)
  with assms show ?thesis by (auto simp: apply_conversation_def Let_def split: option.split)
next
  case (WTask t)
  with assms show ?thesis by (auto simp: apply_task_def Let_def split: option.split)
next
  case (WSubmission s)
  with assms show ?thesis by (auto simp: apply_submission_def Let_def)
qed (use assms in \<open>auto simp: apply_entry_frame\<close>)

lemma apply_write_seqs:
  assumes "seqs_below (seq + 1) st" "apply_write seq w st = Inr st'"
  shows "seqs_below (seq + 1) st'"
  using assms(1) apply_write_entry_seqs [OF assms(2)]
  by (auto simp: seqs_below_def ran_def split: storage_write.splits if_splits)

text \<open>The documents that are alive at an address after the actions.\<close>

lemma alive_after:
  assumes "current_inv st" "distinct (map fst acts)"
    and "\<And>i a. map_of acts i = Some a \<Longrightarrow> act_create a = None \<longleftrightarrow> documents st i \<noteq> None"
  shows "(\<exists>d. documents_after seq acts (documents st) i = Some d \<and> record_address_key (ds_record d) = k \<and> alive d)
    \<longleftrightarrow> i \<in> set (created_at k acts) \<or> current_at st k = Some i \<and> \<not> retires acts i"
proof (cases "map_of acts i")
  case None
  then have "i \<notin> set (map fst acts)" by (simp add: map_of_eq_None_iff)
  then have "i \<notin> set (created_at k acts)" "\<not> retires acts i"
    using created_at_subset retires_in by blast+
  with None assms(1) show ?thesis by (simp add: documents_after_def current_inv_def)
next
  case (Some a)
  have "map_of acts i = Some b \<longleftrightarrow> (i, b) \<in> set acts" for b using assms(2) by simp
  with Some have uniq: "(i, b) \<in> set acts \<longleftrightarrow> b = a" for b by (metis option.inject)
  have c: "i \<in> set (created_at k acts) \<longleftrightarrow> (\<exists>r. act_create a = Some r \<and> \<not> act_retire a \<and> record_address_key r = k)"
    using uniq by (force simp: created_at_def split: option.splits)
  have r: "retires acts i \<longleftrightarrow> act_retire a \<and> act_create a = None"
    using uniq by (force simp: retires_def list_ex_iff)
  have cur: "current_at st k = Some i \<longleftrightarrow> (\<exists>d. documents st i = Some d \<and> record_address_key (ds_record d) = k \<and> alive d)"
    using assms(1) by (simp add: current_inv_def)
  show ?thesis
  proof (cases "act_create a")
    case create: (Some r)
    with assms(3) [OF Some] have "documents st i = None" by auto
    with Some create show ?thesis by (auto simp: documents_after_def c cur final_create)
  next
    case None
    with assms(3) [OF Some] obtain d where "documents st i = Some d" by auto
    with Some None show ?thesis by (auto simp: documents_after_def c r cur final_change)
  qed
qed

text \<open>At most one incarnation is left at each address, and it is the current one.\<close>

lemma current_after_alive:
  assumes "live_before st k + live_change st k acts \<le> 1"
  shows "current_after k acts (current_at st k) = Some i \<longleftrightarrow>
    i \<in> set (created_at k acts) \<or> current_at st k = Some i \<and> \<not> retires acts i"
proof -
  from assms have "length (created_at k acts) \<le> 1"
    by (auto simp: live_before_def live_change_def split: option.splits if_splits)
  then consider "created_at k acts = []" | j where "created_at k acts = [j]"
    by (cases "created_at k acts" rule: remdups_adj.cases) auto
  then show ?thesis
    using assms by cases (auto simp: live_before_def live_change_def current_after_def split: option.splits if_splits)
qed

lemma set_next_seq:
  "working_inv n (st\<lparr>nextSeq := m\<rparr>) \<longleftrightarrow> working_inv n st" "current_inv (st\<lparr>nextSeq := m\<rparr>) \<longleftrightarrow> current_inv st"
  "seqs_below n (st\<lparr>nextSeq := m\<rparr>) \<longleftrightarrow> seqs_below n st"
proof -
  have "in_table (st\<lparr>nextSeq := m\<rparr>) t i \<longleftrightarrow> in_table st t i" for t i by (cases t) simp_all
  then show "working_inv n (st\<lparr>nextSeq := m\<rparr>) \<longleftrightarrow> working_inv n st"
    "current_inv (st\<lparr>nextSeq := m\<rparr>) \<longleftrightarrow> current_inv st" "seqs_below n (st\<lparr>nextSeq := m\<rparr>) \<longleftrightarrow> seqs_below n st"
    by (simp_all add: working_inv_def types_inv_def conversation_inv_def entry_inv_def task_inv_def submission_inv_def
        document_inv_def current_inv_def seqs_below_def current_at_def address_ids_def at_address_def)
qed

lemma apply_prepared_ok:
  assumes "storage_inv st" "prepare_commit st ws seq = Inr pc"
  obtains st1 st' where "apply_prepared pc st = Inr (pc\<lparr>pc_applied := True\<rparr>, st')"
    "storage_inv st'" "nextSeq st' = seq + 1" "closed st' = closed st"
    "rfold (apply_write seq) (pc_writes pc) st = Inr st1" "working_inv (seq + 1) st1"
    "same_records (st1\<lparr>nextSeq := seq + 1\<rparr>) st'"
    "documents st' = documents_after seq (pc_actions pc) (documents st)"
proof -
  obtain acts claimed where pc: "\<not> closed st" "nextSeq st \<le> seq" "pc_seq pc = seq" "\<not> pc_applied pc"
    "resolve_document_copies st ws = Inr (pc_writes pc)"
    "rfold (check_claim st) (pc_writes pc) (\<lambda>_. None) = Inr claimed"
    "pc_actions pc = acts" "actions_of (set (pc_writes pc)) acts" "check_document_actions st acts = Inr ()"
    using prepare_commit_steps [OF assms(2)] by metis
  from assms(1) have inv: "working_inv (nextSeq st) st" "current_inv st" "seqs_below (nextSeq st) st"
    by (simp_all add: storage_inv_working)
  have placed: "current_placed st" by (rule storage_current_placed [OF inv(2)])
  have types: "types_inv st" using inv(1) by (simp add: working_inv_def)
  have dist: "distinct (map fst acts)" using pc(8) by (simp add: actions_of_def)
  have "document_ok (seq + 1) d" if "d \<in> ran (documents st)" for d
    using inv(1) that pc(2) by (auto simp: working_inv_def document_inv_def intro: document_ok_mono)
  then have work: "working_inv (seq + 1) st" using inv(1) by (simp add: working_inv_def document_inv_def)
  have "recordTypes st \<subseteq>\<^sub>m taken st (\<lambda>_. None)" by (simp add: taken_def)
  from writes_inv [OF pc(6) resolved_no_copy [OF pc(5)] work this, of seq] obtain st1
    where st1: "rfold (apply_write seq) (pc_writes pc) st = Inr st1" "working_inv (seq + 1) st1"
      "same_documents st st1" "recordTypes st1 \<subseteq>\<^sub>m taken st claimed" by blast
  from st1(3) have docs1: "documents st1 = documents st" "\<And>k. current_at st1 k = current_at st k"
    and frame1: "nextSeq st1 = nextSeq st" "closed st1 = closed st"
    by (simp_all add: same_documents_def current_at_def)
  have seqs1: "seqs_below (seq + 1) st1"
    using st1(1)
  proof (rule rfold_invariant)
    show "seqs_below (seq + 1) st" using inv(3) pc(2) by (auto simp: seqs_below_def)
  qed (rule apply_write_seqs)
  have mem: "map_of acts i = Some a \<longleftrightarrow> (i, a) \<in> set acts" for i a using dist by simp
  have checked: "\<exists>address. check_action_record st i a = Inr address" if "(i, a) \<in> set acts" for i a
    using check_document_actions_ok(2) [OF pc(9) placed dist that] .
  have existing: "act_create a = None \<longleftrightarrow> documents st i \<noteq> None" if "map_of acts i = Some a" for i a
  proof -
    from checked that mem obtain address where "check_action_record st i a = Inr address" by blast
    from check_action_record_ok [OF this] show ?thesis by (cases "act_create a") auto
  qed
  have "action_ok seq st1 p" if "p \<in> set acts" for p
  proof -
    obtain i a where p: "p = (i, a)" by (cases p)
    with that checked obtain address where c: "check_action_record st i a = Inr address" by blast
    show ?thesis
    proof (cases "act_create a")
      case (Some r)
      from pc(8) that p Some mem obtain v x where a: "doc_id r = i" "act_content a = Some (BaseContent v x)"
        "WDocCreate r v x \<in> set (pc_writes pc)" by (fastforce simp: actions_of_def)
      from check_claims_create [OF pc(6) a(3), of DocumentTable i] a(1) have "taken st claimed i = Some DocumentTable"
        by (simp add: taken_def map_add_def)
      moreover have "recordTypes st1 i \<noteq> Some DocumentTable"
        using in_table_type [of st1 DocumentTable i] st1(2) check_action_record_ok(1) [OF c Some]
        by (auto simp: working_inv_def docs1)
      ultimately have "recordTypes st1 i = None" using st1(4) by (force simp: map_le_def dom_def)
      with Some a p show ?thesis by simp
    next
      case None
      from check_action_record_ok(2) [OF c None] obtain d where d: "documents st i = Some d" "alive d"
        "\<forall>c. act_content a = Some c \<longrightarrow> is_base_content c \<or>
          content_version c = content_version (fst (last (ds_revisions d)))" by blast
      from d(1) inv(1) pc(2) have "document_ok seq d"
        by (auto simp: working_inv_def document_inv_def ran_def intro: document_ok_mono)
      with None d p show ?thesis by (simp add: docs1)
    qed
  qed
  moreover have "current_placed st1" using placed by (simp add: current_placed_def at_address_def docs1)
  ultimately obtain st2 where st2: "rfold (apply_action seq) acts st1 = Inr st2" "working_inv (seq + 1) st2"
    "same_records st1 st2" "documents st2 = documents_after seq acts (documents st)"
    "\<forall>k. current_at st2 k = current_after k acts (current_at st k)"
    using actions_inv [OF dist _ st1(2)] by (auto simp: docs1)
  let ?st = "st2\<lparr>nextSeq := seq + 1\<rparr>"
  have "current_inv st2"
    unfolding current_inv_def using st2(5)
      current_after_alive [OF check_document_actions_ok(1) [OF pc(9) placed dist]]
      alive_after [OF inv(2) dist existing] by (simp add: st2(4))
  moreover have "seqs_below (seq + 1) st2" using seqs1 same_records_inv(5) [OF st2(3)] by simp
  ultimately have "storage_inv ?st"
    using st2(2) by (simp add: storage_inv_working set_next_seq)
  show thesis
  proof (rule that [of ?st st1])
    show "apply_prepared pc st = Inr (pc\<lparr>pc_applied := True\<rparr>, ?st)"
      using pc(3,4,7) st1(1) st2(1) by (simp add: apply_prepared_def)
  qed (use \<open>storage_inv ?st\<close> st1 st2 pc(7) frame1 in \<open>simp_all add: same_records_def\<close>)
qed

end
