(* ===== verification/MemoryRuns.thy ===== *)
theory MemoryRuns
  imports MemoryCommit
begin

text \<open>
  The storage as a state machine: its steps are commits, minted IDs and closing.  The reachable states
  are the ones that a new storage gets into by such steps; all of them satisfy the invariant.
\<close>

section \<open>Steps\<close>

inductive storage_step :: "storage \<Rightarrow> storage \<Rightarrow> bool" where
  committing: "commit st ws = Inr (seq, st') \<Longrightarrow> storage_step st st'"
| minting: "mint_id st = Inr (i, st') \<Longrightarrow> storage_step st st'"
| closing: "storage_step st (close_storage st)"

inductive_cases storage_stepE: "storage_step st st'"

inductive reachable :: "storage \<Rightarrow> bool" where
  fresh: "reachable new_storage"
| step: "reachable st \<Longrightarrow> storage_step st st' \<Longrightarrow> reachable st'"

text \<open>A commit succeeds exactly when its preparation does.\<close>

lemma commit_prepared:
  assumes "storage_inv st" "prepare_commit st ws (nextSeq st) = Inr pc"
  obtains st' where "commit st ws = Inr (nextSeq st, st')" "storage_inv st'" "nextSeq st' = nextSeq st + 1"
    "closed st' = closed st"
proof -
  obtain st1 st' where st': "apply_prepared pc st = Inr (pc\<lparr>pc_applied := True\<rparr>, st')" "storage_inv st'"
    "nextSeq st' = nextSeq st + 1" "closed st' = closed st"
    using apply_prepared_ok [OF assms] by metis
  moreover have "pc_seq pc = nextSeq st" using assms(2) by (auto elim!: prepare_commit_steps)
  ultimately show thesis using assms(2) by (intro that [of st']) (simp_all add: commit_def)
qed

lemma commit_cases:
  assumes "storage_inv st" "commit st ws = Inr (seq, st')"
  obtains pc where "prepare_commit st ws (nextSeq st) = Inr pc" "seq = nextSeq st" "storage_inv st'"
    "nextSeq st' = seq + 1" "closed st' = closed st"
proof -
  from assms(2) obtain pc where pc: "prepare_commit st ws (nextSeq st) = Inr pc"
    by (auto simp: commit_def res_simps)
  from commit_prepared [OF assms(1) pc] assms(2) show thesis by (intro that [OF pc]) auto
qed

lemma next_id_raise:
  assumes "storage_inv st" "nextId st \<le> n"
  shows "storage_inv (st\<lparr>nextId := n, closed := b\<rparr>)"
proof -
  have "in_table (st\<lparr>nextId := n, closed := b\<rparr>) t i \<longleftrightarrow> in_table st t i" for t i by (cases t) simp_all
  with assms show ?thesis
    by (fastforce simp: storage_inv_def types_inv_def conversation_inv_def entry_inv_def task_inv_def
        submission_inv_def document_inv_def current_inv_def seqs_below_def current_at_def address_ids_def at_address_def)
qed

lemma mint_id_step:
  assumes "mint_id st = Inr (i, st')"
  shows "i = nextId st \<and> st' = st\<lparr>nextId := i + 1\<rparr> \<and> \<not> closed st"
  using assms by (auto simp: mint_id_def assert_open_def res_simps split: if_splits)

lemma storage_step_inv:
  assumes "storage_inv st" "storage_step st st'"
  shows "storage_inv st'"
  using assms(2)
proof (elim storage_stepE)
  fix ws seq
  assume "commit st ws = Inr (seq, st')"
  from commit_cases [OF assms(1) this] show ?thesis by metis
next
  fix i
  assume "mint_id st = Inr (i, st')"
  with next_id_raise [OF assms(1), of "nextId st + 1" "closed st"] show ?thesis
    by (auto dest: mint_id_step)
next
  assume "st' = close_storage st"
  with next_id_raise [OF assms(1), of "nextId st" True] show ?thesis by (simp add: close_storage_def)
qed

lemma reachable_inv: "reachable st \<Longrightarrow> storage_inv st"
  by (induction rule: reachable.induct) (auto intro: new_storage_inv storage_step_inv)

text \<open>IDs only grow.\<close>

lemma rfold_next_id:
  assumes "rfold f xs st = Inr st'" "\<And>x st st'. f x st = Inr st' \<Longrightarrow> nextId st \<le> nextId (st' :: storage)"
  shows "nextId st \<le> nextId st'"
  using assms(1)
proof (induction xs arbitrary: st)
  case (Cons x xs)
  then obtain s where "f x st = Inr s" "rfold f xs s = Inr st'" by (auto simp: res_simps)
  with Cons.IH [of s] assms(2) [of x st s] show ?case by simp
qed simp

lemma apply_write_next_id: "apply_write seq w st = Inr st' \<Longrightarrow> nextId st \<le> nextId st'"
  by (cases w) (auto simp: apply_conversation_frame apply_entry_frame apply_task_frame apply_submission_frame)

lemma create_next_id: "create_document seq i a r st = (d, st') \<Longrightarrow> nextId st \<le> nextId st'"
  by (auto simp: create_document_def Let_def)

lemma apply_action_next_id:
  assumes "apply_action seq p st = Inr st'"
  shows "nextId st \<le> nextId st'"
proof -
  obtain i a where p: "p = (i, a)" by (cases p)
  show ?thesis
  proof (cases "act_create a")
    case (Some r)
    obtain d st1 where c: "create_document seq i a r st = (d, st1)" by fastforce
    with assms Some create_next_id [OF c] show ?thesis
      by (auto simp: p apply_action_def Let_def split: option.splits)
  next
    case None
    with assms show ?thesis
      by (auto simp: p apply_action_def Let_def split: option.splits if_splits)
  qed
qed

lemma commit_next_id: "commit st ws = Inr (seq, st') \<Longrightarrow> nextId st \<le> nextId st'"
  by (force simp: commit_def apply_prepared_def res_simps split: if_splits
      dest: rfold_next_id [OF _ apply_write_next_id] rfold_next_id [OF _ apply_action_next_id])

lemma storage_step_next_id: "storage_step st st' \<Longrightarrow> nextId st \<le> nextId st'"
  by (auto elim!: storage_stepE dest: commit_next_id mint_id_step simp: close_storage_def)

lemma storage_steps_next_id: "storage_step\<^sup>*\<^sup>* st st' \<Longrightarrow> nextId st \<le> nextId st'"
  by (induction rule: rtranclp_induct) (auto dest: storage_step_next_id)

section \<open>A sample commit\<close>

definition sample_record :: document_create where
  "sample_record =
     \<lparr>doc_id = 3, doc_kind = js ''plan'', doc_key = None, doc_scope = ConversationScope 1,
      doc_history = Some Rewindable, doc_fork = Some ForkAsOf\<rparr>"

definition sample_value :: jsv where
  "sample_value = JObj [(js ''n'', JNum (NInt 0))]"

definition sample_conversation :: conversation_record where
  "sample_conversation = \<lparr>conv_id = 1, conv_parent = None, conv_owner = None\<rparr>"

definition sample_entry :: entry_record where
  "sample_entry =
     \<lparr>ent_id = 2, ent_conversation = 1, ent_kind = js ''user'', ent_model = None, ent_data = None,
      ent_head = None, ent_edits = None, ent_task = None\<rparr>"

definition sample_writes :: "storage_write list" where
  "sample_writes = [WConversation sample_conversation, WEntry sample_entry, WDocCreate sample_record 1 sample_value]"

definition sample_storage :: storage where
  "sample_storage = snd (projr (commit new_storage sample_writes))"

definition sample_action :: document_action where
  "sample_action = \<lparr>act_create = Some sample_record, act_content = Some (BaseContent 1 sample_value), act_retire = False\<rparr>"

lemma new_storage_simps:
  "recordTypes new_storage i = None" "documents new_storage i = None" "documentAddresses new_storage k = None"
  "nextSeq new_storage = 1" "nextId new_storage = 2" "\<not> closed new_storage"
  by (simp_all add: new_storage_def)

lemma sample_prepared:
  "prepare_commit new_storage sample_writes (nextSeq new_storage) =
     Inr \<lparr>pc_seq = 1, pc_writes = sample_writes,
       pc_actions = [(3, sample_action)], pc_applied = False\<rparr>"
proof -
  have "resolve_document_copies new_storage sample_writes = Inr sample_writes"
    by (simp add: resolve_document_copies_def sample_writes_def)
  moreover have "check_global_ids new_storage sample_writes = Inr ()"
    by (simp add: check_global_ids_def check_claim_def sample_writes_def new_storage_simps sample_record_def
        sample_conversation_def sample_entry_def)
  moreover have "prepare_document_actions sample_writes = Inr [(3, sample_action)]"
    by (simp add: prepare_document_actions_def sample_writes_def action_of_def new_action_def sample_action_def
        sample_record_def)
  moreover have "check_document_actions new_storage [(3, sample_action)] = Inr ()"
    by (simp add: check_document_actions_def count_live_def check_action_record_def sample_action_def
        new_storage_simps current_at_def)
  ultimately show ?thesis
    by (simp add: prepare_commit_def assert_open_def new_storage_simps max_safe_def)
qed

lemma sample_commit: "commit new_storage sample_writes = Inr (1, sample_storage)"
proof -
  obtain st' where "commit new_storage sample_writes = Inr (nextSeq new_storage, st')"
    using commit_prepared [OF new_storage_inv sample_prepared] by metis
  then show ?thesis by (simp add: sample_storage_def new_storage_simps)
qed

lemma sample_reachable: "reachable sample_storage"
  by (rule reachable.step [OF reachable.fresh committing [OF sample_commit]])

lemma sample_state:
  "nextId sample_storage = 4" "nextSeq sample_storage = 2" "\<not> closed sample_storage"
  "recordTypes sample_storage = [1 \<mapsto> ConversationTable, 2 \<mapsto> EntryTable, 3 \<mapsto> DocumentTable]"
  "documents sample_storage =
     [3 \<mapsto> \<lparr>ds_record = stamp sample_record 1 False, ds_revisions = [(BaseContent 1 sample_value, 1)]\<rparr>]"
  "conversations sample_storage = [1 \<mapsto> sample_conversation]" "entries sample_storage = [2 \<mapsto> sample_entry]"
  "entryIds sample_storage = [1 \<mapsto> [2]]" "entryCommitSeqs sample_storage = [2 \<mapsto> 1]"
proof -
  let ?st = "apply_entry 1 sample_entry (apply_conversation sample_conversation new_storage)"
  have "act_create sample_action = Some sample_record" by (simp add: sample_action_def)
  then obtain st' where st': "apply_action 1 (3, sample_action) ?st = Inr st'" "acted 1 3 sample_action ?st st'"
    "nextId st' = max (nextId ?st) (3 + 1)" by (rule apply_create)
  then have eq: "sample_storage = st'\<lparr>nextSeq := 2\<rparr>"
    unfolding sample_storage_def commit_def sample_prepared rbind_Inr
    by (simp add: sample_writes_def apply_prepared_def)
  have frame: "same_documents new_storage ?st"
    by (rule same_documents_trans [OF apply_conversation_frame(1) apply_entry_frame(1)])
  note facts = st'(2,3) frame
  show "nextId sample_storage = 4" "nextSeq sample_storage = 2" "\<not> closed sample_storage"
    "recordTypes sample_storage = [1 \<mapsto> ConversationTable, 2 \<mapsto> EntryTable, 3 \<mapsto> DocumentTable]"
    "conversations sample_storage = [1 \<mapsto> sample_conversation]" "entries sample_storage = [2 \<mapsto> sample_entry]"
    "entryIds sample_storage = [1 \<mapsto> [2]]" "entryCommitSeqs sample_storage = [2 \<mapsto> 1]"
    using facts by (simp_all add: eq acted_def same_records_def same_documents_def apply_entry_frame
        apply_conversation_frame apply_entry_def apply_conversation_def insert_map_id_def ids_at_def
        insert_sorted_def new_storage_def sample_entry_def sample_conversation_def)
  show "documents sample_storage =
     [3 \<mapsto> \<lparr>ds_record = stamp sample_record 1 False, ds_revisions = [(BaseContent 1 sample_value, 1)]\<rparr>]"
    using facts by (simp add: eq acted_def same_documents_def new_storage_def final_document_def sample_action_def
        retire_document_def)
qed

section \<open>Properties\<close>

text \<open>
  C1.  The storage invariant holds in every reachable state: record types agree with the tables, every
  index lists exactly the records it indexes in increasing order, IDs are below the next ID, sequences
  below the next sequence, every live document has a base, and an address has at most one current
  incarnation, which its index names.
\<close>

theorem storage_invariant: "reachable st \<Longrightarrow> storage_inv st"
  by (rule reachable_inv)

theorem storage_invariant_witness: "storage_inv sample_storage \<and> recordTypes sample_storage 3 = Some DocumentTable"
  using storage_invariant [OF sample_reachable] by (simp add: sample_state)

text \<open>
  C6.  A commit is all or nothing.  If its preparation fails, so does the commit; if preparation
  succeeds, application cannot fail: the commit returns the next sequence and leaves a reachable
  storage that expects the sequence after it.
\<close>

theorem commit_atomic:
  assumes "reachable st"
  shows "case prepare_commit st ws (nextSeq st) of
      Inl e \<Rightarrow> commit st ws = Inl e
    | Inr pc \<Rightarrow> \<exists>st'. commit st ws = Inr (nextSeq st, st') \<and> reachable st' \<and> nextSeq st' = nextSeq st + 1"
proof (cases "prepare_commit st ws (nextSeq st)")
  case (Inl e)
  then show ?thesis by (simp add: commit_def)
next
  case (Inr pc)
  obtain st' where st': "commit st ws = Inr (nextSeq st, st')" "nextSeq st' = nextSeq st + 1"
    using commit_prepared [OF reachable_inv [OF assms] Inr] by metis
  moreover from this(1) have "reachable st'" by (rule reachable.step [OF assms committing])
  ultimately show ?thesis by (simp add: Inr)
qed

theorem commit_atomic_witness:
  "\<exists>st'. commit new_storage sample_writes = Inr (1, st') \<and> reachable st' \<and> nextSeq st' = 2"
  using commit_atomic [OF reachable.fresh, of sample_writes] unfolding sample_prepared by (simp add: new_storage_simps)

text \<open>
  A minted ID is new: no record has it, and whatever happens to the storage afterwards, an ID
  minted later is larger.
\<close>

theorem minted_ids_fresh:
  assumes "reachable st" "mint_id st = Inr (i, st')"
  shows "recordTypes st i = None \<and>
    (\<forall>st1 st2 j. storage_step\<^sup>*\<^sup>* st' st1 \<and> mint_id st1 = Inr (j, st2) \<longrightarrow> i < j)"
proof (intro conjI allI impI)
  from mint_id_step [OF assms(2)] have i: "i = nextId st" "st' = st\<lparr>nextId := i + 1\<rparr>" by simp_all
  from reachable_inv [OF assms(1)] have types: "types_inv st" by (simp add: storage_inv_def)
  show "recordTypes st i = None"
    using typed_below [OF types, of i] i(1) by (cases "recordTypes st i") auto
  fix st1 st2 j
  assume "storage_step\<^sup>*\<^sup>* st' st1 \<and> mint_id st1 = Inr (j, st2)"
  then have "nextId st' \<le> nextId st1" "j = nextId st1" by (auto dest: storage_steps_next_id mint_id_step)
  then show "i < j" using i by simp
qed

theorem minted_ids_fresh_witness:
  "mint_id sample_storage = Inr (4, sample_storage\<lparr>nextId := 5\<rparr>) \<and> recordTypes sample_storage 4 = None"
proof -
  have "mint_id sample_storage = Inr (4, sample_storage\<lparr>nextId := 5\<rparr>)"
    by (simp add: mint_id_def assert_open_def sample_state max_safe_def)
  with minted_ids_fresh [OF sample_reachable this] show ?thesis by simp
qed

end
