(* ===== verification/MemoryScans.thy ===== *)
theory MemoryScans
  imports MemoryRuns
begin

text \<open>
  The paged scans of \<open>MemoryStorage\<close>.  The locale \<open>ordered_scan\<close> states what the four scans rest on: an
  index that lists the selected records in ID order.  A page is then the first records after the cursor,
  with a continuation exactly when some are left, and following the continuations visits every record once.
\<close>

section \<open>Pages\<close>

text \<open>A page over a set of records: the first ones by ID, and a cursor if there are more.\<close>

definition is_page :: "('v \<Rightarrow> int) \<Rightarrow> 'v set \<Rightarrow> nat \<Rightarrow> 'v page \<Rightarrow> bool" where
  "is_page get_id V limit p \<longleftrightarrow>
     (\<exists>vs. sorted_wrt (\<lambda>a b. get_id a < get_id b) vs \<and> set vs = V \<and> page_items p = take limit vs \<and>
       page_next p =
         (if length vs \<le> limit then None
          else Some [(js ''after'', JNum (NInt (get_id (last (take limit vs)))))]))"

definition past :: "int option \<Rightarrow> int \<Rightarrow> bool" where
  "past after i \<longleftrightarrow> (case after of None \<Rightarrow> True | Some a \<Rightarrow> a < i)"

lemma past_simps [simp]: "past None = (\<lambda>_. True)" "past (Some a) = (<) a"
  by (auto simp: past_def fun_eq_iff)

lemma make_page_spec:
  assumes "sorted_wrt (\<lambda>a b. get_id a < get_id b) vs" "0 < limit"
  shows "\<exists>p. make_page get_id (take (limit + 1) vs) limit = Inr p \<and> is_page get_id (set vs) limit p"
proof (cases "length vs \<le> limit")
  case True
  then show ?thesis
    using assms(1) by (auto simp: make_page_def is_page_def Let_def intro!: exI [of _ vs])
next
  case False
  then have "take limit (take (limit + 1) vs) = take limit vs" "take limit vs \<noteq> []"
    using assms(2) by (auto simp: min_def)
  with False show ?thesis
    using assms(1) by (auto simp: make_page_def is_page_def Let_def intro!: exI [of _ vs])
qed

text \<open>Reading the cursor of a page gives the ID to continue after, if that ID is a safe integer.\<close>

lemma cursor_after: "\<bar>i\<bar> \<le> max_safe \<Longrightarrow> cursor_id (Some [(js ''after'', JNum (NInt i))]) = Inr (Some i)"
  by (simp add: cursor_id_def obj_get_def)

lemma cursor_none [simp]: "cursor_id None = Inr None"
  by (simp add: cursor_id_def)

lemma sorted_le_last:
  "sorted_wrt (\<lambda>a b. f a < f b) xs \<Longrightarrow> v \<in> set xs \<Longrightarrow> f v \<le> (f (last xs) :: int)"
  by (induction xs rule: rev_induct) (auto simp: sorted_wrt_append)

lemma is_page_next:
  assumes "is_page get_id V limit p" "page_next p = Some c" "\<forall>v \<in> V. \<bar>get_id v\<bar> \<le> max_safe" "0 < limit"
  obtains a where "cursor_id (Some c) = Inr (Some a)" "page_items p \<noteq> []"
    "{v \<in> V. a < get_id v} = V - set (page_items p)" "\<And>v. v \<in> set (page_items p) \<Longrightarrow> get_id v \<le> a" "a \<in> get_id ` V"
proof -
  from assms(1) obtain vs where vs: "sorted_wrt (\<lambda>a b. get_id a < get_id b) vs" "set vs = V"
    "page_items p = take limit vs" "limit < length vs"
    "c = [(js ''after'', JNum (NInt (get_id (last (take limit vs)))))]"
    using assms(2) by (auto simp: is_page_def split: if_splits)
  let ?a = "get_id (last (take limit vs))"
  have ne: "take limit vs \<noteq> []" using vs(4) assms(4) by (cases vs) auto
  have mem: "last (take limit vs) \<in> V" using last_in_set [OF ne] vs(2) set_take_subset [of limit vs] by blast
  have sorted: "sorted_wrt (\<lambda>a b. get_id a < get_id b) (take limit vs @ drop limit vs)" using vs(1) by simp
  have low: "get_id v \<le> ?a" if "v \<in> set (take limit vs)" for v
    by (rule sorted_le_last [OF _ that]) (use sorted in \<open>unfold sorted_wrt_append, blast\<close>)
  have high: "?a < get_id v" if "v \<in> set (drop limit vs)" for v
    using sorted that last_in_set [OF ne] unfolding sorted_wrt_append by blast
  have "set (take limit vs) \<union> set (drop limit vs) = V" using vs(2) by (metis append_take_drop_id set_append)
  then have "{v \<in> V. ?a < get_id v} = V - set (page_items p)"
    using low high by (fastforce simp: vs(3) not_less)
  moreover have "cursor_id (Some c) = Inr (Some ?a)" using assms(3) mem cursor_after unfolding vs(5) by blast
  ultimately show thesis using ne mem low by (intro that [of ?a]) (auto simp: vs(3))
qed

section \<open>What the scans share\<close>

lemma scan_loop_all:
  assumes "\<forall>i \<in> set ids. lookup i \<noteq> None" "length vals \<le> limit + 1"
  shows "scan_loop lookup keep limit ids vals =
    Inr (take (limit + 1) (vals @ filter keep (map (the \<circ> lookup) ids)))"
  using assms
proof (induction ids arbitrary: vals)
  case (Cons i ids)
  then obtain v where "lookup i = Some v" by auto
  with Cons show ?case by (auto simp: not_less Suc_diff_le)
qed simp

lemma start_after_filter:
  assumes "sorted_wrt (<) ids"
  shows "start_after ids after = filter (past after) ids"
  using take_upper_bound(2) [OF assms] by (cases after) (simp_all add: start_after_def not_le)

locale ordered_scan =
  fixes inv :: "'s \<Rightarrow> bool"
    and lookup :: "'s \<Rightarrow> int \<Rightarrow> 'v option"
    and ids :: "'s \<Rightarrow> 'q \<Rightarrow> int list"
    and selects :: "'q \<Rightarrow> 'v \<Rightarrow> bool"
    and get_id :: "'v \<Rightarrow> int"
  assumes listed: "inv s \<Longrightarrow> lists_ids (ids s q) {i. \<exists>v. lookup s i = Some v \<and> selects q v}"
    and own_id: "inv s \<Longrightarrow> keyed (lookup s) get_id"
begin

text \<open>The records of a query after a cursor.\<close>

definition found :: "'s \<Rightarrow> 'q \<Rightarrow> ('v \<Rightarrow> bool) \<Rightarrow> int option \<Rightarrow> 'v set" where
  "found s q keep after = {v. lookup s (get_id v) = Some v \<and> selects q v \<and> keep v \<and> past after (get_id v)}"

lemma scan_values:
  assumes "inv s"
  obtains vs where "scan_loop (lookup s) keep limit (start_after (ids s q) after) [] = Inr (take (limit + 1) vs)"
    "sorted_wrt (\<lambda>a b. get_id a < get_id b) vs" "set vs = found s q keep after"
proof -
  let ?ids = "filter (past after) (ids s q)" and ?v = "the \<circ> lookup s"
  have s: "sorted_wrt (<) (ids s q)" by (rule lists_ids_sorted [OF listed [OF assms]])
  have mem: "i \<in> set (ids s q) \<longleftrightarrow> (\<exists>v. lookup s i = Some v \<and> selects q v)" for i
    using listed [OF assms, of q] by (simp add: lists_ids_def set_eq_iff)
  have id: "get_id (the (lookup s i)) = i" if "i \<in> set (ids s q)" for i
    using that mem keyedD [OF own_id [OF assms]] by auto
  have "sorted_wrt (\<lambda>a b. get_id (?v a) < get_id (?v b)) ?ids"
    using sorted_filter [OF s, of "past after"] by (rule sorted_wrt_mono_rel [rotated]) (simp add: id)
  then have "sorted_wrt (\<lambda>a b. get_id a < get_id b) (filter keep (map ?v ?ids))"
    by (intro sorted_wrt_filter) (simp add: sorted_wrt_map)
  moreover have "set (filter keep (map ?v ?ids)) = found s q keep after"
  proof
    show "set (filter keep (map ?v ?ids)) \<subseteq> found s q keep after"
    proof
      fix v
      assume "v \<in> set (filter keep (map ?v ?ids))"
      then obtain i where i: "i \<in> set (ids s q)" "past after i" "keep v" "v = the (lookup s i)" by auto
      with mem [of i] keyedD [OF own_id [OF assms], of i] show "v \<in> found s q keep after"
        by (auto simp: found_def)
    qed
    show "found s q keep after \<subseteq> set (filter keep (map ?v ?ids))"
    proof
      fix v
      assume "v \<in> found s q keep after"
      then have v: "lookup s (get_id v) = Some v" "selects q v" "keep v" "past after (get_id v)"
        by (simp_all add: found_def)
      with mem have "get_id v \<in> set (ids s q)" by blast
      with v show "v \<in> set (filter keep (map ?v ?ids))" by (force simp: image_iff)
    qed
  qed
  moreover have "scan_loop (lookup s) keep limit (start_after (ids s q) after) [] =
      Inr (take (limit + 1) (filter keep (map ?v ?ids)))"
    using mem by (subst scan_loop_all) (auto simp: start_after_filter [OF s])
  ultimately show thesis by (intro that) auto
qed

lemma scan_page:
  assumes "inv s" "0 < limit"
  shows "\<exists>p. rbind (scan_loop (lookup s) keep limit (start_after (ids s q) after) [])
      (\<lambda>values. make_page get_id values limit) = Inr p \<and> is_page get_id (found s q keep after) limit p"
proof -
  obtain vs where vs: "scan_loop (lookup s) keep limit (start_after (ids s q) after) [] = Inr (take (limit + 1) vs)"
    "sorted_wrt (\<lambda>a b. get_id a < get_id b) vs" "set vs = found s q keep after"
    by (rule scan_values [OF assms(1)])
  from make_page_spec [OF vs(2) assms(2)] show ?thesis by (simp add: vs(1,3))
qed

end

section \<open>The four scans\<close>

definition conversation_index :: "storage \<Rightarrow> conversation_query \<Rightarrow> int list" where
  "conversation_index st q =
     (case cq_owner_task q of
        Some t \<Rightarrow> ids_at (conversationIdsByOwnerTask st) t
      | None \<Rightarrow>
          (case cq_owner_conversation q of
             Some c \<Rightarrow> ids_at (conversationIdsByOwnerConversation st) c
           | None \<Rightarrow> conversationIds st))"

definition conversation_selected :: "conversation_query \<Rightarrow> conversation_record \<Rightarrow> bool" where
  "conversation_selected q c =
     (case cq_owner_task q of
        Some t \<Rightarrow> owning_task c = Some t
      | None \<Rightarrow> (case cq_owner_conversation q of Some i \<Rightarrow> owning_conversation c = Some i | None \<Rightarrow> True))"

interpretation conversations_by: ordered_scan storage_inv conversations conversation_index conversation_selected conv_id
proof
  fix st q
  assume "storage_inv st"
  then have inv: "conversation_inv st" by (simp add: storage_inv_def)
  then show "keyed (conversations st) conv_id" by (simp add: conversation_inv_def)
  from inv show "lists_ids (conversation_index st q)
      {i. \<exists>v. conversations st i = Some v \<and> conversation_selected q v}"
    by (auto simp: conversation_inv_def indexes_def conversation_index_def conversation_selected_def dom_def
        split: option.split)
qed

definition task_index :: "storage \<Rightarrow> task_query \<Rightarrow> int list" where
  "task_index st q = (case tq_status q of None \<Rightarrow> taskIds st | Some s \<Rightarrow> taskIdsByStatus st s)"

interpretation tasks_by: ordered_scan storage_inv tasks task_index
  "\<lambda>q t. matches (tq_status q) (stored_status t)" task_id
proof
  fix st q
  assume "storage_inv st"
  then have inv: "task_inv st" by (simp add: storage_inv_def)
  then show "keyed (tasks st) task_id" by (simp add: task_inv_def)
  from inv show "lists_ids (task_index st q) {i. \<exists>v. tasks st i = Some v \<and> matches (tq_status q) (stored_status v)}"
    by (auto simp: task_inv_def task_index_def matches_def dom_def split: option.split)
qed

interpretation documents_by: ordered_scan storage_inv "\<lambda>st i. map_option ds_record (documents st i)"
  "\<lambda>st q. ids_at (documentIdsByScope st) (scope_key (dq_scope q))" "\<lambda>q r. doc_scope r = dq_scope q" doc_id
proof
  fix st q
  assume "storage_inv st"
  then have inv: "document_inv (nextSeq st) st" by (simp add: storage_inv_def)
  then show "keyed (\<lambda>i. map_option ds_record (documents st i)) doc_id"
    by (auto simp: document_inv_def keyed_def)
  have eq: "{i. \<exists>d. documents st i = Some d \<and> Some (scope_key (doc_scope (ds_record d))) = Some (scope_key (dq_scope q))} =
      {i. \<exists>r. map_option ds_record (documents st i) = Some r \<and> doc_scope r = dq_scope q}" by auto
  from inv have "indexes (documentIdsByScope st) (documents st) (\<lambda>d. Some (scope_key (doc_scope (ds_record d))))"
    by (simp add: document_inv_def)
  then show "lists_ids (ids_at (documentIdsByScope st) (scope_key (dq_scope q)))
      {i. \<exists>r. map_option ds_record (documents st i) = Some r \<and> doc_scope r = dq_scope q}"
    unfolding indexes_def eq [symmetric] by blast
qed

section \<open>Properties\<close>

definition conversation_kept :: "conversation_query \<Rightarrow> conversation_record \<Rightarrow> bool" where
  "conversation_kept q c =
     (case cq_owner_conversation q of None \<Rightarrow> True | Some i \<Rightarrow> map_option owner_conversation (conv_owner c) = Some i)"

definition document_kept :: "document_query \<Rightarrow> document_record \<Rightarrow> bool" where
  "document_kept q r \<longleftrightarrow> matches (dq_kind q) (doc_kind r) \<and> is_alive_at r (dq_at q)"

text \<open>The records that each scan is about.\<close>

definition conversations_found :: "storage \<Rightarrow> conversation_query \<Rightarrow> int option \<Rightarrow> conversation_record set" where
  "conversations_found st q after =
     {c. conversations st (conv_id c) = Some c \<and> matches (map_option Some (cq_owner_task q)) (owning_task c) \<and>
       matches (map_option Some (cq_owner_conversation q)) (owning_conversation c) \<and> past after (conv_id c)}"

definition tasks_found :: "storage \<Rightarrow> task_query \<Rightarrow> int option \<Rightarrow> task_record set" where
  "tasks_found st q after =
     {t. tasks st (task_id t) = Some t \<and> matches (tq_status q) (stored_status t) \<and> task_matches q t \<and>
       past after (task_id t)}"

definition documents_found :: "storage \<Rightarrow> document_query \<Rightarrow> int option \<Rightarrow> document_record set" where
  "documents_found st q after =
     {r. map_option ds_record (documents st (doc_id r)) = Some r \<and> doc_scope r = dq_scope q \<and>
       matches (dq_kind q) (doc_kind r) \<and> is_alive_at r (dq_at q) \<and> past after (doc_id r)}"

lemma scan_conversations_eq:
  assumes "\<not> closed st" "cursor_id cursor = Inr after"
  shows "scan_conversations st q limit cursor =
    rbind (scan_loop (conversations st) (conversation_kept q) limit (start_after (conversation_index st q) after) [])
      (\<lambda>values. make_page conv_id values limit)"
proof -
  have "conversation_kept q = (\<lambda>v. case cq_owner_conversation q of
      None \<Rightarrow> True | Some c \<Rightarrow> map_option owner_conversation (conv_owner v) = Some c)"
    by (simp add: fun_eq_iff conversation_kept_def)
  with assms show ?thesis
    by (simp add: scan_conversations_def assert_open_def conversation_index_def)
qed

lemma scan_tasks_eq:
  "\<not> closed st \<Longrightarrow> cursor_id cursor = Inr after \<Longrightarrow> scan_tasks st q limit cursor =
    rbind (scan_loop (tasks st) (task_matches q) limit (start_after (task_index st q) after) [])
      (\<lambda>values. make_page task_id values limit)"
  by (simp add: scan_tasks_def assert_open_def task_index_def)

lemma scan_documents_eq:
  assumes "\<not> closed st" "cursor_id cursor = Inr after"
  shows "scan_documents st q limit cursor =
    rbind (scan_loop (\<lambda>i. map_option ds_record (documents st i)) (document_kept q) limit
        (start_after (ids_at (documentIdsByScope st) (scope_key (dq_scope q))) after) [])
      (\<lambda>values. make_page doc_id values limit)"
proof -
  have "document_kept q = (\<lambda>r. matches (dq_kind q) (doc_kind r) \<and> is_alive_at r (dq_at q))"
    by (simp add: fun_eq_iff document_kept_def)
  with assms show ?thesis by (simp add: scan_documents_def assert_open_def)
qed

lemma conversations_found_eq:
  "conversations_by.found st q (conversation_kept q) after = conversations_found st q after"
  by (auto simp: conversations_by.found_def conversations_found_def conversation_selected_def conversation_kept_def
      owning_conversation_def owning_task_def matches_def split: option.splits)

lemma tasks_found_eq: "tasks_by.found st q (task_matches q) after = tasks_found st q after"
  by (simp add: tasks_by.found_def tasks_found_def)

lemma documents_found_eq: "documents_by.found st q (document_kept q) after = documents_found st q after"
  by (auto simp: documents_by.found_def documents_found_def document_kept_def)

lemma scan_pages:
  assumes "storage_inv st" "\<not> closed st" "cursor_id cursor = Inr after" "0 < limit"
  shows "\<exists>p. scan_conversations st cq limit cursor = Inr p \<and> is_page conv_id (conversations_found st cq after) limit p"
    and "\<exists>p. scan_tasks st tq limit cursor = Inr p \<and> is_page task_id (tasks_found st tq after) limit p"
    and "\<exists>p. scan_documents st dq limit cursor = Inr p \<and> is_page doc_id (documents_found st dq after) limit p"
proof -
  show "\<exists>p. scan_conversations st cq limit cursor = Inr p \<and> is_page conv_id (conversations_found st cq after) limit p"
    unfolding scan_conversations_eq [OF assms(2,3)] conversations_found_eq [symmetric]
    by (rule conversations_by.scan_page [OF assms(1,4)])
  show "\<exists>p. scan_tasks st tq limit cursor = Inr p \<and> is_page task_id (tasks_found st tq after) limit p"
    unfolding scan_tasks_eq [OF assms(2,3)] tasks_found_eq [symmetric] by (rule tasks_by.scan_page [OF assms(1,4)])
  show "\<exists>p. scan_documents st dq limit cursor = Inr p \<and> is_page doc_id (documents_found st dq after) limit p"
    unfolding scan_documents_eq [OF assms(2,3)] documents_found_eq [symmetric]
    by (rule documents_by.scan_page [OF assms(1,4)])
qed

text \<open>
  In every reachable open storage each of the three scans returns the first \<open>limit\<close> matching records
  after the cursor in ID order, with a continuation exactly when more are left; no index is stale.
\<close>

theorem scans_return_pages:
  assumes "reachable st" "\<not> closed st" "cursor_id cursor = Inr after" "0 < limit"
  shows "(\<exists>p. scan_conversations st cq limit cursor = Inr p \<and>
        is_page conv_id (conversations_found st cq after) limit p) \<and>
    (\<exists>p. scan_tasks st tq limit cursor = Inr p \<and> is_page task_id (tasks_found st tq after) limit p) \<and>
    (\<exists>p. scan_documents st dq limit cursor = Inr p \<and> is_page doc_id (documents_found st dq after) limit p)"
  using scan_pages [OF reachable_inv [OF assms(1)] assms(2-4)] by blast

theorem scans_return_pages_witness:
  "\<exists>p. scan_documents sample_storage \<lparr>dq_scope = ConversationScope 1, dq_at = Current, dq_kind = None\<rparr> 5 None = Inr p \<and>
    is_page doc_id (documents_found sample_storage
      \<lparr>dq_scope = ConversationScope 1, dq_at = Current, dq_kind = None\<rparr> None) 5 p"
proof -
  have "cursor_id None = Inr None" "0 < (5::nat)" by simp_all
  from scans_return_pages [OF sample_reachable sample_state(3) this] show ?thesis by blast
qed

text \<open>
  C38.  Following the continuation of a task page loses and repeats nothing: the next page ranges over
  exactly the matching tasks that the first page did not return.
\<close>

theorem task_pages_continue:
  assumes "reachable st" "\<not> closed st" "0 < limit" "\<forall>i t. tasks st i = Some t \<longrightarrow> \<bar>i\<bar> \<le> max_safe"
    and "cursor_id cursor = Inr after" "scan_tasks st q limit cursor = Inr p" "page_next p = Some c"
  shows "\<exists>p'. scan_tasks st q limit (Some c) = Inr p' \<and>
    is_page task_id (tasks_found st q after - set (page_items p)) limit p'"
proof -
  from scan_pages(2) [OF reachable_inv [OF assms(1)] assms(2,5,3), of q] assms(6)
  have p: "is_page task_id (tasks_found st q after) limit p" by simp
  have "\<forall>t \<in> tasks_found st q after. \<bar>task_id t\<bar> \<le> max_safe" using assms(4) by (auto simp: tasks_found_def)
  from is_page_next [OF p assms(7) this assms(3)] obtain a where a: "cursor_id (Some c) = Inr (Some a)"
    "{t \<in> tasks_found st q after. a < task_id t} = tasks_found st q after - set (page_items p)"
    "a \<in> task_id ` tasks_found st q after" by metis
  from a(3) have "past after a" by (auto simp: tasks_found_def)
  then have "{t \<in> tasks_found st q after. a < task_id t} = tasks_found st q (Some a)"
    by (cases after) (auto simp: tasks_found_def)
  with a scan_pages(2) [OF reachable_inv [OF assms(1)] assms(2) a(1) assms(3), of q] show ?thesis by simp
qed

definition sample_task :: "int \<Rightarrow> task_record" where
  "sample_task i =
     \<lparr>task_id = i, task_conversation = 1, task_kind = js ''work'', task_version = 1, task_input = JNull,
      task_after = [], task_background = False, task_abort = False, task_state = PendingAt JNull, task_memos = None\<rparr>"

definition task_storage :: storage where
  "task_storage = snd (projr (commit new_storage [WTask (sample_task 4), WTask (sample_task 2)]))"

lemma task_storage_state:
  "commit new_storage [WTask (sample_task 4), WTask (sample_task 2)] = Inr (1, task_storage)"
  "tasks task_storage = [4 \<mapsto> sample_task 4, 2 \<mapsto> sample_task 2]" "taskIds task_storage = [2, 4]"
  "\<not> closed task_storage"
proof -
  let ?ws = "[WTask (sample_task 4), WTask (sample_task 2)]"
    and ?st = "apply_task (sample_task 2) (apply_task (sample_task 4) new_storage)"
  have ids: "task_id (sample_task i) = i" for i by (simp add: sample_task_def)
  have "prepare_commit new_storage ?ws (nextSeq new_storage) =
      Inr \<lparr>pc_seq = 1, pc_writes = ?ws, pc_actions = [], pc_applied = False\<rparr>"
    by (simp add: prepare_commit_def assert_open_def resolve_document_copies_def check_global_ids_def check_claim_def
        prepare_document_actions_def check_document_actions_def new_storage_simps ids max_safe_def)
  then have c: "commit new_storage ?ws = Inr (1, ?st\<lparr>nextSeq := 2\<rparr>)"
    by (simp add: commit_def apply_prepared_def)
  have "same_documents new_storage ?st"
    by (rule same_documents_trans [OF apply_task_frame(1) apply_task_frame(1)])
  then show "\<not> closed task_storage" by (simp add: task_storage_def c same_documents_def new_storage_simps)
  from c show "commit new_storage ?ws = Inr (1, task_storage)" "tasks task_storage = [4 \<mapsto> sample_task 4, 2 \<mapsto> sample_task 2]"
    "taskIds task_storage = [2, 4]"
    by (simp_all add: task_storage_def apply_task_frame apply_task_index ids new_storage_def insert_sorted_def
        lower_bound_def search.simps same_documents_def)
qed

theorem task_pages_continue_witness:
  "\<exists>p'. scan_tasks task_storage
      \<lparr>tq_conversation = None, tq_kind = None, tq_status = None, tq_abort = None, tq_background = None\<rparr> 1
      (Some [(js ''after'', JNum (NInt 2))]) = Inr p' \<and>
    is_page task_id (tasks_found task_storage
      \<lparr>tq_conversation = None, tq_kind = None, tq_status = None, tq_abort = None, tq_background = None\<rparr> None
      - {sample_task 2}) 1 p'"
proof -
  let ?q = "\<lparr>tq_conversation = None, tq_kind = None, tq_status = None, tq_abort = None, tq_background = None\<rparr>"
  let ?p = "\<lparr>page_items = [sample_task 2], page_next = Some [(js ''after'', JNum (NInt 2))]\<rparr>"
  have r: "reachable task_storage" by (rule reachable.step [OF reachable.fresh committing [OF task_storage_state(1)]])
  have small: "\<forall>i t. tasks task_storage i = Some t \<longrightarrow> \<bar>i\<bar> \<le> max_safe"
    by (simp add: task_storage_state max_safe_def)
  have "scan_tasks task_storage ?q 1 None = Inr ?p"
    by (simp add: scan_tasks_def assert_open_def task_storage_state start_after_def task_matches_def matches_def
        make_page_def sample_task_def)
  from task_pages_continue [OF r task_storage_state(4) _ small cursor_none this] show ?thesis by simp
qed

end
