(* ===== verification/MemoryReads.thy ===== *)
theory MemoryReads
  imports MemoryScans
begin

text \<open>
  Reading documents back: what a read of a reachable storage can return, that a commit shows in later
  reads exactly as it was asked for, and that it never changes what an earlier sequence reads.
\<close>

section \<open>Replaying revisions\<close>

definition delta_revision :: "int \<Rightarrow> op list \<times> int \<Rightarrow> revision" where
  "delta_revision version p = (DeltaContent version (fst p), snd p)"

lemma base_index_append: "n \<le> length xs \<Longrightarrow> base_index (xs @ ys) n = base_index xs n"
  by (induction n) (simp_all add: nth_append)

lemma base_index_snoc:
  "base_index (rs @ [r]) (length (rs @ [r])) =
     (if is_base_content (fst r) then Some (length rs) else base_index rs (length rs))"
  by (simp add: nth_append base_index_append)

lemma revisions_split:
  assumes "revisions_ok rs"
  obtains pre version x s ds where "rs = pre @ (BaseContent version x, s) # map (delta_revision version) ds"
    "base_index rs (length rs) = Some (length pre)" "content_version (fst (last rs)) = version"
proof -
  have "\<exists>pre version x s ds. rs = pre @ (BaseContent version x, s) # map (delta_revision version) ds \<and>
      base_index rs (length rs) = Some (length pre) \<and> content_version (fst (last rs)) = version"
    using assms
  proof (induction rs rule: rev_induct)
    case Nil
    then show ?case by (simp add: revisions_ok_def)
  next
    case (snoc q rs)
    show ?case
    proof (cases "fst q")
      case (BaseContent version x)
      with base_index_snoc [of rs q] show ?thesis
        by (intro exI [of _ rs] exI [of _ version] exI [of _ x] exI [of _ "snd q"] exI [of _ "[]"]) (cases q, simp)
    next
      case (DeltaContent version ops)
      with snoc.prems have "rs \<noteq> []" by (auto simp: revisions_ok_def)
      with snoc.prems DeltaContent have ok: "revisions_ok rs" "content_version (fst (last rs)) = version"
        by (auto simp: revisions_ok_def chained_snoc hd_append)
      from snoc.IH [OF ok(1)] obtain pre version' x s ds
        where rs: "rs = pre @ (BaseContent version' x, s) # map (delta_revision version') ds"
          "base_index rs (length rs) = Some (length pre)" "content_version (fst (last rs)) = version'" by blast
      from rs(3) ok(2) have "version' = version" by simp
      note rs = rs(1,2) [unfolded this]
      have "base_index (rs @ [q]) (length (rs @ [q])) = Some (length pre)"
        using base_index_snoc [of rs q] DeltaContent rs(2) by simp
      moreover have "rs @ [q] = pre @ (BaseContent version x, s) # map (delta_revision version) (ds @ [(ops, snd q)])"
        using DeltaContent by (subst rs(1), cases q) (simp add: delta_revision_def)
      moreover have "content_version (fst (last (rs @ [q]))) = version" using DeltaContent by simp
      ultimately show ?thesis by blast
    qed
  qed
  with that show thesis by blast
qed

lemma replay_deltas:
  "rfold (replay_revision i version) (map (delta_revision version) ds) x =
     map_sum DeltaFailure id (apply_immutable_batches (map fst ds) x)"
proof (induction ds arbitrary: x)
  case Nil
  then show ?case by (simp add: apply_immutable_batches_def)
next
  case (Cons d ds)
  have "apply_immutable_batches (map fst (d # ds)) x = rbind (apply_immutable (fst d) x) (apply_immutable_batches (map fst ds))"
    by (cases "rfold apply_immutable_op (fst d) x") (simp_all add: apply_immutable_def apply_immutable_batches_def)
  with Cons.IH show ?case
    by (cases "apply_immutable (fst d) x") (simp_all add: replay_revision_def delta_revision_def)
qed

text \<open>The content of a nonempty revision list: version, base value and the batches after the base.\<close>

definition replays :: "revision list \<Rightarrow> int \<Rightarrow> jsv \<Rightarrow> op list list \<Rightarrow> bool" where
  "replays rs version x batches \<longleftrightarrow>
     (\<exists>pre s ds. rs = pre @ (BaseContent version x, s) # map (delta_revision version) ds \<and> batches = map fst ds)"

definition revisions_at :: "document_state \<Rightarrow> document_point \<Rightarrow> revision list" where
  "revisions_at d at = (case at of Current \<Rightarrow> ds_revisions d | At s \<Rightarrow> filter (\<lambda>r. snd r \<le> s) (ds_revisions d))"

lemma chained_Cons: "chained (r # rs) \<Longrightarrow> chained rs \<and> (\<forall>q \<in> set rs. snd r < snd q)"
proof (induction rs arbitrary: r)
  case (Cons q rs)
  then have "snd r < snd q" "chained (q # rs)" by simp_all
  with Cons.IH [of q] show ?case by fastforce
qed simp

lemma chained_filter: "chained rs \<Longrightarrow> filter (\<lambda>r. snd r \<le> s) rs = takeWhile (\<lambda>r. snd r \<le> s) rs"
proof (induction rs)
  case (Cons r rs)
  from chained_Cons [OF Cons.prems] have rs: "chained rs" "\<forall>q \<in> set rs. snd r < snd q" by simp_all
  show ?case
  proof (cases "snd r \<le> s")
    case True
    with Cons.IH [OF rs(1)] show ?thesis by simp
  next
    case False
    with rs(2) show ?thesis by (auto simp: filter_empty_conv)
  qed
qed simp

lemma chained_prefix: "chained (xs @ ys) \<Longrightarrow> chained xs"
  by (induction ys rule: rev_induct) (auto simp: chained_snoc simp flip: append_assoc)

text \<open>A document that is alive at a point has revisions up to it that start with a base.\<close>

lemma revisions_at_ok:
  assumes "document_ok n d" "is_alive_at (ds_record d) at" "at = Current \<or> \<not> is_current_only (ds_record d)"
  shows "revisions_ok (revisions_at d at)"
proof (cases at)
  case Current
  with assms show ?thesis by (auto simp: document_ok_def is_alive_at_def revisions_at_def split: if_splits)
next
  case (At s)
  with assms have ok: "revisions_ok (ds_revisions d)" "snd (hd (ds_revisions d)) = doc_created (ds_record d)"
    "doc_created (ds_record d) \<le> s" by (auto simp: document_ok_def is_alive_at_def split: if_splits)
  obtain r rs where r: "ds_revisions d = r # rs" using ok(1) by (cases "ds_revisions d") (auto simp: revisions_ok_def)
  have "ds_revisions d = revisions_at d at @ dropWhile (\<lambda>r. snd r \<le> s) (ds_revisions d)"
    using chained_filter [of "ds_revisions d" s] ok(1) by (simp add: revisions_ok_def At revisions_at_def)
  then have "chained (revisions_at d at)" using ok(1) chained_prefix by (metis revisions_ok_def)
  with ok r show ?thesis by (auto simp: revisions_ok_def revisions_at_def At)
qed

text \<open>What \<open>materializeDocument\<close> does on a document that satisfies the invariant.\<close>

lemma materialize_alive:
  assumes "documents st i = Some d" "document_ok n d" "is_alive_at (ds_record d) at"
    and "at = Current \<or> \<not> is_current_only (ds_record d)"
  obtains version x batches where "replays (revisions_at d at) version x batches"
    "materialize_document st i at = map_sum DeltaFailure
       (\<lambda>v. Some \<lparr>stored_record = ds_record d, stored_version = version, stored_value = v\<rparr>)
       (apply_immutable_batches batches x)"
    "content_version (fst (last (revisions_at d at))) = version"
proof -
  obtain pre version x s ds where rs: "revisions_at d at = pre @ (BaseContent version x, s) # map (delta_revision version) ds"
    "base_index (revisions_at d at) (length (revisions_at d at)) = Some (length pre)"
    "content_version (fst (last (revisions_at d at))) = version"
    by (rule revisions_split [OF revisions_at_ok [OF assms(2-4)]])
  have "materialize_document st i at = map_sum DeltaFailure
      (\<lambda>v. Some \<lparr>stored_record = ds_record d, stored_version = version, stored_value = v\<rparr>)
      (apply_immutable_batches (map fst ds) x)"
    using assms(1,3,4) rs(2)
    by (cases "apply_immutable_batches (map fst ds) x")
      (auto simp: materialize_document_def revisions_at_def [symmetric] rs(1) nth_append replay_deltas)
  with rs show thesis by (intro that) (auto simp: replays_def)
qed

section \<open>The documents after a commit\<close>

definition action_fits :: "int \<Rightarrow> document_state option \<Rightarrow> int \<Rightarrow> document_action \<Rightarrow> bool" where
  "action_fits seq old i a \<longleftrightarrow>
     (case old of
        None \<Rightarrow> \<exists>r v x. act_create a = Some r \<and> act_content a = Some (BaseContent v x) \<and> doc_id r = i
      | Some d \<Rightarrow> act_create a = None \<and> alive d \<and> document_ok seq d \<and>
          (\<forall>c. act_content a = Some c \<longrightarrow> is_base_content c \<or>
            content_version c = content_version (fst (last (ds_revisions d)))))"

lemma action_fits_simps [simp]:
  "action_fits seq None i a \<longleftrightarrow>
     (\<exists>r v x. act_create a = Some r \<and> act_content a = Some (BaseContent v x) \<and> doc_id r = i)"
  "action_fits seq (Some d) i a \<longleftrightarrow> act_create a = None \<and> alive d \<and> document_ok seq d \<and>
     (\<forall>c. act_content a = Some c \<longrightarrow> is_base_content c \<or>
       content_version c = content_version (fst (last (ds_revisions d))))"
  by (simp_all add: action_fits_def)

lemma commit_documents:
  assumes "storage_inv st" "commit st ws = Inr (seq, st')"
  obtains pc where "prepare_commit st ws (nextSeq st) = Inr pc" "seq = nextSeq st" "\<not> closed st'"
    "documents st' = documents_after seq (pc_actions pc) (documents st)"
    "\<And>i a. map_of (pc_actions pc) i = Some a \<Longrightarrow> action_fits seq (documents st i) i a"
proof -
  from assms(2) obtain pc where pc: "prepare_commit st ws (nextSeq st) = Inr pc"
    by (auto simp: commit_def res_simps)
  obtain st'' where st'': "apply_prepared pc st = Inr (pc\<lparr>pc_applied := True\<rparr>, st'')"
    "documents st'' = documents_after (nextSeq st) (pc_actions pc) (documents st)" "closed st'' = closed st"
    using apply_prepared_ok [OF assms(1) pc] by metis
  obtain acts where steps: "\<not> closed st" "pc_seq pc = nextSeq st" "pc_actions pc = acts"
    "actions_of (set (pc_writes pc)) acts" "check_document_actions st acts = Inr ()"
    using prepare_commit_steps [OF pc] by metis
  have "st'' = st'" "seq = nextSeq st" using assms(2) pc st''(1) steps(2) by (simp_all add: commit_def)
  have "current_placed st" using assms(1) by (simp add: storage_inv_def storage_current_placed)
  moreover have dist: "distinct (map fst acts)" using steps(4) by (simp add: actions_of_def)
  ultimately have checked: "\<exists>address. check_action_record st i a = Inr address" if "map_of acts i = Some a" for i a
    using check_document_actions_ok(2) [OF steps(5)] map_of_SomeD [OF that] by blast
  have facts: "action_fits seq (documents st i) i a"
    if a: "map_of (pc_actions pc) i = Some a" for i a
  proof -
    from checked a steps(3) obtain address where c: "check_action_record st i a = Inr address" by blast
    show ?thesis
    proof (cases "act_create a")
      case (Some r)
      with check_action_record_ok(1) [OF c Some] steps(4) a steps(3) show ?thesis by (fastforce simp: actions_of_def)
    next
      case None
      from check_action_record_ok(2) [OF c None] obtain d where "documents st i = Some d" "alive d"
        "\<forall>c. act_content a = Some c \<longrightarrow> is_base_content c \<or>
          content_version c = content_version (fst (last (ds_revisions d)))" by blast
      moreover from this(1) assms(1) have "document_ok seq d"
        unfolding \<open>seq = nextSeq st\<close> by (auto simp: storage_inv_def document_inv_def ran_def)
      ultimately show ?thesis using None by simp
    qed
  qed
  show thesis
    by (rule that [OF pc \<open>seq = nextSeq st\<close> _ _ facts]) (use st'' steps \<open>st'' = st'\<close> \<open>seq = nextSeq st\<close> in auto)
qed

text \<open>The revisions of a rewindable document only grow at the end, and its record only gains a retirement.\<close>

lemma final_rewindable:
  assumes "act_create a = None" "\<not> is_current_only (ds_record d)"
  shows "ds_revisions (final_document seq a (Some d)) =
      ds_revisions d @ (case act_content a of None \<Rightarrow> [] | Some c \<Rightarrow> [(c, seq)])"
    and "ds_record (final_document seq a (Some d)) =
      (if act_retire a then (ds_record d)\<lparr>doc_retired := Some seq\<rparr> else ds_record d)"
  using assms
  by (simp_all add: final_document_def retire_document_def change_document_def is_current_only_def Let_def
      split: option.split)

lemma history_kept:
  assumes "documents st i = Some d" "documents st' i = Some d'" "s < seq" "\<not> is_current_only (ds_record d)"
    and "d' = d \<or> alive d \<and> (\<exists>a. act_create a = None \<and> d' = final_document seq a (Some d))"
  shows "map_sum id (map_option (\<lambda>x. (stored_version x, stored_value x))) (materialize_document st' i (At s)) =
    map_sum id (map_option (\<lambda>x. (stored_version x, stored_value x))) (materialize_document st i (At s))"
proof -
  have d': "\<not> is_current_only (ds_record d')" "is_alive_at (ds_record d') (At s) = is_alive_at (ds_record d) (At s)"
    "filter (\<lambda>r. snd r \<le> s) (ds_revisions d') = filter (\<lambda>r. snd r \<le> s) (ds_revisions d)"
    using assms(5)
  proof (atomize(full), elim disjE conjE exE)
    fix a
    assume "alive d" and a: "act_create a = None" "d' = final_document seq a (Some d)"
    with final_rewindable [OF a(1) assms(4), of seq] assms(3,4)
    show "\<not> is_current_only (ds_record d') \<and> is_alive_at (ds_record d') (At s) = is_alive_at (ds_record d) (At s) \<and>
        filter (\<lambda>r. snd r \<le> s) (ds_revisions d') = filter (\<lambda>r. snd r \<le> s) (ds_revisions d)"
      by (cases "act_retire a")
        (auto simp: is_current_only_def is_alive_at_def alive_def split: option.split)
  qed (use assms(4) in simp)
  have "map_sum id (map_option (\<lambda>x. (stored_version x, stored_value x))) (materialize_document st j (At s)) =
      (if \<not> is_alive_at (ds_record e) (At s) then Inr None
       else let rs = filter (\<lambda>r. snd r \<le> s) (ds_revisions e) in
         case base_index rs (length rs) of
           None \<Rightarrow> Inl (MissingBase j)
         | Some b \<Rightarrow>
             (case fst (rs ! b) of
                DeltaContent _ _ \<Rightarrow> Inl (MissingBase j)
              | BaseContent version value \<Rightarrow>
                  map_sum id (\<lambda>v. Some (version, v)) (rfold (replay_revision j version) (drop (b + 1) rs) value)))"
    if "documents st j = Some e" "\<not> is_current_only (ds_record e)" for st j e
    using that
    by (auto simp: materialize_document_def Let_def rbind_def split: option.split document_content.split sum.split)
  from this [OF assms(1,4)] this [OF assms(2) d'(1)] show ?thesis by (simp only: d')
qed

section \<open>The action of a written document\<close>

lemma add_action_effect:
  assumes "add_action w acts = Inr acts'"
  shows "action_of acts' i =
    (case w of
       WDocCreate r v x \<Rightarrow>
         if i = doc_id r then (action_of acts i)\<lparr>act_create := Some r, act_content := Some (BaseContent v x)\<rparr>
         else action_of acts i
     | WDocChange j c \<Rightarrow> if i = j then (action_of acts i)\<lparr>act_content := Some c\<rparr> else action_of acts i
     | WDocRetire j \<Rightarrow> if i = j then (action_of acts i)\<lparr>act_retire := True\<rparr> else action_of acts i
     | _ \<Rightarrow> action_of acts i)"
    and "case w of
       WDocCreate r v x \<Rightarrow> act_content (action_of acts (doc_id r)) = None
     | WDocChange j c \<Rightarrow> act_content (action_of acts j) = None
     | _ \<Rightarrow> True"
  using assms by (cases w; auto simp: Let_def action_of_def update_conv' split: if_splits option.splits)+

lemma add_action_keeps:
  assumes "add_action w acts = Inr acts'" "act_content (action_of acts i) = Some c"
  shows "act_content (action_of acts' i) = Some c" "act_create (action_of acts' i) = act_create (action_of acts i)"
  using add_action_effect [OF assms(1)] assms(2) by (auto split: storage_write.splits if_splits)

lemma add_actions_keep:
  assumes "rfold add_action ws acts = Inr acts'" "act_content (action_of acts i) = Some c"
  shows "act_content (action_of acts' i) = Some c \<and> act_create (action_of acts' i) = act_create (action_of acts i)"
  using assms
proof (induction ws arbitrary: acts)
  case (Cons w ws)
  from Cons.prems(1) obtain a where a: "add_action w acts = Inr a" "rfold add_action ws a = Inr acts'"
    by (auto simp: res_simps)
  from Cons.IH [OF a(2) add_action_keeps(1) [OF a(1) Cons.prems(2)]] add_action_keeps [OF a(1) Cons.prems(2)]
  show ?case by simp
qed simp

lemma add_actions_retire:
  assumes "rfold add_action ws acts = Inr acts'" "act_retire (action_of acts' i)" "WDocRetire i \<notin> set ws"
  shows "act_retire (action_of acts i)"
  using assms
proof (induction ws arbitrary: acts)
  case (Cons w ws)
  from Cons.prems(1) obtain a where a: "add_action w acts = Inr a" "rfold add_action ws a = Inr acts'"
    by (auto simp: res_simps)
  from Cons.IH [OF a(2) Cons.prems(2)] Cons.prems(3) have "act_retire (action_of a i)" by simp
  with add_action_effect(1) [OF a(1), of i] Cons.prems(3) show ?case
    by (auto split: storage_write.splits if_splits)
qed simp

lemma add_actions_content:
  assumes "rfold add_action ws acts = Inr acts'" "w \<in> set ws"
    and "w = WDocCreate r v x \<and> i = doc_id r \<and> c = BaseContent v x \<or> w = WDocChange i c"
  shows "act_content (action_of acts' i) = Some c \<and>
    (w = WDocCreate r v x \<longrightarrow> act_create (action_of acts' i) = Some r)"
  using assms(1,2)
proof (induction ws arbitrary: acts)
  case (Cons u ws)
  from Cons.prems(1) obtain a where a: "add_action u acts = Inr a" "rfold add_action ws a = Inr acts'"
    by (auto simp: res_simps)
  show ?case
  proof (cases "u = w")
    case True
    have "act_content (action_of a i) = Some c" "w = WDocCreate r v x \<longrightarrow> act_create (action_of a i) = Some r"
      using add_action_effect(1) [OF a(1), of i] assms(3) by (auto simp: True)
    with add_actions_keep [OF a(2)] show ?thesis by simp
  next
    case False
    with Cons.prems(2) Cons.IH [OF a(2)] show ?thesis by simp
  qed
qed simp

text \<open>What a commit does to a document that it writes and does not retire.\<close>

lemma commit_writes_document:
  assumes "storage_inv st" "commit st ws = Inr (seq, st')"
    and "resolve_document_copies st ws = Inr ws'" "w \<in> set ws'"
    and "w = WDocCreate r v x \<and> i = doc_id r \<and> c = BaseContent v x \<or> w = WDocChange i c"
    and "WDocRetire i \<notin> set ws'"
  obtains a where "act_content a = Some c" "\<not> act_retire a" "w = WDocCreate r v x \<Longrightarrow> act_create a = Some r"
    "documents st' i = Some (final_document seq a (documents st i))" "seq = nextSeq st" "\<not> closed st'" "\<not> closed st"
    "\<And>d. documents st i = Some d \<Longrightarrow> act_create a = None \<and> alive d \<and> document_ok seq d \<and>
      (is_base_content c \<or> content_version c = content_version (fst (last (ds_revisions d))))"
    "documents st i = None \<Longrightarrow> act_create a \<noteq> None"
proof -
  obtain pc where pc: "prepare_commit st ws (nextSeq st) = Inr pc" "seq = nextSeq st" "\<not> closed st'"
    "documents st' = documents_after seq (pc_actions pc) (documents st)"
    "\<And>i a. map_of (pc_actions pc) i = Some a \<Longrightarrow> action_fits seq (documents st i) i a"
    using commit_documents [OF assms(1,2)] by metis
  from pc(1) assms(3) have acts: "prepare_document_actions ws' = Inr (pc_actions pc)" "\<not> closed st"
    by (auto simp: prepare_commit_def assert_open_def res_simps)
  let ?a = "action_of (pc_actions pc) i"
  from add_actions_content [OF acts(1) [unfolded prepare_document_actions_def] assms(4,5)]
  have a: "act_content ?a = Some c" "w = WDocCreate r v x \<longrightarrow> act_create ?a = Some r" by simp_all
  then have m: "map_of (pc_actions pc) i = Some ?a" by (auto simp: action_of_def new_action_def split: option.splits)
  have "\<not> act_retire ?a"
    using add_actions_retire [OF acts(1) [unfolded prepare_document_actions_def] _ assms(6)]
    by (auto simp: action_of_def new_action_def)
  moreover have "documents st' i = Some (final_document seq ?a (documents st i))"
    using m by (simp add: pc(4) documents_after_def)
  moreover have "act_create ?a = None \<and> alive d \<and> document_ok seq d \<and>
      (is_base_content c \<or> content_version c = content_version (fst (last (ds_revisions d))))"
    if "documents st i = Some d" for d using pc(5) [OF m] a(1) that by simp
  moreover have "act_create ?a \<noteq> None" if "documents st i = None" using pc(5) [OF m] that by auto
  ultimately show thesis using a by (intro that [of ?a] pc(2,3) acts(2)) simp_all
qed

declare base_index.simps [simp del]

lemma delta_not_base [simp]: "\<not> is_base_content (fst (delta_revision version d))"
  by (simp add: delta_revision_def)

lemma base_index_split:
  "base_index (pre @ (BaseContent version x, s) # map (delta_revision version) ds)
     (length (pre @ (BaseContent version x, s) # map (delta_revision version) ds)) = Some (length pre)"
proof (induction ds rule: rev_induct)
  case Nil
  then show ?case using base_index_snoc [of pre "(BaseContent version x, s)"] by simp
next
  case (snoc d ds)
  then show ?case
    using base_index_snoc [of "pre @ (BaseContent version x, s) # map (delta_revision version) ds" "delta_revision version d"]
    by simp
qed

lemma materialize_split:
  assumes "documents st i = Some d" "alive d"
    and "ds_revisions d = pre @ (BaseContent version x, s) # map (delta_revision version) ds"
  shows "materialize_document st i Current = map_sum DeltaFailure
      (\<lambda>v. Some \<lparr>stored_record = ds_record d, stored_version = version, stored_value = v\<rparr>)
      (apply_immutable_batches (map fst ds) x)"
  using assms base_index_split [of pre version x s ds]
  by (cases "apply_immutable_batches (map fst ds) x")
    (auto simp: materialize_document_def is_alive_at_def alive_def nth_append replay_deltas)

text \<open>Appending a delta to the revisions applies it to the value that was read before.\<close>

lemma materialize_delta:
  assumes "documents st i = Some d" "alive d" "document_ok n d" "documents st' i = Some d'"
    and "ds_record d' = ds_record d" "ds_revisions d' = ds_revisions d @ [(DeltaContent version ops, seq)]"
    and "version = content_version (fst (last (ds_revisions d)))" "materialize_document st i Current = Inr (Some old)"
  shows "stored_version old = version \<and> materialize_document st' i Current =
    map_sum DeltaFailure (\<lambda>v. Some (old\<lparr>stored_value := v\<rparr>)) (apply_immutable ops (stored_value old))"
proof -
  have "revisions_ok (ds_revisions d)" using assms(2,3) by (auto simp: document_ok_def alive_def)
  then obtain pre version' x s ds where rs: "ds_revisions d = pre @ (BaseContent version' x, s) # map (delta_revision version') ds"
    "content_version (fst (last (ds_revisions d))) = version'" by (rule revisions_split)
  from rs(2) assms(7) have "version' = version" by simp
  note rs = rs(1) [unfolded this]
  from assms(8) materialize_split [OF assms(1,2) rs] obtain v where v: "apply_immutable_batches (map fst ds) x = Inr v"
    "old = \<lparr>stored_record = ds_record d, stored_version = version, stored_value = v\<rparr>"
    by (cases "apply_immutable_batches (map fst ds) x") auto
  have alive': "alive d'" using assms(2,5) by (simp add: alive_def)
  have revs: "ds_revisions d' = pre @ (BaseContent version x, s) # map (delta_revision version) (ds @ [(ops, seq)])"
    by (simp add: assms(6) rs delta_revision_def)
  have "apply_immutable_batches (map fst (ds @ [(ops, seq)])) x = apply_immutable ops v"
    using v(1) by (simp add: apply_immutable_batches_def apply_immutable_def rfold_append)
  then show ?thesis
    using materialize_split [OF assms(4) alive' revs] by (simp add: v(2) assms(5))
qed

lemma materialize_base:
  assumes "documents st i = Some d" "alive d" "ds_revisions d = pre @ [(BaseContent version x, s)]"
  shows "materialize_document st i Current =
    Inr (Some \<lparr>stored_record = ds_record d, stored_version = version, stored_value = x\<rparr>)"
  using materialize_split [OF assms(1,2), of pre version x s "[]"] assms(3)
  by (simp add: apply_immutable_batches_def)

lemma resolved_writes:
  assumes "resolve_document_copies st ws = Inr ws'"
  shows "w \<in> set ws \<Longrightarrow> \<not> is_copy w \<Longrightarrow> w \<in> set ws'"
    and "WDocRetire i \<in> set ws' \<Longrightarrow> WDocRetire i \<in> set ws"
    and "WDocCopy r src at \<in> set ws \<Longrightarrow>
      \<exists>changed v x. resolve_copy st changed r src at = Inr (WDocCreate r v x) \<and> WDocCreate r v x \<in> set ws'"
proof -
  have copy: "\<exists>v x. w' = WDocCreate r v x" if "resolve_copy st C r src at = Inr w'" for C w'
    using that by (auto simp: resolve_copy_def Let_def res_simps map_sum_def split: sum.splits if_splits option.splits)
  have plain: "resolve_write st C w = Inr w" if "\<not> is_copy w" for C w using that by (cases w) simp_all
  have all: "(w \<in> set xs \<longrightarrow> \<not> is_copy w \<longrightarrow> w \<in> set ys) \<and> (WDocRetire i \<in> set ys \<longrightarrow> WDocRetire i \<in> set xs) \<and>
      (WDocCopy r src at \<in> set xs \<longrightarrow> (\<exists>w' \<in> set ys. resolve_copy st C r src at = Inr w'))"
    if "rmap (resolve_write st C) xs = Inr ys" for C xs ys
    using that
  proof (induction xs arbitrary: ys)
    case (Cons u xs)
    then obtain u' us where u: "resolve_write st C u = Inr u'" "rmap (resolve_write st C) xs = Inr us" "ys = u' # us"
      by (auto simp: res_simps)
    have "u' \<noteq> WDocRetire i \<or> u = WDocRetire i"
    proof (cases "is_copy u")
      case True
      then obtain r2 j a where "u = WDocCopy r2 j a" by (cases u) auto
      with u(1) show ?thesis
        by (auto simp: resolve_copy_def Let_def res_simps map_sum_def split: sum.splits if_splits option.splits)
    next
      case False
      with u(1) plain show ?thesis by simp
    qed
    with Cons.IH [OF u(2)] u plain show ?case by auto
  qed simp
  let ?C = "set (List.map_filter changed_id ws)"
  have none: "\<not> list_ex is_copy ws \<Longrightarrow> ws' = ws" and some: "list_ex is_copy ws \<Longrightarrow> rmap (resolve_write st ?C) ws = Inr ws'"
    using assms by (auto simp: resolve_document_copies_def)
  show "w \<in> set ws \<Longrightarrow> \<not> is_copy w \<Longrightarrow> w \<in> set ws'" "WDocRetire i \<in> set ws' \<Longrightarrow> WDocRetire i \<in> set ws"
    using none all [OF some] by blast+
  show "\<exists>changed v x. resolve_copy st changed r src at = Inr (WDocCreate r v x) \<and> WDocCreate r v x \<in> set ws'"
    if "WDocCopy r src at \<in> set ws"
  proof -
    from that have "list_ex is_copy ws" by (force simp: list_ex_iff)
    from all [OF some [OF this]] that obtain w' where "w' \<in> set ws'" "resolve_copy st ?C r src at = Inr w'" by blast
    with copy show ?thesis by blast
  qed
qed

lemma created_reads:
  assumes "storage_inv st" "commit st ws = Inr (seq, st')" "resolve_document_copies st ws = Inr ws'"
    and "WDocCreate r v x \<in> set ws'" "WDocRetire (doc_id r) \<notin> set ws'"
  shows "read_document st' (doc_id r) Current =
    Inr (Some \<lparr>stored_record = stamp r seq False, stored_version = v, stored_value = x\<rparr>)"
proof -
  obtain a where a: "act_content a = Some (BaseContent v x)" "\<not> act_retire a" "act_create a = Some r" "\<not> closed st'"
    "documents st' (doc_id r) = Some (final_document seq a (documents st (doc_id r)))"
    using commit_writes_document [OF assms(1-4) _ assms(5)] by (metis (no_types, lifting))
  let ?d = "final_document seq a (documents st (doc_id r))"
  have "alive ?d" "ds_revisions ?d = [] @ [(BaseContent v x, seq)]" "ds_record ?d = stamp r seq False"
    using a by (simp_all add: final_document_def retire_document_def alive_def)
  with materialize_base [OF a(5), of "[]" v x seq] a(4) show ?thesis by (simp add: read_document_def assert_open_def)
qed

section \<open>A sample change\<close>

definition sample_edit :: "op list" where
  "sample_edit = [OpS [SStr (js ''n'')] (JNum (NInt 5))]"

definition sample_change :: "storage_write list" where
  "sample_change = [WDocChange 3 (DeltaContent 1 sample_edit)]"

lemma sample_change_commit: "\<exists>st'. commit sample_storage sample_change = Inr (2, st')"
proof -
  have "prepare_document_actions sample_change =
      Inr [(3, \<lparr>act_create = None, act_content = Some (DeltaContent 1 sample_edit), act_retire = False\<rparr>)]"
    by (simp add: prepare_document_actions_def sample_change_def action_of_def new_action_def)
  moreover have "check_global_ids sample_storage sample_change = Inr ()"
    by (simp add: check_global_ids_def check_claim_def sample_change_def)
  moreover have "resolve_document_copies sample_storage sample_change = Inr sample_change"
    by (simp add: resolve_document_copies_def sample_change_def)
  moreover have "check_document_actions sample_storage
      [(3, \<lparr>act_create = None, act_content = Some (DeltaContent 1 sample_edit), act_retire = False\<rparr>)] = Inr ()"
    by (simp add: check_document_actions_def count_live_def check_action_record_def sample_state Let_def)
  ultimately obtain pc where "prepare_commit sample_storage sample_change (nextSeq sample_storage) = Inr pc"
    by (simp add: prepare_commit_def assert_open_def sample_state max_safe_def)
  from commit_prepared [OF reachable_inv [OF sample_reachable] this] show ?thesis
    by (metis sample_state(2))
qed

lemma sample_read:
  "materialize_document sample_storage 3 Current =
     Inr (Some \<lparr>stored_record = stamp sample_record 1 False, stored_version = 1, stored_value = sample_value\<rparr>)"
  "materialize_document sample_storage 3 (At 1) =
     Inr (Some \<lparr>stored_record = stamp sample_record 1 False, stored_version = 1, stored_value = sample_value\<rparr>)"
  by (simp_all add: materialize_document_def sample_state is_alive_at_def is_current_only_def base_index.simps
      sample_record_def)

section \<open>Properties\<close>

text \<open>
  C29.  Reading a document of a reachable open storage: an unknown one and one that is not alive give
  nothing, a point in the past of a document without history is refused, and otherwise the result is the
  last base up to the point with the later deltas applied; the only other failure is a delta that does
  not apply.  A missing base and a version boundary never occur.
\<close>

theorem read_document_cases:
  assumes "reachable st" "\<not> closed st"
  shows "case documents st i of
      None \<Rightarrow> read_document st i at = Inr None
    | Some d \<Rightarrow>
        if at \<noteq> Current \<and> is_current_only (ds_record d) then read_document st i at = Inl (NoHistory i)
        else if \<not> is_alive_at (ds_record d) at then read_document st i at = Inr None
        else \<exists>version x batches. replays (revisions_at d at) version x batches \<and>
          read_document st i at = map_sum DeltaFailure
            (\<lambda>v. Some \<lparr>stored_record = ds_record d, stored_version = version, stored_value = v\<rparr>)
            (apply_immutable_batches batches x)"
proof (cases "documents st i")
  case None
  with assms(2) show ?thesis by (simp add: read_document_def assert_open_def materialize_document_def)
next
  case (Some d)
  from reachable_inv [OF assms(1)] Some have ok: "document_ok (nextSeq st) d"
    by (auto simp: storage_inv_def document_inv_def ran_def)
  have read: "read_document st i p = materialize_document st i p" for p
    using assms(2) by (simp add: read_document_def assert_open_def)
  show ?thesis
  proof (cases "is_alive_at (ds_record d) at \<and> (at = Current \<or> \<not> is_current_only (ds_record d))")
    case True
    with materialize_alive [OF Some ok] show ?thesis by (simp add: Some read) metis
  next
    case False
    with Some show ?thesis by (auto simp: read materialize_document_def)
  qed
qed

theorem read_document_cases_witness:
  "\<exists>version x batches. replays [(BaseContent 1 sample_value, 1)] version x batches \<and>
    read_document sample_storage 3 Current = map_sum DeltaFailure
      (\<lambda>v. Some \<lparr>stored_record = stamp sample_record 1 False, stored_version = version, stored_value = v\<rparr>)
      (apply_immutable_batches batches x)"
  using read_document_cases [OF sample_reachable sample_state(3), of 3 Current]
  by (simp add: sample_state is_alive_at_def revisions_at_def)

text \<open>
  C5.  The past is immutable: a commit does not change what any earlier sequence reads of a document that
  keeps its history, not even the commit that retires it.
\<close>

theorem history_is_immutable:
  assumes "reachable st" "commit st ws = Inr (seq, st')" "documents st i = Some d"
    and "\<not> is_current_only (ds_record d)" "s < seq"
  shows "map_sum id (map_option (\<lambda>x. (stored_version x, stored_value x))) (read_document st' i (At s)) =
    map_sum id (map_option (\<lambda>x. (stored_version x, stored_value x))) (read_document st i (At s))"
proof -
  obtain pc where pc: "prepare_commit st ws (nextSeq st) = Inr pc" "\<not> closed st'"
    "documents st' = documents_after seq (pc_actions pc) (documents st)"
    "\<And>i a. map_of (pc_actions pc) i = Some a \<Longrightarrow> action_fits seq (documents st i) i a"
    using commit_documents [OF reachable_inv [OF assms(1)] assms(2)] by metis
  have "\<not> closed st" using pc(1) by (auto simp: prepare_commit_def assert_open_def res_simps)
  obtain d' where d': "documents st' i = Some d'"
    "d' = d \<or> alive d \<and> (\<exists>a. act_create a = None \<and> d' = final_document seq a (Some d))"
  proof (cases "map_of (pc_actions pc) i")
    case None
    with pc(3) assms(3) that show thesis by (simp add: documents_after_def)
  next
    case (Some a)
    with pc(4) [OF Some] assms(3) have "act_create a = None" "alive d" by simp_all
    with Some assms(3) that [of "final_document seq a (Some d)"] show thesis
      by (simp add: pc(3) documents_after_def) blast
  qed
  from history_kept [OF assms(3) d'(1) assms(5,4) d'(2)] pc(2) \<open>\<not> closed st\<close> show ?thesis
    by (simp add: read_document_def assert_open_def)
qed

theorem history_is_immutable_witness:
  "\<exists>st'. commit sample_storage sample_change = Inr (2, st') \<and>
    map_sum id (map_option (\<lambda>x. (stored_version x, stored_value x))) (read_document st' 3 (At 1)) =
      Inr (Some (1, sample_value))"
proof -
  obtain st' where c: "commit sample_storage sample_change = Inr (2, st')" using sample_change_commit by blast
  have d: "documents sample_storage 3 =
      Some \<lparr>ds_record = stamp sample_record 1 False, ds_revisions = [(BaseContent 1 sample_value, 1)]\<rparr>"
    by (simp add: sample_state)
  have "\<not> is_current_only (stamp sample_record 1 False)" by (simp add: is_current_only_def sample_record_def)
  then show ?thesis
    using history_is_immutable [OF sample_reachable c d, of 1] c
    by (simp add: read_document_def [of sample_storage] assert_open_def [of sample_storage] sample_state sample_read)
qed

text \<open>
  Read your writes, creation: after a commit that creates a document and does not retire it, a read
  returns the created value under the record stamped with the commit's sequence.
\<close>

theorem created_document_reads:
  assumes "reachable st" "commit st ws = Inr (seq, st')" "WDocCreate r v x \<in> set ws"
    and "WDocRetire (doc_id r) \<notin> set ws"
  shows "read_document st' (doc_id r) Current =
    Inr (Some \<lparr>stored_record = stamp r seq False, stored_version = v, stored_value = x\<rparr>)"
proof -
  from assms(2) obtain ws' where ws': "resolve_document_copies st ws = Inr ws'"
    by (auto simp: commit_def prepare_commit_def res_simps)
  from created_reads [OF reachable_inv [OF assms(1)] assms(2) ws'] resolved_writes [OF ws'] assms(3,4)
  show ?thesis by fastforce
qed

theorem created_document_reads_witness:
  "read_document sample_storage 3 Current =
    Inr (Some \<lparr>stored_record = stamp sample_record 1 False, stored_version = 1, stored_value = sample_value\<rparr>)"
proof -
  have "WDocCreate sample_record 1 sample_value \<in> set sample_writes" "doc_id sample_record = 3"
    "WDocRetire (doc_id sample_record) \<notin> set sample_writes"
    by (simp_all add: sample_writes_def sample_record_def)
  from created_document_reads [OF reachable.fresh sample_commit this(1,3)] this(2) show ?thesis by simp
qed

text \<open>
  C27.  Read your writes, change: after a commit that changes a document and does not retire it, a read
  returns the new base, or the value read before with the delta applied, which must be of its version.
\<close>

theorem changed_document_reads:
  assumes "reachable st" "commit st ws = Inr (seq, st')" "WDocChange i c \<in> set ws" "WDocRetire i \<notin> set ws"
    and "read_document st i Current = Inr (Some old)"
  shows "case c of
      BaseContent version x \<Rightarrow>
        read_document st' i Current = Inr (Some (old\<lparr>stored_version := version, stored_value := x\<rparr>))
    | DeltaContent version ops \<Rightarrow> stored_version old = version \<and>
        read_document st' i Current =
          map_sum DeltaFailure (\<lambda>v. Some (old\<lparr>stored_value := v\<rparr>)) (apply_immutable ops (stored_value old))"
proof -
  from assms(2) obtain ws' where ws': "resolve_document_copies st ws = Inr ws'"
    by (auto simp: commit_def prepare_commit_def res_simps)
  have w: "WDocChange i c \<in> set ws'" "WDocRetire i \<notin> set ws'"
    using resolved_writes(1) [OF ws' assms(3)] resolved_writes(2) [OF ws'] assms(4) by auto
  obtain a where a: "act_content a = Some c" "\<not> act_retire a" "\<not> closed st'" "\<not> closed st"
    "documents st' i = Some (final_document seq a (documents st i))"
    "\<And>d. documents st i = Some d \<Longrightarrow> act_create a = None \<and> alive d \<and> document_ok seq d \<and>
      (is_base_content c \<or> content_version c = content_version (fst (last (ds_revisions d))))"
    using commit_writes_document [OF reachable_inv [OF assms(1)] assms(2) ws' w(1) _ w(2)]
    by (metis (no_types, lifting))
  have read: "materialize_document st i Current = Inr (Some old)"
    using assms(5) a(4) by (simp add: read_document_def assert_open_def)
  then obtain d where d: "documents st i = Some d" by (auto simp: materialize_document_def split: option.splits)
  note fits = a(6) [OF d]
  let ?d = "final_document seq a (Some d)"
  have d': "?d = change_document seq c d" "documents st' i = Some ?d"
    using a fits d by (simp_all add: final_document_def retire_document_def)
  have open': "read_document st' i Current = materialize_document st' i Current"
    using a(3) by (simp add: read_document_def assert_open_def)
  show ?thesis
  proof (cases c)
    case (BaseContent version x)
    have "alive ?d" "ds_record ?d = ds_record d" using fits by (simp_all add: d' alive_def)
    moreover have "ds_revisions ?d =
        (if is_current_only (ds_record d) then [] else ds_revisions d) @ [(BaseContent version x, seq)]"
      by (simp add: d' change_document_def BaseContent)
    moreover have "stored_record old = ds_record d"
      using read d by (auto simp: materialize_document_def Let_def res_simps
          split: option.splits document_content.splits if_splits)
    ultimately show ?thesis
      using materialize_base [OF d'(2)] by (simp add: BaseContent open')
  next
    case (DeltaContent version ops)
    have "ds_record ?d = ds_record d" "ds_revisions ?d = ds_revisions d @ [(DeltaContent version ops, seq)]"
      by (simp_all add: d' change_document_def DeltaContent)
    note new = this
    from fits DeltaContent have "alive d" "document_ok seq d" "version = content_version (fst (last (ds_revisions d)))"
      by simp_all
    from materialize_delta [OF d this(1,2) d'(2) new this(3) read] show ?thesis by (simp add: DeltaContent open')
  qed
qed

theorem changed_document_reads_witness:
  "\<exists>st'. commit sample_storage sample_change = Inr (2, st') \<and> read_document st' 3 Current =
    Inr (Some \<lparr>stored_record = stamp sample_record 1 False, stored_version = 1,
      stored_value = JObj [(js ''n'', JNum (NInt 5))]\<rparr>)"
proof -
  obtain st' where c: "commit sample_storage sample_change = Inr (2, st')" using sample_change_commit by blast
  have w: "WDocChange 3 (DeltaContent 1 sample_edit) \<in> set sample_change" "WDocRetire 3 \<notin> set sample_change"
    by (simp_all add: sample_change_def)
  have r: "read_document sample_storage 3 Current =
      Inr (Some \<lparr>stored_record = stamp sample_record 1 False, stored_version = 1, stored_value = sample_value\<rparr>)"
    by (simp add: read_document_def assert_open_def sample_state sample_read)
  have "apply_immutable sample_edit sample_value = Inr (JObj [(js ''n'', JNum (NInt 5))])" by code_simp
  with changed_document_reads [OF sample_reachable c w r] c show ?thesis by simp
qed

text \<open>
  C28.  \<open>findDocument\<close> at \<open>"current"\<close> returns exactly the incarnation that is alive at the address: it finds
  a record if and only if that record is stored at the address and not retired, so there is at most one.
\<close>

theorem find_current_document:
  assumes "reachable st" "\<not> closed st"
  shows "(\<forall>r. find_document st a Current = Inr (Some r) \<longleftrightarrow>
      (\<exists>i d. documents st i = Some d \<and> ds_record d = r \<and> record_address r = a \<and> doc_retired r = None)) \<and>
    (find_document st a Current = Inr None \<longleftrightarrow>
      (\<forall>i d. documents st i = Some d \<and> record_address (ds_record d) = a \<longrightarrow> doc_retired (ds_record d) \<noteq> None))"
proof -
  from reachable_inv [OF assms(1)] have cur: "current_at st (address_key a) = Some i \<longleftrightarrow>
      (\<exists>d. documents st i = Some d \<and> record_address (ds_record d) = a \<and> doc_retired (ds_record d) = None)" for i
    by (simp add: storage_inv_def current_inv_def record_address_key_def alive_def)
  show ?thesis
  proof (cases "current_at st (address_key a)")
    case None
    with cur assms(2) show ?thesis by (auto simp: find_document_def assert_open_def)
  next
    case (Some i)
    with cur obtain d where d: "documents st i = Some d" "record_address (ds_record d) = a"
      "doc_retired (ds_record d) = None" by blast
    have only: "j = i" if "documents st j = Some e" "record_address (ds_record e) = a" "doc_retired (ds_record e) = None" for j e
    proof -
      from that cur have "current_at st (address_key a) = Some j" by blast
      with Some show ?thesis by simp
    qed
    from d Some assms(2) have found: "find_document st a Current = Inr (Some (ds_record d))"
      by (simp add: find_document_def assert_open_def)
    have "Some (ds_record d) = Some r \<longleftrightarrow>
      (\<exists>j e. documents st j = Some e \<and> ds_record e = r \<and> record_address r = a \<and> doc_retired r = None)" for r
      using d only by (metis option.inject)
    moreover have "\<not> (\<forall>j e. documents st j = Some e \<and> record_address (ds_record e) = a \<longrightarrow>
      doc_retired (ds_record e) \<noteq> None)"
      using d by blast
    ultimately show ?thesis unfolding found by simp
  qed
qed

theorem find_current_document_witness:
  "find_document sample_storage (record_address sample_record) Current = Inr (Some (stamp sample_record 1 False))"
  using find_current_document [OF sample_reachable sample_state(3), of "record_address sample_record"]
  by (simp add: sample_state record_address_def)

end
