(* ===== verification/MemoryEntries.thy ===== *)
theory MemoryEntries
  imports MemoryReads
begin

text \<open>
  The entries that a conversation sees: its own and, through its parent edges, those of its ancestors up
  to the fork points.  The walk of \<open>visibleEntries\<close> is compared with this set; it ends because a parent
  has a smaller ID than its forks, which holds when IDs are minted.
\<close>

section \<open>Lineage\<close>

text \<open>An ancestor of a conversation together with the upper bound for its entries.\<close>

inductive lineage :: "storage \<Rightarrow> int \<Rightarrow> bound \<Rightarrow> int \<Rightarrow> bound \<Rightarrow> bool" for st where
  here: "lineage st c hi c hi"
| up: "conversations st c = Some r \<Longrightarrow> conv_parent r = Some p \<Longrightarrow>
    lineage st (parent_conversation p) (min hi (Fin (parent_at p))) c' hi' \<Longrightarrow> lineage st c hi c' hi'"

inductive_simps lineage_from: "lineage st c hi c' hi'"

definition visible :: "storage \<Rightarrow> int \<Rightarrow> bound \<Rightarrow> bound \<Rightarrow> entry_record set" where
  "visible st c lo hi =
     {e. entries st (ent_id e) = Some e \<and> lo \<le> Fin (ent_id e) \<and>
       (\<exists>u. lineage st c hi (ent_conversation e) u \<and> Fin (ent_id e) \<le> u)}"

text \<open>Parents exist and are older than their forks, and so are their entries up to the fork point.\<close>

definition edges_ok :: "storage \<Rightarrow> bool" where
  "edges_ok st \<longleftrightarrow>
     (\<forall>c r p. conversations st c = Some r \<longrightarrow> conv_parent r = Some p \<longrightarrow>
        0 < parent_conversation p \<and> parent_conversation p < c \<and> conversations st (parent_conversation p) \<noteq> None \<and>
        (\<forall>e. entries st (ent_id e) = Some e \<longrightarrow> ent_conversation e = c \<longrightarrow> parent_at p < ent_id e))"

lemma lineage_bound: "lineage st c hi c' u \<Longrightarrow> u \<le> hi"
  by (induction rule: lineage.induct) auto

lemma visible_bound: "e \<in> visible st c lo hi \<Longrightarrow> Fin (ent_id e) \<le> hi"
  by (auto simp: visible_def dest: lineage_bound)

text \<open>A conversation sees its own entries within the bounds and what its parent sees up to the fork point.\<close>

definition own :: "storage \<Rightarrow> int \<Rightarrow> bound \<Rightarrow> bound \<Rightarrow> entry_record set" where
  "own st c lo hi =
     {e. entries st (ent_id e) = Some e \<and> ent_conversation e = c \<and> lo \<le> Fin (ent_id e) \<and> Fin (ent_id e) \<le> hi}"

lemma own_newer:
  "edges_ok st \<Longrightarrow> conversations st c = Some r \<Longrightarrow> conv_parent r = Some p \<Longrightarrow> e \<in> own st c lo hi \<Longrightarrow>
    parent_at p < ent_id e"
  unfolding edges_ok_def own_def by blast

lemma visible_root:
  assumes "conversations st c = Some r" "conv_parent r = None"
  shows "visible st c lo hi = own st c lo hi"
  using assms by (auto simp: visible_def own_def lineage_from [of st c])

lemma visible_fork:
  assumes "conversations st c = Some r" "conv_parent r = Some p"
  shows "visible st c lo hi = own st c lo hi \<union> visible st (parent_conversation p) lo (min hi (Fin (parent_at p)))"
  using assms by (auto simp: visible_def own_def lineage_from [of st c])

section \<open>The entries of one conversation\<close>

lemma entries_down_filter:
  assumes "sorted_wrt (<) ids" "k \<le> length ids"
  shows "entries_down ids lo k = rev (filter (\<lambda>i. lo \<le> Fin i) (take k ids))"
  using assms(2)
proof (induction k)
  case (Suc k)
  have split: "take (Suc k) ids = take k ids @ [ids ! k]" using Suc.prems by (simp add: take_Suc_conv_app_nth)
  show ?case
  proof (cases "Fin (ids ! k) < lo")
    case True
    have "\<not> lo \<le> Fin i" if "i \<in> set (take k ids)" for i
    proof -
      have "sorted_wrt (<) (take k ids @ [ids ! k])" unfolding split [symmetric] by (rule sorted_wrt_take [OF assms(1)])
      with that have "i < ids ! k" by (simp add: sorted_wrt_append)
      then have "Fin i < Fin (ids ! k)" by simp
      with True show ?thesis by (meson less_trans not_less)
    qed
    then have "filter (\<lambda>i. lo \<le> Fin i) (take k ids) = []" by (auto simp: filter_empty_conv)
    with True show ?thesis by (simp add: split not_le [symmetric])
  next
    case False
    with Suc show ?thesis by (simp add: split not_less)
  qed
qed simp

lemma upper_bound_length: "sorted_wrt (<) ids \<Longrightarrow> upper_bound ids b \<le> length ids"
  by (simp add: upper_bound_def at_most.search_all length_takeWhile_le)

text \<open>The values of one round of the loop, newest first.\<close>

lemma round_ids:
  assumes "entry_inv st"
  shows "entries_down (ids_at (entryIds st) c) lo (upper_bound (ids_at (entryIds st) c) hi) =
      rev (filter (\<lambda>i. lo \<le> Fin i \<and> Fin i \<le> hi) (ids_at (entryIds st) c))"
    and "set (filter (\<lambda>i. lo \<le> Fin i \<and> Fin i \<le> hi) (ids_at (entryIds st) c)) = ent_id ` own st c lo hi"
proof -
  from assms have idx: "indexes (entryIds st) (entries st) (\<lambda>e. Some (ent_conversation e))"
    and keyed: "keyed (entries st) ent_id" by (simp_all add: entry_inv_def)
  have s: "sorted_wrt (<) (ids_at (entryIds st) c)" by (rule indexes_sorted [OF idx])
  show "entries_down (ids_at (entryIds st) c) lo (upper_bound (ids_at (entryIds st) c) hi) =
      rev (filter (\<lambda>i. lo \<le> Fin i \<and> Fin i \<le> hi) (ids_at (entryIds st) c))"
    by (simp add: entries_down_filter [OF s upper_bound_length [OF s]] take_upper_bound [OF s] conj_commute)
  have mem: "i \<in> set (ids_at (entryIds st) c) \<longleftrightarrow> (\<exists>e. entries st i = Some e \<and> ent_conversation e = c)" for i
    using indexesD [OF idx] by simp
  show "set (filter (\<lambda>i. lo \<le> Fin i \<and> Fin i \<le> hi) (ids_at (entryIds st) c)) = ent_id ` own st c lo hi"
  proof (intro set_eqI iffI)
    fix i
    assume "i \<in> set (filter (\<lambda>i. lo \<le> Fin i \<and> Fin i \<le> hi) (ids_at (entryIds st) c))"
    then obtain e where "entries st i = Some e" "ent_conversation e = c" "lo \<le> Fin i" "Fin i \<le> hi" using mem by auto
    moreover from keyedD [OF keyed this(1)] have "ent_id e = i" .
    ultimately show "i \<in> ent_id ` own st c lo hi" unfolding own_def by blast
  next
    fix i
    assume "i \<in> ent_id ` own st c lo hi"
    then show "i \<in> set (filter (\<lambda>i. lo \<le> Fin i \<and> Fin i \<le> hi) (ids_at (entryIds st) c))"
      using mem by (auto simp: own_def)
  qed
qed

section \<open>The walk\<close>

lemma visible_loop_spec:
  assumes "entry_inv st" "edges_ok st"
  shows "conversations st c \<noteq> None \<Longrightarrow>
    \<exists>js. visible_loop st lo want c hi found = Some (Inr (take want (found @ js))) \<and>
      sorted_wrt (>) js \<and> set js = ent_id ` visible st c lo hi"
proof (induction "nat c" arbitrary: c hi found rule: less_induct)
  case less
  then obtain r where r: "conversations st c = Some r" by auto
  let ?own = "rev (filter (\<lambda>i. lo \<le> Fin i \<and> Fin i \<le> hi) (ids_at (entryIds st) c))"
  have own: "entries_down (ids_at (entryIds st) c) lo (upper_bound (ids_at (entryIds st) c) hi) = ?own"
    "set ?own = ent_id ` own st c lo hi"
    using round_ids [OF assms(1), where c = c and lo = lo and hi = hi] by simp_all
  have "sorted_wrt (<) (ids_at (entryIds st) c)"
    using assms(1) indexes_sorted by (auto simp: entry_inv_def)
  then have sorted: "sorted_wrt (>) ?own" by (simp add: sorted_wrt_rev sorted_filter)
  show ?case
  proof (cases "conv_parent r")
    case None
    with own sorted visible_root [OF r None, of lo hi] show ?thesis
      by (intro exI [of _ ?own]) (auto simp: visible_loop.simps [of st] r Let_def)
  next
    case (Some p)
    let ?hi = "min hi (Fin (parent_at p))"
    from assms(2) r Some have p: "0 < parent_conversation p" "parent_conversation p < c"
      "conversations st (parent_conversation p) \<noteq> None"
      and newer: "\<And>e. e \<in> own st c lo hi \<Longrightarrow> parent_at p < ent_id e"
      using own_newer by (auto simp: edges_ok_def)
    from less.hyps [of "parent_conversation p" ?hi "found @ ?own"] p
    obtain js where js: "visible_loop st lo want (parent_conversation p) ?hi (found @ ?own) =
        Some (Inr (take want (found @ ?own @ js)))" "sorted_wrt (>) js"
      "set js = ent_id ` visible st (parent_conversation p) lo ?hi" by auto
    have all: "set (?own @ js) = ent_id ` visible st c lo hi"
      using own(2) js(3) visible_fork [OF r Some, of lo hi] by (simp add: image_Un)
    have "i > j" if "i \<in> set ?own" "j \<in> set js" for i j
    proof -
      from that(1) own(2) obtain e where "e \<in> own st c lo hi" "i = ent_id e" by blast
      with newer have "parent_at p < i" by blast
      moreover from that(2) js(3) have "j \<le> parent_at p" by (auto dest!: visible_bound)
      ultimately show ?thesis by simp
    qed
    with sorted js(2) have desc: "sorted_wrt (>) (?own @ js)" by (simp add: sorted_wrt_append)
    have cut: "js = []" if "?hi < lo"
    proof -
      have "visible st (parent_conversation p) lo ?hi = {}"
      proof (intro equals0I)
        fix e
        assume e: "e \<in> visible st (parent_conversation p) lo ?hi"
        then have "lo \<le> Fin (ent_id e)" by (simp add: visible_def)
        with visible_bound [OF e] that show False by (meson le_less_trans less_irrefl order_trans)
      qed
      with js(3) show ?thesis by simp
    qed
    have "visible_loop st lo want c hi found = Some (Inr (take want (found @ ?own @ js)))"
    proof (cases "want \<le> length (found @ ?own)")
      case True
      then show ?thesis by (subst visible_loop.simps) (simp add: own(1) Let_def)
    next
      case False
      with js(1) cut show ?thesis
        by (subst visible_loop.simps) (auto simp: own(1) r Some Let_def)
    qed
    with desc all show ?thesis by blast
  qed
qed

lemma rmap_entries:
  assumes "keyed (entries st) ent_id" "\<forall>i \<in> set xs. entries st i \<noteq> None"
  shows "rmap (entry_at st) xs = Inr (map (the \<circ> entries st) xs)"
  using assms(2) by (intro rmap_Inr_map) (auto simp: entry_at_def)

lemma visible_entries_spec:
  assumes "storage_inv st" "edges_ok st" "conversations st c \<noteq> None"
  obtains es where "visible_entries st c lo hi want = Some (Inr (take want es))"
    "sorted_wrt (\<lambda>a b. ent_id b < ent_id a) es" "set es = visible st c lo hi"
proof -
  from assms(1) have inv: "entry_inv st" by (simp add: storage_inv_def)
  then have keyed: "keyed (entries st) ent_id" by (simp add: entry_inv_def)
  from visible_loop_spec [OF inv assms(2,3), of lo want hi "[]"] obtain js where
    js: "visible_loop st lo want c hi [] = Some (Inr (take want js))" "sorted_wrt (>) js"
      "set js = ent_id ` visible st c lo hi" by auto
  have id: "entries st i \<noteq> None" "ent_id (the (entries st i)) = i" if "i \<in> set js" for i
    using that js(3) by (auto simp: visible_def)
  let ?es = "map (the \<circ> entries st) js"
  have "visible_entries st c lo hi want = Some (Inr (take want ?es))"
  proof -
    have "entries st i \<noteq> None" if "i \<in> set (take want js)" for i by (rule id(1) [OF in_set_takeD [OF that]])
    then have "\<forall>i \<in> set (take want js). entries st i \<noteq> None" by blast
    from rmap_entries [OF keyed this] assms(3) js(1) show ?thesis by (simp add: visible_entries_def take_map)
  qed
  moreover have "sorted_wrt (\<lambda>a b. ent_id b < ent_id a) ?es"
    unfolding sorted_wrt_map by (rule sorted_wrt_mono_rel [OF _ js(2)]) (simp add: id(2))
  moreover have "set ?es = visible st c lo hi"
  proof -
    have same: "(the \<circ> entries st) (ent_id e) = e" if "e \<in> visible st c lo hi" for e
      using that by (simp add: visible_def)
    have "set ?es = (\<lambda>e. (the \<circ> entries st) (ent_id e)) ` visible st c lo hi" by (simp add: js(3) image_image)
    also have "\<dots> = visible st c lo hi" using same by (simp cong: image_cong)
    finally show ?thesis .
  qed
  ultimately show thesis by (rule that)
qed

section \<open>The head marker\<close>

definition heads :: "storage \<Rightarrow> int \<Rightarrow> bound \<Rightarrow> entry_record set" where
  "heads st c hi = {e \<in> visible st c NegInf hi. ent_head e \<noteq> None}"

lemma head_loop_spec:
  assumes "entry_inv st" "edges_ok st"
  shows "conversations st c \<noteq> None \<Longrightarrow>
    (heads st c hi = {} \<and> head_loop st c hi = Some (Inr None)) \<or>
    (\<exists>e \<in> heads st c hi. (\<forall>e' \<in> heads st c hi. ent_id e' \<le> ent_id e) \<and> head_loop st c hi = Some (Inr (Some e)))"
proof (induction "nat c" arbitrary: c hi rule: less_induct)
  case less
  then obtain r where r: "conversations st c = Some r" by auto
  let ?ids = "ids_at (headEntryIds st) c"
  from assms(1) have idx: "indexes (headEntryIds st) (entries st) head_key" and keyed: "keyed (entries st) ent_id"
    by (simp_all add: entry_inv_def)
  have s: "sorted_wrt (<) ?ids" by (rule indexes_sorted [OF idx])
  have mem: "i \<in> set ?ids \<longleftrightarrow> (\<exists>e. entries st i = Some e \<and> ent_head e \<noteq> None \<and> ent_conversation e = c)" for i
    using indexesD [OF idx, of i c] by (auto simp: head_key_def split: if_splits)
  let ?low = "filter (\<lambda>i. Fin i \<le> hi) ?ids"
  have low: "take (upper_bound ?ids hi) ?ids = ?low" by (rule take_upper_bound(1) [OF s])
  have own_heads: "{e \<in> own st c NegInf hi. ent_head e \<noteq> None} = (the \<circ> entries st) ` set ?low"
  proof (intro set_eqI iffI)
    fix e
    assume "e \<in> {e \<in> own st c NegInf hi. ent_head e \<noteq> None}"
    then have "ent_id e \<in> set ?low" "e = (the \<circ> entries st) (ent_id e)" using mem by (auto simp: own_def)
    then show "e \<in> (the \<circ> entries st) ` set ?low" by blast
  next
    fix e
    assume "e \<in> (the \<circ> entries st) ` set ?low"
    then obtain i where "entries st i = Some e" "ent_head e \<noteq> None" "ent_conversation e = c" "Fin i \<le> hi"
      using mem by auto
    with keyedD [OF keyed this(1)] show "e \<in> {e \<in> own st c NegInf hi. ent_head e \<noteq> None}" by (simp add: own_def)
  qed
  show ?case
  proof (cases "?low = []")
    case False
    let ?i = "last ?low"
    have pos: "0 < upper_bound ?ids hi" using False low by (metis neq0_conv take0)
    have i: "?ids ! (upper_bound ?ids hi - 1) = ?i"
      using False low pos upper_bound_length [OF s, of hi]
      by (metis One_nat_def diff_less last_conv_nth length_take less_imp_Suc_add min.absorb2 nth_take zero_less_Suc)
    from last_in_set [OF False] mem obtain e where e: "entries st ?i = Some e" "ent_head e \<noteq> None" "ent_conversation e = c"
      "Fin ?i \<le> hi" by auto
    have id: "ent_id e = ?i" by (rule keyedD [OF keyed e(1)])
    have top: "j \<le> ?i" if "j \<in> set ?low" for j
      using sorted_le_last [of "\<lambda>i. i" ?low j] that sorted_filter [OF s] by simp
    have mine_own: "e \<in> own st c NegInf hi" using e id by (simp add: own_def)
    then have mine: "e \<in> heads st c hi"
      using e(2) by (cases "conv_parent r") (auto simp: heads_def visible_root [OF r] visible_fork [OF r])
    have "ent_id e' \<le> ent_id e" if e': "e' \<in> heads st c hi" for e'
    proof (cases "e' \<in> own st c NegInf hi")
      case True
      with e' own_heads have "ent_id e' \<in> set ?low"
        using mem by (auto simp: heads_def own_def)
      with top id show ?thesis by simp
    next
      case other: False
      with e' obtain p where p: "conv_parent r = Some p"
        "e' \<in> visible st (parent_conversation p) NegInf (min hi (Fin (parent_at p)))"
        by (cases "conv_parent r") (auto simp: heads_def visible_root [OF r] visible_fork [OF r])
      from visible_bound [OF p(2)] have "ent_id e' \<le> parent_at p" by simp
      moreover have "parent_at p < ent_id e"
        by (rule own_newer [OF assms(2) r p(1) mine_own])
      ultimately show ?thesis by simp
    qed
    moreover have "head_loop st c hi = Some (Inr (Some e))"
      using pos by (subst head_loop.simps) (simp add: i [unfolded One_nat_def] e(1) entry_at_def Let_def)
    ultimately show ?thesis using mine by blast
  next
    case True
    with low have zero: "upper_bound ?ids hi = 0 \<or> ?ids = []" by (metis take_eq_Nil)
    then have zero: "upper_bound ?ids hi = 0" using upper_bound_length [OF s, of hi] by auto
    have none: "{e \<in> own st c NegInf hi. ent_head e \<noteq> None} = {}" using own_heads True by simp
    show ?thesis
    proof (cases "conv_parent r")
      case None
      have "heads st c hi = {}" using none by (auto simp: heads_def visible_root [OF r None])
      moreover have "head_loop st c hi = Some (Inr None)"
        by (subst head_loop.simps) (simp add: zero r None Let_def)
      ultimately show ?thesis by blast
    next
      case (Some p)
      let ?hi = "min hi (Fin (parent_at p))"
      from assms(2) r Some have p: "0 < parent_conversation p" "parent_conversation p < c"
        "conversations st (parent_conversation p) \<noteq> None" by (auto simp: edges_ok_def)
      have "heads st c hi = heads st (parent_conversation p) ?hi"
        using none by (auto simp: heads_def visible_fork [OF r Some])
      moreover have "head_loop st c hi = head_loop st (parent_conversation p) ?hi"
        by (subst head_loop.simps) (simp add: zero r Some Let_def)
      ultimately show ?thesis using less.hyps [of "parent_conversation p" ?hi] p by simp
    qed
  qed
qed

section \<open>Bounds only filter\<close>

text \<open>The whole history that a conversation sees.\<close>

definition history :: "storage \<Rightarrow> int \<Rightarrow> entry_record set" where
  "history st c = visible st c NegInf PosInf"

lemma lineage_lower: "lineage st c hi c' u \<Longrightarrow> lineage st c (min k hi) c' (min k u)"
proof (induction rule: lineage.induct)
  case (up c r p hi c' hi')
  then have "lineage st (parent_conversation p) (min (min k hi) (Fin (parent_at p))) c' (min k hi')"
    by (simp add: min.assoc)
  with up.hyps(1,2) show ?case by (rule lineage.up)
qed (rule lineage.here)

lemma lineage_unbounded: "lineage st c hi c' u \<Longrightarrow> \<exists>u0. lineage st c PosInf c' u0 \<and> u = min hi u0"
proof (induction rule: lineage.induct)
  case (here c hi)
  show ?case by (intro exI [of _ PosInf]) (auto intro: lineage.here simp: min_def)
next
  case (up c r p hi c' hi')
  then obtain u0 where u0: "lineage st (parent_conversation p) PosInf c' u0"
    "hi' = min (min hi (Fin (parent_at p))) u0" by blast
  have "lineage st (parent_conversation p) (min PosInf (Fin (parent_at p))) c' (min (Fin (parent_at p)) u0)"
    using lineage_lower [OF u0(1), of "Fin (parent_at p)"] by (simp add: min.commute)
  with up.hyps(1,2) have "lineage st c PosInf c' (min (Fin (parent_at p)) u0)" by (rule lineage.up)
  with u0(2) show ?case by (auto simp: min.assoc)
qed

lemma visible_history: "visible st c lo hi = {e \<in> history st c. lo \<le> Fin (ent_id e) \<and> Fin (ent_id e) \<le> hi}"
proof (intro set_eqI iffI)
  fix e
  assume e: "e \<in> visible st c lo hi"
  then obtain u where "lineage st c hi (ent_conversation e) u" "Fin (ent_id e) \<le> u" by (auto simp: visible_def)
  with lineage_unbounded [OF this(1)] have "\<exists>u. lineage st c PosInf (ent_conversation e) u \<and> Fin (ent_id e) \<le> u"
    by auto
  with e visible_bound [OF e] show "e \<in> {e \<in> history st c. lo \<le> Fin (ent_id e) \<and> Fin (ent_id e) \<le> hi}"
    by (simp add: visible_def history_def)
next
  fix e
  assume e: "e \<in> {e \<in> history st c. lo \<le> Fin (ent_id e) \<and> Fin (ent_id e) \<le> hi}"
  then obtain u where "lineage st c PosInf (ent_conversation e) u" "Fin (ent_id e) \<le> u"
    by (auto simp: history_def visible_def)
  with e lineage_lower [OF this(1), of hi] show "e \<in> visible st c lo hi"
    by (auto simp: visible_def history_def min_def split: if_splits)
qed

section \<open>A sample fork\<close>

definition fork_entry :: "int \<Rightarrow> int \<Rightarrow> int option \<Rightarrow> entry_record" where
  "fork_entry i c head =
     \<lparr>ent_id = i, ent_conversation = c, ent_kind = js ''user'', ent_model = None, ent_data = None,
      ent_head = head, ent_edits = None, ent_task = None\<rparr>"

definition fork_conversation :: conversation_record where
  "fork_conversation = \<lparr>conv_id = 4, conv_parent = Some \<lparr>parent_conversation = 1, parent_at = 2\<rparr>, conv_owner = None\<rparr>"

definition fork_writes :: "storage_write list" where
  "fork_writes =
     [WConversation sample_conversation, WEntry (fork_entry 2 1 (Some 2)), WEntry (fork_entry 3 1 None),
      WConversation fork_conversation, WEntry (fork_entry 5 4 None)]"

definition fork_storage :: storage where
  "fork_storage = snd (projr (commit new_storage fork_writes))"

lemma fork_state:
  "commit new_storage fork_writes = Inr (1, fork_storage)"
  "conversations fork_storage = [1 \<mapsto> sample_conversation, 4 \<mapsto> fork_conversation]"
  "entries fork_storage = [2 \<mapsto> fork_entry 2 1 (Some 2), 3 \<mapsto> fork_entry 3 1 None, 5 \<mapsto> fork_entry 5 4 None]"
  "\<not> closed fork_storage"
proof -
  let ?st = "apply_entry 1 (fork_entry 5 4 None) (apply_conversation fork_conversation
      (apply_entry 1 (fork_entry 3 1 None) (apply_entry 1 (fork_entry 2 1 (Some 2))
        (apply_conversation sample_conversation new_storage))))"
  have ids: "ent_id (fork_entry i c h) = i" "conv_id sample_conversation = 1" "conv_id fork_conversation = 4" for i c h
    by (simp_all add: fork_entry_def sample_conversation_def fork_conversation_def)
  have "check_global_ids new_storage fork_writes = Inr ()"
    by (simp add: check_global_ids_def check_claim_def fork_writes_def new_storage_simps ids)
  moreover have "resolve_document_copies new_storage fork_writes = Inr fork_writes"
    by (simp add: resolve_document_copies_def fork_writes_def)
  moreover have "prepare_document_actions fork_writes = Inr []"
    by (simp add: prepare_document_actions_def fork_writes_def)
  ultimately have "prepare_commit new_storage fork_writes (nextSeq new_storage) =
      Inr \<lparr>pc_seq = 1, pc_writes = fork_writes, pc_actions = [], pc_applied = False\<rparr>"
    by (simp add: prepare_commit_def assert_open_def check_document_actions_def new_storage_simps max_safe_def)
  then have c: "commit new_storage fork_writes = Inr (1, ?st\<lparr>nextSeq := 2\<rparr>)"
    by (simp add: commit_def apply_prepared_def fork_writes_def)
  have "same_documents new_storage ?st"
    by (intro same_documents_trans [OF _ apply_entry_frame(1)] same_documents_trans [OF _ apply_conversation_frame(1)])
      simp
  then show "\<not> closed fork_storage" by (simp add: fork_storage_def c same_documents_def new_storage_simps)
  from c show "commit new_storage fork_writes = Inr (1, fork_storage)"
    "conversations fork_storage = [1 \<mapsto> sample_conversation, 4 \<mapsto> fork_conversation]"
    "entries fork_storage = [2 \<mapsto> fork_entry 2 1 (Some 2), 3 \<mapsto> fork_entry 3 1 None, 5 \<mapsto> fork_entry 5 4 None]"
    by (simp_all add: fork_storage_def apply_entry_frame apply_conversation_frame ids new_storage_def)
qed

lemma fork_reachable: "reachable fork_storage"
  by (rule reachable.step [OF reachable.fresh committing [OF fork_state(1)]])

lemma fork_edges: "edges_ok fork_storage"
  by (auto simp: edges_ok_def fork_state sample_conversation_def fork_conversation_def fork_entry_def split: if_splits)

lemma fork_history: "history fork_storage 4 = {fork_entry 5 4 None, fork_entry 2 1 (Some 2)}"
proof -
  have "history fork_storage 4 = own fork_storage 4 NegInf PosInf \<union> visible fork_storage 1 NegInf (Fin 2)"
    using visible_fork [of fork_storage 4 fork_conversation] by (simp add: history_def fork_state fork_conversation_def)
  moreover have "visible fork_storage 1 NegInf (Fin 2) = own fork_storage 1 NegInf (Fin 2)"
    using visible_root [of fork_storage 1 sample_conversation] by (simp add: fork_state sample_conversation_def)
  moreover have "own fork_storage 4 NegInf PosInf = {fork_entry 5 4 None}"
    "own fork_storage 1 NegInf (Fin 2) = {fork_entry 2 1 (Some 2)}"
    by (auto simp: own_def fork_state fork_entry_def split: if_splits)
  ultimately show ?thesis by (simp add: insert_commute)
qed

section \<open>Properties\<close>



text \<open>
  The lookup of an entry from a conversation returns: the entry with its commit sequence exactly when
  the conversation sees it, and nothing otherwise; an entry of a parent after the fork point is not seen.
\<close>

theorem visible_entry_lookup:
  assumes "reachable st" "\<not> closed st" "edges_ok st" "conversations st c \<noteq> None"
  shows "(\<exists>e \<in> history st c. \<exists>s. ent_id e = i \<and> entryCommitSeqs st i = Some s \<and>
      read_visible_entry st c i = Some (Inr (Some (e, s)))) \<or>
    i \<notin> ent_id ` history st c \<and> read_visible_entry st c i = Some (Inr None)"
proof -
  from reachable_inv [OF assms(1)] have inv: "storage_inv st" .
  then have seqs: "dom (entryCommitSeqs st) = dom (entries st)" by (simp add: storage_inv_def entry_inv_def)
  obtain es where es: "visible_entries st c (Fin i) (Fin i) 1 = Some (Inr (take 1 es))"
    "sorted_wrt (\<lambda>a b. ent_id b < ent_id a) es" "set es = visible st c (Fin i) (Fin i)"
    by (rule visible_entries_spec [OF inv assms(3,4)])
  have mem: "set es = {e \<in> history st c. ent_id e = i}" by (auto simp: es(3) visible_history)
  show ?thesis
  proof (cases es)
    case Nil
    with mem have "i \<notin> ent_id ` history st c" by auto
    with Nil es(1) assms(2) show ?thesis by (simp add: read_visible_entry_def assert_open_def)
  next
    case (Cons e rest)
    with mem have e: "e \<in> history st c" "ent_id e = i" by auto
    then have "i \<in> dom (entryCommitSeqs st)" by (auto simp: seqs history_def visible_def)
    then obtain s where "entryCommitSeqs st i = Some s" by auto
    with Cons es(1) assms(2) e show ?thesis by (auto simp: read_visible_entry_def assert_open_def)
  qed
qed

theorem visible_entry_lookup_witness:
  "(\<exists>s. read_visible_entry fork_storage 4 2 = Some (Inr (Some (fork_entry 2 1 (Some 2), s)))) \<and>
   read_visible_entry fork_storage 4 3 = Some (Inr None)"
proof -
  have c: "conversations fork_storage 4 \<noteq> None" by (simp add: fork_state)
  have ids: "ent_id (fork_entry i k h) = i" for i k h by (simp add: fork_entry_def)
  from visible_entry_lookup [OF fork_reachable fork_state(4) fork_edges c, of 2]
    visible_entry_lookup [OF fork_reachable fork_state(4) fork_edges c, of 3]
  show ?thesis by (auto simp: fork_history ids)
qed

definition marked :: "storage \<Rightarrow> int \<Rightarrow> int option \<Rightarrow> entry_record set" where
  "marked st c upto_id = {e \<in> history st c. ent_head e \<noteq> None \<and> Fin (ent_id e) \<le> fin_or PosInf upto_id}"

text \<open>
  \<open>findLatestHeadMarker\<close> returns the newest entry of the conversation's history, up to the given entry,
  that carries a head, and nothing when there is none.
\<close>

theorem latest_head_marker:
  assumes "reachable st" "\<not> closed st" "edges_ok st" "conversations st c \<noteq> None"
  shows "marked st c upto_id = {} \<and> find_latest_head_marker st c upto_id = Some (Inr None) \<or>
    (\<exists>e \<in> marked st c upto_id. (\<forall>e' \<in> marked st c upto_id. ent_id e' \<le> ent_id e) \<and>
      find_latest_head_marker st c upto_id = Some (Inr (Some e)))"
proof -
  have "marked st c upto_id = heads st c (fin_or PosInf upto_id)" by (auto simp: marked_def heads_def visible_history)
  moreover have "find_latest_head_marker st c upto_id = head_loop st c (fin_or PosInf upto_id)"
    using assms(2,4) by (auto simp: find_latest_head_marker_def assert_open_def)
  ultimately show ?thesis
    using head_loop_spec [of st c "fin_or PosInf upto_id"] reachable_inv [OF assms(1)] assms(3,4)
    by (simp add: storage_inv_def)
qed

theorem latest_head_marker_witness:
  "find_latest_head_marker fork_storage 4 None = Some (Inr (Some (fork_entry 2 1 (Some 2))))"
proof -
  have c: "conversations fork_storage 4 \<noteq> None" by (simp add: fork_state)
  have "marked fork_storage 4 None = {fork_entry 2 1 (Some 2)}"
    by (auto simp: marked_def fork_history fork_entry_def fin_or_def)
  with latest_head_marker [OF fork_reachable fork_state(4) fork_edges c, of None] show ?thesis by simp
qed

end
