(* ===== verification/Documents.thy ===== *)
theory Documents
  imports DurableTypes
begin

text \<open>
  \<open>packages/durable/src/documents.ts\<close>: document definitions, the addresses their arguments resolve to,
  and the checks of a stored record against a definition.  The functions that a definition carries
  (\<open>initial\<close>, \<open>migrate\<close>, \<open>checkpointWhen\<close>) belong to the caller; they are fields of the model's
  definition record, and \<open>None\<close> is a throw.
\<close>

section \<open>Definitions\<close>

datatype scope_kind = SessionKind | ConversationKind | TaskKind

fun scope_kind_of :: "doc_scope \<Rightarrow> scope_kind" where
  "scope_kind_of SessionScope = SessionKind"
| "scope_kind_of (ConversationScope c) = ConversationKind"
| "scope_kind_of (TaskScope t) = TaskKind"

record doc_definition =
  def_kind :: js_string
  def_version :: js_num
  def_family :: bool
  def_scope :: scope_kind
  def_history :: "doc_history option"
  def_fork :: "doc_fork option"
  def_initial :: "jsv \<Rightarrow> jsv option"
  def_migrate :: "(jsv \<Rightarrow> int \<Rightarrow> jsv option) option"
  def_checkpoint :: "(jsv \<Rightarrow> op list \<Rightarrow> bool option) option"

datatype document_error =
    BadVersion js_string
  | OwnerRequired js_string scope_kind
  | SemanticsMismatch int
  | NewerVersion int int
  | MigrationRequired int int
  | CallbackThrew
  | NotStrictJson copy_error

text \<open>The number of a valid version.\<close>

definition version_of :: "doc_definition \<Rightarrow> int" where
  "version_of d = (case def_version d of NInt i \<Rightarrow> i | NFlt _ \<Rightarrow> 0)"

definition validate_definition :: "doc_definition \<Rightarrow> document_error + unit" where
  "validate_definition d =
     rguard (num_safe (def_version d) \<and> 1 \<le> version_of d) (BadVersion (def_kind d))"

text \<open>\<open>defineDoc\<close> and \<open>defineDocFamily\<close> return the token, which holds the definition.\<close>

definition define_doc :: "doc_definition \<Rightarrow> document_error + doc_definition" where
  "define_doc d = rbind (validate_definition d) (\<lambda>_. Inr d)"

section \<open>Addresses\<close>

record resolved_address =
  res_address :: document_address
  res_id :: js_string
  res_next :: nat

definition owner_id :: "jsv \<Rightarrow> doc_definition \<Rightarrow> document_error + int" where
  "owner_id v d =
     (case v of
        JNum n \<Rightarrow>
          if num_safe n then Inr (case n of NInt i \<Rightarrow> i | NFlt _ \<Rightarrow> 0)
          else Inl (OwnerRequired (def_kind d) (def_scope d))
      | _ \<Rightarrow> Inl (OwnerRequired (def_kind d) (def_scope d)))"

fun address_id_text :: "document_address \<Rightarrow> jtext" where
  "address_id_text a =
     TArr [TStr (addr_kind a),
       TStr (case addr_scope a of
               SessionScope \<Rightarrow> js ''session''
             | ConversationScope _ \<Rightarrow> js ''conversation''
             | TaskScope _ \<Rightarrow> js ''task''),
       (case addr_scope a of SessionScope \<Rightarrow> TNull | ConversationScope c \<Rightarrow> TInt c | TaskScope t \<Rightarrow> TInt t),
       (case addr_key a of None \<Rightarrow> TNull | Some k \<Rightarrow> TStr k)]"

definition address_id :: "document_address \<Rightarrow> js_string" where
  "address_id a = stringify (address_id_text a)"

text \<open>
  An argument past the end is undefined.  A family key is a string by its declared type; an undefined
  one selects the singleton address.
\<close>

definition argument :: "jsv list \<Rightarrow> nat \<Rightarrow> jsv" where
  "argument args i = (if i < length args then args ! i else JUndef)"

definition key_argument :: "jsv \<Rightarrow> js_string option" where
  "key_argument v = (case v of JStr s \<Rightarrow> Some s | _ \<Rightarrow> None)"

definition resolve_address :: "doc_definition \<Rightarrow> jsv list \<Rightarrow> document_error + resolved_address" where
  "resolve_address d args =
     rbind (case def_scope d of
              SessionKind \<Rightarrow> Inr (SessionScope, 0)
            | ConversationKind \<Rightarrow> rbind (owner_id (argument args 0) d) (\<lambda>c. Inr (ConversationScope c, 1))
            | TaskKind \<Rightarrow> rbind (owner_id (argument args 0) d) (\<lambda>t. Inr (TaskScope t, 1)))
       (\<lambda>(scope, index).
          let key = (if def_family d then key_argument (argument args index) else None);
              index = (if def_family d then index + 1 else index);
              address = \<lparr>addr_kind = def_kind d, addr_scope = scope, addr_key = key\<rparr>
          in Inr \<lparr>res_address = address, res_id = address_id address, res_next = index\<rparr>)"

section \<open>Records\<close>

definition make_create :: "doc_definition \<Rightarrow> document_address \<Rightarrow> int \<Rightarrow> document_create" where
  "make_create d a i =
     (let in_conversation = (case addr_scope a of ConversationScope _ \<Rightarrow> True | _ \<Rightarrow> False)
      in \<lparr>doc_id = i, doc_kind = addr_kind a, doc_key = addr_key a, doc_scope = addr_scope a,
          doc_history = (if in_conversation then def_history d else None),
          doc_fork = (if in_conversation then def_fork d else None)\<rparr>)"

definition check_record_scope :: "doc_definition \<Rightarrow> 'a document_create_scheme \<Rightarrow> document_error + unit" where
  "check_record_scope d r =
     (if scope_kind_of (doc_scope r) \<noteq> def_scope d \<or>
         scope_kind_of (doc_scope r) = ConversationKind \<and>
         (doc_history r \<noteq> def_history d \<or> doc_fork r \<noteq> def_fork d)
      then Inl (SemanticsMismatch (doc_id r)) else Inr ())"

definition check_record_version :: "doc_definition \<Rightarrow> 'a document_create_scheme \<Rightarrow> int \<Rightarrow> document_error + unit" where
  "check_record_version d r version =
     (if version_of d < version then Inl (NewerVersion (doc_id r) version)
      else if version < version_of d \<and> def_migrate d = None then Inl (MigrationRequired (doc_id r) version)
      else Inr ())"

definition materialize_value :: "doc_definition \<Rightarrow> 'a document_create_scheme \<Rightarrow> int \<Rightarrow> jsv
    \<Rightarrow> document_error + jsv" where
  "materialize_value d r version value =
     rbind (check_record_scope d r) (\<lambda>_.
     rbind (check_record_version d r version) (\<lambda>_.
       if version = version_of d then Inr value
       else (case the (def_migrate d) value version of
               None \<Rightarrow> Inl CallbackThrew
             | Some v \<Rightarrow> map_sum NotStrictJson id (copy_json False v))))"

definition materialize_stored :: "doc_definition \<Rightarrow> stored_document \<Rightarrow> document_error + jsv" where
  "materialize_stored d s = materialize_value d (stored_record s) (stored_version s) (stored_value s)"

section \<open>Properties\<close>

lemma address_id_inject [simp]: "address_id a = address_id b \<longleftrightarrow> a = b"
  by (cases a; cases b)
    (auto simp: address_id_def stringify_inject simp del: stringify.simps split: doc_scope.splits option.splits)

lemma resolve_address_Inr:
  assumes "resolve_address d args = Inr r"
  shows "scope_kind_of (addr_scope (res_address r)) = def_scope d" "addr_kind (res_address r) = def_kind d"
    "res_id r = address_id (res_address r)"
  using assms by (auto simp: resolve_address_def res_simps Let_def split: scope_kind.splits)

lemma make_create_scope:
  "scope_kind_of (addr_scope a) = def_scope d \<Longrightarrow> check_record_scope d (make_create d a i) = Inr ()"
  by (cases "addr_scope a") (auto simp: check_record_scope_def make_create_def)

lemma make_create_address [simp]: "record_address (make_create d a i) = a" "doc_id (make_create d a i) = i"
  by (simp_all add: record_address_def make_create_def Let_def)

lemma materialize_value_current:
  "check_record_scope d r = Inr () \<Longrightarrow> materialize_value d r (version_of d) v = Inr v"
  by (simp add: materialize_value_def check_record_version_def)

lemma materialize_value_Inr:
  "materialize_value d r version v = Inr w \<longleftrightarrow>
     check_record_scope d r = Inr () \<and>
     (version = version_of d \<and> w = v \<or>
      version < version_of d \<and> (\<exists>f u. def_migrate d = Some f \<and> f v version = Some u \<and> copy_json False u = Inr w))"
  by (cases "copy_json False (the (the (def_migrate d) v version))")
    (auto simp: materialize_value_def check_record_version_def res_simps split: option.splits)

text \<open>
  Two logical addresses have the same identity string exactly when they are equal, so a map keyed by
  the string holds one document per address: scope kind, owner, kind and family key never collide,
  whatever characters they hold.
\<close>

theorem address_id_identifies: "address_id a = address_id b \<longleftrightarrow> a = b"
  by (rule address_id_inject)

text \<open>
  C39. A record that a definition creates at one of its own addresses is accepted by the same definition
  at its current version, lies at the address, and its value is read back unchanged.
\<close>

theorem created_record_accepted:
  assumes "resolve_address d args = Inr r"
  shows "materialize_value d (make_create d (res_address r) i) (version_of d) v = Inr v \<and>
    address_id (record_address (make_create d (res_address r) i)) = res_id r"
  using resolve_address_Inr [OF assms] by (simp add: materialize_value_current make_create_scope)

definition sample_definition :: doc_definition where
  "sample_definition =
     \<lparr>def_kind = js ''plan'', def_version = NInt 2, def_family = True, def_scope = ConversationKind,
      def_history = Some Rewindable, def_fork = Some ForkAsOf, def_initial = Some,
      def_migrate = Some (\<lambda>v n. Some (JObj [(js ''old'', v)])), def_checkpoint = None\<rparr>"

lemma sample_resolves:
  "resolve_address sample_definition [JNum (NInt 1), JStr (js ''k'')] =
     Inr \<lparr>res_address = \<lparr>addr_kind = js ''plan'', addr_scope = ConversationScope 1, addr_key = Some (js ''k'')\<rparr>,
          res_id = address_id \<lparr>addr_kind = js ''plan'', addr_scope = ConversationScope 1, addr_key = Some (js ''k'')\<rparr>,
          res_next = 2\<rparr>"
  by (simp add: resolve_address_def sample_definition_def owner_id_def argument_def key_argument_def max_safe_def Let_def)

theorem created_record_accepted_witness:
  "materialize_value sample_definition
     (make_create sample_definition
        \<lparr>addr_kind = js ''plan'', addr_scope = ConversationScope 1, addr_key = Some (js ''k'')\<rparr> 9) 2 JNull = Inr JNull"
  using created_record_accepted [OF sample_resolves, of 9 JNull]
  by (simp add: version_of_def sample_definition_def)

end
