(* ===== verification/Effects.thy ===== *)
theory Effects
  imports Prelude
begin

text \<open>
  Computations that update a state and may throw.  The state at the throw is part of the result: the
  objects that a JavaScript method has mutated stay mutated when it throws.  The rules of
  \<open>keep_intros\<close> show that a computation preserves a predicate on states by following its structure.
\<close>

type_synonym ('s, 'e, 'a) eff = "'s \<Rightarrow> ('e + 'a) \<times> 's"

named_theorems eff_simps
named_theorems keep_intros

definition eret :: "'a \<Rightarrow> ('s, 'e, 'a) eff" where
  "eret a = (\<lambda>s. (Inr a, s))"

definition ethrow :: "'e \<Rightarrow> ('s, 'e, 'a) eff" where
  "ethrow e = (\<lambda>s. (Inl e, s))"

definition ebind :: "('s, 'e, 'a) eff \<Rightarrow> ('a \<Rightarrow> ('s, 'e, 'b) eff) \<Rightarrow> ('s, 'e, 'b) eff" where
  "ebind m f = (\<lambda>s. case m s of (Inl e, t) \<Rightarrow> (Inl e, t) | (Inr a, t) \<Rightarrow> f a t)"

definition ethen :: "('s, 'e, 'a) eff \<Rightarrow> ('s, 'e, 'b) eff \<Rightarrow> ('s, 'e, 'b) eff" where
  "ethen m k = ebind m (\<lambda>_. k)"

definition eget :: "('s \<Rightarrow> 'a) \<Rightarrow> ('s, 'e, 'a) eff" where
  "eget f = (\<lambda>s. (Inr (f s), s))"

definition emod :: "('s \<Rightarrow> 's) \<Rightarrow> ('s, 'e, unit) eff" where
  "emod f = (\<lambda>s. (Inr (), f s))"

definition eguard :: "bool \<Rightarrow> 'e \<Rightarrow> ('s, 'e, unit) eff" where
  "eguard b e = (\<lambda>s. (rguard b e, s))"

text \<open>A computation that only reads the state and may throw.\<close>

definition eread :: "('s \<Rightarrow> 'e + 'a) \<Rightarrow> ('s, 'e, 'a) eff" where
  "eread f = (\<lambda>s. (f s, s))"

section \<open>Evaluation\<close>

lemma eff_apply [eff_simps]:
  "eret a s = (Inr a, s)" "ethrow e s = (Inl e, s)" "eget f s = (Inr (f s), s)" "emod g s = (Inr (), g s)"
  "eguard b e s = (rguard b e, s)" "eread h s = (h s, s)"
  by (simp_all add: eret_def ethrow_def eget_def emod_def eguard_def eread_def)

lemma ebind_apply:
  "m s = (Inl e, t) \<Longrightarrow> ebind m f s = (Inl e, t)"
  "m s = (Inr a, t) \<Longrightarrow> ebind m f s = f a t"
  "m s = (Inl e, t) \<Longrightarrow> ethen m k s = (Inl e, t)"
  "m s = (Inr a, t) \<Longrightarrow> ethen m k s = k t"
  by (simp_all add: ebind_def ethen_def)

lemma ebind_simps [eff_simps]:
  "ebind (eret a) f = f a" "ebind (ethrow e) f = ethrow e" "ebind (eget g) f s = f (g s) s"
  "ethen (eret u) k = k" "ethen (ethrow e) k = ethrow e" "ethen (emod h) k s = k (h s)"
  "ethen (eguard b e) k s = (if b then k s else (Inl e, s))"
  "ebind (eread r) f s = (case r s of Inl e \<Rightarrow> (Inl e, s) | Inr a \<Rightarrow> f a s)"
  by (auto simp: ebind_def ethen_def eff_apply fun_eq_iff rguard_def split: sum.split)

lemma ebind_Inr: "ebind m f s = (Inr b, t) \<longleftrightarrow> (\<exists>a u. m s = (Inr a, u) \<and> f a u = (Inr b, t))"
  by (auto simp: ebind_def split: prod.splits sum.splits)

lemma ethen_Inr: "ethen m k s = (Inr b, t) \<longleftrightarrow> (\<exists>a u. m s = (Inr a, u) \<and> k u = (Inr b, t))"
  by (simp add: ethen_def ebind_Inr)

lemma ebind_Inl:
  "ebind m f s = (Inl e, t) \<longleftrightarrow> m s = (Inl e, t) \<or> (\<exists>a u. m s = (Inr a, u) \<and> f a u = (Inl e, t))"
  by (auto simp: ebind_def split: prod.splits sum.splits)

lemma ethen_Inl:
  "ethen m k s = (Inl e, t) \<longleftrightarrow> m s = (Inl e, t) \<or> (\<exists>a u. m s = (Inr a, u) \<and> k u = (Inl e, t))"
  by (simp add: ethen_def ebind_Inl)

lemma eff_result [eff_simps]:
  "eret a s = (r, t) \<longleftrightarrow> r = Inr a \<and> t = s"
  "ethrow e s = (r, t) \<longleftrightarrow> r = Inl e \<and> t = s"
  "eget f s = (r, t) \<longleftrightarrow> r = Inr (f s) \<and> t = s"
  "emod g s = (r, t) \<longleftrightarrow> r = Inr () \<and> t = g s"
  "eguard b e s = (r, t) \<longleftrightarrow> r = rguard b e \<and> t = s"
  "eread h s = (r, t) \<longleftrightarrow> r = h s \<and> t = s"
  by (auto simp: eff_apply)

section \<open>Computations that may not return\<close>

text \<open>
  A method that awaits a loop may never settle: the result is then \<open>None\<close>.  \<open>keeps P m\<close> says that \<open>m\<close>
  preserves \<open>P\<close> however it ends.
\<close>

type_synonym ('s, 'e, 'a) proc = "'s \<Rightarrow> (('e + 'a) \<times> 's) option"

definition pret :: "'a \<Rightarrow> ('s, 'e, 'a) proc" where
  "pret a = (\<lambda>s. Some (Inr a, s))"

definition pthrow :: "'e \<Rightarrow> ('s, 'e, 'a) proc" where
  "pthrow e = (\<lambda>s. Some (Inl e, s))"

definition pbind :: "('s, 'e, 'a) proc \<Rightarrow> ('a \<Rightarrow> ('s, 'e, 'b) proc) \<Rightarrow> ('s, 'e, 'b) proc" where
  "pbind m f = (\<lambda>s. case m s of
       None \<Rightarrow> None
     | Some (Inl e, t) \<Rightarrow> Some (Inl e, t)
     | Some (Inr a, t) \<Rightarrow> f a t)"

definition pthen :: "('s, 'e, 'a) proc \<Rightarrow> ('s, 'e, 'b) proc \<Rightarrow> ('s, 'e, 'b) proc" where
  "pthen m k = pbind m (\<lambda>_. k)"

definition pget :: "('s \<Rightarrow> 'a) \<Rightarrow> ('s, 'e, 'a) proc" where
  "pget f = (\<lambda>s. Some (Inr (f s), s))"

definition pmod :: "('s \<Rightarrow> 's) \<Rightarrow> ('s, 'e, unit) proc" where
  "pmod f = (\<lambda>s. Some (Inr (), f s))"

definition pguard :: "bool \<Rightarrow> 'e \<Rightarrow> ('s, 'e, unit) proc" where
  "pguard b e = (\<lambda>s. Some (rguard b e, s))"

definition pread :: "('s \<Rightarrow> 'e + 'a) \<Rightarrow> ('s, 'e, 'a) proc" where
  "pread f = (\<lambda>s. Some (f s, s))"

fun peach :: "('a \<Rightarrow> ('s, 'e, unit) proc) \<Rightarrow> 'a list \<Rightarrow> ('s, 'e, unit) proc" where
  "peach f [] = pret ()"
| "peach f (x # xs) = pthen (f x) (peach f xs)"

text \<open>A total computation on one part of the state.\<close>

definition pon :: "('s \<Rightarrow> 'p) \<Rightarrow> ('p \<Rightarrow> 's \<Rightarrow> 's) \<Rightarrow> ('d \<Rightarrow> 'e) \<Rightarrow> ('p, 'd, 'a) eff \<Rightarrow> ('s, 'e, 'a) proc" where
  "pon get put wrap m = (\<lambda>s. case m (get s) of (r, p) \<Rightarrow> Some (map_sum wrap id r, put p s))"

named_theorems proc_simps

lemma proc_apply [proc_simps]:
  "pret a s = Some (Inr a, s)" "pthrow e s = Some (Inl e, s)" "pget f s = Some (Inr (f s), s)"
  "pmod g s = Some (Inr (), g s)" "pguard b e s = Some (rguard b e, s)" "pread h s = Some (h s, s)"
  by (simp_all add: pret_def pthrow_def pget_def pmod_def pguard_def pread_def)

lemma pbind_apply [proc_simps]:
  "pbind (pret a) f = f a" "pbind (pthrow e) f = pthrow e" "pbind (pget g) f s = f (g s) s"
  "pthen (pret u) k = k" "pthen (pthrow e) k = pthrow e" "pthen (pmod h) k s = k (h s)"
  "pthen (pguard b e) k s = (if b then k s else Some (Inl e, s))"
  "pbind (pread r) f s = (case r s of Inl e \<Rightarrow> Some (Inl e, s) | Inr a \<Rightarrow> f a s)"
  by (auto simp: pbind_def pthen_def proc_apply fun_eq_iff rguard_def split: sum.split)

lemma pbind_Inr: "pbind m f s = Some (Inr b, t) \<longleftrightarrow> (\<exists>a u. m s = Some (Inr a, u) \<and> f a u = Some (Inr b, t))"
  by (auto simp: pbind_def split: option.splits prod.splits sum.splits)

lemma pthen_Inr: "pthen m k s = Some (Inr b, t) \<longleftrightarrow> (\<exists>a u. m s = Some (Inr a, u) \<and> k u = Some (Inr b, t))"
  by (simp add: pthen_def pbind_Inr)

lemma pbind_Some: "pbind m f s = Some (r, t) \<longleftrightarrow>
    (\<exists>e. m s = Some (Inl e, t) \<and> r = Inl e) \<or> (\<exists>a u. m s = Some (Inr a, u) \<and> f a u = Some (r, t))"
  by (auto simp: pbind_def split: option.splits prod.splits sum.splits)

lemma pbind_assoc: "pbind (pbind m f) g = pbind m (\<lambda>a. pbind (f a) g)"
  by (auto simp: pbind_def fun_eq_iff split: option.splits prod.splits sum.splits)

lemma pthen_assoc: "pthen (pthen m k) l = pthen m (pthen k l)"
  by (simp add: pthen_def pbind_assoc)

lemma peach_append: "peach f (xs @ ys) = pthen (peach f xs) (peach f ys)"
  by (induction xs) (simp_all add: pbind_apply pthen_assoc)

definition keeps :: "('s \<Rightarrow> bool) \<Rightarrow> ('s, 'e, 'a) proc \<Rightarrow> bool" where
  "keeps P m \<longleftrightarrow> (\<forall>s r t. P s \<longrightarrow> m s = Some (r, t) \<longrightarrow> P t)"

lemma keepsI [intro?]: "(\<And>s r t. P s \<Longrightarrow> m s = Some (r, t) \<Longrightarrow> P t) \<Longrightarrow> keeps P m"
  by (auto simp: keeps_def)

lemma keepsD: "keeps P m \<Longrightarrow> m s = Some (r, t) \<Longrightarrow> P s \<Longrightarrow> P t"
  by (auto simp: keeps_def)

lemma keeps_basic [keep_intros]:
  "keeps P (pret a)" "keeps P (pthrow e)" "keeps P (pget f)" "keeps P (pguard b e)" "keeps P (pread h)"
  by (simp_all add: keeps_def proc_apply)

lemma keeps_pmod [keep_intros]: "(\<And>s. P s \<Longrightarrow> P (f s)) \<Longrightarrow> keeps P (pmod f)"
  by (simp add: keeps_def proc_apply)

lemma keeps_bind [keep_intros]: "keeps P m \<Longrightarrow> (\<And>a. keeps P (f a)) \<Longrightarrow> keeps P (pbind m f)"
  unfolding keeps_def pbind_Some by metis

lemma keeps_bind_fact:
  assumes "keeps P m" "\<And>s a t. P s \<Longrightarrow> m s = Some (Inr a, t) \<Longrightarrow> Q a" "\<And>a. Q a \<Longrightarrow> keeps P (f a)"
  shows "keeps P (pbind m f)"
proof
  fix s r t
  assume s: "P s" and run: "pbind m f s = Some (r, t)"
  then consider e where "m s = Some (Inl e, t)" | a u where "m s = Some (Inr a, u)" "f a u = Some (r, t)"
    by (auto simp: pbind_Some)
  then show "P t"
  proof cases
    case 1
    with assms(1) s show ?thesis by (blast dest: keepsD)
  next
    case 2
    with assms(1) s have "P u" by (blast dest: keepsD)
    with assms(3) [OF assms(2) [OF s 2(1)]] 2(2) show ?thesis by (blast dest: keepsD)
  qed
qed

lemma keeps_then [keep_intros]: "keeps P m \<Longrightarrow> keeps P k \<Longrightarrow> keeps P (pthen m k)"
  by (simp add: pthen_def keeps_bind)

lemma keeps_each [keep_intros]: "(\<And>x. x \<in> set xs \<Longrightarrow> keeps P (f x)) \<Longrightarrow> keeps P (peach f xs)"
  by (induction xs) (simp_all add: keep_intros)

lemma keeps_conj: "keeps P m \<Longrightarrow> keeps Q m \<Longrightarrow> keeps (\<lambda>s. P s \<and> Q s) m"
  unfolding keeps_def by metis

lemma keeps_if [keep_intros]: "(b \<Longrightarrow> keeps P m) \<Longrightarrow> (\<not> b \<Longrightarrow> keeps P k) \<Longrightarrow> keeps P (if b then m else k)"
  by simp

lemma keeps_option [keep_intros]:
  "(x = None \<Longrightarrow> keeps P m) \<Longrightarrow> (\<And>a. x = Some a \<Longrightarrow> keeps P (f a)) \<Longrightarrow>
     keeps P (case x of None \<Rightarrow> m | Some a \<Rightarrow> f a)"
  by (cases x) simp_all

lemma keeps_prod [keep_intros]: "(\<And>a b. x = (a, b) \<Longrightarrow> keeps P (f a b)) \<Longrightarrow> keeps P (case x of (a, b) \<Rightarrow> f a b)"
  by (cases x) simp

lemma keeps_Let [keep_intros]: "keeps P (f x) \<Longrightarrow> keeps P (let a = x in f a)"
  by simp

end
