(* ===== verification/Forks.thy ===== *)
theory Forks
  imports MemoryScans Documents Effects
begin

text \<open>
  \<open>packages/durable/src/session/forks.ts\<close>: which documents a forked conversation copies from its parent.
  The loop over the pages of a scan, which the transaction uses as well, is \<open>for_pages\<close>; the locale
  \<open>paged_reader\<close> shows that it ends and visits every document of the query once, in ID order.
\<close>

section \<open>The loop over pages\<close>

definition SCAN_PAGE_SIZE :: nat where
  "SCAN_PAGE_SIZE = 256"

text \<open>\<open>get\<close> is the storage inside the state \<open>s\<close>, \<open>wrap\<close> embeds its errors.\<close>

partial_function (option) for_pages :: "('s \<Rightarrow> storage) \<Rightarrow> (storage_error \<Rightarrow> 'e) \<Rightarrow> document_query
    \<Rightarrow> (document_record \<Rightarrow> ('s, 'e, unit) proc) \<Rightarrow> props option \<Rightarrow> 's \<Rightarrow> (('e + unit) \<times> 's) option" where
  "for_pages get wrap q body cursor s =
     (case scan_documents (get s) q SCAN_PAGE_SIZE cursor of
        Inl e \<Rightarrow> Some (Inl (wrap e), s)
      | Inr p \<Rightarrow>
          (case peach body (page_items p) s of
             None \<Rightarrow> None
           | Some (Inl e, t) \<Rightarrow> Some (Inl e, t)
           | Some (Inr _, t) \<Rightarrow>
               (case page_next p of
                  None \<Rightarrow> Some (Inr (), t)
                | Some next \<Rightarrow> for_pages get wrap q body (Some next) t)))"

text \<open>The part of the storage that a scan of documents reads.\<close>

definition same_scan :: "storage \<Rightarrow> storage \<Rightarrow> bool" where
  "same_scan a b \<longleftrightarrow> documents a = documents b \<and> documentIdsByScope a = documentIdsByScope b \<and> closed a = closed b"

lemma same_scan_documents: "same_scan a b \<Longrightarrow> scan_documents a q limit cursor = scan_documents b q limit cursor"
  by (simp add: same_scan_def scan_documents_def assert_open_def)

lemma same_scan_refl [simp]: "same_scan a a"
  by (simp add: same_scan_def)

lemma same_scan_trans: "same_scan a b \<Longrightarrow> same_scan b c \<Longrightarrow> same_scan a c"
  by (simp add: same_scan_def)

lemma sorted_by_unique:
  fixes f :: "'a \<Rightarrow> int"
  assumes "sorted_wrt (\<lambda>a b. f a < f b) xs" "sorted_wrt (\<lambda>a b. f a < f b) ys" "set xs = set ys"
  shows "xs = ys"
proof -
  from assms have m: "sorted_wrt (<) (map f xs)" "sorted_wrt (<) (map f ys)" by (simp_all add: sorted_wrt_map)
  then have "map f xs = map f ys" using assms(3) by (intro strict_sorted_equal) simp_all
  moreover from m(1) have "inj_on f (set xs)" by (simp add: strict_sorted_iff distinct_map)
  ultimately show ?thesis using assms(3) by (metis map_inj_on sup.idem)
qed

lemma sorted_by_distinct: "sorted_wrt (\<lambda>a b. f a < (f b :: int)) xs \<Longrightarrow> distinct xs"
  by (induction xs) auto

lemma next_page:
  assumes "is_page get_id V limit p" "page_next p = Some c" "\<forall>v \<in> V. \<bar>get_id v\<bar> \<le> max_safe" "0 < limit"
  shows "\<exists>a. cursor_id (Some c) = Inr (Some a) \<and> {v \<in> V. a < get_id v} = V - set (page_items p) \<and> a \<in> get_id ` V"
proof (rule is_page_next [OF assms])
  fix a
  assume "cursor_id (Some c) = Inr (Some a)" "{v \<in> V. a < get_id v} = V - set (page_items p)" "a \<in> get_id ` V"
  then show ?thesis by (intro exI conjI)
qed

text \<open>
  The interface of a loop body: it leaves the part of the storage that the scan reads.
\<close>

locale paged_reader =
  fixes get :: "'s \<Rightarrow> storage"
    and body :: "document_record \<Rightarrow> ('s, 'e, unit) proc"
  assumes body_scan: "body r s = Some (x, t) \<Longrightarrow> same_scan (get s) (get t)"
begin

lemma peach_scan: "peach body rs s = Some (x, t) \<Longrightarrow> same_scan (get s) (get t)"
proof (induction rs arbitrary: s)
  case Nil
  then show ?case by (simp add: proc_apply)
next
  case (Cons r rs)
  then show ?case by (auto simp: pthen_def pbind_Some dest: body_scan same_scan_trans)
qed

lemma for_pages_all:
  assumes "storage_inv st" "\<not> closed st" "\<forall>r \<in> documents_found st q None. \<bar>doc_id r\<bar> \<le> max_safe"
    and "same_scan st (get s)" "cursor_id cursor = Inr after"
    and "sorted_wrt (\<lambda>a b. doc_id a < doc_id b) rs" "set rs = documents_found st q after"
  shows "for_pages get wrap q body cursor s = peach body rs s"
  using assms(4-7)
proof (induction "length rs" arbitrary: rs s cursor after rule: less_induct)
  case less
  have limit: "0 < SCAN_PAGE_SIZE" by (simp add: SCAN_PAGE_SIZE_def)
  from scan_pages(3) [OF assms(1,2) less.prems(2) limit, of q]
  obtain p where p: "scan_documents st q SCAN_PAGE_SIZE cursor = Inr p"
    "is_page doc_id (documents_found st q after) SCAN_PAGE_SIZE p" by blast
  from p(2) obtain vs where vs: "sorted_wrt (\<lambda>a b. doc_id a < doc_id b) vs" "set vs = documents_found st q after"
    "page_items p = take SCAN_PAGE_SIZE vs" "page_next p = (if length vs \<le> SCAN_PAGE_SIZE then None
       else Some [(js ''after'', JNum (NInt (doc_id (last (take SCAN_PAGE_SIZE vs)))))])"
    by (auto simp: is_page_def)
  have "vs = rs"
    using vs(1,2) less.prems(3,4) by (intro sorted_by_unique [where f = doc_id]) simp_all
  note vs = vs [unfolded this]
  from less.prems(1) p(1) have scan: "scan_documents (get s) q SCAN_PAGE_SIZE cursor = Inr p"
    by (simp add: same_scan_documents [symmetric])
  show ?case
  proof (cases "page_next p")
    case None
    then have "page_items p = rs" using vs(3,4) by (simp split: if_splits)
    with None scan show ?thesis
      by (subst for_pages.simps) (auto split: option.splits sum.splits)
  next
    case (Some c)
    have safe: "\<forall>v \<in> documents_found st q after. \<bar>doc_id v\<bar> \<le> max_safe"
      using assms(3) by (auto simp: documents_found_def)
    from next_page [OF p(2) Some safe limit] obtain a where a: "cursor_id (Some c) = Inr (Some a)"
      and a': "{v \<in> documents_found st q after. a < doc_id v} = documents_found st q after - set (page_items p)"
        "a \<in> doc_id ` documents_found st q after" by (elim exE conjE)
    let ?rest = "drop SCAN_PAGE_SIZE rs"
    from a'(2) have past: "past after a" by (auto simp: documents_found_def)
    have "documents_found st q (Some a) = {v \<in> documents_found st q after. a < doc_id v}"
      using past by (cases after) (auto simp: documents_found_def)
    also have "\<dots> = set ?rest"
    proof -
      have "distinct rs" using less.prems(3) by (rule sorted_by_distinct)
      then have "set (take SCAN_PAGE_SIZE rs) \<inter> set ?rest = {}"
        by (rule set_take_disj_set_drop_if_distinct) simp
      moreover have "set rs = set (take SCAN_PAGE_SIZE rs) \<union> set ?rest"
        by (metis append_take_drop_id set_append)
      ultimately have "set rs - set (take SCAN_PAGE_SIZE rs) = set ?rest" by blast
      with a'(1) vs(2,3) show ?thesis by simp
    qed
    finally have rest: "set ?rest = documents_found st q (Some a)" by simp
    have "sorted_wrt (\<lambda>a b. doc_id a < doc_id b) (take SCAN_PAGE_SIZE rs @ ?rest)" using less.prems(3) by simp
    then have sorted: "sorted_wrt (\<lambda>a b. doc_id a < doc_id b) ?rest" by (simp only: sorted_wrt_append)
    from Some vs(4) have "SCAN_PAGE_SIZE < length rs" by (simp split: if_splits)
    then have short: "length ?rest < length rs" using limit by simp
    have tail: "for_pages get wrap q body (Some c) t = peach body ?rest t"
      if "peach body (page_items p) s = Some (x, t)" for x t
      using less.hyps [OF short same_scan_trans [OF less.prems(1) peach_scan [OF that]] a sorted rest] .
    have "peach body rs s = pthen (peach body (page_items p)) (peach body ?rest) s"
      by (simp add: vs(3) flip: peach_append)
    with Some scan tail show ?thesis
      by (subst for_pages.simps) (auto simp: pthen_def pbind_def split: option.splits sum.splits prod.splits)
  qed
qed

end

section \<open>Collecting the copies\<close>

datatype fork_error =
    EntryNotVisible int int
  | MultipleSources js_string "js_string option"
  | ForkStorage storage_error

record fork_copy =
  copy_record :: document_create
  copy_source :: int
  copy_at :: document_point

record fork_state =
  fs_storage :: storage
  fs_copies :: "fork_copy list"
  fs_addresses :: "js_string set"

type_synonym 'a fork_proc = "(fork_state, fork_error, 'a) proc"

definition fork_mint :: "int fork_proc" where
  "fork_mint fs =
     (case mint_id (fs_storage fs) of
        Inl e \<Rightarrow> Some (Inl (ForkStorage e), fs)
      | Inr (i, st) \<Rightarrow> Some (Inr i, fs\<lparr>fs_storage := st\<rparr>))"

definition fork_record :: "int \<Rightarrow> int \<Rightarrow> document_record \<Rightarrow> document_create" where
  "fork_record child i source =
     \<lparr>doc_id = i, doc_kind = doc_kind source, doc_key = doc_key source, doc_scope = ConversationScope child,
      doc_history = Some (if doc_history source = Some Latest then Latest else Rewindable),
      doc_fork = doc_fork source\<rparr>"

definition selected :: "doc_fork \<Rightarrow> document_record \<Rightarrow> bool" where
  "selected policy source \<longleftrightarrow> is_conversation_scope (doc_scope source) \<and> doc_fork source = Some policy"

definition add_copy :: "document_create \<Rightarrow> int \<Rightarrow> document_point \<Rightarrow> fork_state \<Rightarrow> fork_state" where
  "add_copy r source at fs =
     fs\<lparr>fs_copies := fs_copies fs @ [\<lparr>copy_record = r, copy_source = source, copy_at = at\<rparr>],
        fs_addresses := insert (address_id (record_address r)) (fs_addresses fs)\<rparr>"

definition collect_item :: "document_point \<Rightarrow> doc_fork \<Rightarrow> int \<Rightarrow> document_record \<Rightarrow> unit fork_proc" where
  "collect_item at policy child source =
     (if \<not> selected policy source then pret ()
      else pbind fork_mint (\<lambda>i.
        let r = fork_record child i source in
        pthen (pread (\<lambda>fs. rguard (address_id (record_address r) \<notin> fs_addresses fs)
                 (MultipleSources (doc_kind r) (doc_key r))))
          (pmod (add_copy r (doc_id source) at))))"

definition collect_copies :: "doc_scope \<Rightarrow> document_point \<Rightarrow> doc_fork \<Rightarrow> int \<Rightarrow> unit fork_proc" where
  "collect_copies scope at policy child =
     for_pages fs_storage ForkStorage \<lparr>dq_scope = scope, dq_at = at, dq_kind = None\<rparr>
       (collect_item at policy child) None"

definition fork_entry :: "int \<Rightarrow> int \<Rightarrow> (entry_record \<times> int) option fork_proc" where
  "fork_entry parent at fs =
     map_option (\<lambda>r. (map_sum ForkStorage id r, fs)) (read_visible_entry (fs_storage fs) parent at)"

definition prepare_fork_copies :: "int \<Rightarrow> int \<Rightarrow> int \<Rightarrow> fork_copy list fork_proc" where
  "prepare_fork_copies parent at child =
     pbind (fork_entry parent at) (\<lambda>entry.
       case entry of
         None \<Rightarrow> pthrow (EntryNotVisible at parent)
       | Some (e, seq) \<Rightarrow>
           pthen (collect_copies (ConversationScope (ent_conversation e)) (At seq) ForkAsOf child)
           (pthen (collect_copies (ConversationScope parent) Current ForkCurrent child)
           (pget fs_copies)))"

definition fork_start :: "storage \<Rightarrow> fork_state" where
  "fork_start st = \<lparr>fs_storage = st, fs_copies = [], fs_addresses = {}\<rparr>"

section \<open>What is collected\<close>

text \<open>The invariant of the collection, and what one pass adds to it.\<close>

definition fork_ok :: "int \<Rightarrow> fork_state \<Rightarrow> bool" where
  "fork_ok child fs \<longleftrightarrow>
     distinct (map (address_id \<circ> record_address \<circ> copy_record) (fs_copies fs)) \<and>
     fs_addresses fs = set (map (address_id \<circ> record_address \<circ> copy_record) (fs_copies fs)) \<and>
     (\<forall>c \<in> set (fs_copies fs). doc_scope (copy_record c) = ConversationScope child)"

definition copies_source :: "document_point \<Rightarrow> document_record \<Rightarrow> fork_copy \<Rightarrow> bool" where
  "copies_source at source c \<longleftrightarrow>
     copy_source c = doc_id source \<and> copy_at c = at \<and> doc_kind (copy_record c) = doc_kind source \<and>
     doc_key (copy_record c) = doc_key source \<and> doc_fork (copy_record c) = doc_fork source \<and>
     (doc_history source \<noteq> None \<longrightarrow> doc_history (copy_record c) = doc_history source)"

lemma fork_mint_step: "fork_mint fs = Some (r, t) \<Longrightarrow>
    same_scan (fs_storage fs) (fs_storage t) \<and> fs_copies t = fs_copies fs \<and> fs_addresses t = fs_addresses fs"
  by (auto simp: fork_mint_def mint_id_def assert_open_def same_scan_def rguard_def split: if_splits)

lemma fork_mint_total: "fork_mint fs \<noteq> None"
  by (auto simp: fork_mint_def split: sum.splits)

lemma fork_record_source: "copies_source at source \<lparr>copy_record = fork_record child i source, copy_source = doc_id source, copy_at = at\<rparr>"
  by (auto simp: copies_source_def fork_record_def) (metis doc_history.exhaust)

lemma collect_item_cases:
  assumes "collect_item at policy child source fs = Some (r, t)"
  obtains (skipped) "\<not> selected policy source" "r = Inr ()" "t = fs"
  | (failed) e where "r = Inl e" "same_scan (fs_storage fs) (fs_storage t)" "fs_copies t = fs_copies fs"
  | (copied) c where "selected policy source" "r = Inr ()" "same_scan (fs_storage fs) (fs_storage t)"
      "fs_copies t = fs_copies fs @ [c]" "copies_source at source c"
      "doc_scope (copy_record c) = ConversationScope child"
      "address_id (record_address (copy_record c)) \<notin> fs_addresses fs"
      "fs_addresses t = insert (address_id (record_address (copy_record c))) (fs_addresses fs)"
proof (cases "selected policy source")
  case False
  with assms show ?thesis by (intro skipped) (auto simp: collect_item_def proc_apply)
next
  case True
  obtain x u where mint: "fork_mint fs = Some (x, u)" using fork_mint_total [of fs] by auto
  note step = fork_mint_step [OF mint]
  show ?thesis
  proof (cases x)
    case (Inl e)
    with True assms mint step show ?thesis by (intro failed) (auto simp: collect_item_def pbind_def)
  next
    case (Inr i)
    let ?r = "fork_record child i source"
    show ?thesis
    proof (cases "address_id (record_address ?r) \<in> fs_addresses u")
      case dup: True
      with True Inr assms mint step show ?thesis
        by (intro failed) (auto simp: collect_item_def pbind_def pthen_def proc_apply Let_def)
    next
      case False
      with True Inr assms mint have "r = Inr ()" "t = add_copy ?r (doc_id source) at u"
        by (auto simp: collect_item_def pbind_def pthen_def proc_apply Let_def)
      with step have t: "r = Inr ()" "same_scan (fs_storage fs) (fs_storage t)"
        "fs_copies t = fs_copies fs @ [\<lparr>copy_record = ?r, copy_source = doc_id source, copy_at = at\<rparr>]"
        "fs_addresses t = insert (address_id (record_address ?r)) (fs_addresses fs)"
        by (simp_all add: add_copy_def same_scan_def)
      have "doc_scope ?r = ConversationScope child" by (simp add: fork_record_def)
      moreover from False step have "address_id (record_address ?r) \<notin> fs_addresses fs" by simp
      ultimately show ?thesis using True t by (intro copied [OF True t(1-3) fork_record_source]) simp_all
    qed
  qed
qed

interpretation fork_reader: paged_reader fs_storage "collect_item at policy child" for at policy child
proof
  fix r s x t
  assume "collect_item at policy child r s = Some (x, t)"
  then show "same_scan (fs_storage s) (fs_storage t)" by (cases rule: collect_item_cases) simp_all
qed

lemma collect_item_total: "collect_item at policy child r fs \<noteq> None"
  using fork_mint_total [of fs]
  by (auto simp: collect_item_def pbind_def pthen_def proc_apply Let_def split: option.splits sum.splits)

lemma collect_pass:
  assumes "fork_ok child fs"
  obtains r t where "peach (collect_item at policy child) rs fs = Some (r, t)"
    "same_scan (fs_storage fs) (fs_storage t)"
    "r = Inr () \<Longrightarrow> fork_ok child t \<and>
       (\<exists>new. fs_copies t = fs_copies fs @ new \<and> list_all2 (copies_source at) (filter (selected policy) rs) new)"
  using assms
proof (induction rs arbitrary: fs thesis)
  case Nil
  then show ?case by (auto simp: proc_apply)
next
  case (Cons s rs)
  obtain r t where item: "collect_item at policy child s fs = Some (r, t)"
    using collect_item_total [of at policy child s fs] by auto
  from item show ?case
  proof (cases rule: collect_item_cases)
    case skipped
    obtain q u where rest: "peach (collect_item at policy child) rs fs = Some (q, u)"
      "same_scan (fs_storage fs) (fs_storage u)"
      "q = Inr () \<Longrightarrow> fork_ok child u \<and>
         (\<exists>new. fs_copies u = fs_copies fs @ new \<and> list_all2 (copies_source at) (filter (selected policy) rs) new)"
      using Cons.IH [OF _ Cons.prems(2)] by blast
    with skipped item show ?thesis by (intro Cons.prems(1) [of q u]) (simp_all add: pthen_def pbind_def)
  next
    case (failed e)
    with item show ?thesis by (intro Cons.prems(1) [of r t]) (simp_all add: pthen_def pbind_def)
  next
    case (copied c)
    with Cons.prems(2) have ok: "fork_ok child t" by (auto simp: fork_ok_def)
    obtain q u where rest: "peach (collect_item at policy child) rs t = Some (q, u)"
      "same_scan (fs_storage t) (fs_storage u)"
      "q = Inr () \<Longrightarrow> fork_ok child u \<and>
         (\<exists>new. fs_copies u = fs_copies t @ new \<and> list_all2 (copies_source at) (filter (selected policy) rs) new)"
      using Cons.IH [OF _ ok] by blast
    have "\<exists>new. fs_copies u = fs_copies fs @ new \<and> list_all2 (copies_source at) (filter (selected policy) (s # rs)) new"
      if "q = Inr ()"
    proof -
      from rest(3) [OF that] obtain new where "fs_copies u = fs_copies t @ new"
        "list_all2 (copies_source at) (filter (selected policy) rs) new" by blast
      with copied show ?thesis by (intro exI [of _ "c # new"]) simp
    qed
    with copied item rest show ?thesis
      by (intro Cons.prems(1) [of q u]) (auto simp: pthen_def pbind_def intro: same_scan_trans)
  qed
qed

lemma same_scan_found: "same_scan a b \<Longrightarrow> documents_found a q after = documents_found b q after"
  by (simp add: same_scan_def documents_found_def)

lemma found_listed:
  assumes "storage_inv st"
  shows "\<exists>rs. sorted_wrt (\<lambda>a b. doc_id a < doc_id b) rs \<and> set rs = documents_found st q None"
proof (rule documents_by.scan_values [OF assms, where q = q and keep = "document_kept q" and after = None])
  fix vs
  assume "sorted_wrt (\<lambda>a b. doc_id a < doc_id b) vs" "set vs = documents_by.found st q (document_kept q) None"
  then show ?thesis by (auto simp: documents_found_eq)
qed

text \<open>The documents that a fork copies: as of the entry's commit, and currently.\<close>

definition fork_sources :: "storage \<Rightarrow> int \<Rightarrow> document_point \<Rightarrow> doc_fork \<Rightarrow> document_record set" where
  "fork_sources st c at policy =
     {d. map_option ds_record (documents st (doc_id d)) = Some d \<and> doc_scope d = ConversationScope c \<and>
       is_alive_at d at \<and> doc_fork d = Some policy}"

lemma fork_sources_found:
  "{d \<in> documents_found st \<lparr>dq_scope = ConversationScope c, dq_at = at, dq_kind = None\<rparr> None. selected policy d} =
     fork_sources st c at policy"
  by (auto simp: fork_sources_def documents_found_def selected_def matches_def is_conversation_scope_def)

lemma collect_copies_spec:
  assumes "storage_inv st" "\<not> closed st" "\<forall>i. documents st i \<noteq> None \<longrightarrow> \<bar>i\<bar> \<le> max_safe"
    and "same_scan st (fs_storage fs)" "fork_ok child fs"
  shows "\<exists>rs r t. collect_copies (ConversationScope c) at policy child fs = Some (r, t) \<and>
    same_scan st (fs_storage t) \<and> sorted_wrt (\<lambda>a b. doc_id a < doc_id b) rs \<and>
    set rs = fork_sources st c at policy \<and>
    (r = Inr () \<longrightarrow> fork_ok child t \<and>
       (\<exists>new. fs_copies t = fs_copies fs @ new \<and> list_all2 (copies_source at) rs new))"
proof -
  let ?q = "\<lparr>dq_scope = ConversationScope c, dq_at = at, dq_kind = None\<rparr>"
  from found_listed [OF assms(1)] obtain all where all: "sorted_wrt (\<lambda>a b. doc_id a < doc_id b) all"
    "set all = documents_found st ?q None" by blast
  have safe: "\<forall>r \<in> documents_found st ?q None. \<bar>doc_id r\<bar> \<le> max_safe"
    using assms(3) by (auto simp: documents_found_def)
  have run: "collect_copies (ConversationScope c) at policy child fs = peach (collect_item at policy child) all fs"
    unfolding collect_copies_def
    by (rule fork_reader.for_pages_all [OF assms(1,2) safe assms(4) cursor_none all])
  let ?rs = "filter (selected policy) all"
  have "set ?rs = fork_sources st c at policy" using all(2) by (simp flip: fork_sources_found)
  moreover have "sorted_wrt (\<lambda>a b. doc_id a < doc_id b) ?rs" using all(1) by (rule sorted_wrt_filter)
  moreover have "\<exists>r t. peach (collect_item at policy child) all fs = Some (r, t) \<and>
      same_scan (fs_storage fs) (fs_storage t) \<and>
      (r = Inr () \<longrightarrow> fork_ok child t \<and>
         (\<exists>new. fs_copies t = fs_copies fs @ new \<and> list_all2 (copies_source at) ?rs new))"
    by (rule collect_pass [OF assms(5)]) blast
  ultimately show ?thesis using assms(4) unfolding run by (blast intro: same_scan_trans)
qed


lemma sample_visible: "read_visible_entry sample_storage 1 2 = Some (Inr (Some (sample_entry, 1)))"
proof -
  have "upper_bound [2] (Fin 2) = 1"
    by (simp add: upper_bound_def search.simps)
  then have "visible_loop sample_storage (Fin 2) 1 1 (Fin 2) [] = Some (Inr [2])"
    by (subst visible_loop.simps) (simp add: ids_at_def sample_state)
  then show ?thesis
    by (simp add: read_visible_entry_def visible_entries_def assert_open_def sample_state entry_at_def)
qed


end
