(* ===== verification/DeltaTrusted.thy ===== *)
theory DeltaTrusted
  imports DeltaOps
begin

text \<open>
  \<open>packages/chord/src/delta/apply-immutable-trusted.ts\<close>: the applier for operations that the tracker
  has produced itself.  It validates nothing, and copies each container on a path once; on trees the
  copy is the value, so what remains is the walk with its failures and the edit at its end.  A hole
  that a store past the end of an array would leave is written as \<open>JUndef\<close>.
\<close>

section \<open>Reading and writing a child\<close>

definition read_child :: "jsv \<Rightarrow> seg \<Rightarrow> jsv" where
  "read_child node s =
     (let item = (\<lambda>xs i. if i < length xs then xs ! i else JUndef) in
      case node of
        JArr xs \<Rightarrow>
          (case s of
             SNum n \<Rightarrow> (case num_index n of Some i \<Rightarrow> item xs i | None \<Rightarrow> JUndef)
           | SStr k \<Rightarrow>
               if k = js ''length'' then JNum (NInt (int (length xs)))
               else (case index_key k of Some i \<Rightarrow> item xs i | None \<Rightarrow> JUndef))
      | JObj ps \<Rightarrow> (case obj_get ps (seg_key s) of Some c \<Rightarrow> c | None \<Rightarrow> JUndef)
      | _ \<Rightarrow> JUndef)"

definition store_at :: "nat \<Rightarrow> jsv \<Rightarrow> jsv list \<Rightarrow> jsv list" where
  "store_at i v xs = (if i < length xs then xs[i := v] else xs @ replicate (i - length xs) JUndef @ [v])"

text \<open>A named property of an array is outside the values of the model; the store leaves its items.\<close>

definition define_data :: "jsv \<Rightarrow> seg \<Rightarrow> jsv \<Rightarrow> jsv" where
  "define_data target key v =
     (case target of
        JArr xs \<Rightarrow>
          (case (case key of SNum n \<Rightarrow> num_index n | SStr k \<Rightarrow> index_key k) of
             Some i \<Rightarrow> JArr (store_at i v xs)
           | None \<Rightarrow> target)
      | JObj ps \<Rightarrow> JObj (obj_put (seg_key key) v ps)
      | _ \<Rightarrow> target)"

section \<open>Array edits\<close>

text \<open>\<open>Array.prototype.copyWithin\<close> on natural numbers.\<close>

definition copy_within :: "nat \<Rightarrow> nat \<Rightarrow> nat \<Rightarrow> 'a list \<Rightarrow> 'a list" where
  "copy_within target start stop xs =
     (let to = min target (length xs); from = min start (length xs);
          count = min (min stop (length xs) - from) (length xs - to)
      in take to xs @ take count (drop from xs) @ drop (to + count) xs)"

fun store_items :: "nat \<Rightarrow> jsv list \<Rightarrow> jsv list \<Rightarrow> jsv list" where
  "store_items i [] xs = xs"
| "store_items i (v # vs) xs = store_items (i + 1) vs (store_at i v xs)"

definition splice_trusted :: "nat \<Rightarrow> nat \<Rightarrow> jsv list \<Rightarrow> jsv list \<Rightarrow> jsv list" where
  "splice_trusted start remove items xs =
     (let k = length items; old = length xs;
          moved = (if remove < k
                   then copy_within (start + k) (start + remove) old (xs @ replicate (k - remove) JUndef)
                   else if k < remove
                   then take (old - (remove - k)) (copy_within (start + k) (start + remove) old xs)
                   else xs)
      in store_items start items moved)"

datatype trusted_error =
    RootNotContainer
  | PathNotContainer
  | TargetNotArray
  | DeletionKeyNotNumeric
  | AppendNotString
  | TruncateNotString
  | PermutationLength

definition permute_trusted :: "js_num list \<Rightarrow> jsv list \<Rightarrow> trusted_error + jsv list" where
  "permute_trusted ks xs =
     (if length xs \<noteq> length ks then Inl PermutationLength
      else Inr (map (\<lambda>k. case num_index k of
                            Some i \<Rightarrow> if i < length xs then xs ! i else JUndef
                          | None \<Rightarrow> JUndef) ks))"

section \<open>One operation\<close>

text \<open>\<open>copyPath\<close>, and the edit of the container it reaches.\<close>

fun copy_path :: "path \<Rightarrow> (jsv \<Rightarrow> trusted_error + jsv) \<Rightarrow> jsv \<Rightarrow> trusted_error + jsv" where
  "copy_path [] f node = f node"
| "copy_path (s # p) f node =
     (let child = read_child node s in
      if \<not> is_obj child then Inl PathNotContainer
      else rbind (copy_path p f child) (\<lambda>child'. Inr (define_data node s child')))"

definition edit_array_trusted :: "op \<Rightarrow> jsv \<Rightarrow> trusted_error + jsv" where
  "edit_array_trusted x target =
     (case target of
        JArr xs \<Rightarrow>
          (case x of
             OpP p i r items \<Rightarrow>
               Inr (JArr (splice_trusted (the (num_index i)) (the (num_index r)) items xs))
           | OpM p ks \<Rightarrow> map_sum id JArr (permute_trusted ks xs)
           | _ \<Rightarrow> Inr target)
      | _ \<Rightarrow> Inl TargetNotArray)"

definition edit_key_trusted :: "op \<Rightarrow> seg \<Rightarrow> jsv \<Rightarrow> trusted_error + jsv" where
  "edit_key_trusted x key target =
     (case x of
        OpS p v \<Rightarrow> Inr (define_data target key v)
      | OpD p \<Rightarrow>
          (case target of
             JArr xs \<Rightarrow>
               (case key of
                  SNum n \<Rightarrow> Inr (JArr (splice_trusted (the (num_index n)) 1 [] xs))
                | SStr k \<Rightarrow> Inl DeletionKeyNotNumeric)
           | JObj ps \<Rightarrow> Inr (JObj (obj_del (seg_key key) ps))
           | _ \<Rightarrow> Inr target)
      | OpA p t \<Rightarrow>
          (case read_child target key of
             JStr s \<Rightarrow> Inr (define_data target key (JStr (s @ t)))
           | _ \<Rightarrow> Inl AppendNotString)
      | OpT p n \<Rightarrow>
          (case read_child target key of
             JStr s \<Rightarrow> Inr (define_data target key (JStr (drop (the (num_index n)) s)))
           | _ \<Rightarrow> Inl TruncateNotString)
      | _ \<Rightarrow> Inr target)"

definition apply_trusted_op :: "op \<Rightarrow> jsv \<Rightarrow> trusted_error + jsv" where
  "apply_trusted_op x root =
     (case x of
        OpR v \<Rightarrow> Inr v
      | _ \<Rightarrow>
          if \<not> is_obj root then Inl RootNotContainer
          else (case x of
                  OpP p i r items \<Rightarrow> copy_path p (edit_array_trusted x) root
                | OpM p ks \<Rightarrow> copy_path p (edit_array_trusted x) root
                | OpS p v \<Rightarrow> copy_path (butlast p) (edit_key_trusted x (last p)) root
                | OpD p \<Rightarrow> copy_path (butlast p) (edit_key_trusted x (last p)) root
                | OpA p t \<Rightarrow> copy_path (butlast p) (edit_key_trusted x (last p)) root
                | OpT p n \<Rightarrow> copy_path (butlast p) (edit_key_trusted x (last p)) root
                | OpR v \<Rightarrow> Inr v))"

definition apply_immutable_trusted :: "op list \<Rightarrow> jsv \<Rightarrow> trusted_error + jsv" where
  "apply_immutable_trusted ops target = rfold apply_trusted_op ops target"

section \<open>Agreement with the validating applier\<close>

lemma store_items_fits:
  "i + length vs \<le> length xs \<Longrightarrow> store_items i vs xs = take i xs @ vs @ drop (i + length vs) xs"
proof (induction vs arbitrary: i xs)
  case (Cons v vs)
  then have "i < length xs" by simp
  then have "take (Suc i) (xs[i := v]) = take i xs @ [v]" by (simp add: take_Suc_conv_app_nth)
  with Cons show ?case by (simp add: store_at_def)
qed simp

lemma copy_within_fits:
  "to \<le> length xs \<Longrightarrow> from \<le> stop \<Longrightarrow> stop \<le> length xs \<Longrightarrow> to + (stop - from) \<le> length xs \<Longrightarrow>
     copy_within to from stop xs = take to xs @ take (stop - from) (drop from xs) @ drop (to + (stop - from)) xs"
  by (simp add: copy_within_def Let_def min_absorb1 min_absorb2)

lemma copy_within_grow:
  assumes "start + remove \<le> length xs" "remove < k"
  shows "copy_within (start + k) (start + remove) (length xs) (xs @ replicate (k - remove) d) =
    take (start + k) (xs @ replicate (k - remove) d) @ drop (start + remove) xs"
  using assms by (subst copy_within_fits) simp_all

lemma copy_within_shrink:
  assumes "start + remove \<le> length xs" "k < remove"
  shows "take (length xs - (remove - k)) (copy_within (start + k) (start + remove) (length xs) xs) =
    take (start + k) xs @ drop (start + remove) xs"
  using assms by (subst copy_within_fits) simp_all

lemma splice_trusted_js:
  assumes "start + remove \<le> length xs"
  shows "splice_trusted start remove items xs = js_splice start remove items xs"
proof -
  let ?k = "length items"
  have js: "js_splice start remove items xs = take start xs @ items @ drop (start + remove) xs"
    using assms by (simp add: js_splice_def min_absorb1)
  consider "remove < ?k" | "?k < remove" | "remove = ?k" by linarith
  then show ?thesis
  proof cases
    case 1
    then have "splice_trusted start remove items xs =
        store_items start items (take (start + ?k) (xs @ replicate (?k - remove) JUndef) @ drop (start + remove) xs)"
      using assms by (simp add: splice_trusted_def Let_def copy_within_grow)
    also from 1 assms have "\<dots> = take start xs @ items @ drop (start + remove) xs"
      by (subst store_items_fits) (auto simp: min_def)
    finally show ?thesis by (simp add: js)
  next
    case 2
    then have "splice_trusted start remove items xs =
        store_items start items (take (start + ?k) xs @ drop (start + remove) xs)"
      unfolding splice_trusted_def Let_def copy_within_shrink [OF assms 2, symmetric] by simp
    also from 2 assms have "\<dots> = take start xs @ items @ drop (start + remove) xs"
      by (subst store_items_fits) (auto simp: min_def)
    finally show ?thesis by (simp add: js)
  next
    case 3
    with assms have "splice_trusted start remove items xs = take start xs @ items @ drop (start + remove) xs"
      by (simp add: splice_trusted_def Let_def store_items_fits)
    then show ?thesis by (simp only: js)
  qed
qed

text \<open>
  The move and overwrite of \<open>spliceTrusted\<close> (lengthen, \<open>copyWithin\<close>, shorten, store the items)
  equals \<open>Array.prototype.splice\<close> whenever the removed range lies inside the array.
\<close>

theorem splice_trusted_splice:
  assumes "start + remove \<le> length xs"
  shows "splice_trusted start remove items xs = js_splice start remove items xs"
  using assms by (rule splice_trusted_js)

theorem splice_trusted_splice_witness:
  "splice_trusted 1 1 [JNull, JBool True] [JBool False, JNull, JBool False] =
     [JBool False, JNull, JBool True, JBool False]"
  using splice_trusted_splice [of 1 1 "[JBool False, JNull, JBool False]" "[JNull, JBool True]"]
  by (simp add: js_splice_def)

lemma step_into_read: "step_into w node s = Inr c \<Longrightarrow> read_child node s = c \<and> is_obj node"
  by (auto simp: step_into_def read_child_def is_obj_def split: jsv.splits seg.splits option.splits if_splits)

lemma step_into_define: "step_into w node s = Inr c \<Longrightarrow> define_data node s v = write_child node s v"
  by (auto simp: step_into_def define_data_def write_child_def store_at_def
      split: jsv.splits seg.splits option.splits if_splits)

lemma update_at_copy_path:
  assumes "update_at w p f v = Inr v'" and "\<And>u u'. f u = Inr u' \<Longrightarrow> is_obj u \<and> g u = Inr u'"
  shows "is_obj v \<and> copy_path p g v = Inr v'"
  using assms(1)
proof (induction p arbitrary: v v')
  case Nil
  with assms(2) show ?case by auto
next
  case (Cons s p)
  then obtain c c' where c: "step_into w v s = Inr c" "update_at w p f c = Inr c'" "v' = write_child v s c'"
    by (auto simp: res_simps)
  with Cons.IH [OF c(2)] step_into_read [OF c(1)] step_into_define [OF c(1)] show ?case by simp
qed

lemma check_key_define:
  assumes "check_key u key = Inr ()" "is_obj u" "seg_ok key"
  shows "define_data u key v = write_child u key v"
  using assms by (cases u; cases key)
    (auto simp: check_key_def define_data_def write_child_def store_at_def rguard_def is_obj_def
      split: option.splits if_splits)

lemma read_text_read: "read_text_at p u key = Inr t \<Longrightarrow> read_child u key = JStr t"
  by (auto simp: read_text_at_def split: sum.splits jsv.splits dest!: step_into_read)

lemma delete_child_trusted:
  "delete_child p u key = Inr u' \<Longrightarrow> is_obj u \<Longrightarrow> edit_key_trusted (OpD p) key u = Inr u'"
  by (auto simp: delete_child_def edit_key_trusted_def is_obj_def splice_trusted_js
      split: jsv.splits seg.splits option.splits if_splits)

lemma edit_parent_trusted:
  assumes "edit_parent x p u = Inr u'" and "seg_ok (last p)"
    and "x = OpS p v \<or> x = OpD p \<or> x = OpA p t \<or> x = OpT p n"
  shows "is_obj u \<and> edit_key_trusted x (last p) u = Inr u'"
proof -
  from assms(1) have u: "is_obj u" and key: "check_key u (last p) = Inr ()"
    by (auto simp: edit_parent_def res_simps split: if_splits)
  note store = check_key_define [OF key u assms(2)]
  from assms(3) show ?thesis
  proof (elim disjE)
    assume "x = OpD p"
    with assms(1) u key show ?thesis by (simp add: edit_parent_def delete_child_trusted)
  qed (use assms(1) u key in \<open>auto simp: edit_parent_def edit_key_trusted_def store res_simps
         dest!: read_text_read\<close>)
qed

lemma array_trusted:
  assumes "permute_node p ks u = Inr u'" and "permutation_ok ks"
  shows "is_obj u \<and> edit_array_trusted (OpM p ks) u = Inr u'"
proof -
  from assms(1) obtain xs where u: "u = JArr xs" "length xs = length ks"
      "u' = JArr (map (\<lambda>k. xs ! the (num_index k)) ks)"
    by (auto simp: permute_node_def split: jsv.splits if_splits)
  have "map (\<lambda>k. case num_index k of Some i \<Rightarrow> if i < length xs then xs ! i else JUndef | None \<Rightarrow> JUndef) ks =
      map (\<lambda>k. xs ! the (num_index k)) ks"
    using assms(2) u(2) by (intro map_cong) (auto simp: permutation_ok_def)
  with u show ?thesis by (simp add: edit_array_trusted_def permute_trusted_def is_obj_def)
qed

lemma seg_ok_last: "p \<noteq> [] \<Longrightarrow> path_ok p \<Longrightarrow> seg_ok (last p)"
  by (simp add: path_ok_def list_all_iff)

lemma apply_trusted_op:
  assumes "apply_op x v = Inr v'" and "\<And>p i r items. x \<noteq> OpP p i r items"
  shows "apply_trusted_op x v = Inr v'"
proof -
  from assms(1) have ok: "op_ok x" by (rule apply_op_ok)
  note edit = update_at_copy_path [where f = "edit_parent x p" and g = "edit_key_trusted x (last p)" for p]
  show ?thesis
  proof (cases x)
    case (OpR w)
    with assms(1) show ?thesis by (auto simp: apply_op_def apply_trusted_op_def res_simps)
  next
    case (OpP p i r items)
    with assms(2) show ?thesis by blast
  next
    case (OpM p ks)
    with assms(1) ok have "update_at p p (permute_node p ks) v = Inr v'" by (auto simp: apply_op_def res_simps)
    from update_at_copy_path [OF this, of "edit_array_trusted x"] array_trusted ok OpM show ?thesis
      by (simp add: apply_trusted_op_def)
  next
    case (OpS p w)
    with assms(1) have "update_at (butlast p) (butlast p) (edit_parent x p) v = Inr v'"
      by (auto simp: apply_op_def res_simps)
    from edit [OF this] edit_parent_trusted ok OpS show ?thesis
      by (auto simp: apply_trusted_op_def seg_ok_last)
  next
    case (OpD p)
    with assms(1) have "update_at (butlast p) (butlast p) (edit_parent x p) v = Inr v'"
      by (auto simp: apply_op_def res_simps)
    from edit [OF this] edit_parent_trusted ok OpD show ?thesis
      by (auto simp: apply_trusted_op_def seg_ok_last)
  next
    case (OpA p t)
    with assms(1) have "update_at (butlast p) (butlast p) (edit_parent x p) v = Inr v'"
      by (auto simp: apply_op_def res_simps)
    from edit [OF this] edit_parent_trusted ok OpA show ?thesis
      by (auto simp: apply_trusted_op_def seg_ok_last)
  next
    case (OpT p n)
    with assms(1) have "update_at (butlast p) (butlast p) (edit_parent x p) v = Inr v'"
      by (auto simp: apply_op_def res_simps)
    from edit [OF this] edit_parent_trusted ok OpT show ?thesis
      by (auto simp: apply_trusted_op_def seg_ok_last)
  qed
qed

definition is_splice :: "op \<Rightarrow> bool" where
  "is_splice x = (case x of OpP _ _ _ _ \<Rightarrow> True | _ \<Rightarrow> False)"

lemma apply_immutable_ops: "apply_immutable ops v = Inr w \<longleftrightarrow> apply_ops ops v = Inr w"
  using apply_immutable_batches_iff [of "[ops]" v w] by (simp add: apply_immutable_def)

lemma trusted_fold:
  "rfold apply_op ops v = Inr w \<Longrightarrow> \<forall>x \<in> set ops. \<not> is_splice x \<Longrightarrow> rfold apply_trusted_op ops v = Inr w"
proof (induction ops arbitrary: v)
  case (Cons x ops)
  then obtain u where u: "apply_op x v = Inr u" "rfold apply_op ops u = Inr w" by (auto simp: res_simps)
  from Cons.prems(2) have "x \<noteq> OpP p i r items" for p i r items by (auto simp: is_splice_def)
  with u(1) have "apply_trusted_op x v = Inr u" by (rule apply_trusted_op)
  with Cons.IH [OF u(2)] Cons.prems(2) show ?case by simp
qed simp

lemma trusted_agrees:
  "apply_immutable ops v = Inr w \<Longrightarrow> \<forall>x \<in> set ops. \<not> is_splice x \<Longrightarrow> apply_immutable_trusted ops v = Inr w"
  by (simp add: apply_immutable_ops apply_ops_def apply_immutable_trusted_def trusted_fold)

text \<open>
  C32. The trusted applier is an optimisation of the validating one: on every batch without splices
  that \<open>applyImmutable\<close> accepts, it computes the same value without failing.
\<close>

theorem trusted_equals_validating:
  assumes "apply_immutable ops v = Inr w" "\<forall>x \<in> set ops. \<not> is_splice x"
  shows "apply_immutable_trusted ops v = Inr w"
  using assms by (rule trusted_agrees)

theorem trusted_equals_validating_witness:
  "apply_immutable_trusted [OpS [SStr (js ''a'')] (JBool True)] (JObj []) =
     Inr (JObj [(js ''a'', JBool True)])"
proof -
  have "apply_immutable [OpS [SStr (js ''a'')] (JBool True)] (JObj []) = Inr (JObj [(js ''a'', JBool True)])"
    by code_simp
  from trusted_equals_validating [OF this] show ?thesis by (simp add: is_splice_def)
qed

end
