(* ===== verification/Tracker.thy ===== *)
theory Tracker
  imports DeltaTrusted Effects
begin

text \<open>
  The tracker of \<open>packages/chord/src/delta/tracker.ts\<close>: an immutable current value with its revision
  number, and the changes begun on it.  A change is opened, edited through its draft, prepared and then
  adopted or aborted; the tracker adopts at most one of the changes begun at one revision.  The
  contexts of the code, shared by a change, its prepared form and the registry of the tracker, are the
  entries of a list, and a change or prepared change is the index of its context.

  What is not modelled is the overlay itself, the proxies that turn property writes into operations:
  \<open>write_draft\<close> receives the operations that the overlay emits for the writes.
\<close>

section \<open>State\<close>

datatype status = Open | Prepared | Consumed | AbortedStatus | Stale

datatype tracker_error =
    SettledOverlay
  | ReadOnlyOverlay
  | ChangeSettled
  | DifferentTracker
  | AlreadyUsed
  | HasBeenAborted
  | StaleChange
  | NotReady
  | ValidatedFailure delta_error
  | TrustedFailure trusted_error

record prepared =
  prep_base :: jsv
  prep_value :: jsv
  prep_ops :: "op list"

record overlay_context =
  cx_revision :: nat
  cx_status :: status
  cx_base :: "jsv option"
  cx_ops :: "op list"
  cx_released :: bool
  cx_registered :: bool
  cx_settled :: bool
  cx_linked :: bool
  cx_prepared :: "prepared option"

record tracker =
  trk_owner :: nat
  trk_value :: jsv
  trk_revision :: nat
  trk_contexts :: "overlay_context list"

type_synonym 'a tracker_op = "(tracker, tracker_error, 'a) eff"

definition track :: "nat \<Rightarrow> jsv \<Rightarrow> tracker" where
  "track owner v = \<lparr>trk_owner = owner, trk_value = v, trk_revision = 0, trk_contexts = []\<rparr>"

definition set_context :: "nat \<Rightarrow> (overlay_context \<Rightarrow> overlay_context) \<Rightarrow> tracker \<Rightarrow> tracker" where
  "set_context i f t = t\<lparr>trk_contexts := (trk_contexts t)[i := f (trk_contexts t ! i)]\<rparr>"

definition is_settled_context :: "overlay_context \<Rightarrow> bool" where
  "is_settled_context c \<longleftrightarrow> cx_released c \<or> cx_status c \<in> {Consumed, AbortedStatus, Stale}"

definition assert_writable :: "nat \<Rightarrow> unit tracker_op" where
  "assert_writable i =
     eread (\<lambda>t. let c = trk_contexts t ! i in
       if is_settled_context c then Inl SettledOverlay
       else if cx_status c \<noteq> Open then Inl ReadOnlyOverlay else Inr ())"

section \<open>Changes\<close>

text \<open>\<open>createContext\<close> with the registration of \<open>beginChange\<close>, and the release of a context.\<close>

definition create_context :: "tracker \<Rightarrow> overlay_context" where
  "create_context t =
     \<lparr>cx_revision = trk_revision t, cx_status = Open, cx_base = Some (trk_value t), cx_ops = [],
      cx_released = False, cx_registered = True, cx_settled = False, cx_linked = False, cx_prepared = None\<rparr>"

definition begin_change :: "nat tracker_op" where
  "begin_change = (\<lambda>t. (Inr (length (trk_contexts t)), t\<lparr>trk_contexts := trk_contexts t @ [create_context t]\<rparr>))"

definition clear_context :: "overlay_context \<Rightarrow> overlay_context" where
  "clear_context c = c\<lparr>cx_registered := False, cx_released := True, cx_base := None, cx_ops := []\<rparr>"

definition write_draft :: "nat \<Rightarrow> op list \<Rightarrow> unit tracker_op" where
  "write_draft i ops = ethen (assert_writable i) (emod (set_context i (\<lambda>c. c\<lparr>cx_ops := cx_ops c @ ops\<rparr>)))"

definition materialize_operations :: "jsv \<Rightarrow> op list \<Rightarrow> tracker_error + jsv" where
  "materialize_operations base ops =
     (if list_ex (\<lambda>x. case x of OpP _ _ _ _ \<Rightarrow> True | OpM _ _ \<Rightarrow> True | _ \<Rightarrow> False) ops
      then map_sum ValidatedFailure id (apply_immutable ops base)
      else map_sum TrustedFailure id (apply_immutable_trusted ops base))"

text \<open>The revision that a batch makes of its base.\<close>

definition batch_value :: "op list \<Rightarrow> jsv \<Rightarrow> tracker_error + jsv" where
  "batch_value ops base = (if ops = [] then Inr base else materialize_operations base ops)"

definition materialize_prepared :: "overlay_context \<Rightarrow> tracker_error + prepared" where
  "materialize_prepared c =
     (let base = the (cx_base c) in
      rbind (batch_value (cx_ops c) base) (\<lambda>v.
        Inr \<lparr>prep_base = base, prep_value = v, prep_ops = cx_ops c\<rparr>))"

definition prepare :: "nat \<Rightarrow> prepared tracker_op" where
  "prepare i =
     ebind (eget (\<lambda>t. trk_contexts t ! i)) (\<lambda>c.
     ethen (eguard (\<not> cx_settled c) ChangeSettled)
     (ethen (assert_writable i)
       (case materialize_prepared c of
          Inr p \<Rightarrow>
            ethen (emod (set_context i (\<lambda>c. (clear_context c)\<lparr>cx_status := Prepared, cx_settled := True,
                     cx_linked := True, cx_prepared := Some p\<rparr>)))
              (eret p)
        | Inl e \<Rightarrow>
            ethen (emod (set_context i (\<lambda>c. (clear_context c)\<lparr>cx_status := AbortedStatus, cx_settled := True\<rparr>)))
              (ethrow e))))"

definition abort_context :: "overlay_context \<Rightarrow> overlay_context" where
  "abort_context c =
     (if cx_status c \<in> {AbortedStatus, Consumed, Stale} then c
      else clear_context (c\<lparr>cx_status := AbortedStatus\<rparr>))"

definition abort_handle :: "overlay_context \<Rightarrow> overlay_context" where
  "abort_handle c =
     (if cx_settled c
      then (if cx_linked c \<and> cx_status c = Prepared then c\<lparr>cx_status := AbortedStatus\<rparr> else c)\<lparr>cx_linked := False\<rparr>
      else abort_context (c\<lparr>cx_settled := True\<rparr>))"

definition abort_change :: "nat \<Rightarrow> unit tracker_op" where
  "abort_change i = emod (set_context i abort_handle)"

definition abort_prepared :: "nat \<Rightarrow> unit tracker_op" where
  "abort_prepared i = emod (set_context i abort_context)"

section \<open>Adoption\<close>

text \<open>\<open>invalidate\<close>: every other registered change becomes stale and loses its overlay.\<close>

definition invalidate :: "nat \<Rightarrow> tracker \<Rightarrow> tracker" where
  "invalidate winner t =
     t\<lparr>trk_contexts := map (\<lambda>(j, c).
         if \<not> cx_registered c then c
         else if j = winner then c\<lparr>cx_registered := False\<rparr>
         else clear_context (if cx_status c \<in> {Open, Prepared} then c\<lparr>cx_status := Stale\<rparr> else c))
       (List.enumerate 0 (trk_contexts t))\<rparr>"

definition adopt_status :: "status \<Rightarrow> tracker_error + unit" where
  "adopt_status s =
     (case s of
        Consumed \<Rightarrow> Inl AlreadyUsed
      | AbortedStatus \<Rightarrow> Inl HasBeenAborted
      | Stale \<Rightarrow> Inl StaleChange
      | Open \<Rightarrow> Inl NotReady
      | Prepared \<Rightarrow> Inr ())"

definition adopt :: "nat \<Rightarrow> nat \<Rightarrow> unit tracker_op" where
  "adopt owner i =
     ethen (eread (\<lambda>t. rguard (owner = trk_owner t) DifferentTracker))
     (ebind (eget (\<lambda>t. trk_contexts t ! i)) (\<lambda>c.
      ethen (eread (\<lambda>_. adopt_status (cx_status c)))
      (ebind (eget trk_revision) (\<lambda>revision.
       if cx_revision c \<noteq> revision
       then ethen (emod (set_context i (\<lambda>c. clear_context (c\<lparr>cx_status := Stale\<rparr>)))) (ethrow StaleChange)
       else ebind (eget trk_value) (\<lambda>v.
         if v \<noteq> prep_base (the (cx_prepared c))
         then ethen (emod (set_context i (\<lambda>c. c\<lparr>cx_status := Stale\<rparr>))) (ethrow StaleChange)
         else emod (\<lambda>t. invalidate i
                ((set_context i (\<lambda>c. c\<lparr>cx_status := Consumed\<rparr>) t)
                  \<lparr>trk_value := prep_value (the (cx_prepared c)), trk_revision := trk_revision t + 1\<rparr>)))))))"

section \<open>Runs\<close>

text \<open>
  A run applies the operations in any order to any handle, also to settled ones.  Its log holds the
  batch of every successful adoption.
\<close>

inductive tracker_run :: "tracker \<Rightarrow> op list list \<Rightarrow> tracker \<Rightarrow> bool" where
  begin_run: "tracker_run t [] t"
| begin_step: "tracker_run s log t \<Longrightarrow> begin_change t = (r, u) \<Longrightarrow> tracker_run s log u"
| edit: "tracker_run s log t \<Longrightarrow> i < length (trk_contexts t) \<Longrightarrow> write_draft i ops t = (r, u) \<Longrightarrow> tracker_run s log u"
| prepares: "tracker_run s log t \<Longrightarrow> i < length (trk_contexts t) \<Longrightarrow> prepare i t = (r, u) \<Longrightarrow> tracker_run s log u"
| abort: "tracker_run s log t \<Longrightarrow> i < length (trk_contexts t) \<Longrightarrow> abort_change i t = (r, u) \<Longrightarrow> tracker_run s log u"
| drop_prepared: "tracker_run s log t \<Longrightarrow> i < length (trk_contexts t) \<Longrightarrow> abort_prepared i t = (r, u) \<Longrightarrow> tracker_run s log u"
| refused: "tracker_run s log t \<Longrightarrow> i < length (trk_contexts t) \<Longrightarrow> adopt owner i t = (Inl e, u) \<Longrightarrow> tracker_run s log u"
| adopted: "tracker_run s log t \<Longrightarrow> i < length (trk_contexts t) \<Longrightarrow> adopt owner i t = (Inr (), u) \<Longrightarrow>
    tracker_run s (log @ [prep_ops (the (cx_prepared (trk_contexts t ! i)))]) u"

text \<open>What holds of one context, given the revision and the value of its tracker.\<close>

definition context_ok :: "nat \<Rightarrow> jsv \<Rightarrow> overlay_context \<Rightarrow> bool" where
  "context_ok revision v c \<longleftrightarrow>
     cx_revision c \<le> revision \<and>
     (cx_registered c \<longrightarrow> cx_status c = Open) \<and>
     (cx_status c = Open \<longrightarrow> cx_registered c \<and> \<not> cx_released c \<and> \<not> cx_settled c \<and>
        cx_revision c = revision \<and> cx_base c = Some v) \<and>
     (cx_status c = Prepared \<longrightarrow>
        (\<exists>p. cx_prepared c = Some p \<and> batch_value (prep_ops p) (prep_base p) = Inr (prep_value p) \<and>
             (cx_revision c = revision \<longrightarrow> prep_base p = v)))"

definition tracker_inv :: "tracker \<Rightarrow> bool" where
  "tracker_inv t \<longleftrightarrow> (\<forall>c \<in> set (trk_contexts t). context_ok (trk_revision t) (trk_value t) c)"

lemma track_inv: "tracker_inv (track owner v)"
  by (simp add: tracker_inv_def track_def)

lemma tracker_inv_nth: "tracker_inv t \<Longrightarrow> i < length (trk_contexts t) \<Longrightarrow>
    context_ok (trk_revision t) (trk_value t) (trk_contexts t ! i)"
  by (simp add: tracker_inv_def)

lemma set_context_simps [simp]:
  "trk_value (set_context i f t) = trk_value t" "trk_revision (set_context i f t) = trk_revision t"
  "trk_owner (set_context i f t) = trk_owner t" "length (trk_contexts (set_context i f t)) = length (trk_contexts t)"
  by (simp_all add: set_context_def)

lemma set_context_inv:
  assumes "tracker_inv t" "i < length (trk_contexts t)"
    and "context_ok (trk_revision t) (trk_value t) (f (trk_contexts t ! i))"
  shows "tracker_inv (set_context i f t)"
  using assms by (auto simp: tracker_inv_def set_context_def dest!: set_update_subset_insert [THEN subsetD])

lemma begin_change_inv: "tracker_inv t \<Longrightarrow> begin_change t = (r, u) \<Longrightarrow> tracker_inv u"
  by (auto simp: tracker_inv_def begin_change_def create_context_def context_ok_def)

lemma assert_writable_eq:
  "assert_writable i t = (r, u) \<longleftrightarrow> u = t \<and>
     r = (let c = trk_contexts t ! i in
          if is_settled_context c then Inl SettledOverlay
          else if cx_status c \<noteq> Open then Inl ReadOnlyOverlay else Inr ())"
  by (auto simp: assert_writable_def eff_simps)

lemma write_draft_inv:
  assumes "tracker_inv t" "i < length (trk_contexts t)" "write_draft i ops t = (r, u)"
  shows "tracker_inv u"
  using assms(3) tracker_inv_nth [OF assms(1,2)] assms(1,2)
  by (auto simp: write_draft_def ethen_def ebind_def assert_writable_def eff_simps context_ok_def Let_def
      split: if_splits intro!: set_context_inv)

lemma abort_context_ok: "context_ok n v c \<Longrightarrow> context_ok n v (abort_context c)"
  by (auto simp: context_ok_def abort_context_def clear_context_def)

lemma abort_prepared_inv:
  assumes "tracker_inv t" "i < length (trk_contexts t)" "abort_prepared i t = (r, u)"
  shows "tracker_inv u"
  using assms tracker_inv_nth [OF assms(1,2)]
  by (auto simp: abort_prepared_def eff_simps intro!: set_context_inv abort_context_ok)

lemma abort_change_eq: "abort_change i t = (Inr (), set_context i abort_handle t)"
  by (simp add: abort_change_def eff_simps)

lemma abort_handle_ok: "context_ok n v c \<Longrightarrow> context_ok n v (abort_handle c)"
  by (cases "cx_settled c"; cases "cx_status c")
    (simp_all add: abort_handle_def context_ok_def abort_context_def clear_context_def)

lemma abort_change_inv:
  assumes "tracker_inv t" "i < length (trk_contexts t)" "abort_change i t = (r, u)"
  shows "tracker_inv u"
  using assms tracker_inv_nth [OF assms(1,2)]
  by (auto simp: abort_change_eq intro!: set_context_inv abort_handle_ok)

text \<open>Preparing, case by case.\<close>

definition prepare_context :: "overlay_context \<Rightarrow> overlay_context" where
  "prepare_context c =
     (case materialize_prepared c of
        Inr p \<Rightarrow> (clear_context c)\<lparr>cx_status := Prepared, cx_settled := True, cx_linked := True, cx_prepared := Some p\<rparr>
      | Inl e \<Rightarrow> (clear_context c)\<lparr>cx_status := AbortedStatus, cx_settled := True\<rparr>)"

lemma prepare_eq:
  "prepare i t =
     (let c = trk_contexts t ! i in
      if cx_settled c then (Inl ChangeSettled, t)
      else if is_settled_context c then (Inl SettledOverlay, t)
      else if cx_status c \<noteq> Open then (Inl ReadOnlyOverlay, t)
      else (materialize_prepared c, set_context i prepare_context t))"
proof -
  let ?c = "trk_contexts t ! i"
  have "set_context i f t = set_context i g t" if "f ?c = g ?c" for f g
    using that by (simp add: set_context_def)
  from this [of prepare_context] show ?thesis
    by (cases "materialize_prepared ?c")
      (auto simp: prepare_def ethen_def ebind_def eff_simps assert_writable_def rguard_def Let_def prepare_context_def)
qed

lemma prepare_context_ok: "context_ok n v c \<Longrightarrow> cx_status c = Open \<Longrightarrow> context_ok n v (prepare_context c)"
  by (cases "materialize_prepared c")
    (auto simp: prepare_context_def context_ok_def clear_context_def materialize_prepared_def res_simps)

lemma prepare_inv:
  assumes "tracker_inv t" "i < length (trk_contexts t)" "prepare i t = (r, u)"
  shows "tracker_inv u"
  using assms tracker_inv_nth [OF assms(1,2)]
  by (auto simp: prepare_eq Let_def intro!: set_context_inv prepare_context_ok split: if_splits)

section \<open>Adoption on well-formed trackers\<close>

definition adoptable :: "tracker \<Rightarrow> nat \<Rightarrow> bool" where
  "adoptable t i \<longleftrightarrow> i < length (trk_contexts t) \<and> cx_status (trk_contexts t ! i) = Prepared \<and>
     cx_revision (trk_contexts t ! i) = trk_revision t"

definition adopted_tracker :: "tracker \<Rightarrow> nat \<Rightarrow> tracker" where
  "adopted_tracker t i =
     invalidate i ((set_context i (\<lambda>c. c\<lparr>cx_status := Consumed\<rparr>) t)
       \<lparr>trk_value := prep_value (the (cx_prepared (trk_contexts t ! i))), trk_revision := trk_revision t + 1\<rparr>)"

lemma adopt_cases:
  assumes "tracker_inv t" "i < length (trk_contexts t)" "adopt owner i t = (r, u)"
  obtains (adopted) "r = Inr ()" "owner = trk_owner t" "adoptable t i" "u = adopted_tracker t i"
  | (refused) e where "r = Inl e" "u = t \<or> u = set_context i (\<lambda>c. clear_context (c\<lparr>cx_status := Stale\<rparr>)) t"
      "\<not> (owner = trk_owner t \<and> adoptable t i)"
proof -
  let ?c = "trk_contexts t ! i"
  from tracker_inv_nth [OF assms(1,2)]
  have base: "cx_status ?c = Prepared \<Longrightarrow> cx_revision ?c = trk_revision t \<Longrightarrow>
      trk_value t = prep_base (the (cx_prepared ?c))"
    by (auto simp: context_ok_def)
  show ?thesis
  proof (cases "owner = trk_owner t \<and> cx_status ?c = Prepared")
    case True
    show ?thesis
    proof (cases "cx_revision ?c = trk_revision t")
      case rev: True
      with True base have "adopt owner i t = (Inr (), adopted_tracker t i)"
        by (simp add: adopt_def ethen_def ebind_def eff_simps adopt_status_def adopted_tracker_def)
      with True rev assms(2,3) show ?thesis by (intro adopted) (auto simp: adoptable_def)
    next
      case False
      with True have "adopt owner i t =
          (Inl StaleChange, set_context i (\<lambda>c. clear_context (c\<lparr>cx_status := Stale\<rparr>)) t)"
        by (simp add: adopt_def ethen_def ebind_def eff_simps adopt_status_def)
      with False assms(3) show ?thesis by (intro refused) (auto simp: adoptable_def)
    qed
  next
    case False
    then have "\<exists>e. adopt owner i t = (Inl e, t)"
      by (cases "cx_status ?c")
        (auto simp: adopt_def ethen_def ebind_def eff_simps adopt_status_def rguard_def)
    with assms(3) obtain e where "r = Inl e" "u = t" by auto
    with False show ?thesis by (intro refused) (auto simp: adoptable_def)
  qed
qed

lemma invalidate_nth:
  "j < length (trk_contexts t) \<Longrightarrow> trk_contexts (invalidate i t) ! j =
     (let c = trk_contexts t ! j in
      if \<not> cx_registered c then c
      else if j = i then c\<lparr>cx_registered := False\<rparr>
      else clear_context (if cx_status c \<in> {Open, Prepared} then c\<lparr>cx_status := Stale\<rparr> else c))"
  by (simp add: invalidate_def nth_enumerate_eq)

lemma invalidate_simps [simp]:
  "trk_value (invalidate i t) = trk_value t" "trk_revision (invalidate i t) = trk_revision t"
  "trk_owner (invalidate i t) = trk_owner t" "length (trk_contexts (invalidate i t)) = length (trk_contexts t)"
  by (simp_all add: invalidate_def)

lemma adopted_simps [simp]:
  "trk_value (adopted_tracker t i) = prep_value (the (cx_prepared (trk_contexts t ! i)))"
  "trk_revision (adopted_tracker t i) = trk_revision t + 1"
  "trk_owner (adopted_tracker t i) = trk_owner t"
  "length (trk_contexts (adopted_tracker t i)) = length (trk_contexts t)"
  by (simp_all add: adopted_tracker_def)

lemma adopted_nth:
  assumes "tracker_inv t" "j < length (trk_contexts t)"
  shows "context_ok (trk_revision t + 1) w (trk_contexts (adopted_tracker t i) ! j) \<and>
    cx_revision (trk_contexts (adopted_tracker t i) ! j) = cx_revision (trk_contexts t ! j)"
  using tracker_inv_nth [OF assms] assms(2)
  by (auto simp: adopted_tracker_def invalidate_nth Let_def set_context_def nth_list_update
      context_ok_def clear_context_def)

lemma adopted_inv: "tracker_inv t \<Longrightarrow> tracker_inv (adopted_tracker t i)"
  using adopted_nth [of t _ "trk_value (adopted_tracker t i)" i]
  by (auto simp: tracker_inv_def all_set_conv_all_nth)

lemma stale_ok: "context_ok n v c \<Longrightarrow> context_ok n v (clear_context (c\<lparr>cx_status := Stale\<rparr>))"
  by (auto simp: context_ok_def clear_context_def)

lemma adopt_inv:
  assumes "tracker_inv t" "i < length (trk_contexts t)" "adopt owner i t = (r, u)"
  shows "tracker_inv u"
  using assms
proof (cases rule: adopt_cases)
  case (refused e)
  with assms tracker_inv_nth [OF assms(1,2)] show ?thesis by (auto intro: set_context_inv stale_ok)
qed (use assms adopted_inv in auto)

lemma run_inv: "tracker_run s log t \<Longrightarrow> tracker_inv s \<Longrightarrow> tracker_inv t"
  by (induction rule: tracker_run.induct)
    (auto intro: begin_change_inv write_draft_inv prepare_inv abort_change_inv abort_prepared_inv adopt_inv)

text \<open>Every operation but adoption leaves value and revision.\<close>

lemma frame_value:
  "begin_change t = (r, u) \<Longrightarrow> trk_value u = trk_value t \<and> trk_revision u = trk_revision t"
  "write_draft i ops t = (q, u) \<Longrightarrow> trk_value u = trk_value t \<and> trk_revision u = trk_revision t"
  "prepare i t = (p, u) \<Longrightarrow> trk_value u = trk_value t \<and> trk_revision u = trk_revision t"
  "abort_change i t = (q, u) \<Longrightarrow> trk_value u = trk_value t \<and> trk_revision u = trk_revision t"
  "abort_prepared i t = (q, u) \<Longrightarrow> trk_value u = trk_value t \<and> trk_revision u = trk_revision t"
  by (auto simp: begin_change_def write_draft_def ethen_def ebind_def eff_simps assert_writable_def prepare_eq
      abort_change_eq abort_prepared_def Let_def split: if_splits)

lemma run_history:
  "tracker_run s log t \<Longrightarrow> tracker_inv s \<Longrightarrow>
     rfold batch_value log (trk_value s) = Inr (trk_value t) \<and> trk_revision t = trk_revision s + length log"
proof (induction rule: tracker_run.induct)
  case (refused s log t i owner e u)
  from refused.hyps(1) refused.prems have "tracker_inv t" by (rule run_inv)
  from this refused.hyps(2,3) show ?case
    by (cases rule: adopt_cases) (use refused in auto)
next
  case (adopted s log t i owner u)
  from adopted.hyps(1) adopted.prems have inv: "tracker_inv t" by (rule run_inv)
  from inv adopted.hyps(2,3) show ?case
  proof (cases rule: adopt_cases)
    case adopted': adopted
    with tracker_inv_nth [OF inv adopted.hyps(2)] obtain p where
      "cx_prepared (trk_contexts t ! i) = Some p" "batch_value (prep_ops p) (trk_value t) = Inr (prep_value p)"
      by (auto simp: adoptable_def context_ok_def)
    with adopted.IH adopted.prems adopted' show ?thesis by (simp add: rfold_append)
  qed simp
qed (auto dest: frame_value)


text \<open>A change of an earlier revision stays one.\<close>

lemma run_outdated:
  "tracker_run s log t \<Longrightarrow> tracker_inv s \<Longrightarrow> j < length (trk_contexts s) \<Longrightarrow>
     cx_revision (trk_contexts s ! j) < trk_revision s \<Longrightarrow>
     j < length (trk_contexts t) \<and> cx_revision (trk_contexts t ! j) < trk_revision t"
proof (induction rule: tracker_run.induct)
  case (refused s log t i owner e u)
  from run_inv [OF refused.hyps(1) refused.prems(1)] refused.hyps(2,3) show ?case
    by (cases rule: adopt_cases)
      (use refused in \<open>auto simp: set_context_def nth_list_update clear_context_def\<close>)
next
  case (adopted s log t i owner u)
  from run_inv [OF adopted.hyps(1) adopted.prems(1)] adopted.hyps(2,3) show ?case
    by (cases rule: adopt_cases)
      (use adopted adopted_nth [OF run_inv [OF adopted.hyps(1) adopted.prems(1)], of j undefined i] in auto)
next
  case (edit s log t i ops r u)
  then show ?case
    by (auto simp: write_draft_def ethen_def ebind_def eff_simps assert_writable_def Let_def set_context_def
        nth_list_update split: if_splits)
next
  case (prepares s log t i r u)
  then show ?case
    by (auto simp: prepare_eq Let_def set_context_def nth_list_update prepare_context_def clear_context_def
        split: if_splits sum.splits)
next
  case (abort s log t i r u)
  then show ?case
    by (auto simp: abort_change_eq set_context_def nth_list_update abort_handle_def abort_context_def clear_context_def)
next
  case (drop_prepared s log t i r u)
  then show ?case
    by (auto simp: abort_prepared_def eff_simps set_context_def nth_list_update abort_context_def clear_context_def)
qed (auto simp: begin_change_def nth_append)

lemma outdated_refused:
  assumes "tracker_inv t" "j < length (trk_contexts t)" "cx_revision (trk_contexts t ! j) < trk_revision t"
  shows "fst (adopt owner j t) \<noteq> Inr ()"
proof -
  obtain r u where r: "adopt owner j t = (r, u)" by (cases "adopt owner j t")
  from assms(1,2) r show ?thesis
    by (cases rule: adopt_cases) (use r assms(3) in \<open>auto simp: adoptable_def\<close>)
qed

text \<open>
  C31. The first adoption wins: once a tracker has adopted one change, every change that existed at that
  moment, the adopted one included, is refused by every later adoption, whatever happens in between.
\<close>

theorem first_adoption_wins:
  assumes "tracker_run (track owner v) log t" "i < length (trk_contexts t)" "adopt o1 i t = (Inr (), u)"
    and "tracker_run u log' w" "j < length (trk_contexts t)"
  shows "fst (adopt o2 j w) \<noteq> Inr ()"
proof -
  have inv: "tracker_inv t" using run_inv [OF assms(1) track_inv] .
  from inv assms(2,3) have u: "u = adopted_tracker t i" by (cases rule: adopt_cases) auto
  from tracker_inv_nth [OF inv assms(5)] adopted_nth [OF inv assms(5)]
  have old: "cx_revision (trk_contexts u ! j) < trk_revision u" by (simp add: u context_ok_def)
  have "tracker_inv u" using u inv adopted_inv by simp
  with run_outdated [OF assms(4) this _ old] run_inv [OF assms(4) this] assms(5) show ?thesis
    by (intro outdated_refused) (auto simp: u)
qed

section \<open>A run\<close>

definition sample_revision :: jsv where
  "sample_revision = JObj [(js ''a'', JBool True)]"

definition sample_set_op :: op where
  "sample_set_op = OpS [SStr (js ''a'')] (JBool True)"

lemma sample_batch: "batch_value [sample_set_op] (JObj []) = Inr sample_revision"
  by code_simp

definition sample_begun :: tracker where
  "sample_begun = snd (begin_change (snd (begin_change (track 7 (JObj [])))))"

definition sample_tracker :: tracker where
  "sample_tracker = snd (prepare 1 (snd (prepare 0 (snd (write_draft 0 [sample_set_op] sample_begun)))))"

lemma sample_tracker_run: "tracker_run (track 7 (JObj [])) [] sample_tracker"
proof -
  have run: "tracker_run (track 7 (JObj [])) [] sample_begun"
    unfolding sample_begun_def
    by (intro tracker_run.begin_step [OF _ prod.collapse [symmetric]] tracker_run.begin_run)
  have "length (trk_contexts sample_begun) = 2"
    by (simp add: sample_begun_def begin_change_def track_def)
  moreover have "length (trk_contexts (snd (write_draft 0 [sample_set_op] sample_begun))) = 2"
    "length (trk_contexts (snd (prepare 0 (snd (write_draft 0 [sample_set_op] sample_begun))))) = 2"
    by code_simp+
  ultimately show ?thesis
    unfolding sample_tracker_def
    by (intro tracker_run.prepares [OF _ _ prod.collapse [symmetric]] tracker_run.edit [OF _ _ prod.collapse [symmetric]] run)
      simp_all
qed

lemma sample_adopt: "adopt 7 0 sample_tracker = (Inr (), adopted_tracker sample_tracker 0)"
  "length (trk_contexts sample_tracker) = 2" "prep_ops (the (cx_prepared (trk_contexts sample_tracker ! 0))) = [sample_set_op]"
  "trk_value (adopted_tracker sample_tracker 0) = sample_revision"
  by code_simp+


theorem first_adoption_wins_witness: "fst (adopt 7 1 (adopted_tracker sample_tracker 0)) \<noteq> Inr ()"
  using first_adoption_wins [OF sample_tracker_run _ sample_adopt(1) tracker_run.begin_run, of 1 7] sample_adopt(2)
  by simp

end
