(* ===== verification/Transaction.thy ===== *)
theory Transaction
  imports Forks Tracker
begin

text \<open>
  The class \<open>Transaction\<close> of \<open>packages/durable/src/session/transaction.ts\<close> up to its settlement: the
  reads and writes that a commit callback performs.  The state is a heap of the shared objects
  (trackers, loaded documents), the storage and the document cache of the Session, and the fields of the
  transaction.  The callback awaits one operation before it starts the next, and an operation runs as
  one step; one that the callback never awaits is counted in \<open>tx_pending\<close>.  Since the mutation line is held,
  nothing but the transaction changes the storage meanwhile, and only by minting IDs.
\<close>

section \<open>State\<close>

datatype tx_error =
    TxStorage storage_error
  | TxDocument document_error
  | TxTracker tracker_error
  | TxFork fork_error
  | TxCopy copy_error
  | TransactionSettled
  | ReadAfterWrite string
  | OwnerTaskMissing int
  | OwnerTaskMoved int
  | OwnerTaskTerminal int
  | OwnerTaskAborted int
  | ConversationMissing int
  | ConversationRequired
  | TaskMissing int
  | TaskIsTerminal int
  | TaskAlreadyTerminal int
  | TerminalCandidate int
  | TaskMoved int
  | CurrentUnreadable int
  | ForkSourceUnreadable int
  | ForkSourceMismatch int
  | ForkSourceChanged int
  | ForkWhileChanging int
  | PendingOperations
  | CallbackError
  | SessionClosed
  | SessionPoisoned
  | ConversationDocumentRequired
  | EntryRequired
  | HistoryUnreadable int

text \<open>
  \<open>LoadedDocument\<close>; its tracker is an index into the trackers, and a loaded document is referred to by
  its own index, since the cache and a transaction share it.
\<close>

record loaded_document =
  ld_address :: js_string
  ld_record :: document_record
  ld_version :: int
  ld_tracker :: nat

record host =
  h_storage :: storage
  h_trackers :: "tracker list"
  h_loaded :: "loaded_document list"
  h_cache :: "js_string \<Rightarrow> nat option"

datatype task_write_kind = CreatesTask | ReplacesTask

record transaction_task =
  tt_committed :: "(tx_error + task_record option) option"
  tt_write :: "(task_write_kind \<times> task_record) option"
  tt_publication :: "int option"

datatype document_target =
    TLoaded nat
  | TCreated document_create int nat
  | TForkCopy document_create int document_point
  | TRetireOnly document_record

record document_entry =
  de_id :: js_string
  de_address :: document_address
  de_definition :: "doc_definition option"
  de_draft :: "(tx_error + unit) option"
  de_target :: "document_target option"
  de_change :: "(nat \<times> nat) option"
  de_prepared :: "prepared option"
  de_retire :: bool
  de_conversation :: "int option"

record tx_state = host +
  tx_pending :: nat
  tx_sealed :: bool
  tx_table_write :: bool
  tx_writes :: "storage_write list"
  tx_created :: "int set"
  tx_fork_conversations :: "int set"
  tx_fork_documents :: "int set"
  tx_tasks :: "(int \<times> transaction_task) list"
  tx_documents :: "document_entry list"
  tx_latest :: "js_string \<Rightarrow> nat option"

type_synonym 'a tx = "(tx_state, tx_error, 'a) proc"

definition new_transaction :: "host \<Rightarrow> tx_state" where
  "new_transaction h =
     host.extend h (tx_state.fields 0 False False [] {} {} {} [] [] (\<lambda>_. None))"

definition new_entry :: "js_string \<Rightarrow> document_address \<Rightarrow> document_entry" where
  "new_entry i address =
     \<lparr>de_id = i, de_address = address, de_definition = None, de_draft = None, de_target = None,
      de_change = None, de_prepared = None, de_retire = False, de_conversation = None\<rparr>"

definition set_entry :: "nat \<Rightarrow> (document_entry \<Rightarrow> document_entry) \<Rightarrow> unit tx" where
  "set_entry k f = pmod (\<lambda>s. s\<lparr>tx_documents := (tx_documents s)[k := f (tx_documents s ! k)]\<rparr>)"

text \<open>Pushing an entry makes it the latest one at its address.\<close>

definition push_entry :: "document_entry \<Rightarrow> nat tx" where
  "push_entry e =
     pbind (pget (\<lambda>s. length (tx_documents s))) (\<lambda>k.
     pthen (pmod (\<lambda>s. s\<lparr>tx_documents := tx_documents s @ [e], tx_latest := (tx_latest s)(de_id e \<mapsto> k)\<rparr>))
       (pret k))"

definition latest_entry :: "js_string \<Rightarrow> (nat \<times> document_entry) option tx" where
  "latest_entry i = pget (\<lambda>s. map_option (\<lambda>k. (k, tx_documents s ! k)) (tx_latest s i))"

section \<open>The storage and the heap\<close>

definition on_storage :: "(storage \<Rightarrow> storage_error + 'a) \<Rightarrow> 'a tx" where
  "on_storage f = pread (\<lambda>s. map_sum TxStorage id (f (h_storage s)))"

text \<open>A read that walks along the parents of a conversation.\<close>

definition on_history :: "(storage \<Rightarrow> (storage_error + 'a) option) \<Rightarrow> 'a tx" where
  "on_history f = (\<lambda>s. map_option (\<lambda>r. (map_sum TxStorage id r, s)) (f (h_storage s)))"

definition mint :: "int tx" where
  "mint s =
     (case mint_id (h_storage s) of
        Inl e \<Rightarrow> Some (Inl (TxStorage e), s)
      | Inr (i, st) \<Rightarrow> Some (Inr i, s\<lparr>h_storage := st\<rparr>))"

definition on_document :: "document_error + 'a \<Rightarrow> 'a tx" where
  "on_document r = pread (\<lambda>_. map_sum TxDocument id r)"

definition on_copy :: "copy_error + 'a \<Rightarrow> 'a tx" where
  "on_copy r = pread (\<lambda>_. map_sum TxCopy id r)"

definition on_tracker :: "nat \<Rightarrow> 'a tracker_op \<Rightarrow> 'a tx" where
  "on_tracker n m =
     pon (\<lambda>s. h_trackers s ! n) (\<lambda>t s. s\<lparr>h_trackers := (h_trackers s)[n := t]\<rparr>) TxTracker m"

definition new_tracker :: "jsv \<Rightarrow> nat tx" where
  "new_tracker v =
     pbind (pget (\<lambda>s. length (h_trackers s))) (\<lambda>n.
     pthen (pmod (\<lambda>s. s\<lparr>h_trackers := h_trackers s @ [track n v]\<rparr>)) (pret n))"

definition install :: "loaded_document \<Rightarrow> nat tx" where
  "install d =
     pbind (pget (\<lambda>s. length (h_loaded s))) (\<lambda>n.
     pthen (pmod (\<lambda>s. s\<lparr>h_loaded := h_loaded s @ [d], h_cache := (h_cache s)(ld_address d \<mapsto> n)\<rparr>)) (pret n))"

text \<open>\<open>evict\<close>: only the occupant that is meant.\<close>

definition evict :: "js_string \<Rightarrow> int \<Rightarrow> unit tx" where
  "evict i record_id =
     pmod (\<lambda>s. case h_cache s i of
         None \<Rightarrow> s
       | Some n \<Rightarrow> if doc_id (ld_record (h_loaded s ! n)) = record_id then s\<lparr>h_cache := (h_cache s)(i := None)\<rparr> else s)"

text \<open>The Session's \<open>load\<close>: the cached document, or a cold load that migrates the value in memory.\<close>

definition load :: "doc_definition \<Rightarrow> js_string \<Rightarrow> document_address \<Rightarrow> nat option tx" where
  "load d i address =
     pbind (pget (\<lambda>s. h_cache s i)) (\<lambda>cached.
       case cached of
         Some n \<Rightarrow> pret (Some n)
       | None \<Rightarrow>
           pbind (on_storage (\<lambda>st. find_document st address Current)) (\<lambda>record.
           case record of
             None \<Rightarrow> pret None
           | Some r \<Rightarrow>
               pbind (on_storage (\<lambda>st. read_document st (doc_id r) Current)) (\<lambda>stored.
               case stored of
                 None \<Rightarrow> pthrow (CurrentUnreadable (doc_id r))
               | Some sd \<Rightarrow>
                   pbind (on_document (materialize_stored d sd)) (\<lambda>value.
                   pbind (new_tracker value) (\<lambda>n.
                   pbind (install \<lparr>ld_address = i, ld_record = stored_record sd,
                            ld_version = stored_version sd, ld_tracker = n\<rparr>) (\<lambda>l.
                   pret (Some l)))))))"

section \<open>Guards\<close>

definition assert_tx_open :: "unit tx" where
  "assert_tx_open = pread (\<lambda>s. rguard (\<not> tx_sealed s) TransactionSettled)"

definition tx_read :: "string \<Rightarrow> 'a tx \<Rightarrow> 'a tx" where
  "tx_read name m =
     pthen assert_tx_open (pthen (pread (\<lambda>s. rguard (\<not> tx_table_write s) (ReadAfterWrite name))) m)"

definition tx_write :: "'a tx \<Rightarrow> 'a tx" where
  "tx_write m = pthen assert_tx_open (pthen (pmod (\<lambda>s. s\<lparr>tx_table_write := True\<rparr>)) m)"

text \<open>An operation that is tracked and has not settled when the callback does.\<close>

definition unawaited :: "unit tx" where
  "unawaited = pthen assert_tx_open (pmod (\<lambda>s. s\<lparr>tx_pending := tx_pending s + 1\<rparr>))"

definition new_task :: transaction_task where
  "new_task = \<lparr>tt_committed = None, tt_write = None, tt_publication = None\<rparr>"

definition task_of :: "int \<Rightarrow> tx_state \<Rightarrow> transaction_task" where
  "task_of i s = (case map_of (tx_tasks s) i of None \<Rightarrow> new_task | Some t \<Rightarrow> t)"

text \<open>\<open>taskEntry\<close> inserts an empty entry for a new task; the map keeps the order of insertion.\<close>

definition set_task_entry :: "int \<Rightarrow> (transaction_task \<Rightarrow> transaction_task) \<Rightarrow> unit tx" where
  "set_task_entry i f = pmod (\<lambda>s. s\<lparr>tx_tasks := AList.update i (f (task_of i s)) (tx_tasks s)\<rparr>)"

definition candidate :: "int \<Rightarrow> tx_state \<Rightarrow> task_record option" where
  "candidate i s = map_option snd (tt_write (task_of i s))"

definition committed_task :: "int \<Rightarrow> task_record option tx" where
  "committed_task i =
     pthen (set_task_entry i (\<lambda>t. t))
     (pbind (pget (\<lambda>s. (tt_committed (task_of i s), map_sum TxStorage id (read_task (h_storage s) i)))) (\<lambda>(memo, fresh).
       case memo of
         Some r \<Rightarrow> pread (\<lambda>_. r)
       | None \<Rightarrow> pthen (set_task_entry i (\<lambda>t. t\<lparr>tt_committed := Some fresh\<rparr>)) (pread (\<lambda>_. fresh))))"

definition current_task :: "int \<Rightarrow> task_record option tx" where
  "current_task i =
     pbind (pget (candidate i)) (\<lambda>c. case c of Some r \<Rightarrow> pret (Some r) | None \<Rightarrow> committed_task i)"

definition require_conversation :: "int \<Rightarrow> unit tx" where
  "require_conversation c =
     pbind (pget tx_created) (\<lambda>created.
       if c \<in> created then pret ()
       else pbind (on_storage (\<lambda>st. read_conversation st c)) (\<lambda>r.
         if r = None then pthrow (ConversationMissing c) else pret ()))"

definition assert_task_documents_open :: "document_address \<Rightarrow> unit tx" where
  "assert_task_documents_open a =
     (case addr_scope a of
        TaskScope t \<Rightarrow>
          pread (\<lambda>s. rguard (map_option stored_status (candidate t s) \<noteq> Some StatusTerminal) (TaskIsTerminal t))
      | _ \<Rightarrow> pret ())"

section \<open>Table reads\<close>

definition tx_conversation :: "int \<Rightarrow> conversation_record option tx" where
  "tx_conversation i = tx_read ''conversation'' (on_storage (\<lambda>st. read_conversation st i))"

definition tx_entry :: "int \<Rightarrow> entry_record option tx" where
  "tx_entry i = tx_read ''entry'' (on_storage (\<lambda>st. rbind (read_entry st i) (\<lambda>r. Inr (map_option fst r))))"

definition tx_task :: "int \<Rightarrow> task_record option tx" where
  "tx_task i = tx_read ''task'' (committed_task i)"

definition tx_scan_conversations :: "conversation_query \<Rightarrow> nat \<Rightarrow> props option \<Rightarrow> conversation_record page tx" where
  "tx_scan_conversations q limit cursor =
     tx_read ''scanConversations'' (on_storage (\<lambda>st. MemoryStorage.scan_conversations st q limit cursor))"

definition tx_scan_entries :: "entry_query \<Rightarrow> nat \<Rightarrow> props option \<Rightarrow> entry_record page tx" where
  "tx_scan_entries q limit cursor =
     tx_read ''scanEntries'' (on_history (\<lambda>st. MemoryStorage.scan_entries st q limit cursor))"

definition tx_scan_tasks :: "task_query \<Rightarrow> nat \<Rightarrow> props option \<Rightarrow> task_record page tx" where
  "tx_scan_tasks q limit cursor =
     tx_read ''scanTasks'' (on_storage (\<lambda>st. MemoryStorage.scan_tasks st q limit cursor))"

section \<open>Table writes\<close>

datatype ownership = Ownerless | OwnedByTask int

definition fork_copies :: "parent_edge \<Rightarrow> int \<Rightarrow> fork_copy list tx" where
  "fork_copies parent child s =
     (case prepare_fork_copies (parent_conversation parent) (parent_at parent) child (fork_start (h_storage s)) of
        None \<Rightarrow> None
      | Some (r, fs) \<Rightarrow> Some (map_sum TxFork id r, s\<lparr>h_storage := fs_storage fs\<rparr>))"

definition stage_copy :: "fork_copy \<Rightarrow> unit tx" where
  "stage_copy c =
     pthen (pmod (\<lambda>s. s\<lparr>tx_fork_documents := insert (copy_source c) (tx_fork_documents s)\<rparr>))
     (pthen (push_entry ((new_entry (address_id (record_address (copy_record c))) (record_address (copy_record c)))
               \<lparr>de_target := Some (TForkCopy (copy_record c) (copy_source c) (copy_at c))\<rparr>))
       (pret ()))"

definition stage_owner :: "ownership \<Rightarrow> owner_edge option tx" where
  "stage_owner ownership =
     (case ownership of
        Ownerless \<Rightarrow> pret None
      | OwnedByTask t \<Rightarrow>
          pbind (current_task t) (\<lambda>task.
          pthen assert_tx_open
            (case task of
               None \<Rightarrow> pthrow (OwnerTaskMissing t)
             | Some r \<Rightarrow> pret (Some \<lparr>owner_conversation = task_conversation r, owner_task = t\<rparr>))))"

definition stage_conversation :: "parent_edge option \<Rightarrow> ownership \<Rightarrow> conversation_record tx" where
  "stage_conversation parent ownership =
     pbind mint (\<lambda>i.
     pthen assert_tx_open
     (pbind (stage_owner ownership) (\<lambda>owner.
      let record = \<lparr>conv_id = i, conv_parent = parent, conv_owner = owner\<rparr> in
      pbind (case parent of None \<Rightarrow> pret [] | Some p \<Rightarrow> fork_copies p i) (\<lambda>copies.
      pthen assert_tx_open
      (pthen (peach stage_copy copies)
      (pthen (pmod (\<lambda>s. s\<lparr>
          tx_fork_conversations := (case parent of None \<Rightarrow> {} | Some p \<Rightarrow> {parent_conversation p}) \<union> tx_fork_conversations s,
          tx_created := insert i (tx_created s),
          tx_writes := tx_writes s @ [WConversation record]\<rparr>))
        (pret record)))))))"

definition create_conversation :: "ownership \<Rightarrow> conversation_record tx" where
  "create_conversation ownership = tx_write (stage_conversation None ownership)"

definition fork_conversation :: "int \<Rightarrow> int \<Rightarrow> ownership \<Rightarrow> conversation_record tx" where
  "fork_conversation parent at ownership =
     tx_write (stage_conversation (Some \<lparr>parent_conversation = parent, parent_at = at\<rparr>) ownership)"

text \<open>
  \<open>copyJson\<close> of a typed record copies its JSON fields; an undefined field is omitted.
\<close>

definition copy_field :: "jsv \<Rightarrow> copy_error + jsv" where
  "copy_field v = (if v = JUndef then Inr JUndef else copy_json True v)"

definition copy_option :: "jsv option \<Rightarrow> copy_error + jsv option" where
  "copy_option v =
     (case v of None \<Rightarrow> Inr None | Some x \<Rightarrow> if x = JUndef then Inr None else map_sum id Some (copy_json True x))"

datatype head_draft = HeadSelf | HeadEntry int

record entry_draft =
  ed_kind :: js_string
  ed_model :: "jsv option"
  ed_data :: "jsv option"
  ed_head :: "head_draft option"
  ed_edits :: "context_edit list option"

definition copy_edit :: "context_edit \<Rightarrow> copy_error + context_edit" where
  "copy_edit e =
     (case e of
        EditOmit t \<Rightarrow> Inr (EditOmit t)
      | EditReplace t messages \<Rightarrow> map_sum id (EditReplace t) (copy_json True messages))"

definition entry_of_draft :: "entry_draft \<Rightarrow> int \<Rightarrow> int \<Rightarrow> copy_error + entry_record" where
  "entry_of_draft d i c =
     rbind (copy_option (ed_model d)) (\<lambda>model.
     rbind (copy_option (ed_data d)) (\<lambda>data.
     rbind (case ed_edits d of None \<Rightarrow> Inr None | Some es \<Rightarrow> map_sum id Some (rmap copy_edit es)) (\<lambda>edits.
       Inr \<lparr>ent_id = i, ent_conversation = c, ent_kind = ed_kind d, ent_model = model, ent_data = data,
            ent_head = (case ed_head d of None \<Rightarrow> None | Some HeadSelf \<Rightarrow> Some i | Some (HeadEntry h) \<Rightarrow> Some h),
            ent_edits = edits, ent_task = None\<rparr>)))"

definition append_entry :: "int \<Rightarrow> entry_draft \<Rightarrow> entry_record tx" where
  "append_entry c d =
     tx_write
       (pthen (require_conversation c)
       (pthen assert_tx_open
       (pbind mint (\<lambda>i.
        pthen assert_tx_open
       (pbind (on_copy (entry_of_draft d i c)) (\<lambda>record.
        pthen (pmod (\<lambda>s. s\<lparr>tx_writes := tx_writes s @ [WEntry record]\<rparr>)) (pret record)))))))"

record task_definition =
  td_name :: js_string
  td_version :: int
  td_initial :: "jsv \<Rightarrow> jsv option"

record task_options =
  to_conversation :: "int option"
  to_after :: "int list option"
  to_background :: "bool option"

definition copy_outcome :: "task_outcome \<Rightarrow> copy_error + task_outcome" where
  "copy_outcome r =
     (let copy_error_detail = (\<lambda>e. map_sum id (\<lambda>d. e\<lparr>outcome_detail := d\<rparr>) (copy_option (outcome_detail e))) in
      case r of
        Completed v \<Rightarrow> map_sum id Completed (copy_field v)
      | FailedWith e v \<Rightarrow> rbind (copy_error_detail e) (\<lambda>e. map_sum id (FailedWith e) (copy_option v))
      | Aborted reason v \<Rightarrow> map_sum id (Aborted reason) (copy_option v)
      | Orphaned reason \<Rightarrow> Inr (Orphaned reason)
      | Faulted e \<Rightarrow> map_sum id Faulted (copy_error_detail e))"

definition copy_state :: "task_state \<Rightarrow> copy_error + task_state" where
  "copy_state t =
     (case t of
        PendingAt c \<Rightarrow> map_sum id PendingAt (copy_field c)
      | RunningAt c \<Rightarrow> map_sum id RunningAt (copy_field c)
      | TerminalWith r \<Rightarrow> map_sum id TerminalWith (copy_outcome r))"

definition copy_memos :: "props option \<Rightarrow> copy_error + props option" where
  "copy_memos m =
     (case m of
        None \<Rightarrow> Inr None
      | Some ps \<Rightarrow> map_sum id (\<lambda>v. case v of JObj qs \<Rightarrow> Some qs | _ \<Rightarrow> None) (copy_json True (JObj ps)))"

definition copy_task :: "task_record \<Rightarrow> copy_error + task_record" where
  "copy_task t =
     rbind (copy_field (task_input t)) (\<lambda>input.
     rbind (copy_state (task_state t)) (\<lambda>st.
     rbind (copy_memos (task_memos t)) (\<lambda>memos.
       Inr (t\<lparr>task_input := input, task_state := st, task_memos := memos\<rparr>))))"

definition create_task :: "task_definition \<Rightarrow> jsv \<Rightarrow> task_options \<Rightarrow> int tx" where
  "create_task d input options =
     tx_write
       (case to_conversation options of
          None \<Rightarrow> pthrow ConversationRequired
        | Some c \<Rightarrow>
            pthen (require_conversation c)
            (pthen assert_tx_open
              (case td_initial d input of
                 None \<Rightarrow> pthrow CallbackError
               | Some checkpoint \<Rightarrow>
                   pbind mint (\<lambda>i.
                   pthen assert_tx_open
                   (pbind (on_copy (copy_task
                       \<lparr>task_id = i, task_conversation = c, task_kind = td_name d, task_version = td_version d,
                        task_input = input,
                        task_after = (case to_after options of None \<Rightarrow> [] | Some a \<Rightarrow> a),
                        task_background = (case to_background options of None \<Rightarrow> False | Some b \<Rightarrow> b),
                        task_abort = False, task_state = PendingAt checkpoint, task_memos = None\<rparr>)) (\<lambda>record.
                    pthen (set_task_entry i (\<lambda>_. new_task\<lparr>tt_write := Some (CreatesTask, record)\<rparr>))
                      (pret i)))))))"

definition set_task :: "task_record \<Rightarrow> unit tx" where
  "set_task t =
     pthen assert_tx_open
     (pthen (pmod (\<lambda>s. s\<lparr>tx_table_write := True\<rparr>))
     (pthen (set_task_entry (task_id t) (\<lambda>x. x))
     (pthen (pread (\<lambda>s. rguard (map_option stored_status (candidate (task_id t) s) \<noteq> Some StatusTerminal)
               (TerminalCandidate (task_id t))))
     (pthen (pread (\<lambda>s. case candidate (task_id t) s of
                None \<Rightarrow> Inr ()
              | Some c \<Rightarrow> rguard (task_conversation c = task_conversation t) (TaskMoved (task_id t))))
     (pbind (on_copy (copy_task t)) (\<lambda>record.
      set_task_entry (task_id t) (\<lambda>x. x\<lparr>tt_write := Some
        (if map_option fst (tt_write x) = Some CreatesTask then CreatesTask else ReplacesTask, record)\<rparr>)))))))"

section \<open>Documents\<close>

text \<open>Beginning the change of an acquired target.\<close>

definition begin_on :: "nat \<Rightarrow> nat \<Rightarrow> unit tx" where
  "begin_on k n =
     pbind (on_tracker n begin_change) (\<lambda>c. set_entry k (\<lambda>e. e\<lparr>de_change := Some (n, c)\<rparr>))"

definition acquire_loaded :: "nat \<Rightarrow> doc_definition \<Rightarrow> nat \<Rightarrow> unit tx" where
  "acquire_loaded k d l =
     pbind (pget (\<lambda>s. h_loaded s ! l)) (\<lambda>loaded.
     pthen (on_document (check_record_scope d (ld_record loaded)))
     (pthen (on_document (check_record_version d (ld_record loaded) (ld_version loaded)))
     (pthen (set_entry k (\<lambda>e. e\<lparr>de_target := Some (TLoaded l)\<rparr>))
       (begin_on k (ld_tracker loaded)))))"

definition require_owner :: "document_address \<Rightarrow> unit tx" where
  "require_owner a =
     (case addr_scope a of
        SessionScope \<Rightarrow> pret ()
      | ConversationScope c \<Rightarrow> require_conversation c
      | TaskScope t \<Rightarrow>
          pbind (current_task t) (\<lambda>task.
            case task of
              None \<Rightarrow> pthrow (TaskMissing t)
            | Some r \<Rightarrow> if stored_status r = StatusTerminal then pthrow (TaskIsTerminal t) else pret ()))"

definition acquire_new :: "nat \<Rightarrow> doc_definition \<Rightarrow> document_address \<Rightarrow> jsv \<Rightarrow> unit tx" where
  "acquire_new k d address seed =
     pthen (require_owner address)
     (pthen assert_tx_open
       (case def_initial d (if def_family d then seed else JUndef) of
          None \<Rightarrow> pthrow CallbackError
        | Some initial \<Rightarrow>
            pbind (on_copy (copy_json False initial)) (\<lambda>value.
            pbind mint (\<lambda>i.
            pthen assert_tx_open
            (pbind (new_tracker value) (\<lambda>n.
             pthen (set_entry k (\<lambda>e. e\<lparr>de_target := Some (TCreated (make_create d address i) (version_of d) n)\<rparr>))
               (begin_on k n)))))))"

definition acquire :: "nat \<Rightarrow> doc_definition \<Rightarrow> resolved_address \<Rightarrow> jsv \<Rightarrow> bool \<Rightarrow> unit tx" where
  "acquire k d r seed skip_load =
     pbind (if skip_load then pret None else load d (res_id r) (res_address r)) (\<lambda>loaded.
     pthen assert_tx_open
       (case loaded of
          Some l \<Rightarrow> acquire_loaded k d l
        | None \<Rightarrow> acquire_new k d (res_address r) seed))"

definition acquire_fork_copy :: "nat \<Rightarrow> doc_definition \<Rightarrow> document_create \<Rightarrow> int \<Rightarrow> document_point \<Rightarrow> unit tx" where
  "acquire_fork_copy k d record source at =
     pbind (on_storage (\<lambda>st. read_document st source at)) (\<lambda>stored.
     pthen assert_tx_open
       (case stored of
          None \<Rightarrow> pthrow (ForkSourceUnreadable source)
        | Some sd \<Rightarrow>
            (let r = stored_record sd in
             if \<not> is_conversation_scope (doc_scope r) \<or> doc_kind r \<noteq> doc_kind record \<or>
                doc_key r \<noteq> doc_key record \<or> doc_history r \<noteq> doc_history record \<or> doc_fork r \<noteq> doc_fork record
             then pthrow (ForkSourceMismatch source)
             else pbind (on_document (materialize_value d record (stored_version sd) (stored_value sd))) (\<lambda>value.
                  pbind (new_tracker value) (\<lambda>n.
                  pthen (set_entry k (\<lambda>e. e\<lparr>de_definition := Some d,
                           de_target := Some (TCreated record (version_of d) n)\<rparr>))
                    (begin_on k n))))))"

text \<open>The promise of an acquisition keeps its result, which every later use of the entry shares.\<close>

definition remember_draft :: "nat \<Rightarrow> unit tx \<Rightarrow> nat tx" where
  "remember_draft k m s =
     (case m s of
        None \<Rightarrow> None
      | Some (r, t) \<Rightarrow> pthen (set_entry k (\<lambda>e. e\<lparr>de_draft := Some r\<rparr>)) (pread (\<lambda>_. map_sum id (\<lambda>_. k) r)) t)"

definition doc_seed :: "doc_definition \<Rightarrow> jsv list \<Rightarrow> nat \<Rightarrow> jsv tx" where
  "doc_seed d args i = (if def_family d then on_copy (copy_json False (argument args i)) else pret JUndef)"

text \<open>\<open>doc\<close> returns the index of the entry whose change holds the draft.\<close>

definition fresh_doc :: "doc_definition \<Rightarrow> jsv list \<Rightarrow> resolved_address \<Rightarrow> bool \<Rightarrow> nat tx" where
  "fresh_doc d args r skip_load =
     pbind (doc_seed d args (res_next r)) (\<lambda>seed.
     pbind (push_entry ((new_entry (res_id r) (res_address r))\<lparr>de_definition := Some d\<rparr>)) (\<lambda>k.
       remember_draft k (acquire k d r seed skip_load)))"

definition doc :: "doc_definition \<Rightarrow> jsv list \<Rightarrow> nat tx" where
  "doc d args =
     pthen assert_tx_open
     (pbind (on_document (resolve_address d args)) (\<lambda>r.
      pthen (assert_task_documents_open (res_address r))
     (pbind (latest_entry (res_id r)) (\<lambda>latest.
        case latest of
          None \<Rightarrow> fresh_doc d args r False
        | Some (k, e) \<Rightarrow>
            if de_retire e then fresh_doc d args r True
            else (case de_draft e of
                    Some x \<Rightarrow> pread (\<lambda>_. map_sum id (\<lambda>_. k) x)
                  | None \<Rightarrow>
                      (case de_target e of
                         Some (TForkCopy record source at) \<Rightarrow>
                           remember_draft k (acquire_fork_copy k d record source at)
                       | _ \<Rightarrow> fresh_doc d args r False))))))"

definition find_retirement :: "nat \<Rightarrow> doc_definition \<Rightarrow> resolved_address \<Rightarrow> unit tx" where
  "find_retirement k d r =
     pbind (pget (\<lambda>s. map_option (\<lambda>n. ld_record (h_loaded s ! n)) (h_cache s (res_id r)))) (\<lambda>cached.
     pbind (case cached of
              Some x \<Rightarrow> pret (Some x)
            | None \<Rightarrow> on_storage (\<lambda>st. find_document st (res_address r) Current)) (\<lambda>record.
     pthen assert_tx_open
       (case record of
          None \<Rightarrow> pret ()
        | Some x \<Rightarrow>
            pthen (on_document (check_record_scope d x))
              (set_entry k (\<lambda>e. e\<lparr>de_target := Some (TRetireOnly x)\<rparr>)))))"

definition mark_retired :: "nat \<Rightarrow> unit tx" where
  "mark_retired k = set_entry k (\<lambda>e. e\<lparr>de_retire := True\<rparr>)"

definition retire_unacquired :: "doc_definition \<Rightarrow> resolved_address \<Rightarrow> unit tx" where
  "retire_unacquired d r =
     pbind (push_entry ((new_entry (res_id r) (res_address r))\<lparr>de_definition := Some d, de_retire := True\<rparr>)) (\<lambda>k.
       find_retirement k d r)"

definition retire_doc :: "doc_definition \<Rightarrow> jsv list \<Rightarrow> unit tx" where
  "retire_doc d args =
     pthen assert_tx_open
     (pbind (on_document (resolve_address d args)) (\<lambda>r.
      pbind (latest_entry (res_id r)) (\<lambda>latest.
        case latest of
          None \<Rightarrow> retire_unacquired d r
        | Some (k, e) \<Rightarrow>
            if de_retire e then pret ()
            else (case de_target e of
                    Some (TForkCopy record source at) \<Rightarrow>
                      pthen (on_document (check_record_scope d record)) (mark_retired k)
                  | _ \<Rightarrow>
                      (case de_draft e of
                         Some x \<Rightarrow> pthen (mark_retired k) (pread (\<lambda>_. x))
                       | None \<Rightarrow> retire_unacquired d r)))))"

text \<open>A write to the draft of entry \<open>k\<close>, as the operations that the overlay emits for it.\<close>

definition edit_draft :: "nat \<Rightarrow> op list \<Rightarrow> unit tx" where
  "edit_draft k ops =
     pbind (pget (\<lambda>s. de_change (tx_documents s ! k))) (\<lambda>change.
       case change of
         None \<Rightarrow> pthrow (TxTracker SettledOverlay)
       | Some (n, c) \<Rightarrow> on_tracker n (write_draft c ops))"

end
