(* ===== verification/Settlement.thy ===== *)
theory Settlement
  imports Transaction
begin

text \<open>
  The settlement of a \<open>Transaction\<close> (\<open>packages/durable/src/session/transaction.ts\<close>): preparing the open
  changes, validating and assembling the batch of storage writes, and, after the storage has accepted it,
  adopting the changes and describing them for publication.
\<close>

section \<open>Aborting and preparing\<close>

definition entry_indexes :: "tx_state \<Rightarrow> nat list" where
  "entry_indexes s = [0..<length (tx_documents s)]"

definition abort_entry :: "nat \<Rightarrow> unit tx" where
  "abort_entry k =
     pbind (pget (\<lambda>s. de_change (tx_documents s ! k))) (\<lambda>change.
       case change of None \<Rightarrow> pret () | Some (n, c) \<Rightarrow> on_tracker n (abort_change c))"

definition abort_changes :: "unit tx" where
  "abort_changes = pbind (pget entry_indexes) (peach abort_entry)"

definition prepare_entry :: "nat \<Rightarrow> unit tx" where
  "prepare_entry k =
     pbind (pget (\<lambda>s. de_change (tx_documents s ! k))) (\<lambda>change.
       case change of
         None \<Rightarrow> pret ()
       | Some (n, c) \<Rightarrow>
           pbind (on_tracker n (prepare c)) (\<lambda>p. set_entry k (\<lambda>e. e\<lparr>de_prepared := Some p\<rparr>)))"

definition seal :: "unit tx" where
  "seal = pmod (\<lambda>s. s\<lparr>tx_sealed := True\<rparr>)"

text \<open>Draining the unfinished operations settles them.\<close>

definition drain :: "unit tx" where
  "drain = pmod (\<lambda>s. s\<lparr>tx_pending := 0\<rparr>)"

definition settle_failure :: "unit tx" where
  "settle_failure = pthen seal (pthen abort_changes drain)"

section \<open>Validation\<close>

definition entry_version :: "document_entry \<Rightarrow> int" where
  "entry_version e = version_of (the (de_definition e))"

definition entry_ops :: "document_entry \<Rightarrow> op list" where
  "entry_ops e = prep_ops (the (de_prepared e))"

definition upgrades :: "tx_state \<Rightarrow> nat \<Rightarrow> document_entry \<Rightarrow> bool" where
  "upgrades s l e \<longleftrightarrow> ld_version (h_loaded s ! l) < entry_version e"

text \<open>Whether the entry will write, and the record it writes.\<close>

definition entry_writes :: "tx_state \<Rightarrow> document_entry \<Rightarrow> document_target \<Rightarrow> bool" where
  "entry_writes s e target =
     (case target of
        TLoaded l \<Rightarrow> de_retire e \<or> upgrades s l e \<or> entry_ops e \<noteq> []
      | _ \<Rightarrow> True)"

definition target_record :: "tx_state \<Rightarrow> document_target \<Rightarrow> document_create" where
  "target_record s target =
     (case target of
        TLoaded l \<Rightarrow> document_create.truncate (ld_record (h_loaded s ! l))
      | TCreated r v n \<Rightarrow> r
      | TForkCopy r i at \<Rightarrow> r
      | TRetireOnly r \<Rightarrow> document_create.truncate r)"

definition reject_fork_source_write :: "document_entry \<Rightarrow> unit tx" where
  "reject_fork_source_write e =
     (case de_target e of
        None \<Rightarrow> pret ()
      | Some target \<Rightarrow>
          pread (\<lambda>s.
            if \<not> entry_writes s e target then Inr ()
            else (let r = target_record s target in
              if doc_id r \<in> tx_fork_documents s then Inl (ForkSourceChanged (doc_id r))
              else (case addr_scope (de_address e) of
                      ConversationScope c \<Rightarrow>
                        rguard (\<not> (c \<in> tx_fork_conversations s \<and> is_conversation_scope (doc_scope r) \<and>
                                   doc_fork r = Some ForkCurrent)) (ForkWhileChanging c)
                    | _ \<Rightarrow> Inr ()))))"

definition reject_fork_source_writes :: "unit tx" where
  "reject_fork_source_writes = pbind (pget tx_documents) (peach reject_fork_source_write)"

definition validate_owner :: "storage_write \<Rightarrow> unit tx" where
  "validate_owner w =
     (case w of
        WConversation c \<Rightarrow>
          (case conv_owner c of
             None \<Rightarrow> pret ()
           | Some owner \<Rightarrow>
               pbind (current_task (owner_task owner)) (\<lambda>task.
                 case task of
                   None \<Rightarrow> pthrow (OwnerTaskMissing (owner_task owner))
                 | Some t \<Rightarrow>
                     if task_conversation t \<noteq> owner_conversation owner then pthrow (OwnerTaskMoved (owner_task owner))
                     else if stored_status t = StatusTerminal then pthrow (OwnerTaskTerminal (owner_task owner))
                     else if task_abort t then pthrow (OwnerTaskAborted (owner_task owner))
                     else pret ()))
      | _ \<Rightarrow> pret ())"

definition validate_conversation_owners :: "unit tx" where
  "validate_conversation_owners = pbind (pget tx_writes) (peach validate_owner)"

definition validate_task :: "int \<times> transaction_task \<Rightarrow> unit tx" where
  "validate_task p =
     (case p of
        (i, task) \<Rightarrow>
          (case tt_write task of
             Some (ReplacesTask, record) \<Rightarrow>
               pbind (committed_task i) (\<lambda>committed.
                 case committed of
                   None \<Rightarrow> pthrow (TaskMissing i)
                 | Some c \<Rightarrow>
                     if stored_status c = StatusTerminal then pthrow (TaskAlreadyTerminal i)
                     else if task_conversation c \<noteq> task_conversation record then pthrow (TaskMoved i)
                     else pret ())
           | _ \<Rightarrow> pret ()))"

definition validate_tasks :: "unit tx" where
  "validate_tasks = pbind (pget tx_tasks) (peach validate_task)"

section \<open>Retiring the documents of settled tasks\<close>

text \<open>The tasks that the transaction settles, in the order of the map.\<close>

definition terminal_tasks :: "tx_state \<Rightarrow> int list" where
  "terminal_tasks s = List.map_filter (\<lambda>(i, task). case tt_write task of
       Some (k, t) \<Rightarrow> if stored_status t = StatusTerminal then Some (task_id t) else None
     | None \<Rightarrow> None) (tx_tasks s)"

definition task_scoped :: "int list \<Rightarrow> document_address \<Rightarrow> bool" where
  "task_scoped ids a = (case addr_scope a of TaskScope t \<Rightarrow> t \<in> set ids | _ \<Rightarrow> False)"

definition targeted_id :: "tx_state \<Rightarrow> document_entry \<Rightarrow> int option" where
  "targeted_id s e =
     (case de_target e of
        Some (TLoaded l) \<Rightarrow> Some (doc_id (ld_record (h_loaded s ! l)))
      | Some (TCreated r v n) \<Rightarrow> Some (doc_id r)
      | Some (TRetireOnly r) \<Rightarrow> Some (doc_id r)
      | _ \<Rightarrow> None)"

definition mark_task_documents :: "int list \<Rightarrow> unit tx" where
  "mark_task_documents ids =
     pmod (\<lambda>s. s\<lparr>tx_documents := map (\<lambda>e. if task_scoped ids (de_address e) then e\<lparr>de_retire := True\<rparr> else e) (tx_documents s)\<rparr>)"

text \<open>
  The state of the scan: the transaction and the set of targeted document IDs, which grows as
  retirement entries are added.
\<close>

record retire_scan =
  rs_state :: tx_state
  rs_targeted :: "int set"

definition retire_found :: "document_record \<Rightarrow> (retire_scan, tx_error, unit) proc" where
  "retire_found r =
     pmod (\<lambda>x. if doc_id r \<in> rs_targeted x then x
       else x\<lparr>rs_state := (rs_state x)\<lparr>tx_documents := tx_documents (rs_state x) @
                [(new_entry (address_id (record_address r)) (record_address r))
                   \<lparr>de_target := Some (TRetireOnly r), de_retire := True\<rparr>]\<rparr>,
              rs_targeted := insert (doc_id r) (rs_targeted x)\<rparr>)"

definition retire_task_documents :: "int \<Rightarrow> (retire_scan, tx_error, unit) proc" where
  "retire_task_documents t =
     pbind (pget (\<lambda>x. map_option fst (tt_write (task_of t (rs_state x))))) (\<lambda>kind.
       if kind = Some CreatesTask then pret ()
       else for_pages (\<lambda>x. h_storage (rs_state x)) TxStorage
              \<lparr>dq_scope = TaskScope t, dq_at = Current, dq_kind = None\<rparr> retire_found None)"

definition retire_settled_tasks :: "unit tx" where
  "retire_settled_tasks s =
     (let ids = terminal_tasks s in
      if ids = [] then Some (Inr (), s)
      else pthen (mark_task_documents ids) (\<lambda>s.
        map_option (\<lambda>(r, x). (r, rs_state x))
          (peach retire_task_documents (rev (remdups (rev ids)))
            \<lparr>rs_state = s,
             rs_targeted = set (List.map_filter (\<lambda>e.
               if task_scoped ids (de_address e) then targeted_id s e else None) (tx_documents s))\<rparr>)) s)"

section \<open>Ownership of the publications\<close>

definition publication_owner :: "int \<Rightarrow> int option tx" where
  "publication_owner t =
     pthen (set_task_entry t (\<lambda>x. x))
     (pbind (pget (\<lambda>s. tt_publication (task_of t s))) (\<lambda>known.
        case known of
          Some c \<Rightarrow> pret (Some c)
        | None \<Rightarrow>
            pbind (current_task t) (\<lambda>task.
              case task of
                None \<Rightarrow> pret None
              | Some r \<Rightarrow>
                  pthen (set_task_entry t (\<lambda>x. x\<lparr>tt_publication := Some (task_conversation r)\<rparr>))
                    (pret (Some (task_conversation r))))))"

definition unchanged :: "document_entry \<Rightarrow> document_target \<Rightarrow> bool" where
  "unchanged e target = (case target of TLoaded l \<Rightarrow> \<not> de_retire e \<and> entry_ops e = [] | _ \<Rightarrow> False)"

definition resolve_owner :: "nat \<Rightarrow> unit tx" where
  "resolve_owner k =
     pbind (pget (\<lambda>s. tx_documents s ! k)) (\<lambda>e.
       case de_target e of
         None \<Rightarrow> pret ()
       | Some target \<Rightarrow>
           if unchanged e target then pret ()
           else (case addr_scope (de_address e) of
                   SessionScope \<Rightarrow> pret ()
                 | ConversationScope c \<Rightarrow> set_entry k (\<lambda>e. e\<lparr>de_conversation := Some c\<rparr>)
                 | TaskScope t \<Rightarrow>
                     pbind (publication_owner t) (\<lambda>owner. set_entry k (\<lambda>e. e\<lparr>de_conversation := owner\<rparr>))))"

section \<open>The batch\<close>

definition retire_write :: "document_entry \<Rightarrow> int \<Rightarrow> storage_write list" where
  "retire_write e i = (if de_retire e then [WDocRetire i] else [])"

text \<open>The writes of one entry; \<open>checkpointWhen\<close> is asked only for a change of the current version.\<close>

definition change_write :: "tx_state \<Rightarrow> document_entry \<Rightarrow> nat \<Rightarrow> tx_error + storage_write list" where
  "change_write s e l =
     (let i = doc_id (ld_record (h_loaded s ! l)); p = the (de_prepared e); v = entry_version e;
          base = WDocChange i (BaseContent v (prep_value p)); delta = WDocChange i (DeltaContent v (prep_ops p))
      in if upgrades s l e then Inr [base]
         else if prep_ops p = [] then Inr []
         else (case def_checkpoint (the (de_definition e)) of
                 None \<Rightarrow> Inr [delta]
               | Some f \<Rightarrow>
                   (case f (prep_value p) (prep_ops p) of
                      None \<Rightarrow> Inl CallbackError
                    | Some use_base \<Rightarrow> Inr [if use_base then base else delta])))"

definition document_writes :: "tx_state \<Rightarrow> document_entry \<Rightarrow> tx_error + storage_write list" where
  "document_writes s e =
     (case de_target e of
        None \<Rightarrow> Inr []
      | Some (TCreated r v n) \<Rightarrow>
          Inr (WDocCreate r v (prep_value (the (de_prepared e))) # retire_write e (doc_id r))
      | Some (TForkCopy r source at) \<Rightarrow> Inr (WDocCopy r source at # retire_write e (doc_id r))
      | Some (TLoaded l) \<Rightarrow>
          rbind (change_write s e l) (\<lambda>ws. Inr (ws @ retire_write e (doc_id (ld_record (h_loaded s ! l)))))
      | Some (TRetireOnly r) \<Rightarrow> Inr [WDocRetire (doc_id r)])"

definition task_writes :: "tx_state \<Rightarrow> storage_write list" where
  "task_writes s = List.map_filter (\<lambda>(i, task). map_option (\<lambda>(k, t). WTask t) (tt_write task)) (tx_tasks s)"

definition push_document_writes :: "document_entry \<Rightarrow> unit tx" where
  "push_document_writes e =
     pbind (pread (\<lambda>s. document_writes s e)) (\<lambda>ws. pmod (\<lambda>s. s\<lparr>tx_writes := tx_writes s @ ws\<rparr>))"

definition assemble :: "storage_write list tx" where
  "assemble =
     pthen reject_fork_source_writes
     (pthen validate_conversation_owners
     (pthen validate_tasks
     (pthen retire_settled_tasks
     (pthen (pbind (pget entry_indexes) (peach resolve_owner))
     (pthen (pmod (\<lambda>s. s\<lparr>tx_writes := tx_writes s @ task_writes s\<rparr>))
     (pthen (pbind (pget tx_documents) (peach push_document_writes))
       (pget tx_writes)))))))"

text \<open>\<open>settleSuccess\<close>; a failure aborts every change before it is thrown on.\<close>

definition or_abort :: "'a tx \<Rightarrow> 'a tx" where
  "or_abort m s =
     (case m s of
        Some (Inl e, t) \<Rightarrow> pthen abort_changes (pthrow e) t
      | r \<Rightarrow> r)"

definition settle_success :: "storage_write list tx" where
  "settle_success =
     pthen seal
     (pbind (pget tx_pending) (\<lambda>n.
        if 0 < n then pthen abort_changes (pthen drain (pthrow PendingOperations))
        else or_abort (pthen (pbind (pget entry_indexes) (peach prepare_entry)) assemble)))"

section \<open>Adoption\<close>

datatype document_change =
    DocumentChanged document_record "int option" "int option" "jsv option" "op list"
  | DocumentCopied document_record int int document_point

definition stamped :: "document_create \<Rightarrow> int \<Rightarrow> bool \<Rightarrow> document_record" where
  "stamped r seq retire =
     document_create.extend r (document_record.fields seq (if retire then Some seq else None))"

definition adopt_created :: "int \<Rightarrow> document_entry \<Rightarrow> document_create \<Rightarrow> int \<Rightarrow> nat \<Rightarrow> document_change list tx" where
  "adopt_created seq e r v n =
     (let p = the (de_prepared e); c = snd (the (de_change e)); record = stamped r seq (de_retire e) in
      pthen
        (if de_retire e then on_tracker n (abort_prepared c)
         else pthen (on_tracker n (adopt n c))
              (pthen (install \<lparr>ld_address = de_id e, ld_record = record, ld_version = v, ld_tracker = n\<rparr>) (pret ())))
        (pret [DocumentChanged record (de_conversation e) (if de_retire e then None else Some v)
                (if de_retire e then None else Some (prep_value p)) []]))"

definition adopt_copy :: "int \<Rightarrow> document_entry \<Rightarrow> document_create \<Rightarrow> int \<Rightarrow> document_point \<Rightarrow> document_change list" where
  "adopt_copy seq e r source at =
     (if de_retire e then [DocumentChanged (stamped r seq True) (de_conversation e) None None []]
      else [DocumentCopied (stamped r seq False) (the (de_conversation e)) source at])"

definition adopt_loaded :: "int \<Rightarrow> document_entry \<Rightarrow> nat \<Rightarrow> document_change list tx" where
  "adopt_loaded seq e l =
     pbind (pget (\<lambda>s. h_loaded s ! l)) (\<lambda>d.
     (let p = the (de_prepared e); c = snd (the (de_change e)); changed = prep_ops p \<noteq> []; v = entry_version e in
      pthen (if changed then on_tracker (ld_tracker d) (adopt (ld_tracker d) c)
             else on_tracker (ld_tracker d) (abort_prepared c))
      (pthen (if ld_version d < v
              then pmod (\<lambda>s. s\<lparr>h_loaded := (h_loaded s)[l := (h_loaded s ! l)\<lparr>ld_version := v\<rparr>]\<rparr>)
              else pret ())
        (if \<not> de_retire e \<and> \<not> changed then pret []
         else pthen (if de_retire e then evict (ld_address d) (doc_id (ld_record d)) else pret ())
           (pret [DocumentChanged
             (if de_retire e then (ld_record d)\<lparr>doc_retired := Some seq\<rparr> else ld_record d)
             (de_conversation e) (if de_retire e then None else Some v)
             (if de_retire e then None else Some (prep_value p)) (if de_retire e then [] else prep_ops p)])))))"

definition adopt_retired :: "int \<Rightarrow> document_entry \<Rightarrow> document_record \<Rightarrow> document_change list tx" where
  "adopt_retired seq e r =
     pthen (evict (de_id e) (doc_id r))
       (pret [DocumentChanged (r\<lparr>doc_retired := Some seq\<rparr>) (de_conversation e) None None []])"

definition adopt_entry :: "int \<Rightarrow> document_entry \<Rightarrow> document_change list tx" where
  "adopt_entry seq e =
     (case de_target e of
        None \<Rightarrow> pret []
      | Some (TCreated r v n) \<Rightarrow> adopt_created seq e r v n
      | Some (TForkCopy r source at) \<Rightarrow> pret (adopt_copy seq e r source at)
      | Some (TLoaded l) \<Rightarrow> adopt_loaded seq e l
      | Some (TRetireOnly r) \<Rightarrow> adopt_retired seq e r)"

fun adopt_all :: "int \<Rightarrow> document_entry list \<Rightarrow> document_change list tx" where
  "adopt_all seq [] = pret []"
| "adopt_all seq (e # es) =
     pbind (adopt_entry seq e) (\<lambda>cs. pbind (adopt_all seq es) (\<lambda>ds. pret (cs @ ds)))"

definition adopt_documents :: "int \<Rightarrow> document_change list tx" where
  "adopt_documents seq = pbind (pget tx_documents) (adopt_all seq)"

end
