(* ===== verification/Session.thy ===== *)
theory Session
  imports Settlement
begin

text \<open>
  The class \<open>SessionKernel\<close> of \<open>packages/durable/src/session/session.ts\<close>: one mutation line over a storage,
  the cache of loaded documents and the publication of commits.  The line runs one job at a time in the
  order of its requests, so a job is a step on the Session's state.  A commit callback is a computation on
  the transaction's state; an error that it does not catch is its result.
\<close>

section \<open>State\<close>

datatype commit_change = TableChange storage_write | DocumentChange document_change

record publication =
  pub_seq :: int
  pub_changes :: "commit_change list"

record session = host +
  se_listeners :: "nat set"
  se_published :: "(publication \<times> nat set) list"
  se_closing :: bool
  se_poison :: "tx_error option"

type_synonym 'a session_job = "(session, tx_error, 'a) proc"

definition create_session :: "storage \<Rightarrow> session" where
  "create_session st =
     \<lparr>h_storage = st, h_trackers = [], h_loaded = [], h_cache = (\<lambda>_. None),
      se_listeners = {}, se_published = [], se_closing = False, se_poison = None\<rparr>"

definition assert_healthy :: "unit session_job" where
  "assert_healthy = pread (\<lambda>s. rguard (se_poison s = None) SessionPoisoned)"

definition assert_usable :: "unit session_job" where
  "assert_usable = pthen (pread (\<lambda>s. rguard (\<not> se_closing s) SessionClosed)) assert_healthy"

text \<open>A computation on the host part of the Session.\<close>

definition with_host :: "tx_state \<Rightarrow> session \<Rightarrow> session" where
  "with_host t s = s\<lparr>h_storage := h_storage t, h_trackers := h_trackers t, h_loaded := h_loaded t, h_cache := h_cache t\<rparr>"

section \<open>Commits\<close>

text \<open>\<open>StorageRejected\<close> is what the storage throws for a rejected document copy.\<close>

definition is_rejected :: "storage_error \<Rightarrow> bool" where
  "is_rejected e = (case e of CopyRejected i cause \<Rightarrow> True | _ \<Rightarrow> False)"

definition discard :: "unit tx" where
  "discard = abort_changes"

text \<open>
  The part of \<open>runCommit\<close> that holds the transaction.  The result is the error or the value with the
  publication, and the error that poisons the Session.
\<close>

datatype 'a commit_end = Ended "tx_error + 'a" | Poisoned tx_error | Committed 'a int "storage_write list" "document_change list"

definition end_job :: "'a commit_end \<Rightarrow> tx_state \<Rightarrow> ('a commit_end \<times> tx_state) option" where
  "end_job r t = Some (r, t)"

definition commit_writes :: "'a \<Rightarrow> storage_write list \<Rightarrow> tx_state \<Rightarrow> ('a commit_end \<times> tx_state) option" where
  "commit_writes result writes t =
     (case MemoryStorage.commit (h_storage t) writes of
        Inl e \<Rightarrow>
          (case discard t of
             None \<Rightarrow> None
           | Some (_, t) \<Rightarrow>
               end_job (if is_rejected e then Ended (Inl (TxStorage e)) else Poisoned (TxStorage e)) t)
      | Inr (seq, st) \<Rightarrow>
          (case adopt_documents seq (t\<lparr>h_storage := st\<rparr>) of
             None \<Rightarrow> None
           | Some (Inl e, t) \<Rightarrow> end_job (Poisoned e) t
           | Some (Inr changes, t) \<Rightarrow> end_job (Committed result seq writes changes) t))"

definition run_transaction :: "'a tx \<Rightarrow> tx_state \<Rightarrow> ('a commit_end \<times> tx_state) option" where
  "run_transaction change t =
     (case change t of
        None \<Rightarrow> None
      | Some (Inl e, t) \<Rightarrow> map_option (\<lambda>(_, t). (Ended (Inl e), t)) (settle_failure t)
      | Some (Inr result, t) \<Rightarrow>
          (case settle_success t of
             None \<Rightarrow> None
           | Some (Inl e, t) \<Rightarrow> end_job (Ended (Inl e)) t
           | Some (Inr [], t) \<Rightarrow> map_option (\<lambda>(_, t). (Ended (Inr result), t)) (discard t)
           | Some (Inr (w # ws), t) \<Rightarrow> commit_writes result (w # ws) t))"

fun is_table_write :: "storage_write \<Rightarrow> bool" where
  "is_table_write (WConversation c) = True"
| "is_table_write (WEntry e) = True"
| "is_table_write (WTask t) = True"
| "is_table_write (WSubmission s) = True"
| "is_table_write w = False"

text \<open>A publication is queued for the listeners of this moment; they run later.\<close>

definition publish :: "int \<Rightarrow> storage_write list \<Rightarrow> document_change list \<Rightarrow> session \<Rightarrow> session" where
  "publish seq writes changes s =
     (if se_listeners s = {} then s
      else s\<lparr>se_published := se_published s @
        [(\<lparr>pub_seq = seq, pub_changes = map TableChange (filter is_table_write writes) @ map DocumentChange changes\<rparr>,
          se_listeners s)]\<rparr>)"

definition run_commit :: "'a tx \<Rightarrow> 'a session_job" where
  "run_commit change =
     pthen assert_healthy
       (\<lambda>s. case run_transaction change (new_transaction (host.truncate s)) of
          None \<Rightarrow> None
        | Some (Ended r, t) \<Rightarrow> Some (r, with_host t s)
        | Some (Poisoned e, t) \<Rightarrow> Some (Inl e, (with_host t s)\<lparr>se_poison := Some e\<rparr>)
        | Some (Committed result seq writes changes, t) \<Rightarrow>
            Some (Inr result, publish seq writes changes (with_host t s)))"

text \<open>The check at the request precedes the job; the line may have closed or failed in between.\<close>

definition commit_session :: "'a tx \<Rightarrow> 'a session_job" where
  "commit_session change = pthen assert_usable (run_commit change)"

section \<open>Snapshots\<close>

definition on_host :: "'a tx \<Rightarrow> 'a session_job" where
  "on_host m s =
     (case m (new_transaction (host.truncate s)) of
        None \<Rightarrow> None
      | Some (r, t) \<Rightarrow> Some (r, with_host t s))"

definition snapshot :: "doc_definition \<Rightarrow> jsv list \<Rightarrow> jsv option session_job" where
  "snapshot d args =
     pthen assert_usable
     (pbind (pread (\<lambda>_. map_sum TxDocument id (resolve_address d args))) (\<lambda>r.
      pbind (pget (\<lambda>s. h_cache s (res_id r))) (\<lambda>cached.
      pbind (case cached of
               Some n \<Rightarrow> pret (Some n)
             | None \<Rightarrow> pthen assert_healthy (on_host (load d (res_id r) (res_address r)))) (\<lambda>loaded.
        case loaded of
          None \<Rightarrow> pret None
        | Some n \<Rightarrow>
            pbind (pget (\<lambda>s. h_loaded s ! n)) (\<lambda>l.
            pthen (pread (\<lambda>_. map_sum TxDocument id (check_record_scope d (ld_record l))))
            (pthen (pread (\<lambda>_. map_sum TxDocument id (check_record_version d (ld_record l) (ld_version l))))
              (pget (\<lambda>s. Some (trk_value (h_trackers s ! ld_tracker l))))))))))"

definition snapshot_as_of :: "doc_definition \<Rightarrow> jsv list \<Rightarrow> jsv option session_job" where
  "snapshot_as_of d args =
     pthen assert_usable
     (pbind (pread (\<lambda>_. map_sum TxDocument id (resolve_address d args))) (\<lambda>r.
      case addr_scope (res_address r) of
        ConversationScope c \<Rightarrow>
          pbind (pread (\<lambda>_. case argument args (res_next r) of
              JNum n \<Rightarrow> if num_safe n then Inr (case n of NInt i \<Rightarrow> i | NFlt _ \<Rightarrow> 0) else Inl EntryRequired
            | _ \<Rightarrow> Inl EntryRequired)) (\<lambda>at.
          pthen assert_healthy
          (pbind (\<lambda>s. map_option (\<lambda>x. (map_sum TxStorage id x, s)) (read_visible_entry (h_storage s) c at)) (\<lambda>found.
            case found of
              None \<Rightarrow> pthrow (TxFork (EntryNotVisible at c))
            | Some (e, seq) \<Rightarrow>
                pbind (pread (\<lambda>s. map_sum TxStorage id (find_document (h_storage s)
                  ((res_address r)\<lparr>addr_scope := ConversationScope (ent_conversation e)\<rparr>) (At seq)))) (\<lambda>record.
                case record of
                  None \<Rightarrow> pret None
                | Some x \<Rightarrow>
                    pbind (pread (\<lambda>s. map_sum TxStorage id (read_document (h_storage s) (doc_id x) (At seq)))) (\<lambda>stored.
                    case stored of
                      None \<Rightarrow> pthrow (HistoryUnreadable (doc_id x))
                    | Some sd \<Rightarrow>
                        pbind (pread (\<lambda>_. map_sum TxDocument id (materialize_stored d sd))) (\<lambda>v. pret (Some v)))))))
      | _ \<Rightarrow> pthrow ConversationDocumentRequired))"

section \<open>Closing\<close>

text \<open>The first \<open>close\<close> seals admission and closes the storage; later ones await the same job.\<close>

definition close_session :: "unit session_job" where
  "close_session =
     pmod (\<lambda>s. if se_closing s then s
       else s\<lparr>se_closing := True, h_cache := (\<lambda>_. None), h_storage := close_storage (h_storage s)\<rparr>)"

text \<open>Listeners are function objects; a subscription adds one, and its result removes it.\<close>

definition subscribe_commits :: "nat \<Rightarrow> unit session_job" where
  "subscribe_commits l = pmod (\<lambda>s. s\<lparr>se_listeners := insert l (se_listeners s)\<rparr>)"

definition unsubscribe_commits :: "nat \<Rightarrow> unit session_job" where
  "unsubscribe_commits l = pmod (\<lambda>s. s\<lparr>se_listeners := se_listeners s - {l}\<rparr>)"

definition unload_documents :: "unit session_job" where
  "unload_documents = pmod (\<lambda>s. s\<lparr>h_cache := (\<lambda>_. None)\<rparr>)"

end
