(* ===== verification/SessionFrame.thy ===== *)
theory SessionFrame
  imports Session
begin

text \<open>
  What the operations of a transaction leave alone, as interfaces.  A predicate on the state of a
  transaction that a few primitive steps preserve is preserved by every operation and by the settlement up
  to the task writes; the proofs follow the structure of the operations with the rules \<open>keep_intros\<close>.
  \<open>tx_quiet\<close> is the contract of the steps that neither mint nor create, \<open>tx_frame\<close> the one of all
  operations, and \<open>tx_core\<close> gives both for a predicate that does not look at the document entries.
\<close>

section \<open>Rules for the shapes of the model\<close>

lemma keeps_sum [keep_intros]:
  "(\<And>a. x = Inl a \<Longrightarrow> keeps P (f a)) \<Longrightarrow> (\<And>b. x = Inr b \<Longrightarrow> keeps P (g b)) \<Longrightarrow>
     keeps P (case x of Inl a \<Rightarrow> f a | Inr b \<Rightarrow> g b)"
  by (cases x) simp_all

lemma keeps_scope [keep_intros]:
  "keeps P a \<Longrightarrow> (\<And>c. keeps P (b c)) \<Longrightarrow> (\<And>t. keeps P (d t)) \<Longrightarrow>
     keeps P (case x of SessionScope \<Rightarrow> a | ConversationScope c \<Rightarrow> b c | TaskScope t \<Rightarrow> d t)"
  by (cases x) simp_all

lemma keeps_target [keep_intros]:
  "(\<And>l. keeps P (a l)) \<Longrightarrow> (\<And>r v n. keeps P (b r v n)) \<Longrightarrow> (\<And>r i at. keeps P (c r i at)) \<Longrightarrow>
     (\<And>r. keeps P (d r)) \<Longrightarrow>
     keeps P (case x of TLoaded l \<Rightarrow> a l | TCreated r v n \<Rightarrow> b r v n | TForkCopy r i at \<Rightarrow> c r i at | TRetireOnly r \<Rightarrow> d r)"
  by (cases x) simp_all

lemma keeps_kind [keep_intros]:
  "keeps P a \<Longrightarrow> keeps P b \<Longrightarrow> keeps P (case x of CreatesTask \<Rightarrow> a | ReplacesTask \<Rightarrow> b)"
  by (cases x) simp_all

lemma keeps_write_case [keep_intros]:
  "(\<And>c. keeps P (f c)) \<Longrightarrow> keeps P k \<Longrightarrow> keeps P (case w of WConversation c \<Rightarrow> f c | _ \<Rightarrow> k)"
  by (cases w) simp_all

lemma keeps_ownership [keep_intros]:
  "keeps P a \<Longrightarrow> (\<And>t. keeps P (b t)) \<Longrightarrow> keeps P (case x of Ownerless \<Rightarrow> a | OwnedByTask t \<Rightarrow> b t)"
  by (cases x) simp_all

lemma keeps_on_storage [keep_intros]: "keeps P (on_storage f)" "keeps P (on_document r)" "keeps P (on_copy q)"
  by (simp_all add: on_storage_def on_document_def on_copy_def keep_intros)

lemma keeps_on_history [keep_intros]: "keeps P (on_history f)"
  by (auto simp: keeps_def on_history_def)

lemma keeps_remember_draft [keep_intros]:
  assumes "keeps P m" "\<And>r. keeps P (set_entry k (\<lambda>e. e\<lparr>de_draft := Some r\<rparr>))"
  shows "keeps P (remember_draft k m)"
proof
  fix s r t
  assume s: "P s" and run: "remember_draft k m s = Some (r, t)"
  then obtain q u where m: "m s = Some (q, u)" by (auto simp: remember_draft_def split: option.splits)
  from assms(1) m s have u: "P u" by (rule keepsD)
  from run m have "pthen (set_entry k (\<lambda>e. e\<lparr>de_draft := Some q\<rparr>)) (pread (\<lambda>_. map_sum id (\<lambda>_. k) q)) u = Some (r, t)"
    by (simp add: remember_draft_def)
  from keepsD [OF keeps_then [OF assms(2) keeps_basic(5)] this u] show "P t" .
qed

lemma for_pages_keeps:
  assumes "for_pages get wrap q body cursor s = Some rt"
  shows "(\<forall>x. keeps P (body x)) \<longrightarrow> P s \<longrightarrow> P (snd rt)"
  using assms
proof (induction rule: for_pages.raw_induct [rotated 1, consumes 1, case_names step])
  case (step rec get wrap q body cursor s rt)
  show ?case
  proof (intro impI)
    assume keep: "\<forall>x. keeps P (body x)" and s: "P s"
    have body: "P t" if "peach body xs s = Some (x, t)" for xs x t
      using keepsD [OF keeps_each [of xs P body] that s] keep by simp
    have again: "P (snd rt)" if "rec get wrap q body (Some c) t = Some rt" "P t" for c t
      using step(1) [OF that(1)] keep that(2) by blast
    show "P (snd rt)"
    proof (cases "scan_documents (get s) q SCAN_PAGE_SIZE cursor")
      case (Inl e)
      with step(2) s show ?thesis by auto
    next
      case (Inr p)
      with step(2) obtain x t where x: "peach body (page_items p) s = Some (x, t)"
        by (auto split: option.splits)
      from body [OF x] have "P t" .
      with step(2) Inr x again show ?thesis by (auto split: sum.splits option.splits)
    qed
  qed
qed

lemma keeps_for_pages [keep_intros]: "(\<And>x. keeps P (body x)) \<Longrightarrow> keeps P (for_pages get wrap q body cursor)"
  by (rule keepsI) (use for_pages_keeps [of get wrap q body cursor _ "(_, _)" P] in simp)

section \<open>Quiet steps\<close>

text \<open>
  A quiet step leaves the host, the tasks and the staged writes as they are, up to conversations and
  entries.  It may add document entries and change them, but it gives none a document to create and takes
  back no retirement.
\<close>

fun is_early_write :: "storage_write \<Rightarrow> bool" where
  "is_early_write (WConversation c) = True"
| "is_early_write (WEntry e) = True"
| "is_early_write w = False"

abbreviation late_writes :: "tx_state \<Rightarrow> storage_write list" where
  "late_writes s \<equiv> filter (\<lambda>w. \<not> is_early_write w) (tx_writes s)"

definition same_core :: "tx_state \<Rightarrow> tx_state \<Rightarrow> bool" where
  "same_core s t \<longleftrightarrow> host.truncate t = host.truncate s \<and> tx_tasks t = tx_tasks s \<and>
     late_writes t = late_writes s"

fun creates_nothing :: "document_target option \<Rightarrow> bool" where
  "creates_nothing (Some (TCreated r v n)) = False"
| "creates_nothing (Some (TForkCopy r i at)) = False"
| "creates_nothing x = True"

definition evolves :: "document_entry \<Rightarrow> document_entry \<Rightarrow> bool" where
  "evolves e f \<longleftrightarrow> de_id f = de_id e \<and> de_address f = de_address e \<and> (de_retire e \<longrightarrow> de_retire f) \<and>
     (de_target f = de_target e \<or> creates_nothing (de_target f))"

definition quiet :: "tx_state \<Rightarrow> tx_state \<Rightarrow> bool" where
  "quiet s t \<longleftrightarrow> same_core s t \<and> length (tx_documents s) \<le> length (tx_documents t) \<and>
     (\<forall>k < length (tx_documents s). evolves (tx_documents s ! k) (tx_documents t ! k)) \<and>
     (\<forall>k. length (tx_documents s) \<le> k \<longrightarrow> k < length (tx_documents t) \<longrightarrow> creates_nothing (de_target (tx_documents t ! k))) \<and>
     (\<forall>i k. tx_latest t i = Some k \<longrightarrow> tx_latest s i = Some k \<or> k < length (tx_documents t))"

named_theorems quiet_intros

lemma evolves_refl [simp]: "evolves e e"
  by (simp add: evolves_def)

lemma evolves_draft [quiet_intros]:
  "evolves e (e\<lparr>de_draft := a\<rparr>)" "evolves e (e\<lparr>de_change := b\<rparr>)" "evolves e (e\<lparr>de_prepared := c\<rparr>)"
  "evolves e (e\<lparr>de_conversation := d\<rparr>)" "evolves e (e\<lparr>de_retire := True\<rparr>)"
  "evolves e (e\<lparr>de_target := Some (TLoaded l)\<rparr>)" "evolves e (e\<lparr>de_target := Some (TRetireOnly r)\<rparr>)"
  by (simp_all add: evolves_def)

lemma quiet_local [quiet_intros]:
  "same_core s t \<Longrightarrow> tx_documents t = tx_documents s \<Longrightarrow> tx_latest t = tx_latest s \<Longrightarrow> quiet s t"
  by (simp add: quiet_def)

lemma quiet_update:
  assumes "\<And>e. evolves e (f e)"
  shows "quiet s (s\<lparr>tx_documents := (tx_documents s)[k := f (tx_documents s ! k)]\<rparr>)"
proof -
  have "evolves (tx_documents s ! n) ((tx_documents s)[k := f (tx_documents s ! k)] ! n)"
    if "n < length (tx_documents s)" for n
    using that assms by (cases "n = k") simp_all
  then show ?thesis by (simp add: quiet_def same_core_def host.defs)
qed

lemma quiet_map: "(\<And>e. evolves e (f e)) \<Longrightarrow> quiet s (s\<lparr>tx_documents := map f (tx_documents s)\<rparr>)"
  by (simp add: quiet_def same_core_def host.defs)

lemma quiet_push:
  "creates_nothing (de_target e) \<Longrightarrow>
     quiet s (s\<lparr>tx_documents := tx_documents s @ [e], tx_latest := (tx_latest s)(i \<mapsto> length (tx_documents s))\<rparr>)"
  "creates_nothing (de_target e) \<Longrightarrow> quiet s (s\<lparr>tx_documents := tx_documents s @ [e]\<rparr>)"
  by (auto simp: quiet_def same_core_def host.defs nth_append)

definition keeps_value :: "'a tracker_op \<Rightarrow> bool" where
  "keeps_value m \<longleftrightarrow> (\<forall>t. trk_value (snd (m t)) = trk_value t)"

lemma keeps_value_ops:
  "keeps_value begin_change" "keeps_value (write_draft i ops)" "keeps_value (prepare i)"
  "keeps_value (abort_change i)" "keeps_value (abort_prepared i)"
  unfolding keeps_value_def by (metis frame_value prod.collapse)+

section \<open>Operations that create nothing\<close>

locale tx_quiet =
  fixes P :: "tx_state \<Rightarrow> bool"
  assumes quiet: "P s \<Longrightarrow> quiet s t \<Longrightarrow> P t"
    and tracker: "keeps P (on_tracker n begin_change)" "keeps P (on_tracker n (write_draft c ops))"
      "keeps P (on_tracker n (prepare c))" "keeps P (on_tracker n (abort_change c))"
    and touch: "(\<And>x. tt_committed (f x) = tt_committed x \<and> tt_write (f x) = tt_write x) \<Longrightarrow> keeps P (set_task_entry i f)"
    and committed: "keeps P (committed_task i)"
begin

lemma local_step [keep_intros]:
  "(\<And>s. same_core s (f s) \<and> tx_documents (f s) = tx_documents s \<and> tx_latest (f s) = tx_latest s) \<Longrightarrow> keeps P (pmod f)"
  by (rule keeps_pmod) (use quiet quiet_local in blast)

lemmas [keep_intros] = committed touch

lemma keeps_set_entry [keep_intros]: "(\<And>e. evolves e (f e)) \<Longrightarrow> keeps P (set_entry k f)"
  unfolding set_entry_def by (rule keeps_pmod) (erule quiet, rule quiet_update)

lemma keeps_push_entry [keep_intros]: "creates_nothing (de_target e) \<Longrightarrow> keeps P (push_entry e)"
  unfolding push_entry_def
  by (rule keepsI) (auto simp: proc_simps elim!: quiet intro: quiet_push)

lemma keeps_guards [keep_intros]:
  "keeps P assert_tx_open" "keeps P (latest_entry key)" "keeps P (current_task i)" "keeps P (require_conversation i)"
  "keeps P (assert_task_documents_open a)"
  unfolding assert_tx_open_def latest_entry_def current_task_def require_conversation_def
    assert_task_documents_open_def by (intro keep_intros)+

lemma keeps_read_write [keep_intros]:
  "keeps P m \<Longrightarrow> keeps P (tx_read name m)" "keeps P m \<Longrightarrow> keeps P (tx_write m)"
  unfolding tx_read_def tx_write_def by (intro keep_intros; (assumption | simp add: same_core_def host.defs))+

lemma keeps_reads:
  "keeps P (tx_conversation i)" "keeps P (tx_entry i)" "keeps P (tx_task i)" "keeps P (tx_scan_conversations cq l c)"
  "keeps P (tx_scan_entries eq l c)" "keeps P (tx_scan_tasks tq l c)" "keeps P unawaited"
  unfolding tx_conversation_def tx_entry_def tx_task_def tx_scan_conversations_def tx_scan_entries_def
    tx_scan_tasks_def unawaited_def by (intro keep_intros; simp add: same_core_def host.defs)+

lemma keeps_stage_owner [keep_intros]: "keeps P (stage_owner ow)"
  unfolding stage_owner_def by (intro keep_intros)

lemma keeps_begin_on [keep_intros]: "keeps P (begin_on k n)"
  unfolding begin_on_def by (intro keep_intros tracker quiet_intros)

lemma keeps_acquire_quiet [keep_intros]:
  "keeps P (acquire_loaded k d l)" "keeps P (require_owner a)" "keeps P (doc_seed d args n)" "keeps P (mark_retired k)"
  unfolding acquire_loaded_def require_owner_def doc_seed_def mark_retired_def by (intro keep_intros quiet_intros)+

lemma keeps_retire_doc: "keeps P (retire_doc d args)"
  unfolding retire_doc_def retire_unacquired_def find_retirement_def
  by (intro keep_intros quiet_intros) (simp_all add: new_entry_def)

lemma keeps_edit_draft: "keeps P (edit_draft k ops)"
  unfolding edit_draft_def by (intro keep_intros tracker)

text \<open>Settlement.\<close>

lemma keeps_abort [keep_intros]: "keeps P abort_changes"
  unfolding abort_changes_def abort_entry_def by (intro keep_intros tracker)

lemma keeps_flags [keep_intros]: "keeps P seal" "keeps P drain"
  unfolding seal_def drain_def by (intro keep_intros; simp add: same_core_def host.defs)+

lemma keeps_settle_failure: "keeps P settle_failure"
  unfolding settle_failure_def by (intro keep_intros)

lemma keeps_prepare_entry [keep_intros]: "keeps P (prepare_entry k)"
  unfolding prepare_entry_def by (intro keep_intros tracker quiet_intros)

lemma keeps_validation [keep_intros]:
  "keeps P reject_fork_source_writes" "keeps P (validate_owner w)" "keeps P (validate_task p)"
  unfolding reject_fork_source_writes_def reject_fork_source_write_def validate_owner_def validate_task_def
  by (intro keep_intros)+

lemma keeps_retire_found: "keeps (\<lambda>x. P (rs_state x)) (retire_found r)"
  unfolding retire_found_def
  by (rule keeps_pmod) (auto elim!: quiet intro!: quiet_push simp: new_entry_def)

lemma keeps_retire_settled_tasks [keep_intros]: "keeps P retire_settled_tasks"
proof
  fix s r t
  assume s: "P s" and run: "retire_settled_tasks s = Some (r, t)"
  have scan: "keeps (\<lambda>x. P (rs_state x)) (peach retire_task_documents ts)" for ts
    unfolding retire_task_documents_def by (intro keep_intros keeps_retire_found)
  have mark: "keeps P (mark_task_documents ids)" for ids
    unfolding mark_task_documents_def by (rule keeps_pmod) (erule quiet, rule quiet_map, simp add: quiet_intros)
  have rest: "keeps P (\<lambda>s. map_option (\<lambda>(r, x). (r, rs_state x))
      (peach retire_task_documents ts \<lparr>rs_state = s, rs_targeted = T s\<rparr>))" for ts T
  proof
    fix s r t
    assume "P s" "map_option (\<lambda>(r, x). (r, rs_state x)) (peach retire_task_documents ts \<lparr>rs_state = s, rs_targeted = T s\<rparr>) = Some (r, t)"
    then show "P t" by (auto dest: keepsD [OF scan])
  qed
  show "P t"
  proof (cases "terminal_tasks s = []")
    case True
    with run s show ?thesis by (simp add: retire_settled_tasks_def)
  next
    case False
    with run have "pthen (mark_task_documents (terminal_tasks s)) (\<lambda>u. map_option (\<lambda>(r, x). (r, rs_state x))
        (peach retire_task_documents (rev (remdups (rev (terminal_tasks s))))
          \<lparr>rs_state = u, rs_targeted = set (List.map_filter (\<lambda>e.
               if task_scoped (terminal_tasks s) (de_address e) then targeted_id u e else None) (tx_documents u))\<rparr>)) s = Some (r, t)"
      by (simp add: retire_settled_tasks_def Let_def)
    from keepsD [OF keeps_then [OF mark rest] this s] show ?thesis .
  qed
qed

lemma keeps_resolve_owner [keep_intros]: "keeps P (resolve_owner k)"
  unfolding resolve_owner_def publication_owner_def by (intro keep_intros quiet_intros) simp_all

lemma keeps_passes:
  "keeps P validate_conversation_owners" "keeps P validate_tasks"
  "keeps P (pbind (pget entry_indexes) (peach resolve_owner))"
  unfolding validate_conversation_owners_def validate_tasks_def by (intro keep_intros)+

lemma keeps_assemble:
  assumes "\<And>s ws. P s \<Longrightarrow> P (s\<lparr>tx_writes := tx_writes s @ ws\<rparr>)"
  shows "keeps P assemble"
proof -
  have tasks: "keeps P (pmod (\<lambda>s. s\<lparr>tx_writes := tx_writes s @ task_writes s\<rparr>))"
    using assms by (rule keeps_pmod)
  have push: "keeps P (push_document_writes e)" for e
    unfolding push_document_writes_def
    by (rule keepsI) (auto simp: pbind_def proc_apply intro: assms split: sum.splits)
  show ?thesis
    unfolding assemble_def
    by (intro keeps_then keeps_bind keeps_basic keeps_each tasks push keeps_validation keeps_passes
        keeps_retire_settled_tasks keeps_resolve_owner)
qed

lemma keeps_or_abort [keep_intros]:
  assumes "keeps P m"
  shows "keeps P (or_abort m)"
proof
  fix s r t
  assume s: "P s" and run: "or_abort m s = Some (r, t)"
  then obtain q u where m: "m s = Some (q, u)" by (auto simp: or_abort_def split: option.splits)
  from assms m s have u: "P u" by (rule keepsD)
  show "P t"
  proof (cases q)
    case (Inl e)
    with run m have again: "pthen abort_changes (pthrow e) u = Some (r, t)" by (simp add: or_abort_def)
    have "keeps P (pthen abort_changes (pthrow e))" by (intro keep_intros)
    from keepsD [OF this again u] show ?thesis .
  next
    case (Inr x)
    with run m u show ?thesis by (simp add: or_abort_def)
  qed
qed

lemma keeps_settle_success:
  assumes "\<And>s ws. P s \<Longrightarrow> P (s\<lparr>tx_writes := tx_writes s @ ws\<rparr>)"
  shows "keeps P settle_success"
  unfolding settle_success_def by (intro keep_intros keeps_assemble assms)

end

text \<open>The contract is closed under conjunction.\<close>

lemma tx_quiet_conj:
  assumes "tx_quiet P" "tx_quiet Q"
  shows "tx_quiet (\<lambda>s. P s \<and> Q s)"
proof -
  note facts = tx_quiet.tracker [OF assms(1)] tx_quiet.tracker [OF assms(2)] tx_quiet.touch [OF assms(1)]
    tx_quiet.touch [OF assms(2)] tx_quiet.committed [OF assms(1)] tx_quiet.committed [OF assms(2)]
  show ?thesis
  proof
    show "P t \<and> Q t" if "P s \<and> Q s" "quiet s t" for s t
      using that tx_quiet.quiet [OF assms(1)] tx_quiet.quiet [OF assms(2)] by blast
  qed (intro keeps_conj facts; simp)+
qed

section \<open>All operations\<close>

locale tx_frame = tx_quiet +
  assumes mint: "keeps P mint"
    and conversation: "keeps P (stage_conversation parent ow)"
    and doc: "keeps P (doc d args)"
    and create_task: "keeps P (create_task td input options)"
    and set_task: "keeps P (set_task r)"
begin

lemmas [keep_intros] = mint conversation

lemma keeps_conversations: "keeps P (create_conversation ow)" "keeps P (fork_conversation p at ow)"
  unfolding create_conversation_def fork_conversation_def by (intro keep_intros)+

lemma keeps_append_entry: "keeps P (append_entry c d)"
  unfolding append_entry_def by (intro keep_intros) (simp add: same_core_def host.defs)

lemmas operations = keeps_reads keeps_conversations keeps_append_entry create_task set_task doc keeps_retire_doc keeps_edit_draft

end

text \<open>A predicate that does not look at the entries.\<close>

locale tx_core =
  fixes P :: "tx_state \<Rightarrow> bool"
  assumes core: "P s \<Longrightarrow> same_core s t \<Longrightarrow> P t"
    and trackers: "keeps P (on_tracker n begin_change)" "keeps P (on_tracker n (write_draft c ops))"
      "keeps P (on_tracker n (prepare c))" "keeps P (on_tracker n (abort_change c))"
    and touched: "(\<And>x. tt_committed (f x) = tt_committed x \<and> tt_write (f x) = tt_write x) \<Longrightarrow> keeps P (set_task_entry i f)"
    and committed_read: "keeps P (committed_task i)"
    and minted: "keeps P mint"
    and forked: "keeps P (fork_copies edge child)"
    and tracked: "keeps P (new_tracker v)"
    and loaded: "keeps P (load d key a)"
    and created: "keeps P (create_task td input options)"
    and replaced: "keeps P (set_task r)"

sublocale tx_core \<subseteq> tx_quiet P
  by unfold_locales (auto simp: quiet_def intro: core trackers touched committed_read)

context tx_core
begin

lemmas [keep_intros] = minted forked tracked loaded

lemma core_step [keep_intros]: "(\<And>s. same_core s (f s)) \<Longrightarrow> keeps P (pmod f)"
  using core by (auto simp: keeps_def proc_apply)

lemma keeps_any_entry [keep_intros]: "keeps P (set_entry k f)"
  unfolding set_entry_def by (rule core_step) (simp add: same_core_def host.defs)

lemma keeps_any_push [keep_intros]: "keeps P (push_entry e)"
  unfolding push_entry_def by (intro keeps_bind keeps_then keeps_basic core_step) (simp add: same_core_def host.defs)

lemma keeps_stage_copy [keep_intros]: "keeps P (stage_copy c)"
  unfolding stage_copy_def by (intro keep_intros) (simp add: same_core_def host.defs)

lemma keeps_stage_conversation [keep_intros]: "keeps P (stage_conversation parent ow)"
  unfolding stage_conversation_def Let_def by (intro keep_intros) (simp add: same_core_def host.defs)

lemma keeps_acquire [keep_intros]: "keeps P (acquire_new k d a seed)" "keeps P (acquire_fork_copy k d r i at)"
  unfolding acquire_new_def acquire_fork_copy_def Let_def by (intro keep_intros)+

lemma keeps_fresh_doc [keep_intros]: "keeps P (fresh_doc d args r skip)"
  unfolding fresh_doc_def acquire_def by (intro keep_intros)

lemma keeps_doc: "keeps P (doc d args)"
  unfolding doc_def by (intro keep_intros)

end

sublocale tx_core \<subseteq> tx_frame P
  by unfold_locales (rule minted keeps_stage_conversation keeps_doc created replaced)+

section \<open>Callbacks\<close>

text \<open>One awaited call of an operation, one that is left pending, or a write to an open draft.\<close>

inductive tx_step :: "tx_state \<Rightarrow> tx_state \<Rightarrow> bool" where
  conversation_call: "tx_conversation i s = Some (r, t) \<Longrightarrow> tx_step s t"
| entry_call: "tx_entry i s = Some (r, t) \<Longrightarrow> tx_step s t"
| task_call: "tx_task i s = Some (r, t) \<Longrightarrow> tx_step s t"
| scan_conversations_call: "tx_scan_conversations cq l c s = Some (r, t) \<Longrightarrow> tx_step s t"
| scan_entries_call: "tx_scan_entries eq l c s = Some (r, t) \<Longrightarrow> tx_step s t"
| scan_tasks_call: "tx_scan_tasks tq l c s = Some (r, t) \<Longrightarrow> tx_step s t"
| create_conversation_call: "create_conversation ow s = Some (r, t) \<Longrightarrow> tx_step s t"
| fork_conversation_call: "fork_conversation p at ow s = Some (r, t) \<Longrightarrow> tx_step s t"
| append_entry_call: "append_entry c d s = Some (r, t) \<Longrightarrow> tx_step s t"
| create_task_call: "create_task td input options s = Some (r, t) \<Longrightarrow> tx_step s t"
| set_task_call: "set_task record s = Some (r, t) \<Longrightarrow> tx_step s t"
| doc_call: "doc d args s = Some (r, t) \<Longrightarrow> tx_step s t"
| retire_doc_call: "retire_doc d args s = Some (r, t) \<Longrightarrow> tx_step s t"
| edit_call: "edit_draft k ops s = Some (r, t) \<Longrightarrow> tx_step s t"
| pending_call: "unawaited s = Some (r, t) \<Longrightarrow> tx_step s t"

text \<open>A commit callback: whatever it computes, it changes the transaction through these steps only.\<close>

definition callback :: "'a tx \<Rightarrow> bool" where
  "callback m \<longleftrightarrow> (\<forall>s r t. m s = Some (r, t) \<longrightarrow> tx_step\<^sup>*\<^sup>* s t)"

named_theorems callback_intros

lemma callback_pure [callback_intros]:
  "callback (pret a)" "callback (pthrow e)" "callback (pget f)" "callback (pguard b e)" "callback (pread g)"
  by (simp_all add: callback_def proc_apply)

lemma callback_bind [callback_intros]: "callback m \<Longrightarrow> (\<And>a. callback (f a)) \<Longrightarrow> callback (pbind m f)"
  unfolding callback_def pbind_Some by (metis rtranclp_trans)

lemma callback_then [callback_intros]: "callback m \<Longrightarrow> callback k \<Longrightarrow> callback (pthen m k)"
  by (simp add: pthen_def callback_bind)

lemma callback_call: "(\<And>s r t. m s = Some (r, t) \<Longrightarrow> tx_step s t) \<Longrightarrow> callback m"
  by (auto simp: callback_def)

lemma callback_operations [callback_intros]:
  "callback (tx_conversation i)" "callback (tx_entry i)" "callback (tx_task i)"
  "callback (tx_scan_conversations cq l c)" "callback (tx_scan_entries eq l c)" "callback (tx_scan_tasks tq l c)"
  "callback (create_conversation ow)" "callback (fork_conversation p at ow)" "callback (append_entry conv d)"
  "callback (create_task td input options)" "callback (set_task record)" "callback (doc def args)"
  "callback (retire_doc def args)" "callback (edit_draft k ops)" "callback unawaited"
  by (rule callback_call, erule tx_step.intros)+

context tx_frame
begin

lemma step_keeps: "tx_step s t \<Longrightarrow> P s \<Longrightarrow> P t"
  by (induction rule: tx_step.induct) (erule keepsD [rotated], assumption, rule operations)+

lemma steps_keep: "tx_step\<^sup>*\<^sup>* s t \<Longrightarrow> P s \<Longrightarrow> P t"
  by (induction rule: rtranclp_induct) (auto intro: step_keeps)

lemma callback_keeps: "callback m \<Longrightarrow> keeps P m"
  by (auto simp: callback_def keeps_def intro: steps_keep)

end

end
