(* ===== verification/SessionFailure.thy ===== *)
theory SessionFailure
  imports SessionFrame
begin

text \<open>
  A commit that fails leaves no trace: until the storage accepts the batch a transaction changes the
  storage only by minting IDs, changes no value of a tracker that existed before, and only adds to the
  loaded documents and their cache.
\<close>

section \<open>What a transaction may do to the host\<close>

definition mints :: "storage \<Rightarrow> storage \<Rightarrow> bool" where
  "mints = (\<lambda>a b. \<exists>i. mint_id a = Inr (i, b))\<^sup>*\<^sup>*"

lemma mints_refl [simp]: "mints a a"
  by (simp add: mints_def)

lemma mints_step: "mints a b \<Longrightarrow> mint_id b = Inr (i, c) \<Longrightarrow> mints a c"
  unfolding mints_def by (rule rtranclp.rtrancl_into_rtrancl) auto

lemma mints_eq: "mints a b \<Longrightarrow> b = a\<lparr>nextId := nextId b\<rparr> \<and> nextId a \<le> nextId b"
  unfolding mints_def
proof (induction rule: rtranclp_induct)
  case (step b c)
  then obtain i where "c = b\<lparr>nextId := nextId b + 1\<rparr>" by (auto dest: mint_id_step)
  with step.IH show ?case by (cases a; cases b; cases c) auto
qed simp

lemma mints_reachable: "mints a b \<Longrightarrow> reachable a \<Longrightarrow> reachable b"
  unfolding mints_def by (induction rule: rtranclp_induct) (auto intro: reachable.step minting)

definition untouched :: "host \<Rightarrow> tx_state \<Rightarrow> bool" where
  "untouched h s \<longleftrightarrow>
     mints (h_storage h) (h_storage s) \<and>
     length (h_trackers h) \<le> length (h_trackers s) \<and>
     (\<forall>n < length (h_trackers h). trk_value (h_trackers s ! n) = trk_value (h_trackers h ! n)) \<and>
     length (h_loaded h) \<le> length (h_loaded s) \<and>
     (\<forall>n < length (h_loaded h). h_loaded s ! n = h_loaded h ! n) \<and>
     (\<forall>i n. h_cache h i = Some n \<longrightarrow> h_cache s i = Some n)"

lemma fork_mint_mints: "keeps (\<lambda>fs. mints st (fs_storage fs)) fork_mint"
  by (rule keepsI) (auto simp: fork_mint_def split: sum.splits intro: mints_step)

lemma fork_copies_mints: "keeps (\<lambda>fs. mints st (fs_storage fs)) (prepare_fork_copies parent at child)"
proof -
  have "keeps (\<lambda>fs. mints st (fs_storage fs)) (fork_entry parent at)"
    by (auto simp: keeps_def fork_entry_def)
  moreover have "keeps (\<lambda>fs. mints st (fs_storage fs)) (collect_item at policy child r)" for at policy r
    unfolding collect_item_def Let_def by (intro keep_intros fork_mint_mints) (simp add: add_copy_def)
  ultimately show ?thesis
    unfolding prepare_fork_copies_def collect_copies_def by (intro keep_intros)
qed

lemma fork_copies_result:
  assumes "fork_copies edge child s = Some (r, t)" "mints st (h_storage s)"
  shows "\<exists>st'. t = s\<lparr>h_storage := st'\<rparr> \<and> mints st st'"
  using assms keepsD [OF fork_copies_mints, of _ _ _ "fork_start (h_storage s)"]
  by (auto simp: fork_copies_def fork_start_def split: option.splits)

lemma mint_result: "mint s = Some (r, t) \<Longrightarrow> mints st (h_storage s) \<Longrightarrow> \<exists>st'. t = s\<lparr>h_storage := st'\<rparr> \<and> mints st st'"
proof (cases "mint_id (h_storage s)")
  case (Inl e)
  assume "mint s = Some (r, t)" "mints st (h_storage s)"
  with Inl have "t = s\<lparr>h_storage := h_storage s\<rparr> \<and> mints st (h_storage s)" by (simp add: mint_def)
  then show ?thesis by blast
next
  case (Inr p)
  assume "mint s = Some (r, t)" "mints st (h_storage s)"
  with Inr show ?thesis by (auto simp: mint_def split: prod.splits intro: mints_step)
qed

lemma on_tracker_value:
  assumes "on_tracker n m s = Some (r, t)" "keeps_value m"
  shows "\<exists>u. t = s\<lparr>h_trackers := (h_trackers s)[n := u]\<rparr> \<and> trk_value u = trk_value (h_trackers s ! n)"
  using assms by (auto simp: on_tracker_def pon_def keeps_value_def split: prod.splits) (metis snd_conv)

lemma update_value: "trk_value u = trk_value (ts ! n) \<Longrightarrow> trk_value (ts[n := u] ! k) = trk_value (ts ! k)"
  by (cases "n = k"; cases "n < length ts") (simp_all add: list_update_beyond not_less)

text \<open>The operations that stage a task, for a predicate that their own steps preserve.\<close>

lemma keeps_tx_write:
  assumes "\<And>s. P s \<Longrightarrow> P (s\<lparr>tx_table_write := True\<rparr>)" "keeps P m"
  shows "keeps P (tx_write m)"
  unfolding tx_write_def assert_tx_open_def by (intro keep_intros assms)

lemma keeps_create_task:
  assumes "keeps P mint" "\<And>s. P s \<Longrightarrow> P (s\<lparr>tx_table_write := True\<rparr>)" "\<And>i f. keeps P (set_task_entry i f)"
  shows "keeps P (create_task td input options)"
  unfolding create_task_def require_conversation_def assert_tx_open_def by (intro keeps_tx_write keep_intros assms)

lemma keeps_set_task:
  assumes "\<And>s. P s \<Longrightarrow> P (s\<lparr>tx_table_write := True\<rparr>)" "\<And>i f. keeps P (set_task_entry i f)"
  shows "keeps P (set_task r)"
  unfolding set_task_def assert_tx_open_def by (intro keep_intros assms)

text \<open>A cold load, for any predicate that its steps preserve.\<close>

lemma keeps_load:
  assumes "\<And>v. keeps P (new_tracker v)" "\<And>s d. P s \<Longrightarrow> h_cache s (ld_address d) = None \<Longrightarrow>
      P (s\<lparr>h_loaded := h_loaded s @ [d], h_cache := (h_cache s)(ld_address d \<mapsto> length (h_loaded s))\<rparr>)"
  shows "keeps P (load d i a)"
proof
  fix s r t
  assume s: "P s" and run: "load d i a s = Some (r, t)"
  show "P t"
  proof (cases "h_cache s i")
    case (Some n)
    with run s show ?thesis by (simp add: load_def proc_simps)
  next
    case None
    let ?Q = "\<lambda>s. P s \<and> h_cache s i = None"
    have cold: "keeps ?Q (new_tracker v)" for v
      using assms(1) by (intro keeps_conj) (auto simp: keeps_def new_tracker_def proc_simps)
    have store: "P u" if "install \<lparr>ld_address = i, ld_record = x, ld_version = v, ld_tracker = n\<rparr> s = Some (q, u)" "?Q s"
      for x v n s q u
      using that assms(2) [of s "\<lparr>ld_address = i, ld_record = x, ld_version = v, ld_tracker = n\<rparr>"]
      by (auto simp: install_def proc_simps)
    from run None s show ?thesis
      by (auto simp: load_def proc_simps on_storage_def on_document_def pbind_Some
          split: sum.splits option.splits dest!: store keepsD [OF cold])
  qed
qed

interpretation untouched_frame: tx_core "untouched h" for h
proof
  show "untouched h t" if "untouched h s" "same_core s t" for s t
    using that by (auto simp: untouched_def same_core_def host.defs)
  show "keeps (untouched h) mint"
    by (rule keepsI) (auto simp: untouched_def dest!: mint_result)
  show "keeps (untouched h) (fork_copies edge child)" for edge child
    by (rule keepsI) (auto simp: untouched_def dest!: fork_copies_result)
  have tracker: "keeps (untouched h) (on_tracker n m)" if "keeps_value m" for n and m :: "'a tracker_op"
    by (rule keepsI) (auto simp: untouched_def update_value dest!: on_tracker_value [OF _ that])
  show "keeps (untouched h) (on_tracker n begin_change)" "keeps (untouched h) (on_tracker n (write_draft c ops))"
    "keeps (untouched h) (on_tracker n (prepare c))" "keeps (untouched h) (on_tracker n (abort_change c))" for n c ops
    by (rule tracker keeps_value_ops)+
  show new: "keeps (untouched h) (new_tracker v)" for v
    by (rule keepsI) (auto simp: untouched_def new_tracker_def proc_simps nth_append)
  show "keeps (untouched h) (load d key a)" for d key a
    by (rule keeps_load [OF new]) (auto simp: untouched_def nth_append)
  show task: "keeps (untouched h) (set_task_entry i f)" for i f
    unfolding set_task_entry_def by (rule keeps_pmod) (simp add: untouched_def)
  show "keeps (untouched h) (committed_task i)" for i
    unfolding committed_task_def by (intro keep_intros task)
  have flag: "untouched h (s\<lparr>tx_table_write := True\<rparr>)" if "untouched h s" for s
    using that by (simp add: untouched_def)
  show "keeps (untouched h) (create_task td input options)" for td input options
    by (rule keeps_create_task [OF _ flag task]) (rule keepsI, auto simp: untouched_def dest!: mint_result)
  show "keeps (untouched h) (set_task r)" for r
    by (rule keeps_set_task [OF flag task])
qed

section \<open>Failed commits\<close>

lemma untouched_refl: "untouched (host.truncate h) (new_transaction (host.truncate h))"
  by (simp add: untouched_def new_transaction_def host.defs tx_state.defs)

lemma untouched_settle:
  "keeps (untouched h) settle_success" "keeps (untouched h) settle_failure" "keeps (untouched h) discard"
  by (auto simp: discard_def untouched_def intro: untouched_frame.keeps_settle_success
      untouched_frame.keeps_settle_failure untouched_frame.keeps_abort)

lemma failed_transaction:
  assumes change: "callback change" and run: "run_transaction change t = Some (Ended (Inl e), u)" and t: "untouched h t"
  shows "untouched h u"
proof -
  note kept = keepsD [OF untouched_frame.callback_keeps [OF change]] keepsD [OF untouched_settle(1)]
    keepsD [OF untouched_settle(2)] keepsD [OF untouched_settle(3)]
  obtain r a where a: "change t = Some (r, a)" using run by (auto simp: run_transaction_def split: option.splits)
  with t have ua: "untouched h a" by (blast dest: kept)
  show ?thesis
  proof (cases r)
    case (Inl x)
    with run a ua show ?thesis by (auto simp: run_transaction_def dest: kept)
  next
    case (Inr x)
    with run a obtain q b where b: "settle_success a = Some (q, b)"
      by (auto simp: run_transaction_def split: option.splits)
    with ua have ub: "untouched h b" by (blast dest: kept)
    show ?thesis
    proof (cases q)
      case (Inl y)
      with run a Inr b ub show ?thesis by (simp add: run_transaction_def end_job_def)
    next
      case writes: (Inr ws)
      show ?thesis
      proof (cases ws)
        case Nil
        with run a Inr b writes show ?thesis by (auto simp: run_transaction_def)
      next
        case (Cons w v)
        with run a Inr b writes have "commit_writes x ws b = Some (Ended (Inl e), u)" by (simp add: run_transaction_def)
        then obtain y where "discard b = Some (y, u)"
          by (auto simp: commit_writes_def end_job_def split: sum.splits option.splits if_splits)
        with ub show ?thesis by (blast dest: kept)
      qed
    qed
  qed
qed

text \<open>A commit of a closing or poisoned Session changes nothing; otherwise its transaction runs.\<close>

lemma commit_refused:
  assumes "se_closing s \<or> se_poison s \<noteq> None" "commit_session change s = Some (r, t)"
  shows "t = s"
  using assms by (auto simp: commit_session_def assert_usable_def assert_healthy_def run_commit_def proc_simps rguard_def
      pthen_def pbind_def split: if_splits)

lemma commit_admitted:
  assumes "\<not> se_closing s" "se_poison s = None"
  shows "commit_session change s =
    (case run_transaction change (new_transaction (host.truncate s)) of
       None \<Rightarrow> None
     | Some (Ended r, t) \<Rightarrow> Some (r, with_host t s)
     | Some (Poisoned e, t) \<Rightarrow> Some (Inl e, (with_host t s)\<lparr>se_poison := Some e\<rparr>)
     | Some (Committed result seq ws changes, t) \<Rightarrow> Some (Inr result, publish seq ws changes (with_host t s)))"
  using assms by (simp add: commit_session_def assert_usable_def assert_healthy_def run_commit_def pthen_def pbind_def
      proc_apply)

definition leaves_no_trace :: "session \<Rightarrow> session \<Rightarrow> bool" where
  "leaves_no_trace s t \<longleftrightarrow>
     (\<exists>n \<ge> nextId (h_storage s). h_storage t = (h_storage s)\<lparr>nextId := n\<rparr>) \<and>
     se_published t = se_published s \<and> se_listeners t = se_listeners s \<and> se_closing t = se_closing s \<and>
     (\<forall>i n. h_cache s i = Some n \<longrightarrow> h_cache t i = Some n) \<and>
     (\<forall>n < length (h_loaded s). h_loaded t ! n = h_loaded s ! n) \<and>
     (\<forall>n < length (h_trackers s). trk_value (h_trackers t ! n) = trk_value (h_trackers s ! n))"

lemma failed_commit:
  assumes "callback change" "commit_session change s = Some (Inl e, t)" "se_poison t = None"
  shows "leaves_no_trace s t"
proof (cases "se_closing s \<or> se_poison s \<noteq> None")
  case True
  from commit_refused [OF this assms(2)] have "t = s" .
  then show ?thesis by (auto simp: leaves_no_trace_def intro!: exI [of _ "nextId (h_storage s)"])
next
  case False
  with assms(2,3) obtain u where
    run: "run_transaction change (new_transaction (host.truncate s)) = Some (Ended (Inl e), u)" and t: "t = with_host u s"
    by (auto simp: commit_admitted split: option.splits prod.splits commit_end.splits)
  from failed_transaction [OF assms(1) run untouched_refl] have "untouched (host.truncate s) u" .
  then show ?thesis
    by (auto simp: untouched_def leaves_no_trace_def t with_host_def host.defs dest!: mints_eq)
qed

text \<open>
  C4. A commit that throws (the callback, the validation, the storage's rejection of a document copy) and does
  not poison the Session leaves the storage as it was up to the ID counter, publishes nothing, keeps every
  cached document, and no cached value has changed, whatever the callback did to its drafts.
\<close>

theorem failed_commit_leaves_no_trace:
  assumes "callback change" "commit_session change s = Some (Inl e, t)" "se_poison t = None"
  shows "leaves_no_trace s t"
  using assms by (rule failed_commit)

theorem failed_commit_leaves_no_trace_witness:
  "\<exists>t. commit_session (pthen (create_conversation Ownerless) (pthrow CallbackError :: unit tx)) (create_session new_storage) =
       Some (Inl CallbackError, t) \<and> nextId (h_storage t) = 3 \<and> leaves_no_trace (create_session new_storage) t"
proof -
  let ?change = "pthen (create_conversation Ownerless) (pthrow CallbackError) :: unit tx"
  have change: "callback ?change" by (intro callback_intros)
  have "\<exists>t. commit_session ?change (create_session new_storage) = Some (Inl CallbackError, t) \<and>
      se_poison t = None \<and> nextId (h_storage t) = 3"
    by (simp add: commit_session_def assert_usable_def assert_healthy_def run_commit_def create_session_def
        run_transaction_def new_transaction_def host.defs tx_state.defs create_conversation_def stage_conversation_def
        tx_write_def assert_tx_open_def stage_owner_def mint_def mint_id_def assert_open_def new_storage_def
        max_safe_def settle_failure_def seal_def abort_changes_def drain_def entry_indexes_def with_host_def
        pthen_def pbind_def proc_apply rguard_def Let_def res_simps)
  then obtain t where t: "commit_session ?change (create_session new_storage) = Some (Inl CallbackError, t)"
    "se_poison t = None" "nextId (h_storage t) = 3" by blast
  from failed_commit_leaves_no_trace [OF change t(1,2)] t show ?thesis by blast
qed

end
