(* ===== verification/SessionRuns.thy ===== *)
theory SessionRuns
  imports SessionFailure
begin

text \<open>
  The Session as a state machine.  Its steps are the jobs of the mutation line and the synchronous calls:
  commits with arbitrary callbacks, snapshots, closing, subscriptions and unloading.  A step leaves the
  storage as it was up to minted IDs, or commits exactly the batch that the transaction settled with.
\<close>

section \<open>What a transaction does to the storage\<close>

lemma keeps_storage_adoption:
  "keeps (\<lambda>s. h_storage s = st) (adopt_all seq es)"
proof -
  have on: "keeps (\<lambda>s. h_storage s = st) (on_tracker n m)" for n and m :: "'a tracker_op"
    by (rule keepsI) (auto simp: on_tracker_def pon_def split: prod.splits)
  have ev: "keeps (\<lambda>s. h_storage s = st) (evict i r)" for i r
    unfolding evict_def by (rule keeps_pmod) (auto split: option.splits)
  have ins: "keeps (\<lambda>s. h_storage s = st) (install d)" for d
    unfolding install_def by (intro keep_intros) simp
  have "keeps (\<lambda>s. h_storage s = st) (adopt_entry seq e)" for e
    unfolding adopt_entry_def adopt_created_def adopt_loaded_def adopt_retired_def Let_def
    by (intro keep_intros on ev ins) simp_all
  then show ?thesis by (induction es) (simp_all add: keep_intros)
qed

lemma adoption_storage: "adopt_documents seq s = Some (r, t) \<Longrightarrow> h_storage t = h_storage s"
  using keepsD [OF keeps_storage_adoption [where st = "h_storage s"]] by (auto simp: adopt_documents_def proc_simps)

text \<open>The storage afterwards: IDs were minted, and possibly one settled batch was committed.\<close>

lemma transaction_storage:
  assumes change: "callback change" and run: "run_transaction change t = Some (r, u)" and t: "untouched h t"
  shows "mints (h_storage h) (h_storage u) \<or>
    (\<exists>a b ws seq. tx_step\<^sup>*\<^sup>* t a \<and> settle_success a = Some (Inr ws, b) \<and> untouched h b \<and>
       MemoryStorage.commit (h_storage b) ws = Inr (seq, h_storage u))"
proof -
  note kept = keepsD [OF untouched_settle(1)] keepsD [OF untouched_settle(2)] keepsD [OF untouched_settle(3)]
  have mints: "untouched h s \<Longrightarrow> mints (h_storage h) (h_storage s)" for s by (simp add: untouched_def)
  obtain r' a where a: "change t = Some (r', a)" using run by (auto simp: run_transaction_def split: option.splits)
  with change have steps: "tx_step\<^sup>*\<^sup>* t a" by (auto simp: callback_def)
  from untouched_frame.steps_keep [OF steps t] have ua: "untouched h a" .
  show ?thesis
  proof (cases r')
    case (Inl e)
    with run a have "\<exists>y. settle_failure a = Some (y, u)" by (auto simp: run_transaction_def)
    with ua show ?thesis by (blast dest: kept mints)
  next
    case (Inr x)
    with run a obtain q b where b: "settle_success a = Some (q, b)"
      by (auto simp: run_transaction_def split: option.splits)
    with ua have ub: "untouched h b" by (blast dest: kept)
    show ?thesis
    proof (cases q)
      case (Inl y)
      with run a Inr b ub show ?thesis by (auto simp: run_transaction_def end_job_def dest: mints)
    next
      case writes: (Inr ws)
      show ?thesis
      proof (cases ws)
        case Nil
        with run a Inr b writes have "\<exists>y. discard b = Some (y, u)" by (auto simp: run_transaction_def)
        with ub show ?thesis by (blast dest: kept mints)
      next
        case (Cons w v)
        with run a Inr b writes have c: "commit_writes x ws b = Some (r, u)" by (simp add: run_transaction_def)
        show ?thesis
        proof (cases "MemoryStorage.commit (h_storage b) ws")
          case (Inl e)
          with c have "\<exists>y. discard b = Some (y, u)" by (auto simp: commit_writes_def end_job_def split: option.splits)
          with ub show ?thesis by (blast dest: kept mints)
        next
          case (Inr p)
          obtain seq st where p: "p = (seq, st)" by (cases p)
          with Inr c obtain y where "adopt_documents seq (b\<lparr>h_storage := st\<rparr>) = Some (y, u)"
            by (auto simp: commit_writes_def end_job_def split: option.splits sum.splits)
          from adoption_storage [OF this] have "h_storage u = st" by simp
          with Inr p steps b writes ub show ?thesis by blast
        qed
      qed
    qed
  qed
qed

section \<open>Steps of the Session\<close>

text \<open>The result of a callback is a JavaScript value; it does not touch the state.\<close>

inductive session_step :: "session \<Rightarrow> session \<Rightarrow> bool" where
  committing: "callback change \<Longrightarrow> commit_session (change :: jsv tx) s = Some (r, t) \<Longrightarrow> session_step s t"
| reading: "snapshot d args s = Some (r, t) \<Longrightarrow> session_step s t"
| reading_as_of: "snapshot_as_of d args s = Some (r, t) \<Longrightarrow> session_step s t"
| closing: "close_session s = Some (r, t) \<Longrightarrow> session_step s t"
| subscribing: "subscribe_commits l s = Some (r, t) \<Longrightarrow> session_step s t"
| unsubscribing: "unsubscribe_commits l s = Some (r, t) \<Longrightarrow> session_step s t"
| unloading: "unload_documents s = Some (r, t) \<Longrightarrow> session_step s t"

inductive_cases session_stepE: "session_step s t"

lemma commit_session_storage:
  assumes "callback change" "commit_session change s = Some (r, t)"
  shows "mints (h_storage s) (h_storage t) \<or>
    (\<exists>a b ws seq. tx_step\<^sup>*\<^sup>* (new_transaction (host.truncate s)) a \<and> settle_success a = Some (Inr ws, b) \<and>
       untouched (host.truncate s) b \<and> MemoryStorage.commit (h_storage b) ws = Inr (seq, h_storage t))"
proof (cases "se_closing s \<or> se_poison s \<noteq> None")
  case True
  from commit_refused [OF this assms(2)] have "t = s" .
  then show ?thesis by simp
next
  case False
  then have admitted: "commit_session change s = (case run_transaction change (new_transaction (host.truncate s)) of
       None \<Rightarrow> None
     | Some (Ended r, t) \<Rightarrow> Some (r, with_host t s)
     | Some (Poisoned e, t) \<Rightarrow> Some (Inl e, (with_host t s)\<lparr>se_poison := Some e\<rparr>)
     | Some (Committed result seq ws changes, t) \<Rightarrow> Some (Inr result, publish seq ws changes (with_host t s)))"
    by (simp add: commit_admitted)
  with assms(2) admitted obtain q u where run: "run_transaction change (new_transaction (host.truncate s)) = Some (q, u)"
    by (auto split: option.splits)
  with admitted assms(2) have "h_storage t = h_storage u"
    by (cases q) (auto simp: publish_def with_host_def)
  with transaction_storage [OF assms(1) run untouched_refl] show ?thesis by (simp add: host.defs)
qed

lemma snapshot_storage:
  "keeps (\<lambda>s. h_storage s = st) (snapshot d args)" "keeps (\<lambda>s. h_storage s = st) (snapshot_as_of d args)"
proof -
  have new: "keeps (\<lambda>s. h_storage s = st) (new_tracker v)" for v
    unfolding new_tracker_def by (intro keep_intros) simp
  have "keeps (\<lambda>s. h_storage s = st) (load d i a)" for d i a
    by (rule keeps_load [OF new]) simp
  then have host: "keeps (\<lambda>s. h_storage s = st) (on_host (load d i a))" for d i a
    by (fastforce simp: on_host_def with_host_def new_transaction_def host.defs intro!: keepsI dest: keepsD
        split: option.splits)
  have read: "keeps (\<lambda>s. h_storage s = st) (\<lambda>s. map_option (\<lambda>x. (map_sum TxStorage id x, s)) (read_visible_entry (h_storage s) c at))"
    for c at by (rule keepsI) auto
  show "keeps (\<lambda>s. h_storage s = st) (snapshot d args)" "keeps (\<lambda>s. h_storage s = st) (snapshot_as_of d args)"
    unfolding snapshot_def snapshot_as_of_def assert_usable_def assert_healthy_def
    by (intro keep_intros host read)+
qed

lemma session_step_storage:
  assumes "session_step s t"
  shows "mints (h_storage s) (h_storage t) \<or> h_storage t = close_storage (h_storage s) \<or>
    (\<exists>a b ws seq. tx_step\<^sup>*\<^sup>* (new_transaction (host.truncate s)) a \<and> settle_success a = Some (Inr ws, b) \<and>
       untouched (host.truncate s) b \<and> MemoryStorage.commit (h_storage b) ws = Inr (seq, h_storage t))"
  using assms
proof (elim session_stepE)
  fix change :: "jsv tx" and r
  assume "callback change" "commit_session change s = Some (r, t)"
  from commit_session_storage [OF this] show ?thesis by blast
next
  fix d args r
  assume "snapshot d args s = Some (r, t)"
  from keepsD [OF snapshot_storage(1) this] show ?thesis by simp
next
  fix d args r
  assume "snapshot_as_of d args s = Some (r, t)"
  from keepsD [OF snapshot_storage(2) this] show ?thesis by simp
qed (auto simp: close_session_def subscribe_commits_def unsubscribe_commits_def unload_documents_def proc_simps
    split: if_splits)

lemma session_step_reachable:
  assumes "session_step s t" "reachable (h_storage s)"
  shows "reachable (h_storage t)"
  using session_step_storage [OF assms(1)] assms(2)
  by (auto simp: untouched_def host.defs intro: mints_reachable reachable.step [OF _ storage_step.closing]
      reachable.step [OF _ storage_step.committing])

end
