(* ===== verification/MemoryEffects.thy ===== *)
theory MemoryEffects
  imports MemoryReads
begin

text \<open>
  What a commit of \<open>MemoryStorage\<close> (\<open>packages/durable/src/storage/memory.ts\<close>) does to the tasks and to the
  live documents, read off the writes of the batch.
\<close>

section \<open>Tasks\<close>

fun written_task :: "int \<Rightarrow> storage_write \<Rightarrow> task_record option" where
  "written_task i (WTask t) = (if task_id t = i then Some t else None)"
| "written_task i w = None"

definition task_after :: "int \<Rightarrow> storage_write list \<Rightarrow> task_record option \<Rightarrow> task_record option" where
  "task_after i ws old = fold (\<lambda>w t. case written_task i w of None \<Rightarrow> t | Some r \<Rightarrow> Some r) ws old"

lemma task_after_simps [simp]:
  "task_after i [] old = old"
  "task_after i (w # ws) old = task_after i ws (case written_task i w of None \<Rightarrow> old | Some r \<Rightarrow> Some r)"
  by (simp_all add: task_after_def)

lemma task_after_cases:
  "task_after i ws old = old \<and> (\<forall>t. WTask t \<in> set ws \<longrightarrow> task_id t \<noteq> i) \<or>
   (\<exists>t. WTask t \<in> set ws \<and> task_id t = i \<and> task_after i ws old = Some t)"
proof (induction ws arbitrary: old)
  case (Cons w ws)
  show ?case
  proof (cases "written_task i w")
    case None
    then have "w \<noteq> WTask t" if "task_id t = i" for t using that by auto
    with Cons.IH [of old] None show ?thesis by auto
  next
    case (Some r)
    then have "w = WTask r" "task_id r = i" by (cases w; auto split: if_splits)+
    with Cons.IH [of "Some r"] Some show ?thesis by auto
  qed
qed simp

lemma apply_write_tasks:
  "apply_write seq w st = Inr st' \<Longrightarrow> tasks st' i = (case written_task i w of None \<Rightarrow> tasks st i | Some r \<Rightarrow> Some r)"
  by (cases w) (auto simp: apply_conversation_frame apply_entry_frame apply_task_frame apply_submission_frame)

lemma apply_writes_tasks: "rfold (apply_write seq) ws st = Inr st' \<Longrightarrow> tasks st' i = task_after i ws (tasks st i)"
proof (induction ws arbitrary: st)
  case (Cons w ws)
  then obtain s where "apply_write seq w st = Inr s" "rfold (apply_write seq) ws s = Inr st'" by (auto simp: res_simps)
  with Cons.IH [of s] apply_write_tasks [of seq w st s i] show ?case by simp
qed simp

lemma resolved_tasks:
  assumes "resolve_document_copies st ws = Inr ws'"
  shows "task_after i ws' old = task_after i ws old"
proof -
  have one: "written_task i w' = written_task i w" if "resolve_write st C w = Inr w'" for C w w'
    using that by (cases w) (auto simp: resolve_copy_def Let_def res_simps map_sum_def split: sum.splits if_splits option.splits)
  have "task_after i ys old = task_after i xs old" if "rmap (resolve_write st C) xs = Inr ys" for C xs ys
    using that
  proof (induction xs arbitrary: ys old)
    case (Cons x xs)
    then obtain y zs where "resolve_write st C x = Inr y" "rmap (resolve_write st C) xs = Inr zs" "ys = y # zs"
      by (auto simp: res_simps)
    with Cons.IH [OF this(2)] one [OF this(1)] show ?case by simp
  qed simp
  with assms show ?thesis by (auto simp: resolve_document_copies_def split: if_splits)
qed

lemma commit_tasks:
  assumes "storage_inv st" "commit st ws = Inr (seq, st')"
  shows "tasks st' i = task_after i ws (tasks st i)"
proof -
  obtain pc where pc: "prepare_commit st ws (nextSeq st) = Inr pc" by (rule commit_cases [OF assms])
  obtain st1 st2 where st: "apply_prepared pc st = Inr (pc\<lparr>pc_applied := True\<rparr>, st2)"
    "rfold (apply_write (nextSeq st)) (pc_writes pc) st = Inr st1" "same_records (st1\<lparr>nextSeq := nextSeq st + 1\<rparr>) st2"
    using apply_prepared_ok [OF assms(1) pc] by metis
  from assms(2) pc st(1) have "st' = st2" by (simp add: commit_def)
  moreover have "tasks st2 = tasks st1" using st(3) by (simp add: same_records_def)
  moreover have "resolve_document_copies st ws = Inr (pc_writes pc)" by (rule prepare_commit_steps [OF pc])
  ultimately show ?thesis using apply_writes_tasks [OF st(2)] resolved_tasks by simp
qed

section \<open>Live documents\<close>

fun created_record :: "storage_write \<Rightarrow> document_create option" where
  "created_record (WDocCreate r v x) = Some r"
| "created_record (WDocCopy r i at) = Some r"
| "created_record w = None"

lemma add_actions_retired:
  assumes "rfold add_action ws acts = Inr acts'" "WDocRetire i \<in> set ws \<or> act_retire (action_of acts i)"
  shows "act_retire (action_of acts' i)"
  using assms
proof (induction ws arbitrary: acts)
  case (Cons w ws)
  from Cons.prems(1) obtain a where a: "add_action w acts = Inr a" "rfold add_action ws a = Inr acts'"
    by (auto simp: res_simps)
  from Cons.prems(2) add_action_effect(1) [OF a(1), of i]
  have "WDocRetire i \<in> set ws \<or> act_retire (action_of a i)"
    by (auto split: storage_write.splits if_splits)
  with Cons.IH [OF a(2)] show ?case .
qed simp

lemma resolved_creates:
  assumes "resolve_document_copies st ws = Inr ws'" "WDocCreate r v x \<in> set ws'"
  shows "\<exists>w \<in> set ws. created_record w = Some r"
proof -
  have one: "created_record w = Some r" if "resolve_write st C w = Inr (WDocCreate r v x)" for C w
    using that by (cases w) (auto simp: resolve_copy_def Let_def res_simps map_sum_def split: sum.splits if_splits option.splits)
  have "\<exists>w \<in> set xs. created_record w = Some r" if "rmap (resolve_write st C) xs = Inr ys" "WDocCreate r v x \<in> set ys" for C xs ys
    using that
  proof (induction xs arbitrary: ys)
    case (Cons u us)
    then obtain y zs where "resolve_write st C u = Inr y" "rmap (resolve_write st C) us = Inr zs" "ys = y # zs"
      by (auto simp: res_simps)
    with Cons.IH [OF this(2)] Cons.prems(2) one [of C u] show ?case by auto
  qed simp
  with assms show ?thesis by (force simp: resolve_document_copies_def split: if_splits)
qed

lemma commit_live:
  assumes "storage_inv st" "commit st ws = Inr (seq, st')" "documents st' i = Some d" "alive d"
  shows "WDocRetire i \<notin> set ws" and
    "(\<exists>e. documents st i = Some e \<and> alive e \<and> doc_scope (ds_record e) = doc_scope (ds_record d)) \<or>
     (\<exists>w \<in> set ws. \<exists>r. created_record w = Some r \<and> doc_id r = i \<and> doc_scope r = doc_scope (ds_record d))"
proof -
  obtain pc where pc: "prepare_commit st ws (nextSeq st) = Inr pc" "seq = nextSeq st"
    "documents st' = documents_after seq (pc_actions pc) (documents st)"
    "\<And>i a. map_of (pc_actions pc) i = Some a \<Longrightarrow> action_fits seq (documents st i) i a"
    using commit_documents [OF assms(1,2)] by metis
  obtain ws' where ws': "resolve_document_copies st ws = Inr ws'" "prepare_document_actions ws' = Inr (pc_actions pc)"
    using pc(1) by (auto simp: prepare_commit_def res_simps)
  have acts: "actions_of (set ws') (pc_actions pc)" by (rule prepare_actions_of [OF ws'(2)])
  show "WDocRetire i \<notin> set ws"
  proof
    assume "WDocRetire i \<in> set ws"
    then have "WDocRetire i \<in> set ws'" by (rule resolved_writes(1) [OF ws'(1)]) simp
    with add_actions_retired [OF ws'(2) [unfolded prepare_document_actions_def]] have
      "act_retire (action_of (pc_actions pc) i)" by blast
    then obtain a where a: "map_of (pc_actions pc) i = Some a" "act_retire a"
      by (auto simp: action_of_def new_action_def split: option.splits)
    with assms(3,4) have "alive (final_document seq a (documents st i))" by (simp add: pc(3) documents_after_def)
    with pc(4) [OF a(1)] a(2) show False
      by (cases "documents st i") (auto simp: final_create(4) final_change(4))
  qed
  show "(\<exists>e. documents st i = Some e \<and> alive e \<and> doc_scope (ds_record e) = doc_scope (ds_record d)) \<or>
     (\<exists>w \<in> set ws. \<exists>r. created_record w = Some r \<and> doc_id r = i \<and> doc_scope r = doc_scope (ds_record d))"
  proof (cases "map_of (pc_actions pc) i")
    case None
    with assms(3,4) show ?thesis by (simp add: pc(3) documents_after_def)
  next
    case (Some a)
    with assms(3) have d: "d = final_document seq a (documents st i)" by (simp add: pc(3) documents_after_def)
    note fits = pc(4) [OF Some]
    show ?thesis
    proof (cases "act_create a")
      case None
      with fits d assms(4) show ?thesis by (cases "documents st i") (auto simp: final_change)
    next
      case (Some r)
      with acts \<open>map_of (pc_actions pc) i = Some a\<close> obtain v x where "doc_id r = i" "WDocCreate r v x \<in> set ws'"
        by (fastforce simp: actions_of_def)
      with resolved_creates [OF ws'(1)] d Some show ?thesis by (fastforce simp: final_create(2))
    qed
  qed
qed

text \<open>Every document of the new state was there before or is created by the batch.\<close>

lemma commit_known:
  assumes "storage_inv st" "commit st ws = Inr (seq, st')" "documents st' i = Some d"
  shows "documents st i \<noteq> None \<or> (\<exists>w \<in> set ws. \<exists>r. created_record w = Some r \<and> doc_id r = i)"
proof (rule disjCI)
  assume none: "\<not> (\<exists>w \<in> set ws. \<exists>r. created_record w = Some r \<and> doc_id r = i)"
  obtain pc where pc: "prepare_commit st ws (nextSeq st) = Inr pc"
    "documents st' = documents_after seq (pc_actions pc) (documents st)"
    "\<And>i a. map_of (pc_actions pc) i = Some a \<Longrightarrow> action_fits seq (documents st i) i a"
    using commit_documents [OF assms(1,2)] by metis
  from pc(1) obtain ws' where ws': "resolve_document_copies st ws = Inr ws'" "prepare_document_actions ws' = Inr (pc_actions pc)"
    by (auto simp: prepare_commit_def res_simps)
  show "documents st i \<noteq> None"
  proof (cases "map_of (pc_actions pc) i")
    case None
    with assms(3) show ?thesis by (simp add: pc(2) documents_after_def)
  next
    case (Some a)
    show ?thesis
    proof
      assume "documents st i = None"
      with pc(3) [OF Some] obtain r where r: "act_create a = Some r" "doc_id r = i" by auto
      then obtain v x where "WDocCreate r v x \<in> set ws'"
        using prepare_actions_of [OF ws'(2)] Some unfolding actions_of_def by metis
      from resolved_creates [OF ws'(1) this] none r(2) show False by blast
    qed
  qed
qed

end
