(* ===== verification/SessionTasks.thy ===== *)
theory SessionTasks
  imports SessionRuns MemoryEffects
begin

text \<open>
  The tasks of a Session.  A transaction stages a new task under a fresh ID and replaces only tasks that
  exist, are not terminal and stay in their conversation, whatever the callback does; so the tasks of a
  Session only move forward, and a terminal one stays as it is.
\<close>

section \<open>Staged tasks\<close>

definition task_change_ok :: "storage \<Rightarrow> task_record \<Rightarrow> bool" where
  "task_change_ok st r \<longleftrightarrow>
     (\<forall>c. tasks st (task_id r) = Some c \<longrightarrow> stored_status c \<noteq> StatusTerminal \<and> task_conversation c = task_conversation r)"

definition task_good :: "storage \<Rightarrow> int \<Rightarrow> transaction_task \<Rightarrow> bool" where
  "task_good st i x \<longleftrightarrow>
     (\<forall>m. tt_committed x = Some (Inr m) \<longrightarrow> m = tasks st i) \<and>
     (\<forall>k r. tt_write x = Some (k, r) \<longrightarrow> task_id r = i \<and> (k = CreatesTask \<longrightarrow> tasks st i = None))"

definition staged :: "storage \<Rightarrow> tx_state \<Rightarrow> bool" where
  "staged st s \<longleftrightarrow> storage_inv st \<and> mints st (h_storage s) \<and> late_writes s = [] \<and>
     distinct (map fst (tx_tasks s)) \<and> (\<forall>i. task_good st i (task_of i s))"

lemma task_good_new [simp]: "task_good st i new_task"
  by (simp add: task_good_def new_task_def)

lemma task_of_update: "task_of j (s\<lparr>tx_tasks := AList.update i x (tx_tasks s)\<rparr>) = (if j = i then x else task_of j s)"
  by (simp add: task_of_def update_conv')

lemma mints_tasks: "mints st st' \<Longrightarrow> tasks st' = tasks st"
  by (drule mints_eq) (metis storage.ext_inject storage.surjective storage.update_convs(18))

lemma staged_update:
  "staged st s \<Longrightarrow> task_good st i x \<Longrightarrow> staged st (s\<lparr>tx_tasks := AList.update i x (tx_tasks s)\<rparr>)"
  by (auto simp: staged_def task_of_update distinct_update)

lemma staged_task: "staged st s \<Longrightarrow> task_good st i (task_of i s)"
  by (simp add: staged_def)

lemma staged_set_task:
  assumes "\<And>x. task_good st i x \<Longrightarrow> task_good st i (f x)"
  shows "keeps (staged st) (set_task_entry i f)"
  unfolding set_task_entry_def by (rule keeps_pmod) (rule staged_update, assumption, rule assms, rule staged_task)

lemma staged_mint: "keeps (staged st) mint"
  by (rule keepsI) (auto simp: staged_def task_of_def dest!: mint_result)

lemma minted_free:
  assumes "storage_inv st" "mints st (h_storage s)" "mint s = Some (Inr i, t)"
  shows "tasks st i = None"
proof -
  have "nextId st \<le> i" using mints_eq [OF assms(2)] assms(3) mint_id_step [of "h_storage s" i]
    by (auto simp: mint_def split: sum.splits)
  with assms(1) show ?thesis
    by (metis in_table.simps(3) storage_inv_working working_inv_def in_table_type typed_below not_le option.exhaust)
qed

lemma copied_task: "on_copy (copy_task t) s = Some (Inr r, u) \<Longrightarrow> task_id r = task_id t"
  by (auto simp: on_copy_def proc_simps copy_task_def res_simps map_sum_def split: sum.splits)

lemma keeps_mint_bind:
  assumes "\<And>i. tasks st i = None \<Longrightarrow> keeps (staged st) (f i)"
  shows "keeps (staged st) (pbind mint f)"
  by (rule keeps_bind_fact [OF staged_mint _ assms]) (auto simp: staged_def intro: minted_free)

lemma keeps_copy_bind:
  assumes "\<And>r. task_id r = task_id t \<Longrightarrow> keeps P (f r)"
  shows "keeps P (pbind (on_copy (copy_task t)) f)"
  by (rule keeps_bind_fact [OF _ copied_task assms]) (auto intro: keep_intros)

lemma staged_committed: "keeps (staged st) (committed_task i)"
proof (rule keepsI)
  fix s r t
  assume s: "staged st s" and run: "committed_task i s = Some (r, t)"
  let ?x = "(task_of i s)\<lparr>tt_committed := Some (map_sum TxStorage id (read_task (h_storage s) i))\<rparr>"
  from s have "task_good st i ?x"
    by (auto simp: task_good_def staged_def read_task_def map_sum_def mints_tasks res_simps split: sum.splits)
  with s have "staged st (s\<lparr>tx_tasks := AList.update i ?x (tx_tasks s)\<rparr>)" by (rule staged_update)
  with run s staged_update [OF s staged_task [OF s]] show "staged st t"
    by (auto simp: committed_task_def set_task_entry_def proc_simps task_of_update split: option.splits)
qed

lemma committed_value:
  assumes "staged st s" "committed_task i s = Some (Inr m, t)"
  shows "m = tasks st i"
proof (cases "tt_committed (task_of i s)")
  case None
  with assms show ?thesis
    by (auto simp: committed_task_def set_task_entry_def proc_simps task_of_update read_task_def map_sum_def res_simps
        staged_def mints_tasks split: sum.splits)
next
  case (Some q)
  with assms have "q = Inr m" by (simp add: committed_task_def set_task_entry_def proc_simps task_of_update)
  with Some assms(1) show ?thesis by (auto simp: staged_def task_good_def)
qed

lemma task_good_create:
  "tasks st i = None \<Longrightarrow> task_id r = i \<Longrightarrow> task_good st i (new_task\<lparr>tt_write := Some (CreatesTask, r)\<rparr>)"
  by (simp add: task_good_def new_task_def)

lemma task_good_replace:
  assumes "task_good st i x" "task_id r = i"
  shows "task_good st i (x\<lparr>tt_write := Some (if map_option fst (tt_write x) = Some CreatesTask then CreatesTask else ReplacesTask, r)\<rparr>)"
  using assms by (auto simp: task_good_def split: if_splits)

interpretation staged_frame: tx_core "staged st" for st
proof
  show core: "staged st t" if "staged st s" "same_core s t" for s t
    using that by (auto simp: staged_def same_core_def host.defs task_of_def)
  have tracker: "keeps (staged st) (on_tracker n m)" for n and m :: "'a tracker_op"
    by (rule keepsI) (auto simp: on_tracker_def pon_def staged_def task_of_def split: prod.splits)
  show "keeps (staged st) (on_tracker n begin_change)" "keeps (staged st) (on_tracker n (write_draft c ops))"
    "keeps (staged st) (on_tracker n (prepare c))" "keeps (staged st) (on_tracker n (abort_change c))" for n c ops
    by (rule tracker)+
  show "keeps (staged st) (set_task_entry i f)"
    if "\<And>x. tt_committed (f x) = tt_committed x \<and> tt_write (f x) = tt_write x" for i f
    using that by (intro staged_set_task) (simp add: task_good_def)
  show "keeps (staged st) (committed_task i)" for i by (rule staged_committed)
  show "keeps (staged st) mint" by (rule staged_mint)
  show "keeps (staged st) (fork_copies edge child)" for edge child
    by (rule keepsI) (auto simp: staged_def task_of_def dest!: fork_copies_result)
  show new: "keeps (staged st) (new_tracker v)" for v
    by (rule keepsI) (auto simp: new_tracker_def proc_simps staged_def task_of_def)
  show "keeps (staged st) (load d key a)" for d key a
    by (rule keeps_load [OF new]) (simp add: staged_def task_of_def)
  have flag: "keeps (staged st) (pmod (tx_table_write_update (\<lambda>_. True)))"
    by (rule keeps_pmod) (simp add: staged_def task_of_def)
  show "keeps (staged st) (create_task td input options)" for td input options
    unfolding create_task_def tx_write_def require_conversation_def assert_tx_open_def
    by (rule flag keeps_mint_bind keeps_copy_bind staged_set_task task_good_create keep_intros | assumption | simp)+
  show "keeps (staged st) (set_task r)" for r
    unfolding set_task_def assert_tx_open_def
    by (rule flag keeps_copy_bind staged_set_task task_good_replace keep_intros | assumption)+
qed

section \<open>Validated tasks\<close>

definition valid_tasks :: "storage \<Rightarrow> tx_state \<Rightarrow> bool" where
  "valid_tasks st s \<longleftrightarrow> staged st s \<and> (\<forall>i k r. tt_write (task_of i s) = Some (k, r) \<longrightarrow> task_change_ok st r)"

definition batch_ok :: "storage \<Rightarrow> tx_state \<Rightarrow> bool" where
  "batch_ok st s \<longleftrightarrow> mints st (h_storage s) \<and> (\<forall>r. WTask r \<in> set (tx_writes s) \<longrightarrow> task_change_ok st r)"

definition writes_are :: "(int \<Rightarrow> (task_write_kind \<times> task_record) option) \<Rightarrow> tx_state \<Rightarrow> bool" where
  "writes_are W s \<longleftrightarrow> (\<forall>i. tt_write (task_of i s) = W i)"

lemma writes_set_task: "(\<And>x. tt_write (f x) = tt_write x) \<Longrightarrow> keeps (writes_are W) (set_task_entry i f)"
  unfolding set_task_entry_def by (rule keeps_pmod) (simp add: writes_are_def task_of_update)

lemma writes_committed: "keeps (writes_are W) (committed_task i)"
  unfolding committed_task_def by (intro keep_intros writes_set_task) simp_all

interpretation writes_frame: tx_quiet "writes_are W" for W
proof
  show "writes_are W t" if "writes_are W s" "quiet s t" for s t
    using that by (auto simp: writes_are_def quiet_def same_core_def task_of_def)
  have tracker: "keeps (writes_are W) (on_tracker n m)" for n and m :: "'a tracker_op"
    by (rule keepsI) (auto simp: on_tracker_def pon_def writes_are_def task_of_def split: prod.splits)
  show "keeps (writes_are W) (on_tracker n begin_change)" "keeps (writes_are W) (on_tracker n (write_draft c ops))"
    "keeps (writes_are W) (on_tracker n (prepare c))" "keeps (writes_are W) (on_tracker n (abort_change c))" for n c ops
    by (rule tracker)+
qed (intro writes_set_task writes_committed; simp)+

interpretation valid_frame: tx_quiet "valid_tasks st" for st
proof -
  have both: "keeps (valid_tasks st) m" if "keeps (staged st) m" "\<And>W. keeps (writes_are W) m" for m :: "'a tx"
  proof
    fix s r t
    assume s: "valid_tasks st s" and run: "m s = Some (r, t)"
    from keepsD [OF that(1) run] s have "staged st t" by (simp add: valid_tasks_def)
    moreover from keepsD [OF that(2) [of "\<lambda>i. tt_write (task_of i s)"] run]
    have "tt_write (task_of i t) = tt_write (task_of i s)" for i by (simp add: writes_are_def)
    ultimately show "valid_tasks st t" using s by (simp add: valid_tasks_def)
  qed
  show "tx_quiet (valid_tasks st)"
  proof
    show "valid_tasks st t" if "valid_tasks st s" "quiet s t" for s t
      using that staged_frame.quiet [of st s t] by (auto simp: valid_tasks_def quiet_def same_core_def task_of_def)
  qed (intro both staged_frame.tracker staged_frame.touch staged_frame.committed writes_frame.tracker
      writes_frame.touch writes_frame.committed; simp)+
qed

definition replaceable :: "storage \<Rightarrow> int \<Rightarrow> task_record \<Rightarrow> bool" where
  "replaceable st i r \<longleftrightarrow>
     (\<exists>c. tasks st i = Some c \<and> stored_status c \<noteq> StatusTerminal \<and> task_conversation c = task_conversation r)"

lemma validated_replacement:
  assumes "staged st s" "validate_task (i, x) s = Some (Inr u, t)" "tt_write x = Some (ReplacesTask, r)"
  shows "replaceable st i r"
proof -
  from assms(2,3) obtain m v where "committed_task i s = Some (Inr m, v)"
    "(case m of None \<Rightarrow> pthrow (TaskMissing i) | Some c \<Rightarrow>
       if stored_status c = StatusTerminal then pthrow (TaskAlreadyTerminal i)
       else if task_conversation c \<noteq> task_conversation r then pthrow (TaskMoved i) else pret ()) v = Some (Inr u, t)"
    by (auto simp: validate_task_def pbind_Inr)
  with committed_value [OF assms(1)] show ?thesis
    by (auto simp: replaceable_def proc_apply split: option.splits if_splits)
qed

lemma validate_list:
  assumes "staged st s" "peach validate_task ps s = Some (Inr u, t)" "(i, x) \<in> set ps" "tt_write x = Some (ReplacesTask, r)"
  shows "replaceable st i r"
  using assms(1-3)
proof (induction ps arbitrary: s)
  case (Cons p ps)
  from Cons.prems(2) obtain v m where v: "validate_task p s = Some (Inr v, m)" "peach validate_task ps m = Some (Inr u, t)"
    by (auto simp: pthen_Inr)
  have "staged st m" using keepsD [OF staged_frame.keeps_validation(3) v(1) Cons.prems(1)] .
  with Cons.IH [OF this v(2)] Cons.prems v(1) assms(4) show ?case by (auto intro: validated_replacement)
qed simp

lemma validate_tasks_valid:
  assumes "staged st s" "validate_tasks s = Some (Inr u, t)"
  shows "valid_tasks st t"
proof -
  from assms(2) have run: "peach validate_task (tx_tasks s) s = Some (Inr u, t)" by (simp add: validate_tasks_def proc_simps)
  have t: "staged st t" using keepsD [OF keeps_each [OF staged_frame.keeps_validation(3)] run assms(1)] .
  have "task_change_ok st r" if "tt_write (task_of i t) = Some (k, r)" for i k r
  proof -
    have "tt_write (task_of i t) = tt_write (task_of i s)"
      using keepsD [OF keeps_each [OF writes_frame.keeps_validation(3)] run, of "\<lambda>i. tt_write (task_of i s)"]
      by (simp add: writes_are_def)
    with that have w: "tt_write (task_of i s) = Some (k, r)" by simp
    then have "map_of (tx_tasks s) i = Some (task_of i s)" by (auto simp: task_of_def new_task_def split: option.splits)
    then have mem: "(i, task_of i s) \<in> set (tx_tasks s)" by (rule map_of_SomeD)
    have i: "task_id r = i" "k = CreatesTask \<longrightarrow> tasks st i = None"
      using staged_task [OF assms(1), of i] w by (auto simp: task_good_def)
    show ?thesis
    proof (cases k)
      case CreatesTask
      with i show ?thesis by (simp add: task_change_ok_def)
    next
      case ReplacesTask
      from validate_list [OF assms(1) run mem w [unfolded ReplacesTask]] i(1) show ?thesis
        by (auto simp: task_change_ok_def replaceable_def)
    qed
  qed
  with t show ?thesis by (simp add: valid_tasks_def)
qed

lemma valid_batch: "valid_tasks st s \<Longrightarrow> batch_ok st (s\<lparr>tx_writes := tx_writes s @ task_writes s\<rparr>)"
proof -
  assume s: "valid_tasks st s"
  have "WTask r \<notin> set (tx_writes s)" for r
  proof
    assume "WTask r \<in> set (tx_writes s)"
    then have "WTask r \<in> set (late_writes s)" by simp
    with s show False by (simp add: valid_tasks_def staged_def del: filter_empty_conv)
  qed
  moreover have "task_change_ok st r" if "WTask r \<in> set (task_writes s)" for r
  proof -
    from that obtain i x k where "(i, x) \<in> set (tx_tasks s)" "tt_write x = Some (k, r)"
      by (auto simp: task_writes_def List.map_filter_def)
    moreover from this(1) s have "task_of i s = x" by (simp add: valid_tasks_def staged_def task_of_def)
    ultimately show ?thesis using s by (auto simp: valid_tasks_def)
  qed
  ultimately show ?thesis using s by (auto simp: batch_ok_def valid_tasks_def staged_def)
qed

lemma document_writes_tasks: "document_writes s e = Inr ws \<Longrightarrow> WTask r \<notin> set ws"
  by (auto simp: document_writes_def retire_write_def change_write_def Let_def res_simps
      split: option.splits document_target.splits if_splits)

lemma batch_push: "keeps (batch_ok st) (pbind (pget tx_documents) (peach push_document_writes))"
proof -
  have "keeps (batch_ok st) (push_document_writes e)" for e
    unfolding push_document_writes_def
    by (rule keepsI) (auto simp: pbind_def proc_apply batch_ok_def dest: document_writes_tasks split: sum.splits)
  then show ?thesis by (intro keep_intros)
qed

lemma assembled_batch:
  assumes "staged st s" "assemble s = Some (Inr ws, t)"
  shows "tx_writes t = ws \<and> batch_ok st t"
proof -
  obtain u1 s1 u2 s2 u3 s3 u4 s4 u5 s5 u6 s6 where run:
    "reject_fork_source_writes s = Some (Inr u1, s1)" "validate_conversation_owners s1 = Some (Inr u2, s2)"
    "validate_tasks s2 = Some (Inr u3, s3)" "retire_settled_tasks s3 = Some (Inr u4, s4)"
    "(pbind (pget entry_indexes) (peach resolve_owner)) s4 = Some (Inr u5, s5)"
    "(pbind (pget tx_documents) (peach push_document_writes)) (s5\<lparr>tx_writes := tx_writes s5 @ task_writes s5\<rparr>) = Some (Inr u6, s6)"
    "pget tx_writes s6 = Some (Inr ws, t)"
    using assms(2) unfolding assemble_def by (auto simp: pthen_Inr proc_apply pthen_assoc)
  have "staged st s1" using keepsD [OF staged_frame.keeps_validation(1) run(1) assms(1)] .
  from keepsD [OF staged_frame.keeps_passes(1) run(2) this] have s2: "staged st s2" .
  have "valid_tasks st s4"
    by (rule keepsD [OF valid_frame.keeps_retire_settled_tasks run(4) validate_tasks_valid [OF s2 run(3)]])
  from keepsD [OF valid_frame.keeps_passes(3) run(5) this] have "valid_tasks st s5" .
  from keepsD [OF batch_push run(6) valid_batch [OF this]] have "batch_ok st s6" .
  with run(7) show ?thesis by (auto simp: proc_apply)
qed

lemma settle_success_steps:
  assumes "settle_success s = Some (Inr ws, t)"
  obtains u v where "pbind (pget entry_indexes) (peach prepare_entry) (s\<lparr>tx_sealed := True\<rparr>) = Some (Inr u, v)"
    "assemble v = Some (Inr ws, t)"
proof -
  let ?prepare = "pbind (pget entry_indexes) (peach prepare_entry)"
  from assms have "or_abort (pthen ?prepare assemble) (s\<lparr>tx_sealed := True\<rparr>) = Some (Inr ws, t)"
    by (auto simp: settle_success_def seal_def proc_simps pthen_Inr split: if_splits)
  then have "pthen ?prepare assemble (s\<lparr>tx_sealed := True\<rparr>) = Some (Inr ws, t)"
    by (auto simp: or_abort_def pthen_Inr proc_apply split: option.splits sum.splits)
  then show thesis using that by (auto simp: pthen_Inr)
qed

lemma settled_batch:
  assumes "staged st s" "settle_success s = Some (Inr ws, t)"
  shows "tx_writes t = ws \<and> batch_ok st t"
proof -
  obtain u v where v: "pbind (pget entry_indexes) (peach prepare_entry) (s\<lparr>tx_sealed := True\<rparr>) = Some (Inr u, v)"
    "assemble v = Some (Inr ws, t)" by (rule settle_success_steps [OF assms(2)])
  have "staged st (s\<lparr>tx_sealed := True\<rparr>)" using assms(1) by (simp add: staged_def task_of_def)
  then have "staged st v"
    using keepsD [OF keeps_bind [OF keeps_basic(3) keeps_each [OF staged_frame.keeps_prepare_entry]] v(1)] by blast
  from assembled_batch [OF this v(2)] show ?thesis .
qed

section \<open>Tasks only move forward\<close>

definition tasks_advance :: "storage \<Rightarrow> storage \<Rightarrow> bool" where
  "tasks_advance st st' \<longleftrightarrow> (\<forall>i t. tasks st i = Some t \<longrightarrow>
     (\<exists>t'. tasks st' i = Some t' \<and> task_conversation t' = task_conversation t \<and>
       (stored_status t = StatusTerminal \<longrightarrow> t' = t)))"

lemma tasks_advance_refl [simp]: "tasks_advance st st"
  by (simp add: tasks_advance_def)

lemma tasks_advance_trans: "tasks_advance a b \<Longrightarrow> tasks_advance b c \<Longrightarrow> tasks_advance a c"
  unfolding tasks_advance_def by metis

lemma mints_inv: "mints a b \<Longrightarrow> storage_inv a \<Longrightarrow> storage_inv b"
  unfolding mints_def by (induction rule: rtranclp_induct) (auto intro: storage_step_inv minting)

lemma committed_tasks:
  assumes "storage_inv st" "batch_ok st b" "MemoryStorage.commit (h_storage b) (tx_writes b) = Inr (seq, st')"
  shows "tasks_advance st st'"
  unfolding tasks_advance_def
proof (intro allI impI)
  fix i t
  assume t: "tasks st i = Some t"
  from assms(2) have m: "mints st (h_storage b)" by (simp add: batch_ok_def)
  have "tasks st' i = task_after i (tx_writes b) (Some t)"
    using commit_tasks [OF mints_inv [OF m assms(1)] assms(3)] mints_tasks [OF m] t by simp
  with task_after_cases [of i "tx_writes b" "Some t"]
  consider "tasks st' i = Some t" | r where "WTask r \<in> set (tx_writes b)" "task_id r = i" "tasks st' i = Some r" by auto
  then show "\<exists>t'. tasks st' i = Some t' \<and> task_conversation t' = task_conversation t \<and> (stored_status t = StatusTerminal \<longrightarrow> t' = t)"
    using assms(2) t by cases (auto simp: batch_ok_def task_change_ok_def)
qed

lemma staged_start: "storage_inv (h_storage h) \<Longrightarrow> staged (h_storage h) (new_transaction (host.truncate h))"
  by (simp add: staged_def new_transaction_def host.defs tx_state.defs task_of_def)

lemma session_step_tasks:
  assumes "session_step s t" "storage_inv (h_storage s)"
  shows "tasks_advance (h_storage s) (h_storage t)"
  using session_step_storage [OF assms(1)]
proof (elim disjE exE conjE)
  fix a b ws seq
  assume steps: "tx_step\<^sup>*\<^sup>* (new_transaction (host.truncate s)) a" and settle: "settle_success a = Some (Inr ws, b)"
    and commit: "MemoryStorage.commit (h_storage b) ws = Inr (seq, h_storage t)"
  have "staged (h_storage s) a" by (rule staged_frame.steps_keep [OF steps staged_start [OF assms(2)]])
  from settled_batch [OF this settle] commit show ?thesis by (auto intro: committed_tasks [OF assms(2)])
qed (auto simp: mints_tasks tasks_advance_def close_storage_def)

lemma session_steps_tasks:
  assumes "session_step\<^sup>*\<^sup>* s t" "reachable (h_storage s)"
  shows "tasks_advance (h_storage s) (h_storage t) \<and> reachable (h_storage t)"
  using assms
proof (induction rule: rtranclp_induct)
  case (step t u)
  then show ?case
    by (auto intro: tasks_advance_trans session_step_tasks session_step_reachable reachable_inv)
qed simp

text \<open>
  C3. Whatever the callbacks of its commits do, a Session never drops a task, never moves it to another
  conversation, and never changes a task that is terminal.
\<close>

theorem terminal_tasks_are_final:
  assumes "session_step\<^sup>*\<^sup>* s t" "reachable (h_storage s)" "tasks (h_storage s) i = Some x"
  shows "\<exists>y. tasks (h_storage t) i = Some y \<and> task_conversation y = task_conversation x \<and>
    (stored_status x = StatusTerminal \<longrightarrow> y = x)"
  using session_steps_tasks [OF assms(1,2)] assms(3) by (auto simp: tasks_advance_def)

definition finished_task :: task_record where
  "finished_task = \<lparr>task_id = 3, task_conversation = 1, task_kind = js ''job'', task_version = 1, task_input = JNull,
     task_after = [], task_background = False, task_abort = False, task_state = TerminalWith (Completed JNull),
     task_memos = None\<rparr>"

lemma finished_storage: "\<exists>st. reachable st \<and> tasks st 3 = Some finished_task"
proof -
  let ?ws = "[WTask finished_task]"
  have "check_global_ids new_storage ?ws = Inr ()"
    by (simp add: check_global_ids_def check_claim_def new_storage_simps)
  then have "prepare_commit new_storage ?ws (nextSeq new_storage) =
      Inr \<lparr>pc_seq = 1, pc_writes = ?ws, pc_actions = [], pc_applied = False\<rparr>"
    by (simp add: prepare_commit_def assert_open_def resolve_document_copies_def prepare_document_actions_def
        check_document_actions_def new_storage_simps max_safe_def)
  from commit_prepared [OF new_storage_inv this] obtain st where st: "MemoryStorage.commit new_storage ?ws = Inr (1, st)"
    by (metis new_storage_simps(4))
  moreover from this have "tasks st 3 = Some finished_task"
    using commit_tasks [OF new_storage_inv st, of 3] by (simp add: finished_task_def)
  ultimately show ?thesis using reachable.step [OF reachable.fresh storage_step.committing] by blast
qed

theorem terminal_tasks_are_final_witness:
  "\<exists>s t. session_step\<^sup>*\<^sup>* s t \<and> se_listeners t = {7} \<and> se_closing t \<and> tasks (h_storage t) 3 = Some finished_task"
proof -
  obtain st where st: "reachable st" "tasks st 3 = Some finished_task" using finished_storage by blast
  let ?s = "create_session st"
  let ?m = "?s\<lparr>se_listeners := {7}\<rparr>"
  let ?t = "?m\<lparr>se_closing := True, h_cache := (\<lambda>_. None), h_storage := close_storage st\<rparr>"
  have "session_step ?s ?m"
    by (rule session_step.subscribing [of 7]) (simp add: subscribe_commits_def proc_apply create_session_def)
  moreover have "session_step ?m ?t"
    by (rule session_step.closing) (simp add: close_session_def proc_apply create_session_def)
  ultimately have steps: "session_step\<^sup>*\<^sup>* ?s ?t" by (meson rtranclp.rtrancl_into_rtrancl rtranclp.rtrancl_refl)
  have "stored_status finished_task = StatusTerminal" by (simp add: stored_status_def finished_task_def)
  with terminal_tasks_are_final [OF steps, of 3 finished_task] st have "tasks (h_storage ?t) 3 = Some finished_task"
    by (simp add: create_session_def)
  moreover have "se_listeners ?t = {7}" "se_closing ?t" by simp_all
  ultimately show ?thesis using steps by blast
qed

end
