(* ===== verification/SessionOwners.thy ===== *)
theory SessionOwners
  imports SessionTasks
begin

text \<open>
  Documents that belong to a task.  A transaction creates a task document only while the task is current and
  not terminal, and it retires every live document of a task that it settles; so in every state of a Session
  the task of a live task document exists and is not terminal.
\<close>

section \<open>The entries of a transaction\<close>

definition owner_known :: "storage \<Rightarrow> doc_scope \<Rightarrow> tx_state \<Rightarrow> bool" where
  "owner_known st scope s \<longleftrightarrow> (\<forall>t. scope = TaskScope t \<longrightarrow> tt_write (task_of t s) \<noteq> None \<or>
     (\<exists>c. tasks st t = Some c \<and> stored_status c \<noteq> StatusTerminal))"

text \<open>What an entry creates lies at the entry's address, under a safe ID, for a known owner.\<close>

definition creation_ok :: "storage \<Rightarrow> tx_state \<Rightarrow> document_entry \<Rightarrow> bool" where
  "creation_ok st s e \<longleftrightarrow>
     (case de_target e of
        Some (TCreated r v n) \<Rightarrow> doc_scope r = addr_scope (de_address e) \<and> \<bar>doc_id r\<bar> \<le> max_safe \<and> owner_known st (doc_scope r) s
      | Some (TForkCopy r i at) \<Rightarrow>
          doc_scope r = addr_scope (de_address e) \<and> \<bar>doc_id r\<bar> \<le> max_safe \<and> is_conversation_scope (doc_scope r)
      | _ \<Rightarrow> True)"

definition entries_ok :: "storage \<Rightarrow> tx_state \<Rightarrow> bool" where
  "entries_ok st s \<longleftrightarrow> (\<forall>i k. tx_latest s i = Some k \<longrightarrow> k < length (tx_documents s)) \<and>
     (\<forall>e \<in> set (tx_documents s). creation_ok st s e)"

definition placed :: "nat \<Rightarrow> document_address \<Rightarrow> tx_state \<Rightarrow> bool" where
  "placed k a s \<longleftrightarrow> k < length (tx_documents s) \<and> de_address (tx_documents s ! k) = a"

lemma creation_evolves: "creation_ok st s e \<Longrightarrow> evolves e f \<Longrightarrow> tx_tasks t = tx_tasks s \<Longrightarrow> creation_ok st t f"
  by (auto simp: creation_ok_def evolves_def owner_known_def task_of_def split: option.splits document_target.splits)

lemma creation_nothing: "creates_nothing (de_target e) \<Longrightarrow> creation_ok st s e"
  by (auto simp: creation_ok_def split: option.splits document_target.splits)

definition keeps_writes :: "tx_state \<Rightarrow> tx_state \<Rightarrow> bool" where
  "keeps_writes s t \<longleftrightarrow> (\<forall>i. tt_write (task_of i s) \<noteq> None \<longrightarrow> tt_write (task_of i t) \<noteq> None)"

lemma owner_writes: "keeps_writes s t \<Longrightarrow> owner_known st scope s \<Longrightarrow> owner_known st scope t"
  by (auto simp: keeps_writes_def owner_known_def)

lemma creation_writes: "keeps_writes s t \<Longrightarrow> creation_ok st s e \<Longrightarrow> creation_ok st t e"
  by (auto simp: creation_ok_def dest: owner_writes split: option.splits document_target.splits)

lemma entries_writes:
  "keeps_writes s t \<Longrightarrow> tx_documents t = tx_documents s \<Longrightarrow> tx_latest t = tx_latest s \<Longrightarrow> entries_ok st s \<Longrightarrow> entries_ok st t"
  by (auto simp: entries_ok_def intro: creation_writes)

lemma set_task_keeps_writes:
  assumes "\<And>x. tt_write x \<noteq> None \<Longrightarrow> tt_write (f x) \<noteq> None"
  shows "keeps (entries_ok st) (set_task_entry i f)" "keeps (owner_known st scope) (set_task_entry i f)"
proof -
  have w: "keeps_writes s (s\<lparr>tx_tasks := AList.update i (f (task_of i s)) (tx_tasks s)\<rparr>)" for s
    using assms by (auto simp: keeps_writes_def task_of_update)
  show "keeps (entries_ok st) (set_task_entry i f)" "keeps (owner_known st scope) (set_task_entry i f)"
    unfolding set_task_entry_def by (rule keeps_pmod, (erule entries_writes [OF w, rotated -1] | erule owner_writes [OF w]); simp)+
qed

lemma entries_quiet:
  assumes s: "entries_ok st s" and q: "quiet s t"
  shows "entries_ok st t"
proof -
  from q have tasks: "tx_tasks t = tx_tasks s" by (simp add: quiet_def same_core_def)
  have "creation_ok st t e" if e: "e \<in> set (tx_documents t)" for e
  proof -
    from e obtain k where k: "k < length (tx_documents t)" "e = tx_documents t ! k" by (auto simp: in_set_conv_nth)
    show ?thesis
    proof (cases "k < length (tx_documents s)")
      case True
      with q have "evolves (tx_documents s ! k) e" by (simp add: quiet_def k)
      moreover from s True have "creation_ok st s (tx_documents s ! k)" by (simp add: entries_ok_def)
      ultimately show ?thesis using tasks by (blast intro: creation_evolves)
    next
      case False
      with q k show ?thesis by (intro creation_nothing) (simp add: quiet_def)
    qed
  qed
  moreover have "k < length (tx_documents t)" if "tx_latest t i = Some k" for i k
    using s q that unfolding entries_ok_def quiet_def by (metis less_le_trans)
  ultimately show ?thesis by (simp add: entries_ok_def)
qed

interpretation entries_frame: tx_quiet "entries_ok st" for st
proof
  show "entries_ok st t" if "entries_ok st s" "quiet s t" for s t using that by (rule entries_quiet)
  have tracker: "keeps (entries_ok st) (on_tracker n m)" for n and m :: "'a tracker_op"
    by (rule keepsI) (auto simp: on_tracker_def pon_def keeps_writes_def task_of_def
        elim!: entries_writes [rotated -1] split: prod.splits)
  show "keeps (entries_ok st) (on_tracker n begin_change)" "keeps (entries_ok st) (on_tracker n (write_draft c ops))"
    "keeps (entries_ok st) (on_tracker n (prepare c))" "keeps (entries_ok st) (on_tracker n (abort_change c))" for n c ops
    by (rule tracker)+
  show "keeps (entries_ok st) (committed_task i)" for i
    unfolding committed_task_def by (intro keep_intros set_task_keeps_writes) simp_all
qed (intro set_task_keeps_writes; simp)

interpretation owner_frame: tx_quiet "owner_known st scope" for st scope
proof
  show "owner_known st scope t" if "owner_known st scope s" "quiet s t" for s t
    using that by (simp add: quiet_def same_core_def owner_known_def task_of_def)
  have tracker: "keeps (owner_known st scope) (on_tracker n m)" for n and m :: "'a tracker_op"
    by (rule keepsI) (auto simp: on_tracker_def pon_def owner_known_def task_of_def split: prod.splits)
  show "keeps (owner_known st scope) (on_tracker n begin_change)" "keeps (owner_known st scope) (on_tracker n (write_draft c ops))"
    "keeps (owner_known st scope) (on_tracker n (prepare c))" "keeps (owner_known st scope) (on_tracker n (abort_change c))" for n c ops
    by (rule tracker)+
  show "keeps (owner_known st scope) (committed_task i)" for i
    unfolding committed_task_def by (intro keep_intros set_task_keeps_writes) simp_all
qed (intro set_task_keeps_writes; simp)

lemma placed_set_task: "keeps (placed k a) (set_task_entry i f)"
  unfolding set_task_entry_def by (rule keeps_pmod) (simp add: placed_def)

interpretation placed_frame: tx_quiet "placed k a" for k a
proof
  show "placed k a t" if "placed k a s" "quiet s t" for s t
    using that by (auto simp: quiet_def placed_def evolves_def)
  have tracker: "keeps (placed k a) (on_tracker n m)" for n and m :: "'a tracker_op"
    by (rule keepsI) (auto simp: on_tracker_def pon_def placed_def split: prod.splits)
  show "keeps (placed k a) (on_tracker n begin_change)" "keeps (placed k a) (on_tracker n (write_draft c ops))"
    "keeps (placed k a) (on_tracker n (prepare c))" "keeps (placed k a) (on_tracker n (abort_change c))" for n c ops
    by (rule tracker)+
  show "keeps (placed k a) (committed_task i)" for i
    unfolding committed_task_def by (intro keep_intros placed_set_task)
qed (rule placed_set_task)

section \<open>Creating documents\<close>

text \<open>Steps on the host leave the tasks and the entries.\<close>

definition same_entries :: "tx_state \<Rightarrow> tx_state \<Rightarrow> bool" where
  "same_entries s t \<longleftrightarrow> tx_tasks t = tx_tasks s \<and> tx_documents t = tx_documents s \<and> tx_latest t = tx_latest s"

lemma same_entries_refl [simp]: "same_entries s s"
  by (simp add: same_entries_def)

lemma same_entries_kept: "same_entries s t \<Longrightarrow> entries_ok st s \<Longrightarrow> entries_ok st t"
    "same_entries s t \<Longrightarrow> owner_known st scope s \<Longrightarrow> owner_known st scope t"
    "same_entries s t \<Longrightarrow> placed k a s \<Longrightarrow> placed k a t"
  by (auto simp: same_entries_def keeps_writes_def task_of_def placed_def owner_known_def elim!: entries_writes [rotated -1])

lemma host_steps:
  "keeps (same_entries s) mint" "keeps (same_entries s) (new_tracker v)" "keeps (same_entries s) (load d i a)"
  "keeps (same_entries s) (fork_copies edge child)"
proof -
  have new: "keeps (same_entries s) (new_tracker v)" for v
    unfolding new_tracker_def by (intro keep_intros) (simp add: same_entries_def)
  then show "keeps (same_entries s) (new_tracker v)" "keeps (same_entries s) (load d i a)"
    by (simp, intro keeps_load [OF new]) (simp add: same_entries_def)
  show "keeps (same_entries s) mint" "keeps (same_entries s) (fork_copies edge child)"
    by (auto simp: keeps_def same_entries_def dest!: mint_result [OF _ mints_refl] fork_copies_result [OF _ mints_refl])
qed

lemma keeps_host:
  assumes "\<And>s. keeps (same_entries s) m"
  shows "keeps (entries_ok st) m" "keeps (owner_known st scope) m" "keeps (placed k a) m"
  using keepsD [OF assms _ same_entries_refl] by (auto simp: keeps_def dest: same_entries_kept)

definition owned :: "storage \<Rightarrow> tx_state \<Rightarrow> bool" where
  "owned st s \<longleftrightarrow> staged st s \<and> entries_ok st s"

definition owned_at :: "storage \<Rightarrow> nat \<Rightarrow> document_address \<Rightarrow> tx_state \<Rightarrow> bool" where
  "owned_at st k a s \<longleftrightarrow> owned st s \<and> placed k a s"

definition known_at :: "storage \<Rightarrow> nat \<Rightarrow> document_address \<Rightarrow> tx_state \<Rightarrow> bool" where
  "known_at st k a s \<longleftrightarrow> owned_at st k a s \<and> owner_known st (addr_scope a) s"

lemma owned_quiet: "tx_quiet (owned st)" "tx_quiet (owned_at st k a)" "tx_quiet (known_at st k a)"
  unfolding owned_at_def [abs_def] known_at_def [abs_def] owned_def [abs_def]
  by (intro tx_quiet_conj staged_frame.tx_quiet_axioms entries_frame.tx_quiet_axioms placed_frame.tx_quiet_axioms
      owner_frame.tx_quiet_axioms)+

interpretation owned_frame: tx_quiet "owned st" for st by (rule owned_quiet)

interpretation owned_at_frame: tx_quiet "owned_at st k a" for st k a by (rule owned_quiet)

interpretation known_at_frame: tx_quiet "known_at st k a" for st k a by (rule owned_quiet)

lemma keeps_owned_host:
  assumes "keeps (staged st) m" "\<And>s. keeps (same_entries s) m"
  shows "keeps (owned st) m" "keeps (owned_at st k a) m" "keeps (known_at st k a) m"
  unfolding owned_at_def [abs_def] known_at_def [abs_def] owned_def [abs_def]
  by (intro keeps_conj assms(1) keeps_host assms(2))+

lemmas owned_host = keeps_owned_host [OF staged_mint host_steps(1)] keeps_owned_host [OF staged_frame.tracked host_steps(2)]
  keeps_owned_host [OF staged_frame.loaded host_steps(3)] keeps_owned_host [OF staged_frame.forked host_steps(4)]

lemma keeps_set_created:
  assumes r: "doc_scope r = addr_scope a" "\<bar>doc_id r\<bar> \<le> max_safe"
    and f: "\<And>e. de_target (f e) = Some (TCreated r v n)" "\<And>e. de_address (f e) = de_address e"
  shows "keeps (known_at st k a) (set_entry k f)"
  unfolding set_entry_def
proof (rule keeps_pmod)
  fix s
  assume s: "known_at st k a s"
  let ?e = "f (tx_documents s ! k)"
  let ?t = "s\<lparr>tx_documents := (tx_documents s)[k := ?e]\<rparr>"
  have w: "keeps_writes s ?t" by (simp add: keeps_writes_def task_of_def)
  from s have at: "k < length (tx_documents s)" "de_address (tx_documents s ! k) = a" "owner_known st (addr_scope a) s"
    "entries_ok st s" by (simp_all add: known_at_def owned_at_def owned_def placed_def)
  from owner_writes [OF w at(3)] have known: "owner_known st (addr_scope a) ?t" .
  with at have "creation_ok st ?t ?e" using r(2) by (simp add: creation_ok_def f(1) f(2) r(1))
  moreover have "creation_ok st ?t e" if "e \<in> set (tx_documents s)" for e
    using that at(4) by (auto simp: entries_ok_def intro: creation_writes [OF w])
  ultimately have "entries_ok st ?t"
    using at(4) set_update_subset_insert [of "tx_documents s" k ?e] by (auto simp: entries_ok_def)
  moreover have "staged st ?t"
  proof (rule staged_frame.core)
    from s show "staged st s" by (simp add: known_at_def owned_at_def owned_def)
  qed (simp add: same_core_def host.defs)
  ultimately show "known_at st k a ?t" using at known f by (simp add: known_at_def owned_at_def owned_def placed_def)
qed

lemma required_owner:
  assumes "staged st s" "require_owner a s = Some (Inr u, t)"
  shows "owner_known st (addr_scope a) t"
proof (cases "addr_scope a")
  case (TaskScope i)
  with assms(2) obtain m v where m: "current_task i s = Some (Inr m, v)"
    "(case m of None \<Rightarrow> pthrow (TaskMissing i) | Some r \<Rightarrow>
       if stored_status r = StatusTerminal then pthrow (TaskIsTerminal i) else pret ()) v = Some (Inr u, t)"
    by (auto simp: require_owner_def pbind_Inr)
  then obtain r where r: "m = Some r" "stored_status r \<noteq> StatusTerminal" "t = v"
    by (auto simp: proc_apply split: option.splits if_splits)
  show ?thesis
  proof (cases "candidate i s")
    case None
    with m(1) r(1) have "committed_task i s = Some (Inr (Some r), v)" by (simp add: current_task_def proc_simps)
    from committed_value [OF assms(1) this] have "tasks st i = Some r" by simp
    with r TaskScope show ?thesis by (simp add: owner_known_def)
  next
    case (Some c)
    with m(1) have "v = s" "tt_write (task_of i s) \<noteq> None" by (auto simp: current_task_def proc_simps candidate_def)
    with r TaskScope show ?thesis by (simp add: owner_known_def)
  qed
qed (simp_all add: owner_known_def)

lemma keeps_acquire_new: "keeps (owned_at st k a) (acquire_new k d a seed)"
proof
  fix s r t
  assume s: "owned_at st k a s" and run: "acquire_new k d a seed s = Some (r, t)"
  let ?rest = "pthen assert_tx_open
       (case def_initial d (if def_family d then seed else JUndef) of
          None \<Rightarrow> pthrow CallbackError
        | Some initial \<Rightarrow>
            pbind (on_copy (copy_json False initial)) (\<lambda>value.
            pbind mint (\<lambda>i.
            pthen assert_tx_open
            (pbind (new_tracker value) (\<lambda>n.
             pthen (set_entry k (\<lambda>e. e\<lparr>de_target := Some (TCreated (make_create d a i) (version_of d) n)\<rparr>))
               (begin_on k n))))))"
  have created: "keeps (known_at st k a) (set_entry k (\<lambda>e. e\<lparr>de_target := Some (TCreated (make_create d a i) v n)\<rparr>))"
    if "\<bar>i\<bar> \<le> max_safe" for i v n
    by (rule keeps_set_created [where r = "make_create d a i"]) (use that in \<open>simp_all add: make_create_def Let_def\<close>)
  have minted: "keeps (known_at st k a) (pbind mint f)" if "\<And>i. \<bar>i\<bar> \<le> max_safe \<Longrightarrow> keeps (known_at st k a) (f i)" for f :: "int \<Rightarrow> unit tx"
    by (rule keeps_bind_fact [OF owned_host(3) _ that])
      (auto simp: mint_def mint_id_def assert_open_def rguard_def split: sum.splits if_splits)
  have rest: "keeps (known_at st k a) ?rest"
    by (intro keeps_then keeps_option keeps_basic minted keeps_bind [OF keeps_on_storage(3)] keeps_bind [OF owned_host(6)]
        known_at_frame.keeps_guards known_at_frame.keeps_begin_on created)
  from run have "pthen (require_owner a) ?rest s = Some (r, t)" by (simp add: acquire_new_def)
  then consider e where "require_owner a s = Some (Inl e, t)"
    | u v where "require_owner a s = Some (Inr u, v)" "?rest v = Some (r, t)"
    by (auto simp: pthen_def pbind_Some)
  then show "owned_at st k a t"
  proof cases
    case 1
    from keepsD [OF owned_at_frame.keeps_acquire_quiet(2) 1 s] show ?thesis .
  next
    case 2
    from keepsD [OF owned_at_frame.keeps_acquire_quiet(2) 2(1) s] have "owned_at st k a v" .
    moreover from s have "staged st s" by (simp add: owned_at_def owned_def)
    ultimately have "known_at st k a v" using required_owner [OF _ 2(1)] by (simp add: known_at_def)
    from keepsD [OF rest 2(2) this] show ?thesis by (simp add: known_at_def)
  qed
qed

lemma keeps_acquire_fork_copy:
  assumes "doc_scope rc = addr_scope a" "\<bar>doc_id rc\<bar> \<le> max_safe"
  shows "keeps (known_at st k a) (acquire_fork_copy k d rc source at)"
proof -
  have created: "keeps (known_at st k a) (set_entry k (\<lambda>e. e\<lparr>de_definition := Some d, de_target := Some (TCreated rc v n)\<rparr>))"
    for v n by (rule keeps_set_created [OF assms]) simp_all
  show ?thesis
    unfolding acquire_fork_copy_def Let_def
    by (intro keep_intros owned_host(6) known_at_frame.keeps_guards known_at_frame.keeps_begin_on created)
qed

lemma owned_fresh_doc: "keeps (owned st) (fresh_doc d args r skip)"
proof
  fix s x t
  assume s: "owned st s" and run: "fresh_doc d args r skip s = Some (x, t)"
  let ?e = "(new_entry (res_id r) (res_address r))\<lparr>de_definition := Some d\<rparr>"
  have acquire: "keeps (owned_at st k (res_address r)) (remember_draft k (acquire k d r seed skip))" for k seed
    unfolding acquire_def
    by (intro keep_intros owned_host(8) owned_at_frame.keeps_guards owned_at_frame.keeps_acquire_quiet
        owned_at_frame.keeps_set_entry quiet_intros keeps_acquire_new)
  have push: "owned_at st k (res_address r) v" if "owned st u" "push_entry ?e u = Some (Inr k, v)" for u k v
  proof -
    have "owned st v" by (rule keepsD [OF owned_frame.keeps_push_entry that(2,1)]) (simp add: new_entry_def)
    with that(2) show ?thesis by (auto simp: owned_at_def placed_def push_entry_def proc_simps new_entry_def)
  qed
  have total: "push_entry ?e u \<noteq> Some (Inl e, v)" for u e v by (simp add: push_entry_def proc_simps)
  from run consider e where "doc_seed d args (res_next r) s = Some (Inl e, t)"
    | seed u k v where "doc_seed d args (res_next r) s = Some (Inr seed, u)" "push_entry ?e u = Some (Inr k, v)"
        "remember_draft k (acquire k d r seed skip) v = Some (x, t)"
    using total by (auto simp: fresh_doc_def pbind_Some)
  then show "owned st t"
  proof cases
    case 1
    from keepsD [OF owned_frame.keeps_acquire_quiet(3) 1 s] show ?thesis .
  next
    case 2
    from keepsD [OF owned_frame.keeps_acquire_quiet(3) 2(1) s] have "owned st u" .
    from keepsD [OF acquire 2(3) push [OF this 2(2)]] show ?thesis by (simp add: owned_at_def)
  qed
qed

lemma owned_doc: "keeps (owned st) (doc d args)"
proof -
  have latest: "keeps (owned st) (pbind (latest_entry (res_id r)) (\<lambda>latest.
        case latest of
          None \<Rightarrow> fresh_doc d args r False
        | Some (k, e) \<Rightarrow>
            if de_retire e then fresh_doc d args r True
            else (case de_draft e of
                    Some x \<Rightarrow> pread (\<lambda>_. map_sum id (\<lambda>_. k) x)
                  | None \<Rightarrow>
                      (case de_target e of
                         Some (TForkCopy rc source at) \<Rightarrow>
                           remember_draft k (acquire_fork_copy k d rc source at)
                       | _ \<Rightarrow> fresh_doc d args r False))))" (is "keeps _ (pbind _ ?f)") for r
  proof
    fix s x t
    assume s: "owned st s" and run: "pbind (latest_entry (res_id r)) ?f s = Some (x, t)"
    note fresh = keepsD [OF owned_fresh_doc _ s]
    show "owned st t"
    proof (cases "tx_latest s (res_id r)")
      case None
      with run show ?thesis by (auto simp: latest_entry_def proc_simps dest: fresh)
    next
      case (Some k)
      let ?e = "tx_documents s ! k"
      from Some s have k: "k < length (tx_documents s)" by (auto simp: owned_def entries_ok_def)
      with s have ok: "creation_ok st s ?e" by (simp add: owned_def entries_ok_def)
      have copy: "owned st t" if "de_target ?e = Some (TForkCopy rc source at)"
        "remember_draft k (acquire_fork_copy k d rc source at) s = Some (x, t)" for rc source at
      proof -
        from ok that(1) have c: "doc_scope rc = addr_scope (de_address ?e)" "\<bar>doc_id rc\<bar> \<le> max_safe"
          "is_conversation_scope (doc_scope rc)" by (auto simp: creation_ok_def)
        then have "owner_known st (addr_scope (de_address ?e)) s"
          by (auto simp: owner_known_def is_conversation_scope_def)
        with s k have at: "known_at st k (de_address ?e) s" by (simp add: known_at_def owned_at_def placed_def)
        have "keeps (known_at st k (de_address ?e)) (remember_draft k (acquire_fork_copy k d rc source at))"
          by (intro keep_intros known_at_frame.keeps_set_entry quiet_intros keeps_acquire_fork_copy c)
        from keepsD [OF this that(2) at] show ?thesis by (simp add: known_at_def owned_at_def)
      qed
      from run Some have "?f (Some (k, ?e)) s = Some (x, t)" by (simp add: latest_entry_def proc_simps)
      then show ?thesis using s copy
        by (auto simp: proc_apply dest: fresh split: if_splits option.splits document_target.splits)
    qed
  qed
  show ?thesis unfolding doc_def by (intro keep_intros latest owned_frame.keeps_guards)
qed

section \<open>Forks\<close>

definition fork_safe :: "fork_copy list \<Rightarrow> bool" where
  "fork_safe cs \<longleftrightarrow> (\<forall>c \<in> set cs. is_conversation_scope (doc_scope (copy_record c)) \<and> \<bar>doc_id (copy_record c)\<bar> \<le> max_safe)"

lemma keeps_fork_safe:
  "keeps (\<lambda>fs. fork_safe (fs_copies fs)) (collect_copies scope at policy child)"
  "keeps (\<lambda>fs. fork_safe (fs_copies fs)) (fork_entry parent i)"
proof -
  have mint: "keeps (\<lambda>fs. fork_safe (fs_copies fs)) fork_mint"
    by (rule keepsI) (auto dest: fork_mint_step)
  have safe: "\<bar>i\<bar> \<le> max_safe" if "fork_mint s = Some (Inr i, t)" for s i t
    using that by (auto simp: fork_mint_def mint_id_def assert_open_def rguard_def split: sum.splits if_splits)
  have add: "keeps (\<lambda>fs. fork_safe (fs_copies fs)) (pmod (add_copy (fork_record child i source) j at))"
    if "\<bar>i\<bar> \<le> max_safe" for i source j
    by (rule keeps_pmod) (use that in \<open>auto simp: add_copy_def fork_safe_def fork_record_def is_conversation_scope_def\<close>)
  have "keeps (\<lambda>fs. fork_safe (fs_copies fs)) (collect_item at policy child source)" for source
    unfolding collect_item_def Let_def
    by (intro keeps_if keeps_basic keeps_bind_fact [OF mint safe] keeps_then add)
  then show "keeps (\<lambda>fs. fork_safe (fs_copies fs)) (collect_copies scope at policy child)"
    unfolding collect_copies_def by (rule keeps_for_pages)
  show "keeps (\<lambda>fs. fork_safe (fs_copies fs)) (fork_entry parent i)" by (auto simp: keeps_def fork_entry_def)
qed

lemma fork_copies_safe:
  assumes "fork_copies edge child s = Some (Inr cs, t)"
  shows "fork_safe cs"
proof -
  let ?P = "\<lambda>fs. fork_safe (fs_copies fs)"
  from assms obtain fs where
    run: "prepare_fork_copies (parent_conversation edge) (parent_at edge) child (fork_start (h_storage s)) = Some (Inr cs, fs)"
    by (auto simp: fork_copies_def map_sum_def split: option.splits sum.splits)
  have "keeps ?P (prepare_fork_copies (parent_conversation edge) (parent_at edge) child)"
    unfolding prepare_fork_copies_def by (intro keep_intros keeps_fork_safe)
  from keepsD [OF this run] have "fork_safe (fs_copies fs)" by (simp add: fork_start_def fork_safe_def)
  moreover from run have "fs_copies fs = cs"
    by (auto simp: prepare_fork_copies_def pbind_Inr pthen_Inr proc_apply split: option.splits)
  ultimately show ?thesis by simp
qed

lemma owned_stage_copy:
  assumes "is_conversation_scope (doc_scope (copy_record c))" "\<bar>doc_id (copy_record c)\<bar> \<le> max_safe"
  shows "keeps (owned st) (stage_copy c)"
proof (rule keepsI)
  fix s r t
  assume s: "owned st s" and run: "stage_copy c s = Some (r, t)"
  from keepsD [OF staged_frame.keeps_stage_copy run] s have "staged st t" by (simp add: owned_def)
  moreover have "entries_ok st t"
  proof -
    let ?e = "(new_entry (address_id (record_address (copy_record c))) (record_address (copy_record c)))
               \<lparr>de_target := Some (TForkCopy (copy_record c) (copy_source c) (copy_at c))\<rparr>"
    from run have t: "tx_documents t = tx_documents s @ [?e]" "tx_tasks t = tx_tasks s"
      "tx_latest t = (tx_latest s)(de_id ?e \<mapsto> length (tx_documents s))"
      by (auto simp: stage_copy_def push_entry_def proc_simps pthen_def pbind_def)
    have "creation_ok st t ?e" using assms by (simp add: creation_ok_def new_entry_def record_address_def)
    moreover have "creation_ok st t e" if "e \<in> set (tx_documents s)" for e
      using that s t(2) by (auto simp: owned_def entries_ok_def intro: creation_evolves [OF _ evolves_refl])
    ultimately show ?thesis using s t by (auto simp: owned_def entries_ok_def less_Suc_eq)
  qed
  ultimately show "owned st t" by (simp add: owned_def)
qed

lemma owned_stage_conversation: "keeps (owned st) (stage_conversation parent ow)"
proof -
  have staged: "keeps (owned st) (peach stage_copy cs)" if "fork_safe cs" for cs
    using that by (intro keeps_each owned_stage_copy) (auto simp: fork_safe_def)
  have copies: "keeps (owned st) (pbind (case parent of None \<Rightarrow> pret [] | Some p \<Rightarrow> fork_copies p i) f)"
    if "\<And>cs. fork_safe cs \<Longrightarrow> keeps (owned st) (f cs)" for i and f :: "fork_copy list \<Rightarrow> conversation_record tx"
    by (rule keeps_bind_fact [OF _ _ that])
      (auto intro: keep_intros owned_host dest: fork_copies_safe simp: proc_apply fork_safe_def split: option.splits)
  show ?thesis
    unfolding stage_conversation_def Let_def
    by (intro keeps_bind [OF owned_host(1)] keeps_then owned_frame.keeps_guards keeps_bind [OF owned_frame.keeps_stage_owner]
        copies staged owned_frame.local_step keeps_basic) (simp_all add: same_core_def host.defs)
qed

section \<open>Every operation keeps the entries in order\<close>

lemma keeps_owned_tasks: "keeps (owned st) (create_task td input options)" "keeps (owned st) (set_task r)"
proof -
  have flag: "keeps (entries_ok st) (pmod (tx_table_write_update (\<lambda>_. True)))"
    by (rule keeps_pmod, erule same_entries_kept [rotated]) (simp add: same_entries_def)
  have create: "keeps (entries_ok st) (create_task td input options)"
    unfolding create_task_def tx_write_def require_conversation_def assert_tx_open_def
    by (intro keep_intros flag keeps_host(1) [OF host_steps(1)] set_task_keeps_writes) simp
  have replace: "keeps (entries_ok st) (set_task r)"
    unfolding set_task_def assert_tx_open_def
    by (intro keep_intros flag set_task_keeps_writes) simp_all
  show "keeps (owned st) (create_task td input options)" "keeps (owned st) (set_task r)"
    unfolding owned_def [abs_def] by (intro keeps_conj staged_frame.create_task staged_frame.set_task create replace)+
qed

interpretation owned_all: tx_frame "owned st" for st
  by unfold_locales (rule owned_host(1) owned_stage_conversation owned_doc keeps_owned_tasks)+

end
