(* ===== verification/SessionLive.thy ===== *)
theory SessionLive
  imports SessionOwners
begin

text \<open>
  The settlement of the tasks' documents: every live document of a task that the batch settles is retired
  by the same batch, and what the batch creates for a task is retired by it or belongs to a task that stays
  current.
\<close>

section \<open>The scan for the documents of settled tasks\<close>

interpretation retire_reader: paged_reader "\<lambda>x. h_storage (rs_state x)" retire_found
  by unfold_locales (auto simp: retire_found_def proc_apply split: if_splits)

text \<open>
  While the scan runs, every targeted document has an entry that retires it, and every entry of a settled
  task is retired.
\<close>

definition scan_ok :: "storage \<Rightarrow> int list \<Rightarrow> (int \<Rightarrow> task_write_kind option) \<Rightarrow> retire_scan \<Rightarrow> bool" where
  "scan_ok st ids K x \<longleftrightarrow> same_scan st (h_storage (rs_state x)) \<and>
     (\<forall>t. map_option fst (tt_write (task_of t (rs_state x))) = K t) \<and>
     (\<forall>e \<in> set (tx_documents (rs_state x)). task_scoped ids (de_address e) \<longrightarrow> de_retire e) \<and>
     (\<forall>i \<in> rs_targeted x. \<exists>e \<in> set (tx_documents (rs_state x)). de_retire e \<and> targeted_id (rs_state x) e = Some i)"

lemma targeted_storage [simp]: "targeted_id (s\<lparr>tx_documents := D\<rparr>) e = targeted_id s e"
  by (simp add: targeted_id_def split: option.split document_target.split)

lemma retire_found_ok:
  assumes "scan_ok st ids K x" "retire_found r x = Some (q, y)"
  shows "q = Inr () \<and> scan_ok st ids K y \<and> rs_targeted y = insert (doc_id r) (rs_targeted x)"
proof (cases "doc_id r \<in> rs_targeted x")
  case True
  with assms show ?thesis by (auto simp: retire_found_def proc_apply)
next
  case False
  with assms(2) have y: "q = Inr ()" "rs_targeted y = insert (doc_id r) (rs_targeted x)"
    "rs_state y = (rs_state x)\<lparr>tx_documents := tx_documents (rs_state x) @
       [(new_entry (address_id (record_address r)) (record_address r))\<lparr>de_target := Some (TRetireOnly r), de_retire := True\<rparr>]\<rparr>"
    by (auto simp: retire_found_def proc_apply)
  have "targeted_id t (e\<lparr>de_target := Some (TRetireOnly r), de_retire := True\<rparr>) = Some (doc_id r)" for t e
    by (simp add: targeted_id_def)
  with assms(1) show ?thesis unfolding scan_ok_def y(2,3) by (auto simp: y(1) task_of_def)
qed

lemma retire_page:
  assumes "scan_ok st ids K x" "peach retire_found rs x = Some (q, y)"
  shows "q = Inr () \<and> scan_ok st ids K y \<and> rs_targeted y = doc_id ` set rs \<union> rs_targeted x"
  using assms
proof (induction rs arbitrary: x)
  case (Cons r rs)
  obtain p z where z: "retire_found r x = Some (p, z)" by (simp add: retire_found_def proc_apply)
  from retire_found_ok [OF Cons.prems(1) z] have p: "p = Inr ()" "scan_ok st ids K z"
    "rs_targeted z = insert (doc_id r) (rs_targeted x)" by simp_all
  with Cons.prems(2) z have "peach retire_found rs z = Some (q, y)" by (simp add: pthen_def pbind_def)
  from Cons.IH [OF p(2) this] p(3) show ?case by auto
qed (simp add: proc_apply)

definition task_documents :: "storage \<Rightarrow> int \<Rightarrow> int set" where
  "task_documents st t = {i. \<exists>d. documents st i = Some d \<and> alive d \<and> doc_scope (ds_record d) = TaskScope t}"

definition ids_safe :: "storage \<Rightarrow> bool" where
  "ids_safe st \<longleftrightarrow> (\<forall>i. documents st i \<noteq> None \<longrightarrow> \<bar>i\<bar> \<le> max_safe)"

lemma retire_one_task:
  assumes "storage_inv st" "\<not> closed st" "ids_safe st"
    and "scan_ok st ids K x" "retire_task_documents t x = Some (Inr u, y)"
  shows "scan_ok st ids K y \<and> rs_targeted x \<subseteq> rs_targeted y \<and> (K t \<noteq> Some CreatesTask \<longrightarrow> task_documents st t \<subseteq> rs_targeted y)"
proof (cases "K t = Some CreatesTask")
  case True
  with assms(4,5) show ?thesis by (auto simp: retire_task_documents_def proc_simps scan_ok_def)
next
  case False
  let ?q = "\<lparr>dq_scope = TaskScope t, dq_at = Current, dq_kind = None\<rparr>"
  from found_listed [OF assms(1)] obtain rs where rs: "sorted_wrt (\<lambda>a b. doc_id a < doc_id b) rs"
    "set rs = documents_found st ?q None" by blast
  have safe: "\<forall>r \<in> documents_found st ?q None. \<bar>doc_id r\<bar> \<le> max_safe"
    using assms(3) by (auto simp: documents_found_def ids_safe_def)
  have scan: "same_scan st (h_storage (rs_state x))" using assms(4) by (simp add: scan_ok_def)
  have "peach retire_found rs x = Some (Inr u, y)"
    using assms(4,5) False
    by (simp add: retire_task_documents_def proc_simps scan_ok_def
        retire_reader.for_pages_all [OF assms(1,2) safe scan cursor_none rs])
  from retire_page [OF assms(4) this] have y: "scan_ok st ids K y" "rs_targeted y = doc_id ` set rs \<union> rs_targeted x"
    by simp_all
  have "task_documents st t \<subseteq> doc_id ` set rs"
  proof
    fix i
    assume "i \<in> task_documents st t"
    then obtain d where d: "documents st i = Some d" "alive d" "doc_scope (ds_record d) = TaskScope t"
      by (auto simp: task_documents_def)
    with assms(1) have "doc_id (ds_record d) = i" by (auto simp: storage_inv_def document_inv_def keyed_def)
    with d have "ds_record d \<in> set rs"
      by (simp add: rs(2) documents_found_def is_alive_at_def alive_def matches_def)
    with \<open>doc_id (ds_record d) = i\<close> show "i \<in> doc_id ` set rs" by blast
  qed
  with y show ?thesis by auto
qed

lemma retire_tasks:
  assumes "storage_inv st" "\<not> closed st" "ids_safe st"
    and "scan_ok st ids K x" "peach retire_task_documents ts x = Some (Inr u, y)"
  shows "scan_ok st ids K y \<and> rs_targeted x \<subseteq> rs_targeted y \<and>
    (\<forall>t \<in> set ts. K t \<noteq> Some CreatesTask \<longrightarrow> task_documents st t \<subseteq> rs_targeted y)"
  using assms(4,5)
proof (induction ts arbitrary: x)
  case (Cons t ts)
  then obtain v z where z: "retire_task_documents t x = Some (Inr v, z)" "peach retire_task_documents ts z = Some (Inr u, y)"
    by (auto simp: pthen_Inr)
  note one = retire_one_task [OF assms(1-3) Cons.prems(1) z(1)]
  from one Cons.IH [OF _ z(2)] show ?case by (auto dest: subsetD)
qed (simp add: proc_apply)

section \<open>What the retirement establishes\<close>

definition retirements_ok :: "storage \<Rightarrow> int list \<Rightarrow> tx_state \<Rightarrow> bool" where
  "retirements_ok st ids s \<longleftrightarrow>
     (\<forall>e \<in> set (tx_documents s). task_scoped ids (de_address e) \<longrightarrow> de_retire e) \<and>
     (\<forall>t \<in> set ids. map_option fst (tt_write (task_of t s)) \<noteq> Some CreatesTask \<longrightarrow>
        (\<forall>i \<in> task_documents st t. \<exists>e \<in> set (tx_documents s). de_retire e \<and> targeted_id s e = Some i))"

lemma in_filtered_map:
  "i \<in> set (List.map_filter (\<lambda>e. if P e then f e else None) xs) \<Longrightarrow> \<exists>e. e \<in> set xs \<and> P e \<and> f e = Some i"
  by (auto simp: List.map_filter_def split: if_splits)

lemma retire_settled_ok:
  assumes "storage_inv st" "\<not> closed st" "ids_safe st" "same_scan st (h_storage s)"
    and "retire_settled_tasks s = Some (Inr u, t)"
  shows "retirements_ok st (terminal_tasks s) t"
proof (cases "terminal_tasks s = []")
  case True
  with assms(5) show ?thesis by (simp add: retire_settled_tasks_def retirements_ok_def task_scoped_def split: doc_scope.splits)
next
  case False
  let ?ids = "terminal_tasks s"
  let ?v = "s\<lparr>tx_documents := map (\<lambda>e. if task_scoped ?ids (de_address e) then e\<lparr>de_retire := True\<rparr> else e) (tx_documents s)\<rparr>"
  let ?K = "\<lambda>t. map_option fst (tt_write (task_of t s))"
  let ?x = "\<lparr>rs_state = ?v, rs_targeted = set (List.map_filter (\<lambda>e.
               if task_scoped ?ids (de_address e) then targeted_id ?v e else None) (tx_documents ?v))\<rparr>"
  from False assms(5) obtain y where y: "peach retire_task_documents (rev (remdups (rev ?ids))) ?x = Some (Inr u, y)"
    "t = rs_state y"
    by (auto simp: retire_settled_tasks_def Let_def mark_task_documents_def proc_simps)
  have marked: "de_retire e" if "e \<in> set (tx_documents ?v)" "task_scoped ?ids (de_address e)" for e
    using that by (auto split: if_splits)
  have "scan_ok st ?ids ?K ?x"
    unfolding scan_ok_def
  proof (intro conjI allI ballI impI)
    fix i
    assume "i \<in> rs_targeted ?x"
    then obtain e where e: "e \<in> set (tx_documents ?v)" "task_scoped ?ids (de_address e)" "targeted_id ?v e = Some i"
      by (auto simp del: targeted_storage set_map dest!: in_filtered_map)
    from e marked [OF e(1,2)]
    show "\<exists>e \<in> set (tx_documents (rs_state ?x)). de_retire e \<and> targeted_id (rs_state ?x) e = Some i"
      unfolding retire_scan.simps by blast
  next
    show "same_scan st (h_storage (rs_state ?x))" using assms(4) by simp
    show "map_option fst (tt_write (task_of t (rs_state ?x))) = ?K t" for t by (simp add: task_of_def)
    fix e
    assume "e \<in> set (tx_documents (rs_state ?x))" "task_scoped ?ids (de_address e)"
    then show "de_retire e" unfolding retire_scan.simps by (rule marked)
  qed
  from retire_tasks [OF assms(1-3) this y(1)] have "scan_ok st ?ids ?K y"
    "\<forall>t \<in> set ?ids. ?K t \<noteq> Some CreatesTask \<longrightarrow> task_documents st t \<subseteq> rs_targeted y" by simp_all
  then show ?thesis by (fastforce simp: y(2) scan_ok_def retirements_ok_def)
qed

text \<open>Resolving the owners changes the conversation of an entry only.\<close>

definition strip :: "document_entry \<Rightarrow> document_entry" where
  "strip e = e\<lparr>de_conversation := None\<rparr>"

definition stripped :: "tx_state \<Rightarrow> document_entry list \<times> loaded_document list" where
  "stripped s = (map strip (tx_documents s), h_loaded s)"

lemma strip_fields: "strip e = strip f \<Longrightarrow> de_retire e = de_retire f \<and> de_address e = de_address f \<and> de_target e = de_target f"
  by (cases e; cases f) (simp add: strip_def)

lemma resolve_stripped: "keeps (\<lambda>s. stripped s = D) (pbind (pget entry_indexes) (peach resolve_owner))"
proof -
  have task: "keeps (\<lambda>s. stripped s = D) (set_task_entry i f)" for i f
    unfolding set_task_entry_def by (rule keeps_pmod) (simp add: stripped_def)
  have committed: "keeps (\<lambda>s. stripped s = D) (committed_task i)" for i
    unfolding committed_task_def by (intro keep_intros task)
  have conversation: "keeps (\<lambda>s. stripped s = D) (set_entry k (\<lambda>e. e\<lparr>de_conversation := c\<rparr>))" for k c
  proof -
    have "map strip ((tx_documents s)[k := (tx_documents s ! k)\<lparr>de_conversation := c\<rparr>]) = map strip (tx_documents s)" for s :: tx_state
      by (cases "k < length (tx_documents s)")
        (auto simp: map_update strip_def list_update_beyond not_less intro!: list_update_same_conv [THEN iffD2])
    then show ?thesis unfolding set_entry_def by (intro keeps_pmod) (simp add: stripped_def)
  qed
  show ?thesis
    unfolding resolve_owner_def publication_owner_def current_task_def
    by (intro keep_intros task committed conversation)
qed

lemma map_eq_element:
  assumes "map f xs = map f ys" "e \<in> set ys"
  shows "\<exists>x \<in> set xs. f x = f e"
proof -
  have "f e \<in> set (map f xs)" unfolding assms(1) using assms(2) by simp
  then show ?thesis by auto
qed

lemma retirements_stripped:
  assumes "retirements_ok st ids s" "stripped t = stripped s" "writes_are (\<lambda>i. tt_write (task_of i s)) t"
  shows "retirements_ok st ids t"
proof -
  from assms(2) have docs: "map strip (tx_documents t) = map strip (tx_documents s)" and loaded: "h_loaded t = h_loaded s"
    by (simp_all add: stripped_def)
  have there: "\<exists>f \<in> set (tx_documents s). strip f = strip e" if "e \<in> set (tx_documents t)" for e
    by (rule map_eq_element [OF docs [symmetric] that])
  have kept: "\<exists>f \<in> set (tx_documents t). strip f = strip e" if "e \<in> set (tx_documents s)" for e
    by (rule map_eq_element [OF docs that])
  have target: "targeted_id t f = targeted_id s e" if "strip f = strip e" for e f
    using strip_fields [OF that] loaded
    by (simp add: targeted_id_def split: option.split document_target.split)
  from assms(1) have s: "\<forall>e \<in> set (tx_documents s). task_scoped ids (de_address e) \<longrightarrow> de_retire e"
    "\<forall>t \<in> set ids. map_option fst (tt_write (task_of t s)) \<noteq> Some CreatesTask \<longrightarrow>
        (\<forall>i \<in> task_documents st t. \<exists>e \<in> set (tx_documents s). de_retire e \<and> targeted_id s e = Some i)"
    by (simp_all add: retirements_ok_def)
  show ?thesis
    unfolding retirements_ok_def
  proof (intro conjI ballI impI)
    fix e
    assume e: "e \<in> set (tx_documents t)" "task_scoped ids (de_address e)"
    from there [OF e(1)] obtain f where f: "f \<in> set (tx_documents s)" "strip f = strip e" by blast
    from bspec [OF s(1) f(1)] e(2) strip_fields [OF f(2)] show "de_retire e" by simp
  next
    fix k i
    assume k: "k \<in> set ids" "map_option fst (tt_write (task_of k t)) \<noteq> Some CreatesTask" "i \<in> task_documents st k"
    with assms(3) have "map_option fst (tt_write (task_of k s)) \<noteq> Some CreatesTask" by (simp add: writes_are_def)
    with s(2) k obtain e where e: "e \<in> set (tx_documents s)" "de_retire e" "targeted_id s e = Some i" by blast
    from kept [OF e(1)] obtain f where f: "f \<in> set (tx_documents t)" "strip f = strip e" by blast
    moreover have "de_retire f" "targeted_id t f = Some i" using e strip_fields [OF f(2)] target [OF f(2)] by simp_all
    ultimately show "\<exists>e \<in> set (tx_documents t). de_retire e \<and> targeted_id t e = Some i" by blast
  qed
qed

section \<open>The batch\<close>

lemma mints_same_scan: "mints a b \<Longrightarrow> same_scan a b"
proof -
  assume "mints a b"
  from mints_eq [OF this] obtain n where "b = a\<lparr>nextId := n\<rparr>" by blast
  then show ?thesis by (simp add: same_scan_def)
qed

lemma document_writes_cong: "h_loaded t = h_loaded s \<Longrightarrow> document_writes t e = document_writes s e"
  by (simp add: document_writes_def change_write_def upgrades_def Let_def split: option.split document_target.split)

lemma push_writes:
  assumes "peach push_document_writes es s = Some (Inr u, t)"
  shows "set (tx_writes t) = set (tx_writes s) \<union> (\<Union>e \<in> set es. set (projr (document_writes s e))) \<and>
    (\<forall>e \<in> set es. \<exists>ws. document_writes s e = Inr ws) \<and> tx_documents t = tx_documents s \<and> h_loaded t = h_loaded s"
  using assms
proof (induction es arbitrary: s)
  case (Cons e es)
  from Cons.prems obtain v m where m: "push_document_writes e s = Some (Inr v, m)" "peach push_document_writes es m = Some (Inr u, t)"
    by (auto simp: pthen_Inr)
  from m(1) obtain ws where "document_writes s e = Inr ws" "m = s\<lparr>tx_writes := tx_writes s @ ws\<rparr>"
    by (auto simp: push_document_writes_def pbind_Inr proc_apply)
  with m(2) have ws: "document_writes s e = Inr ws"
    "peach push_document_writes es (s\<lparr>tx_writes := tx_writes s @ ws\<rparr>) = Some (Inr u, t)" by simp_all
  from Cons.IH [OF this(2)] ws(1) show ?case
    by (auto simp: document_writes_cong [of "s\<lparr>tx_writes := tx_writes s @ ws\<rparr>" s])
qed (simp add: proc_apply)

lemma creating_writes:
  assumes "document_writes s e = Inr ws" "w \<in> set ws" "created_record w = Some r"
  shows "(\<exists>v n. de_target e = Some (TCreated r v n)) \<or> (\<exists>i at. de_target e = Some (TForkCopy r i at))"
    and "de_retire e \<Longrightarrow> WDocRetire (doc_id r) \<in> set ws"
  using assms
  by (auto simp: document_writes_def retire_write_def change_write_def Let_def res_simps
      split: option.splits document_target.splits if_splits)

lemma retiring_writes:
  assumes "document_writes s e = Inr ws" "de_retire e" "targeted_id s e = Some i"
  shows "WDocRetire i \<in> set ws"
  using assms
  by (auto simp: document_writes_def targeted_id_def retire_write_def res_simps split: option.splits document_target.splits)

definition live_after :: "storage \<Rightarrow> storage_write list \<Rightarrow> int \<Rightarrow> bool" where
  "live_after st ws t \<longleftrightarrow> (\<exists>c. task_after t ws (tasks st t) = Some c \<and> stored_status c \<noteq> StatusTerminal)"

definition owners_live :: "storage \<Rightarrow> bool" where
  "owners_live st \<longleftrightarrow> (\<forall>i d t. documents st i = Some d \<longrightarrow> alive d \<longrightarrow> doc_scope (ds_record d) = TaskScope t \<longrightarrow>
     (\<exists>c. tasks st t = Some c \<and> stored_status c \<noteq> StatusTerminal))"

definition owners_batch :: "storage \<Rightarrow> storage_write list \<Rightarrow> bool" where
  "owners_batch st ws \<longleftrightarrow>
     (\<forall>w \<in> set ws. \<forall>r. created_record w = Some r \<longrightarrow> \<bar>doc_id r\<bar> \<le> max_safe \<and>
        (\<forall>t. doc_scope r = TaskScope t \<longrightarrow> WDocRetire (doc_id r) \<in> set ws \<or> live_after st ws t)) \<and>
     (\<forall>t. \<forall>i \<in> task_documents st t. WDocRetire i \<in> set ws \<or> live_after st ws t)"

text \<open>The status of a task after the batch is the staged one, or the old one.\<close>

lemma in_task_writes:
  "WTask r \<in> set (task_writes s) \<longleftrightarrow> (\<exists>j x k. (j, x) \<in> set (tx_tasks s) \<and> tt_write x = Some (k, r))"
  by (force simp: task_writes_def List.map_filter_def split: option.splits)

lemma task_after_batch:
  assumes s: "staged st s" and ws: "set ws = set (tx_writes s) \<union> set (task_writes s) \<union> D" "\<forall>r. WTask r \<notin> D"
  shows "task_after i ws old = (case tt_write (task_of i s) of None \<Rightarrow> old | Some (k, r) \<Rightarrow> Some r)"
proof -
  have early: "WTask r \<notin> set (tx_writes s)" for r
  proof
    assume "WTask r \<in> set (tx_writes s)"
    then have "WTask r \<in> set (late_writes s)" by simp
    with s show False by (simp add: staged_def del: filter_empty_conv)
  qed
  have staged: "WTask r \<in> set ws \<longleftrightarrow> (\<exists>j k. tt_write (task_of j s) = Some (k, r))" for r
  proof -
    have "(\<exists>j k. tt_write (task_of j s) = Some (k, r)) \<longleftrightarrow> (\<exists>j x k. (j, x) \<in> set (tx_tasks s) \<and> tt_write x = Some (k, r))"
    proof
      assume "\<exists>j k. tt_write (task_of j s) = Some (k, r)"
      then obtain j k where j: "tt_write (task_of j s) = Some (k, r)" by blast
      then have "map_of (tx_tasks s) j = Some (task_of j s)" by (auto simp: task_of_def new_task_def split: option.splits)
      from map_of_SomeD [OF this] j show "\<exists>j x k. (j, x) \<in> set (tx_tasks s) \<and> tt_write x = Some (k, r)" by blast
    next
      assume "\<exists>j x k. (j, x) \<in> set (tx_tasks s) \<and> tt_write x = Some (k, r)"
      then obtain j x k where j: "(j, x) \<in> set (tx_tasks s)" "tt_write x = Some (k, r)" by blast
      with s have "task_of j s = x" by (simp add: staged_def task_of_def)
      with j show "\<exists>j k. tt_write (task_of j s) = Some (k, r)" by blast
    qed
    moreover have "WTask r \<in> set (task_writes s) \<longleftrightarrow> (\<exists>j x k. (j, x) \<in> set (tx_tasks s) \<and> tt_write x = Some (k, r))"
      by (rule in_task_writes)
    moreover have "WTask r \<in> set ws \<longleftrightarrow> WTask r \<in> set (task_writes s)" using ws early by blast
    ultimately show ?thesis by simp
  qed
  have id: "task_id r = j" if "tt_write (task_of j s) = Some (k, r)" for j k r
    using staged_task [OF s, of j] that by (simp add: task_good_def)
  from task_after_cases [of i ws old] show ?thesis
  proof (elim disjE exE conjE)
    assume none: "\<forall>t. WTask t \<in> set ws \<longrightarrow> task_id t \<noteq> i" and "task_after i ws old = old"
    moreover have "tt_write (task_of i s) = None"
      using none staged id by (metis not_None_eq surj_pair)
    ultimately show ?thesis by simp
  next
    fix t
    assume t: "WTask t \<in> set ws" "task_id t = i" "task_after i ws old = Some t"
    then obtain j k where "tt_write (task_of j s) = Some (k, t)" using staged by blast
    with id [OF this] t show ?thesis by simp
  qed
qed

lemma assembled_owners:
  assumes st: "storage_inv st" "\<not> closed st" "ids_safe st" "owners_live st"
    and s: "owned st s" and run: "assemble s = Some (Inr ws, t)"
  shows "owners_batch st ws"
proof -
  obtain u1 s1 u2 s2 u3 s3 u4 s4 u5 s5 u6 s6 where run:
    "reject_fork_source_writes s = Some (Inr u1, s1)" "validate_conversation_owners s1 = Some (Inr u2, s2)"
    "validate_tasks s2 = Some (Inr u3, s3)" "retire_settled_tasks s3 = Some (Inr u4, s4)"
    "(pbind (pget entry_indexes) (peach resolve_owner)) s4 = Some (Inr u5, s5)"
    "(pbind (pget tx_documents) (peach push_document_writes)) (s5\<lparr>tx_writes := tx_writes s5 @ task_writes s5\<rparr>) = Some (Inr u6, s6)"
    "pget tx_writes s6 = Some (Inr ws, t)"
    using run unfolding assemble_def by (auto simp: pthen_Inr proc_apply pthen_assoc)
  have s1: "owned st s1" by (rule keepsD [OF owned_frame.keeps_validation(1) run(1) s])
  have s2: "owned st s2" by (rule keepsD [OF owned_frame.keeps_passes(1) run(2) s1])
  have s3: "owned st s3" by (rule keepsD [OF owned_frame.keeps_passes(2) run(3) s2])
  have s4: "owned st s4" by (rule keepsD [OF owned_frame.keeps_retire_settled_tasks run(4) s3])
  have s5: "owned st s5" by (rule keepsD [OF owned_frame.keeps_passes(3) run(5) s4])
  let ?ids = "terminal_tasks s3"
  have writes: "writes_are (\<lambda>i. tt_write (task_of i s3)) s3" by (simp add: writes_are_def)
  have w4: "writes_are (\<lambda>i. tt_write (task_of i s3)) s4"
    by (rule keepsD [OF writes_frame.keeps_retire_settled_tasks run(4) writes])
  have w5: "writes_are (\<lambda>i. tt_write (task_of i s3)) s5" by (rule keepsD [OF writes_frame.keeps_passes(3) run(5) w4])
  from s3 have "mints st (h_storage s3)" by (simp add: owned_def staged_def)
  from mints_same_scan [OF this] have "retirements_ok st ?ids s4" by (rule retire_settled_ok [OF st(1-3) _ run(4)])
  moreover have "stripped s5 = stripped s4" by (rule keepsD [OF resolve_stripped run(5) refl])
  moreover have "writes_are (\<lambda>i. tt_write (task_of i s4)) s5" using w4 w5 by (simp add: writes_are_def)
  ultimately have retired: "retirements_ok st ?ids s5" by (rule retirements_stripped)
  from run(6) have "peach push_document_writes (tx_documents s5) (s5\<lparr>tx_writes := tx_writes s5 @ task_writes s5\<rparr>) = Some (Inr u6, s6)"
    by (simp add: proc_simps)
  note push = push_writes [OF this, simplified document_writes_cong [of "s5\<lparr>tx_writes := _\<rparr>" s5, simplified]]
  have ws: "set ws = set (tx_writes s5) \<union> set (task_writes s5) \<union> (\<Union>e \<in> set (tx_documents s5). set (projr (document_writes s5 e)))"
    and ok: "\<And>e. e \<in> set (tx_documents s5) \<Longrightarrow> \<exists>ws. document_writes s5 e = Inr ws"
    using push run(7) by (auto simp: proc_apply)
  have none: "\<forall>r. WTask r \<notin> (\<Union>e \<in> set (tx_documents s5). set (projr (document_writes s5 e)))"
  proof (intro allI notI)
    fix r
    assume "WTask r \<in> (\<Union>e \<in> set (tx_documents s5). set (projr (document_writes s5 e)))"
    then obtain e where e: "e \<in> set (tx_documents s5)" "WTask r \<in> set (projr (document_writes s5 e))" by blast
    from ok [OF e(1)] obtain v where "document_writes s5 e = Inr v" by blast
    with document_writes_tasks [OF this, of r] e(2) show False by simp
  qed
  from s5 have st5: "staged st s5" "entries_ok st s5" by (simp_all add: owned_def)
  have after: "task_after i ws (tasks st i) = (case tt_write (task_of i s5) of None \<Rightarrow> tasks st i | Some (k, r) \<Rightarrow> Some r)" for i
    by (rule task_after_batch [OF st5(1) ws none])
  have settled: "t \<in> set ?ids" if "tt_write (task_of t s5) = Some (k, r)" "stored_status r = StatusTerminal" for t k r
  proof -
    from that(1) w5 have w: "tt_write (task_of t s3) = Some (k, r)" by (simp add: writes_are_def)
    then have "(t, task_of t s3) \<in> set (tx_tasks s3)"
      by (auto simp: task_of_def new_task_def intro: map_of_SomeD split: option.splits)
    moreover have "task_id r = t" using staged_task [of st s3 t] s3 w by (simp add: owned_def task_good_def)
    ultimately show ?thesis using w that(2) by (force simp: terminal_tasks_def List.map_filter_def)
  qed
  have live: "live_after st ws t \<or> (t \<in> set ?ids \<and> (\<exists>k r. tt_write (task_of t s5) = Some (k, r)))" if "owner_known st (TaskScope t) s5" for t
  proof (cases "tt_write (task_of t s5)")
    case None
    with that show ?thesis by (simp add: live_after_def after owner_known_def)
  next
    case (Some p)
    then show ?thesis using settled by (cases p; cases "stored_status (snd p) = StatusTerminal") (auto simp: live_after_def after)
  qed
  have retire_entry: "WDocRetire i \<in> set ws" if "e \<in> set (tx_documents s5)" "document_writes s5 e = Inr v" "WDocRetire i \<in> set v" for e v i
    using that by (force simp: ws)
  show ?thesis
    unfolding owners_batch_def
  proof (intro conjI ballI allI impI)
    fix w r
    assume w: "w \<in> set ws" "created_record w = Some r"
    have "w \<notin> set (tx_writes s5)"
    proof
      assume "w \<in> set (tx_writes s5)"
      with w(2) have "w \<in> set (late_writes s5)" by (cases w) auto
      with st5(1) show False by (simp add: staged_def del: filter_empty_conv)
    qed
    moreover have "w \<notin> set (task_writes s5)"
      using w(2) by (auto simp: task_writes_def List.map_filter_def)
    ultimately obtain e where e: "e \<in> set (tx_documents s5)" "w \<in> set (projr (document_writes s5 e))" using w(1) ws by blast
    from ok [OF e(1)] obtain v where v: "document_writes s5 e = Inr v" by blast
    with e(2) have wv: "w \<in> set v" by simp
    from st5(2) e(1) have created: "creation_ok st s5 e" by (simp add: entries_ok_def)
    from creating_writes(1) [OF v wv w(2)] created show "\<bar>doc_id r\<bar> \<le> max_safe" by (auto simp: creation_ok_def)
    fix t
    assume t: "doc_scope r = TaskScope t"
    from creating_writes(1) [OF v wv w(2)] created t
    have "owner_known st (TaskScope t) s5" "addr_scope (de_address e) = TaskScope t"
      by (auto simp: creation_ok_def is_conversation_scope_def)
    then have "live_after st ws t \<or> task_scoped ?ids (de_address e)" using live [of t] by (auto simp: task_scoped_def)
    with retired e(1) have "live_after st ws t \<or> de_retire e" unfolding retirements_ok_def by blast
    with creating_writes(2) [OF v wv w(2)] retire_entry [OF e(1) v] show "WDocRetire (doc_id r) \<in> set ws \<or> live_after st ws t" by blast
  next
    fix t i
    assume i: "i \<in> task_documents st t"
    with st(4) obtain c where c: "tasks st t = Some c" "stored_status c \<noteq> StatusTerminal"
      unfolding owners_live_def task_documents_def by blast
    then have "owner_known st (TaskScope t) s5" by (simp add: owner_known_def)
    from live [OF this] show "WDocRetire i \<in> set ws \<or> live_after st ws t"
    proof (elim disjE conjE exE)
      fix k r
      assume t: "t \<in> set ?ids" and w: "tt_write (task_of t s5) = Some (k, r)"
      have "k \<noteq> CreatesTask" using staged_task [OF st5(1), of t] w c(1) by (auto simp: task_good_def)
      with w have "map_option fst (tt_write (task_of t s5)) \<noteq> Some CreatesTask" by simp
      with retired t i obtain e where e: "e \<in> set (tx_documents s5)" "de_retire e" "targeted_id s5 e = Some i"
        unfolding retirements_ok_def by blast
      from ok [OF e(1)] obtain v where v: "document_writes s5 e = Inr v" by blast
      from retire_entry [OF e(1) v retiring_writes [OF v e(2,3)]] show ?thesis ..
    qed simp
  qed
qed

lemma settled_owners:
  assumes st: "storage_inv st" "\<not> closed st" "ids_safe st" "owners_live st"
    and s: "owned st s" and run: "settle_success s = Some (Inr ws, t)"
  shows "owners_batch st ws"
proof -
  let ?prepare = "pbind (pget entry_indexes) (peach prepare_entry)"
  obtain v u where v: "?prepare (s\<lparr>tx_sealed := True\<rparr>) = Some (Inr u, v)" "assemble v = Some (Inr ws, t)"
    by (rule settle_success_steps [OF run])
  have "owned st (s\<lparr>tx_sealed := True\<rparr>)"
    by (rule owned_frame.quiet [OF s]) (rule quiet_local, simp_all add: same_core_def host.defs)
  then have "owned st v"
    using keepsD [OF keeps_bind [OF keeps_basic(3) keeps_each [OF owned_frame.keeps_prepare_entry]] v(1)] by blast
  from assembled_owners [OF st this v(2)] show ?thesis .
qed

section \<open>Live task documents have live tasks\<close>

lemma committed_owners:
  assumes st: "storage_inv st" "ids_safe st" "owners_live st"
    and m: "mints st b" and c: "MemoryStorage.commit b ws = Inr (seq, st')" and ws: "owners_batch st ws"
  shows "ids_safe st' \<and> owners_live st'"
proof -
  from mints_same_scan [OF m] have docs: "documents b = documents st" by (simp add: same_scan_def)
  have b: "storage_inv b" by (rule mints_inv [OF m st(1)])
  have "\<exists>t. tasks st' k = Some t \<and> stored_status t \<noteq> StatusTerminal" if "live_after st ws k" for k
    using that commit_tasks [OF b c, of k] by (simp add: live_after_def mints_tasks [OF m])
  moreover have "live_after st ws k" if d: "documents st' i = Some d" "alive d" "doc_scope (ds_record d) = TaskScope k" for i d k
  proof -
    note live = commit_live [OF b c d(1,2)]
    from live(2) d(3) docs consider "i \<in> task_documents st k"
      | w r where "w \<in> set ws" "created_record w = Some r" "doc_id r = i" "doc_scope r = TaskScope k"
      unfolding task_documents_def by auto
    then show ?thesis
    proof cases
      case 1
      with ws live(1) show ?thesis by (auto simp: owners_batch_def)
    next
      case 2
      with ws live(1) show ?thesis unfolding owners_batch_def by metis
    qed
  qed
  ultimately have "owners_live st'" unfolding owners_live_def by blast
  moreover have "ids_safe st'"
    unfolding ids_safe_def
  proof (intro allI impI)
    fix i
    assume "documents st' i \<noteq> None"
    then obtain d where d: "documents st' i = Some d" by blast
    from commit_known [OF b c d] show "\<bar>i\<bar> \<le> max_safe"
    proof (elim disjE bexE exE conjE)
      assume "documents b i \<noteq> None"
      with st(2) docs show ?thesis by (simp add: ids_safe_def)
    next
      fix w r
      assume "w \<in> set ws" "created_record w = Some r" "doc_id r = i"
      with ws show ?thesis by (auto simp: owners_batch_def)
    qed
  qed
  ultimately show ?thesis by blast
qed

definition owners_inv :: "storage \<Rightarrow> bool" where
  "owners_inv st \<longleftrightarrow> reachable st \<and> ids_safe st \<and> owners_live st"

lemma owners_frame:
  "mints a b \<Longrightarrow> owners_inv a \<Longrightarrow> owners_inv b" "owners_inv a \<Longrightarrow> owners_inv (close_storage a)"
proof -
  assume m: "mints a b" and a: "owners_inv a"
  from mints_same_scan [OF m] mints_tasks [OF m] a mints_reachable [OF m] show "owners_inv b"
    by (simp add: owners_inv_def ids_safe_def owners_live_def same_scan_def)
next
  assume a: "owners_inv a"
  then have "reachable (close_storage a)" by (auto simp: owners_inv_def intro: reachable.step storage_step.closing)
  with a show "owners_inv (close_storage a)"
    by (simp add: owners_inv_def ids_safe_def owners_live_def close_storage_def)
qed

lemma session_step_owners:
  assumes "session_step s t" "owners_inv (h_storage s)"
  shows "owners_inv (h_storage t)"
  using session_step_storage [OF assms(1)]
proof (elim disjE exE conjE)
  fix a b ws seq
  assume steps: "tx_step\<^sup>*\<^sup>* (new_transaction (host.truncate s)) a" and settle: "settle_success a = Some (Inr ws, b)"
    and b: "untouched (host.truncate s) b" and c: "MemoryStorage.commit (h_storage b) ws = Inr (seq, h_storage t)"
  let ?st = "h_storage s"
  from assms(2) have st: "storage_inv ?st" "ids_safe ?st" "owners_live ?st" by (auto simp: owners_inv_def reachable_inv)
  from b have m: "mints ?st (h_storage b)" by (simp add: untouched_def host.defs)
  have "owned ?st (new_transaction (host.truncate s))"
    using staged_start [OF st(1)] by (simp add: owned_def entries_ok_def new_transaction_def host.defs tx_state.defs)
  then have "owned ?st a" by (rule owned_all.steps_keep [OF steps])
  moreover have "\<not> closed ?st"
    using c mints_same_scan [OF m] by (auto simp: commit_def prepare_commit_def assert_open_def res_simps same_scan_def)
  ultimately have "owners_batch ?st ws" by (rule settled_owners [OF st(1) _ st(2,3) _ settle, rotated])
  from committed_owners [OF st m c this] show ?thesis
    using session_step_reachable [OF assms(1)] assms(2) by (simp add: owners_inv_def)
qed (use assms(2) owners_frame in auto)

lemma session_steps_owners: "session_step\<^sup>*\<^sup>* s t \<Longrightarrow> owners_inv (h_storage s) \<Longrightarrow> owners_inv (h_storage t)"
  by (induction rule: rtranclp_induct) (auto intro: session_step_owners)

text \<open>
  C2. In every state of a Session the task of a live task document exists and is not terminal: settling a task
  retires all its documents in the same commit, and none is created for it later.
\<close>

theorem task_documents_have_live_tasks:
  assumes "session_step\<^sup>*\<^sup>* s t" "owners_inv (h_storage s)"
    and "documents (h_storage t) i = Some d" "doc_retired (ds_record d) = None" "doc_scope (ds_record d) = TaskScope k"
  shows "\<exists>c. tasks (h_storage t) k = Some c \<and> stored_status c \<noteq> StatusTerminal"
  using session_steps_owners [OF assms(1,2)] assms(3-5) unfolding owners_inv_def owners_live_def alive_def by blast

definition current_job :: task_record where
  "current_job = finished_task\<lparr>task_state := PendingAt JNull\<rparr>"

definition job_record :: document_create where
  "job_record = \<lparr>doc_id = 5, doc_kind = js ''log'', doc_key = None, doc_scope = TaskScope 3, doc_history = None, doc_fork = None\<rparr>"

definition job_writes :: "storage_write list" where
  "job_writes = [WTask current_job, WDocCreate job_record 1 JNull]"

lemma job_storage:
  "\<exists>st. owners_inv st \<and> documents st 5 = Some \<lparr>ds_record = stamp job_record 1 False, ds_revisions = [(BaseContent 1 JNull, 1)]\<rparr> \<and>
     tasks st 3 = Some current_job"
proof -
  let ?a = "\<lparr>act_create = Some job_record, act_content = Some (BaseContent 1 JNull), act_retire = False\<rparr>"
  have ids: "doc_id job_record = 5" "task_id current_job = 3" "stored_status current_job = StatusPending"
    by (simp_all add: job_record_def current_job_def finished_task_def stored_status_def)
  have "resolve_document_copies new_storage job_writes = Inr job_writes"
    by (simp add: resolve_document_copies_def job_writes_def)
  moreover have "check_global_ids new_storage job_writes = Inr ()"
    by (simp add: check_global_ids_def check_claim_def job_writes_def new_storage_simps ids)
  moreover have "prepare_document_actions job_writes = Inr [(5, ?a)]"
    by (simp add: prepare_document_actions_def job_writes_def action_of_def new_action_def ids)
  moreover have "check_document_actions new_storage [(5, ?a)] = Inr ()"
    by (simp add: check_document_actions_def count_live_def check_action_record_def new_storage_simps current_at_def)
  ultimately have prep: "prepare_commit new_storage job_writes (nextSeq new_storage) =
      Inr \<lparr>pc_seq = 1, pc_writes = job_writes, pc_actions = [(5, ?a)], pc_applied = False\<rparr>"
    by (simp add: prepare_commit_def assert_open_def new_storage_simps max_safe_def)
  from commit_prepared [OF new_storage_inv this] obtain st where st: "MemoryStorage.commit new_storage job_writes = Inr (1, st)"
    by (metis new_storage_simps(4))
  have task: "tasks st 3 = Some current_job"
    using commit_tasks [OF new_storage_inv st, of 3] by (simp add: job_writes_def ids)
  obtain pc where "prepare_commit new_storage job_writes (nextSeq new_storage) = Inr pc"
    "documents st = documents_after 1 (pc_actions pc) (documents new_storage)"
    using commit_documents [OF new_storage_inv st] by metis
  with prep have docs: "documents st = [5 \<mapsto> \<lparr>ds_record = stamp job_record 1 False, ds_revisions = [(BaseContent 1 JNull, 1)]\<rparr>]"
    by (auto simp: documents_after_def final_document_def retire_document_def new_storage_simps fun_eq_iff Let_def)
  have "reachable st" by (rule reachable.step [OF reachable.fresh storage_step.committing [OF st]])
  moreover have "owners_live st" using task ids(3) by (simp add: owners_live_def docs job_record_def)
  moreover have "ids_safe st" by (simp add: ids_safe_def docs max_safe_def)
  ultimately show ?thesis using task docs by (auto simp: owners_inv_def)
qed

theorem task_documents_have_live_tasks_witness:
  "\<exists>s t. session_step\<^sup>*\<^sup>* s t \<and> se_listeners t = {7} \<and> documents (h_storage t) 5 \<noteq> None \<and>
     (\<exists>c. tasks (h_storage t) 3 = Some c \<and> stored_status c \<noteq> StatusTerminal)"
proof -
  obtain st where st: "owners_inv st" "tasks st 3 = Some current_job"
    "documents st 5 = Some \<lparr>ds_record = stamp job_record 1 False, ds_revisions = [(BaseContent 1 JNull, 1)]\<rparr>"
    using job_storage by blast
  let ?s = "create_session st"
  let ?t = "?s\<lparr>se_listeners := {7}\<rparr>"
  have "session_step ?s ?t"
    by (rule session_step.subscribing [of 7]) (simp add: subscribe_commits_def proc_apply create_session_def)
  then have steps: "session_step\<^sup>*\<^sup>* ?s ?t" by (rule r_into_rtranclp)
  have "owners_inv (h_storage ?s)" "documents (h_storage ?t) 5 = documents st 5"
    using st(1) by (simp_all add: create_session_def)
  with task_documents_have_live_tasks [OF steps, of 5] st(3)
  have "\<exists>c. tasks (h_storage ?t) 3 = Some c \<and> stored_status c \<noteq> StatusTerminal"
    by (simp add: job_record_def)
  moreover have "documents (h_storage ?t) 5 \<noteq> None" using st(3) by (simp add: create_session_def)
  moreover have "se_listeners ?t = {7}" by simp
  ultimately show ?thesis using steps by blast
qed

end
