(* ===== verification/JsText.thy ===== *)
theory JsText
  imports JsValue
begin

text \<open>Operations on texts that several parts of the program use: white space and lines.\<close>

section \<open>White space\<close>

text \<open>What \<open>trim\<close> removes and the class of white space in a pattern matches.\<close>

definition white_space :: "16 word \<Rightarrow> bool" where
  "white_space c \<longleftrightarrow>
     (let n = unat c in
      9 \<le> n \<and> n \<le> 13 \<or> n = 32 \<or> n = 160 \<or> n = 5760 \<or> 8192 \<le> n \<and> n \<le> 8202 \<or> n = 8232 \<or> n = 8233 \<or>
      n = 8239 \<or> n = 8287 \<or> n = 12288 \<or> n = 65279)"

section \<open>Lines\<close>

definition newline :: "16 word" where
  "newline = 10"

text \<open>\<open>content.split("\n")\<close> and \<open>lines.join("\n")\<close>.\<close>

fun split_lines :: "js_string \<Rightarrow> js_string list" where
  "split_lines [] = [[]]"
| "split_lines (c # s) =
     (if c = newline then [] # split_lines s
      else (case split_lines s of [] \<Rightarrow> [[c]] | l # ls \<Rightarrow> (c # l) # ls))"

fun join_lines :: "js_string list \<Rightarrow> js_string" where
  "join_lines [] = []"
| "join_lines [l] = l"
| "join_lines (l # ls) = l @ newline # join_lines ls"

lemma join_split_lines: "join_lines (split_lines s) = s"
proof (induction s)
  case (Cons c s)
  have "split_lines s \<noteq> []" by (cases s) (auto split: list.splits)
  then obtain l ls where l: "split_lines s = l # ls" by (cases "split_lines s") auto
  with Cons show ?case by (cases ls) auto
qed simp

lemma split_lines_not_Nil [simp]: "split_lines s \<noteq> []"
  by (cases s) (auto split: list.splits)

lemma split_lines_snoc_newline: "split_lines (s @ [newline]) = split_lines s @ [[]]"
proof (induction s)
  case (Cons c s)
  obtain l ls where "split_lines s = l # ls" by (cases "split_lines s") auto
  with Cons show ?case by simp
qed simp

end
