(* ===== verification/Truncation.thy ===== *)
theory Truncation
  imports Utf8 JsText
begin

text \<open>
  \<open>packages/agent/src/harness/utils/truncate.ts\<close>: tool outputs are cut to a number of lines and a
  number of UTF-8 bytes, from the head or from the tail.  A limit is an integer.  \<open>buffer\<close> tells
  whether the runtime has \<open>Buffer\<close>, whose \<open>byteLength\<close> is the length of the text encoding;
  otherwise the code counts bytes itself, which comes to the same.
\<close>

definition DEFAULT_MAX_LINES :: int where
  "DEFAULT_MAX_LINES = 2000"

definition DEFAULT_MAX_BYTES :: int where
  "DEFAULT_MAX_BYTES = 50 * 1024"

definition GREP_MAX_LINE_LENGTH :: int where
  "GREP_MAX_LINE_LENGTH = 500"

datatype limit = LimitLines | LimitBytes

record truncation_result =
  tr_content :: js_string
  tr_truncated :: bool
  tr_truncatedBy :: "limit option"
  tr_totalLines :: nat
  tr_totalBytes :: nat
  tr_outputLines :: nat
  tr_outputBytes :: nat
  tr_lastLinePartial :: bool
  tr_firstLineExceedsLimit :: bool
  tr_maxLines :: int
  tr_maxBytes :: int

record truncation_options =
  opt_maxLines :: "int option"
  opt_maxBytes :: "int option"

section \<open>Counting bytes\<close>

text \<open>The loop of \<open>utf8ByteLength\<close> from the first unit that is not ASCII on.\<close>

fun count_bytes :: "js_string \<Rightarrow> nat" where
  "count_bytes [] = 0"
| "count_bytes (c # s) =
     (if unat c \<le> 127 then 1 + count_bytes s
      else if unat c \<le> 2047 then 2 + count_bytes s
      else if high_surrogate c
      then (case s of
              d # t \<Rightarrow> if low_surrogate d then 4 + count_bytes t else 3 + count_bytes s
            | [] \<Rightarrow> 3)
      else 3 + count_bytes s)"

definition utf8_byte_length :: "bool \<Rightarrow> js_string \<Rightarrow> nat" where
  "utf8_byte_length buffer content =
     (if buffer then length (text_encode content)
      else (let ascii = takeWhile (\<lambda>c. unat c \<le> 127) content in
            if ascii = content then length content
            else length ascii + count_bytes (drop (length ascii) content)))"

section \<open>Lines\<close>

definition split_lines_for_counting :: "js_string \<Rightarrow> js_string list" where
  "split_lines_for_counting content =
     (if content = [] then []
      else if last content = newline then butlast (split_lines content)
      else split_lines content)"

fun replace_unpaired_surrogates :: "js_string \<Rightarrow> js_string" where
  "replace_unpaired_surrogates [] = []"
| "replace_unpaired_surrogates (c # s) =
     (if high_surrogate c
      then (case s of
              d # t \<Rightarrow>
                if low_surrogate d then c # d # replace_unpaired_surrogates t
                else 65533 # replace_unpaired_surrogates s
            | [] \<Rightarrow> [65533])
      else if low_surrogate c then 65533 # replace_unpaired_surrogates s
      else c # replace_unpaired_surrogates s)"

text \<open>
  \<open>formatSize\<close>.  The quotients are exact doubles, and \<open>toFixed(1)\<close> takes the nearest tenth, the
  larger one of two.
\<close>

definition fixed_one :: "nat \<Rightarrow> nat \<Rightarrow> js_string" where
  "fixed_one bytes size' =
     (let n = (20 * bytes + size') div (2 * size') in nat_str (n div 10) @ js ''.'' @ nat_str (n mod 10))"

definition format_size :: "nat \<Rightarrow> js_string" where
  "format_size bytes =
     (if bytes < 1024 then nat_str bytes @ js ''B''
      else if bytes < 1024 * 1024 then fixed_one bytes 1024 @ js ''KB''
      else fixed_one bytes (1024 * 1024) @ js ''MB'')"

section \<open>From the head\<close>

definition whole_result :: "js_string \<Rightarrow> nat \<Rightarrow> nat \<Rightarrow> int \<Rightarrow> int \<Rightarrow> truncation_result" where
  "whole_result content totalLines totalBytes maxLines maxBytes =
     \<lparr>tr_content = content, tr_truncated = False, tr_truncatedBy = None, tr_totalLines = totalLines,
      tr_totalBytes = totalBytes, tr_outputLines = totalLines, tr_outputBytes = totalBytes,
      tr_lastLinePartial = False, tr_firstLineExceedsLimit = False, tr_maxLines = maxLines,
      tr_maxBytes = maxBytes\<rparr>"

text \<open>The loop; it returns the collected lines, their bytes and the limit that ended it.\<close>

fun head_lines :: "bool \<Rightarrow> int \<Rightarrow> int \<Rightarrow> js_string list \<Rightarrow> nat \<Rightarrow> js_string list \<Rightarrow> nat \<Rightarrow>
    js_string list \<times> nat \<times> limit" where
  "head_lines buffer maxLines maxBytes [] i out bytes = (out, bytes, LimitLines)"
| "head_lines buffer maxLines maxBytes (line # lines) i out bytes =
     (if maxLines \<le> int i then (out, bytes, LimitLines)
      else (let lineBytes = utf8_byte_length buffer line + (if 0 < i then 1 else 0) in
            if maxBytes < int (bytes + lineBytes) then (out, bytes, LimitBytes)
            else head_lines buffer maxLines maxBytes lines (i + 1) (out @ [line]) (bytes + lineBytes)))"

definition cut_result :: "bool \<Rightarrow> js_string list \<Rightarrow> nat \<Rightarrow> limit \<Rightarrow> bool \<Rightarrow> nat \<Rightarrow> nat \<Rightarrow> int \<Rightarrow> int \<Rightarrow> truncation_result" where
  "cut_result buffer out bytes stop partial totalLines totalBytes maxLines maxBytes =
     (let by' = (if maxLines \<le> int (length out) \<and> int bytes \<le> maxBytes then LimitLines else stop);
          content = join_lines out in
      \<lparr>tr_content = content, tr_truncated = True, tr_truncatedBy = Some by', tr_totalLines = totalLines,
       tr_totalBytes = totalBytes, tr_outputLines = length out,
       tr_outputBytes = utf8_byte_length buffer content, tr_lastLinePartial = partial,
       tr_firstLineExceedsLimit = False, tr_maxLines = maxLines, tr_maxBytes = maxBytes\<rparr>)"

text \<open>The limits that a call applies.\<close>

definition max_lines_of :: "truncation_options \<Rightarrow> int" where
  "max_lines_of options = (case opt_maxLines options of Some n \<Rightarrow> n | None \<Rightarrow> DEFAULT_MAX_LINES)"

definition max_bytes_of :: "truncation_options \<Rightarrow> int" where
  "max_bytes_of options = (case opt_maxBytes options of Some n \<Rightarrow> n | None \<Rightarrow> DEFAULT_MAX_BYTES)"

text \<open>\<open>None\<close> is the \<open>TypeError\<close> of reading the first line where there is none.\<close>

definition truncate_head :: "bool \<Rightarrow> js_string \<Rightarrow> truncation_options \<Rightarrow> truncation_result option" where
  "truncate_head buffer content options =
     (let maxLines = max_lines_of options;
          maxBytes = max_bytes_of options;
          totalBytes = utf8_byte_length buffer content;
          lines = split_lines_for_counting content;
          totalLines = length lines in
      if int totalLines \<le> maxLines \<and> int totalBytes \<le> maxBytes
      then Some (whole_result content totalLines totalBytes maxLines maxBytes)
      else case lines of
        [] \<Rightarrow> None
      | first # _ \<Rightarrow>
          if maxBytes < int (utf8_byte_length buffer first)
          then Some
            \<lparr>tr_content = [], tr_truncated = True, tr_truncatedBy = Some LimitBytes, tr_totalLines = totalLines,
             tr_totalBytes = totalBytes, tr_outputLines = 0, tr_outputBytes = 0, tr_lastLinePartial = False,
             tr_firstLineExceedsLimit = True, tr_maxLines = maxLines, tr_maxBytes = maxBytes\<rparr>
          else (case head_lines buffer maxLines maxBytes lines 0 [] 0 of
            (out, bytes, stop) \<Rightarrow>
              Some (cut_result buffer out bytes stop False totalLines totalBytes maxLines maxBytes)))"

section \<open>From the tail\<close>

text \<open>
  One step back from position \<open>i\<close>: where the character starts, its bytes, and whether it is an
  unpaired surrogate.
\<close>

definition char_before :: "js_string \<Rightarrow> nat \<Rightarrow> nat \<times> nat \<times> bool" where
  "char_before str i =
     (let code = str ! (i - 1) in
      if low_surrogate code \<and> 0 < i - 1
      then (if high_surrogate (str ! (i - 2)) then (i - 2, 4, False) else (i - 1, 3, True))
      else if high_surrogate code \<or> low_surrogate code then (i - 1, 3, True)
      else (i - 1, if unat code \<le> 127 then 1 else if unat code \<le> 2047 then 2 else 3, False))"

lemma char_before_less: "0 < i \<Longrightarrow> char_before str i = (k, n, u) \<Longrightarrow> k < i"
  by (auto simp: char_before_def Let_def split: if_splits)

function tail_chars :: "js_string \<Rightarrow> int \<Rightarrow> nat \<Rightarrow> nat \<Rightarrow> bool \<Rightarrow> nat \<times> bool" where
  "tail_chars str maxBytes i outputBytes needs =
     (if i = 0 then (i, needs)
      else (case char_before str i of
        (k, n, unpaired) \<Rightarrow>
          if maxBytes < int (outputBytes + n) then (i, needs)
          else tail_chars str maxBytes k (outputBytes + n) (needs \<or> unpaired)))"
  by pat_completeness auto
termination
  by (relation "measure (\<lambda>(str, m, i, b, n). i)") (auto dest: char_before_less [OF _ sym])

declare tail_chars.simps [simp del]

definition truncate_string_to_bytes_from_end :: "js_string \<Rightarrow> int \<Rightarrow> js_string" where
  "truncate_string_to_bytes_from_end str maxBytes =
     (if maxBytes \<le> 0 then []
      else (case tail_chars str maxBytes (length str) 0 False of
        (start, needs) \<Rightarrow>
          if needs then replace_unpaired_surrogates (drop start str) else drop start str))"

text \<open>
  The loop over the lines from the last one on, which are given in reverse; it also returns whether
  the last line is cut.
\<close>

fun tail_loop :: "bool \<Rightarrow> int \<Rightarrow> int \<Rightarrow> js_string list \<Rightarrow> js_string list \<Rightarrow> nat \<Rightarrow>
    js_string list \<times> nat \<times> limit \<times> bool" where
  "tail_loop buffer maxLines maxBytes [] out bytes = (out, bytes, LimitLines, False)"
| "tail_loop buffer maxLines maxBytes (line # lines) out bytes =
     (if maxLines \<le> int (length out) then (out, bytes, LimitLines, False)
      else (let lineBytes = utf8_byte_length buffer line + (if out \<noteq> [] then 1 else 0) in
            if maxBytes < int (bytes + lineBytes)
            then (if out = []
                  then (let cut = truncate_string_to_bytes_from_end line maxBytes in
                        ([cut], utf8_byte_length buffer cut, LimitBytes, True))
                  else (out, bytes, LimitBytes, False))
            else tail_loop buffer maxLines maxBytes lines (line # out) (bytes + lineBytes)))"

definition truncate_tail :: "bool \<Rightarrow> js_string \<Rightarrow> truncation_options \<Rightarrow> truncation_result" where
  "truncate_tail buffer content options =
     (let maxLines = max_lines_of options;
          maxBytes = max_bytes_of options;
          totalBytes = utf8_byte_length buffer content;
          lines = split_lines_for_counting content;
          totalLines = length lines in
      if int totalLines \<le> maxLines \<and> int totalBytes \<le> maxBytes
      then whole_result content totalLines totalBytes maxLines maxBytes
      else (case tail_loop buffer maxLines maxBytes (List.rev lines) [] 0 of
        (out, bytes, stop, partial) \<Rightarrow>
          cut_result buffer out bytes stop partial totalLines totalBytes maxLines maxBytes))"

text \<open>\<open>truncateLine\<close>; a negative limit counts from the end, as \<open>slice\<close> does.\<close>

definition truncate_line :: "js_string \<Rightarrow> int \<Rightarrow> js_string \<times> bool" where
  "truncate_line line maxChars =
     (if int (length line) \<le> maxChars then (line, False)
      else (take (nat (if maxChars < 0 then int (length line) + maxChars else maxChars)) line
              @ js ''... [truncated]'', True))"

section \<open>Byte counts\<close>

lemma length_utf8_bytes: "length (utf8_bytes n) = (if n < 128 then 1 else if n < 2048 then 2 else if n < 65536 then 3 else 4)"
  by (simp add: utf8_bytes_def)

definition byte_length :: "js_string \<Rightarrow> nat" where
  "byte_length s = length (text_encode s)"

definition unit_bytes :: "16 word \<Rightarrow> nat" where
  "unit_bytes c = (if unat c \<le> 127 then 1 else if unat c \<le> 2047 then 2 else 3)"

text \<open>The first unit and the next one make a surrogate pair.\<close>

definition starts_pair :: "16 word \<Rightarrow> js_string \<Rightarrow> bool" where
  "starts_pair c s \<longleftrightarrow> high_surrogate c \<and> s \<noteq> [] \<and> low_surrogate (hd s)"

lemma scalars_unit:
  "\<not> starts_pair c s \<Longrightarrow> scalars (c # s) = (if surrogate c then 65533 else unat c) # scalars s"
  by (cases s) (auto simp: starts_pair_def)

lemma byte_length_Nil [simp]: "byte_length [] = 0"
  by (simp add: byte_length_def text_encode_def)

lemma byte_length_unit: "\<not> starts_pair c s \<Longrightarrow> byte_length (c # s) = unit_bytes c + byte_length s"
  by (auto simp: byte_length_def text_encode_def scalars_unit length_utf8_bytes unit_bytes_def surrogate_def
      high_surrogate_def low_surrogate_def unat_word16_less)

lemma byte_length_pair: "high_surrogate c \<Longrightarrow> low_surrogate d \<Longrightarrow> byte_length (c # d # s) = 4 + byte_length s"
  by (simp add: byte_length_def text_encode_def length_utf8_bytes)

lemma count_bytes_encode: "count_bytes s = byte_length s"
proof (induction s rule: count_bytes.induct)
  case (2 c s)
  show ?case
  proof (cases "starts_pair c s")
    case True
    then obtain d t where s: "s = d # t" "high_surrogate c" "low_surrogate d"
      by (cases s) (auto simp: starts_pair_def)
    then have "\<not> unat c \<le> 127" "\<not> unat c \<le> 2047" by (auto simp: high_surrogate_def)
    with 2 s show ?thesis by (simp add: byte_length_pair)
  next
    case False
    with 2 show ?thesis
      by (auto simp: byte_length_unit unit_bytes_def starts_pair_def split: list.splits)
  qed
qed simp

lemma byte_length_ascii: "\<forall>c \<in> set a. unat c \<le> 127 \<Longrightarrow> byte_length (a @ s) = length a + byte_length s"
proof (induction a)
  case (Cons c a)
  then have "\<not> starts_pair c (a @ s)" by (auto simp: starts_pair_def high_surrogate_def)
  with Cons show ?case by (simp add: byte_length_unit unit_bytes_def)
qed simp

text \<open>The count without \<open>Buffer\<close> is the count with it.\<close>

lemma utf8_byte_length_encode: "utf8_byte_length buffer s = byte_length s"
proof -
  let ?a = "takeWhile (\<lambda>c. unat c \<le> 127) s"
  have a: "\<forall>c \<in> set ?a. unat c \<le> 127" by (auto dest: set_takeWhileD)
  have s: "s = ?a @ drop (length ?a) s" by (metis append_take_drop_id takeWhile_eq_take)
  from byte_length_ascii [OF a, of "drop (length ?a) s"] s
  have "byte_length s = length ?a + byte_length (drop (length ?a) s)" by simp
  moreover have "?a = s \<Longrightarrow> byte_length s = length s" using byte_length_ascii [of s "[]"] a by simp
  ultimately show ?thesis
    by (simp add: utf8_byte_length_def Let_def count_bytes_encode flip: byte_length_def)
qed

lemma byte_length_newline: "byte_length (a @ newline # b) = byte_length a + 1 + byte_length b"
proof (induction a rule: length_induct)
  case (1 a)
  show ?case
  proof (cases a)
    case Nil
    have "\<not> starts_pair newline b" by (simp add: starts_pair_def newline_def high_surrogate_def)
    with Nil show ?thesis by (simp add: byte_length_unit unit_bytes_def newline_def)
  next
    case (Cons c s)
    show ?thesis
    proof (cases "starts_pair c s")
      case True
      then obtain d t where s: "s = d # t" "high_surrogate c" "low_surrogate d"
        by (cases s) (auto simp: starts_pair_def)
      with 1 [rule_format, of t] Cons show ?thesis by (simp add: byte_length_pair)
    next
      case False
      then have "\<not> starts_pair c (s @ newline # b)"
        by (cases s) (auto simp: starts_pair_def newline_def low_surrogate_def)
      with False 1 [rule_format, of s] Cons show ?thesis by (simp add: byte_length_unit)
    qed
  qed
qed

lemma byte_length_join_Cons: "ls \<noteq> [] \<Longrightarrow> byte_length (join_lines (l # ls)) = byte_length l + 1 + byte_length (join_lines ls)"
  by (cases ls) (simp_all add: byte_length_newline)

text \<open>The bytes of joined lines, as the loops add them up.\<close>

lemma byte_length_join:
  "byte_length (join_lines ls) = sum_list (map byte_length ls) + (length ls - 1)"
proof (induction ls)
  case (Cons l ls)
  note ih = Cons.IH
  show ?case
  proof (cases ls)
    case (Cons m ms)
    then have "ls \<noteq> []" by simp
    from byte_length_join_Cons [OF this, of l] ih Cons show ?thesis by simp
  qed simp
qed simp

lemma byte_length_join_snoc:
  "byte_length (join_lines (ls @ [l])) = byte_length (join_lines ls) + byte_length l + (if ls = [] then 0 else 1)"
  by (cases ls) (simp_all add: byte_length_join del: join_lines.simps(3))

lemma byte_length_join_Cons':
  "byte_length (join_lines (l # ls)) = byte_length (join_lines ls) + byte_length l + (if ls = [] then 0 else 1)"
  by (cases "ls = []") (simp_all add: byte_length_join_Cons)

lemma byte_length_take_le: "i \<le> k \<Longrightarrow> byte_length (join_lines (take i ls)) \<le> byte_length (join_lines (take k ls))"
proof -
  assume "i \<le> k"
  then have "take k ls = take i ls @ take (k - i) (drop i ls)"
    by (metis le_add_diff_inverse take_add)
  then show ?thesis
    by (simp add: byte_length_join)
qed

section \<open>The head\<close>

text \<open>
  \<open>longest_head ls maxLines maxBytes k\<close>: the first \<open>k\<close> lines fit both limits, and one more line, if
  there is one, does not.
\<close>

definition longest_head :: "js_string list \<Rightarrow> int \<Rightarrow> int \<Rightarrow> nat \<Rightarrow> bool" where
  "longest_head ls maxLines maxBytes k \<longleftrightarrow>
     k \<le> length ls \<and> int k \<le> maxLines \<and> int (byte_length (join_lines (take k ls))) \<le> maxBytes \<and>
     (k < length ls \<longrightarrow>
        maxLines < int (k + 1) \<or> maxBytes < int (byte_length (join_lines (take (k + 1) ls))))"

lemma head_lines_longest:
  assumes "head_lines buffer maxLines maxBytes ls i out bytes = (out', bytes', stop)"
    and "all = out @ ls" "i = length out" "bytes = byte_length (join_lines out)"
    and "int i \<le> maxLines" "int bytes \<le> maxBytes"
  shows "out' = take (length out') all \<and> bytes' = byte_length (join_lines out') \<and>
    longest_head all maxLines maxBytes (length out')"
  using assms
proof (induction buffer maxLines maxBytes ls i out bytes rule: head_lines.induct)
  case (1 buffer maxLines maxBytes i out bytes)
  then show ?case by (auto simp: longest_head_def)
next
  case (2 buffer maxLines maxBytes line ls i out bytes)
  let ?n = "utf8_byte_length buffer line + (if 0 < i then 1 else 0)"
  have n: "bytes + ?n = byte_length (join_lines (out @ [line]))"
    using "2.prems"(3,4) by (simp add: byte_length_join_snoc utf8_byte_length_encode)
  have next_line: "take (length out + 1) all = out @ [line]" using "2.prems"(2) by simp
  show ?case
  proof (cases "maxLines \<le> int i")
    case True
    with 2 show ?thesis by (auto simp: longest_head_def)
  next
    case fits: False
    show ?thesis
    proof (cases "maxBytes < int (bytes + ?n)")
      case True
      with "2.prems" fits have "out' = out" "bytes' = bytes" by (auto simp: Let_def)
      moreover have "maxBytes < int (byte_length (join_lines (take (length out + 1) all)))"
        using True n next_line by simp
      ultimately show ?thesis using "2.prems" by (auto simp: longest_head_def)
    next
      case False
      from "2.prems"(1) fits False
      have "head_lines buffer maxLines maxBytes ls (i + 1) (out @ [line]) (bytes + ?n) = (out', bytes', stop)"
        by (simp add: Let_def)
      moreover have "int (i + 1) \<le> maxLines" using fits by simp
      moreover have "int (bytes + ?n) \<le> maxBytes" using False by simp
      ultimately show ?thesis
        using "2.prems"(2,3) n by (intro "2.IH" [OF fits refl False]) simp_all
    qed
  qed
qed

lemma no_lines: "split_lines_for_counting content = [] \<Longrightarrow> content = []"
proof (rule ccontr)
  assume none: "split_lines_for_counting content = []" and "content \<noteq> []"
  show False
  proof (cases "last content = newline")
    case True
    with \<open>content \<noteq> []\<close> obtain s where "content = s @ [newline]" by (metis append_butlast_last_id)
    with none show False by (simp add: split_lines_for_counting_def split_lines_snoc_newline)
  next
    case False
    with none \<open>content \<noteq> []\<close> show False by (simp add: split_lines_for_counting_def)
  qed
qed

text \<open>The lines without a final newline make up the content.\<close>

lemma lines_of_content:
  "content = join_lines (split_lines_for_counting content) \<or>
   content = join_lines (split_lines_for_counting content) @ [newline]"
proof (cases "content = []")
  case False
  show ?thesis
  proof (cases "last content = newline")
    case True
    with False obtain s where s: "content = s @ [newline]" by (metis append_butlast_last_id)
    then have "split_lines_for_counting content = split_lines s"
      by (simp add: split_lines_for_counting_def split_lines_snoc_newline)
    with s show ?thesis by (simp add: join_split_lines)
  next
    case last: False
    with False show ?thesis by (simp add: split_lines_for_counting_def join_split_lines)
  qed
qed (simp add: split_lines_for_counting_def)

lemma truncate_head_cases:
  assumes "0 \<le> max_lines_of options" "0 \<le> max_bytes_of options"
  shows "\<exists>r. truncate_head buffer content options = Some r \<and>
    int (tr_outputLines r) \<le> max_lines_of options \<and> int (tr_outputBytes r) \<le> max_bytes_of options \<and>
    tr_outputBytes r = byte_length (tr_content r) \<and>
    (if tr_truncated r
     then tr_content r = join_lines (take (tr_outputLines r) (split_lines_for_counting content)) \<and>
       longest_head (split_lines_for_counting content) (max_lines_of options) (max_bytes_of options) (tr_outputLines r)
     else tr_content r = content)"
proof -
  let ?ls = "split_lines_for_counting content" and ?L = "max_lines_of options" and ?B = "max_bytes_of options"
  let ?whole = "int (length ?ls) \<le> ?L \<and> int (utf8_byte_length buffer content) \<le> ?B"
  have e: "truncate_head buffer content options =
      (if ?whole then Some (whole_result content (length ?ls) (utf8_byte_length buffer content) ?L ?B)
       else case ?ls of
        [] \<Rightarrow> None
      | first # _ \<Rightarrow>
          if ?B < int (utf8_byte_length buffer first)
          then Some
            \<lparr>tr_content = [], tr_truncated = True, tr_truncatedBy = Some LimitBytes, tr_totalLines = length ?ls,
             tr_totalBytes = utf8_byte_length buffer content, tr_outputLines = 0, tr_outputBytes = 0,
             tr_lastLinePartial = False, tr_firstLineExceedsLimit = True, tr_maxLines = ?L, tr_maxBytes = ?B\<rparr>
          else (case head_lines buffer ?L ?B ?ls 0 [] 0 of
            (out, bytes, stop) \<Rightarrow>
              Some (cut_result buffer out bytes stop False (length ?ls) (utf8_byte_length buffer content) ?L ?B)))"
    by (simp only: truncate_head_def Let_def)
  show ?thesis
  proof (cases ?whole)
    case True
    then show ?thesis
      unfolding e by (simp add: whole_result_def utf8_byte_length_encode)
  next
    case cut: False
    have "?ls \<noteq> []"
    proof
      assume "?ls = []"
      then have "content = []" by (rule no_lines)
      with cut assms \<open>?ls = []\<close> show False by (simp add: utf8_byte_length_encode)
    qed
    then obtain first rest where ls: "?ls = first # rest" by (cases ?ls) auto
    show ?thesis
    proof (cases "?B < int (utf8_byte_length buffer first)")
      case True
      then show ?thesis
        unfolding e if_not_P [OF cut] using ls assms by (simp add: longest_head_def utf8_byte_length_encode)
    next
      case False
      obtain out bytes stop where h: "head_lines buffer ?L ?B ?ls 0 [] 0 = (out, bytes, stop)"
        by (cases "head_lines buffer ?L ?B ?ls 0 [] 0") auto
      from head_lines_longest [OF h, of ?ls] assms
      have l: "out = take (length out) ?ls" "longest_head ?ls ?L ?B (length out)" by auto
      have "truncate_head buffer content options =
          Some (cut_result buffer out bytes stop False (length ?ls) (utf8_byte_length buffer content) ?L ?B)"
        unfolding e if_not_P [OF cut] using False h by (simp add: ls)
      with l show ?thesis
        by (simp add: cut_result_def Let_def utf8_byte_length_encode longest_head_def)
    qed
  qed
qed

section \<open>Cutting a line from its end\<close>

lemma replace_scalars: "replace_unpaired_surrogates s = concat (map code_units (scalars s))"
proof (induction s rule: replace_unpaired_surrogates.induct)
  case (2 c s)
  have replacement: "code_units 65533 = [65533]" by (simp add: code_units_def)
  show ?case
  proof (cases "starts_pair c s")
    case True
    then obtain d t where s: "s = d # t" "high_surrogate c" "low_surrogate d"
      by (cases s) (auto simp: starts_pair_def)
    with 2 show ?thesis by (simp add: code_units_pair)
  next
    case False
    have high_not_low: "high_surrogate c \<Longrightarrow> \<not> low_surrogate c"
      by (auto simp: high_surrogate_def low_surrogate_def)
    from False 2 show ?thesis
      by (auto simp: scalars_unit surrogate_def replacement code_units_unit starts_pair_def split: list.splits)
  qed
qed simp

lemma scalars_concat: "\<forall>n \<in> set ns. scalar_value n \<Longrightarrow> scalars (concat (map code_units ns)) = ns"
  by (induction ns) (simp_all add: scalars_code_units_append)

lemma scalars_replace: "scalars (replace_unpaired_surrogates s) = scalars s"
  unfolding replace_scalars by (rule scalars_concat) (simp add: scalars_scalar)

lemma well_formed_replace: "well_formed (replace_unpaired_surrogates s)"
  unfolding scalars_code_units [symmetric] scalars_replace by (rule replace_scalars [symmetric])

lemma byte_length_replace: "byte_length (replace_unpaired_surrogates s) = byte_length s"
  by (simp add: byte_length_def text_encode_def scalars_replace)

lemma replace_well_formed: "well_formed s \<Longrightarrow> replace_unpaired_surrogates s = s"
  by (simp add: replace_scalars scalars_code_units)

text \<open>A position between two characters.\<close>

definition char_boundary :: "js_string \<Rightarrow> nat \<Rightarrow> bool" where
  "char_boundary str i \<longleftrightarrow>
     i \<le> length str \<and>
     \<not> (0 < i \<and> i < length str \<and> high_surrogate (str ! (i - 1)) \<and> low_surrogate (str ! i))"

lemma well_formed_unit: "\<not> surrogate c \<Longrightarrow> well_formed (c # s) \<longleftrightarrow> well_formed s"
  by (cases s) (auto simp: surrogate_def)

lemma char_before_spec:
  assumes "char_boundary str i" "0 < i" "char_before str i = (k, n, u)"
  shows "char_boundary str k \<and> byte_length (drop k str) = n + byte_length (drop i str) \<and>
    (\<not> u \<longrightarrow> well_formed (drop i str) \<longrightarrow> well_formed (drop k str))"
proof -
  let ?c = "str ! (i - 1)"
  have len: "i \<le> length str" using assms(1) by (simp add: char_boundary_def)
  have one: "drop (i - 1) str = ?c # drop i str"
    using assms(2) len by (metis Cons_nth_drop_Suc Suc_diff_1 diff_less less_le_trans zero_less_one)
  have bytes: "byte_length (drop (i - 1) str) = unit_bytes ?c + byte_length (drop i str)"
    if "\<not> starts_pair ?c (drop i str)"
    unfolding one by (rule byte_length_unit [OF that])
  have disjoint: "high_surrogate c \<Longrightarrow> \<not> low_surrogate c" for c
    by (auto simp: high_surrogate_def low_surrogate_def)
  have e: "(k, n, u) = (if low_surrogate ?c \<and> 0 < i - 1
      then (if high_surrogate (str ! (i - 2)) then (i - 2, 4, False) else (i - 1, 3, True))
      else if high_surrogate ?c \<or> low_surrogate ?c then (i - 1, 3, True) else (i - 1, unit_bytes ?c, False))"
    unfolding assms(3) [symmetric] by (simp only: char_before_def Let_def unit_bytes_def)
  consider (pair) "low_surrogate ?c" "0 < i - 1" "high_surrogate (str ! (i - 2))" "(k, n, u) = (i - 2, 4, False)"
    | (low) "low_surrogate ?c" "0 < i - 1 \<longrightarrow> \<not> high_surrogate (str ! (i - 2))" "(k, n, u) = (i - 1, 3, True)"
    | (high) "high_surrogate ?c" "(k, n, u) = (i - 1, 3, True)"
    | (plain) "\<not> surrogate ?c" "(k, n, u) = (i - 1, unit_bytes ?c, False)"
    using e unfolding surrogate_def by presburger
  then show ?thesis
  proof cases
    case pair
    have "Suc (i - 2) = i - 1" "i - 2 < length str" using pair(2) len by simp_all
    with Cons_nth_drop_Suc [of "i - 2" str] one
    have "drop (i - 2) str = str ! (i - 2) # ?c # drop i str" by simp
    with pair disjoint len show ?thesis by (auto simp: byte_length_pair char_boundary_def)
  next
    case low
    have "\<not> starts_pair ?c (drop i str)" using low(1) disjoint by (auto simp: starts_pair_def)
    moreover have "unit_bytes ?c = 3" using low(1) by (auto simp: unit_bytes_def low_surrogate_def)
    moreover have "char_boundary str (i - 1)"
      using low(2) len by (auto simp: char_boundary_def numeral_2_eq_2)
    ultimately show ?thesis using low(3) bytes by simp
  next
    case high
    have "\<not> starts_pair ?c (drop i str)"
      using assms(1,2) high(1) by (auto simp: starts_pair_def char_boundary_def hd_drop_conv_nth)
    moreover have "unit_bytes ?c = 3" using high(1) by (auto simp: unit_bytes_def high_surrogate_def)
    moreover have "char_boundary str (i - 1)"
      using high(1) len disjoint by (auto simp: char_boundary_def)
    ultimately show ?thesis using high(2) bytes by simp
  next
    case plain
    have "\<not> starts_pair ?c (drop i str)" using plain(1) by (simp add: starts_pair_def surrogate_def)
    moreover have "char_boundary str (i - 1)"
      using plain(1) len by (auto simp: char_boundary_def surrogate_def)
    moreover have "well_formed (drop (i - 1) str) \<longleftrightarrow> well_formed (drop i str)"
      unfolding one by (rule well_formed_unit [OF plain(1)])
    ultimately show ?thesis using plain(2) bytes by simp
  qed
qed

lemma tail_chars_spec:
  assumes "tail_chars str m i b needs = (start, needs')"
    and "char_boundary str i" "b = byte_length (drop i str)" "int b \<le> m" "\<not> needs \<longrightarrow> well_formed (drop i str)"
  shows "char_boundary str start \<and> int (byte_length (drop start str)) \<le> m \<and>
    (\<not> needs' \<longrightarrow> well_formed (drop start str)) \<and>
    (0 < start \<longrightarrow> m < int (byte_length (drop (fst (char_before str start)) str)))"
  using assms
proof (induction str m i b needs rule: tail_chars.induct)
  case (1 str m i b needs)
  show ?case
  proof (cases "i = 0")
    case True
    with 1 show ?thesis by (auto simp: tail_chars.simps)
  next
    case False
    obtain k n u where c: "char_before str i = (k, n, u)" by (cases "char_before str i")
    from char_before_spec [OF "1.prems"(2) _ c] False
    have s: "char_boundary str k" "byte_length (drop k str) = n + byte_length (drop i str)"
      "\<not> u \<longrightarrow> well_formed (drop i str) \<longrightarrow> well_formed (drop k str)" by auto
    show ?thesis
    proof (cases "m < int (b + n)")
      case True
      with False c "1.prems"(1) have "start = i" "needs' = needs" by (auto simp: tail_chars.simps)
      with "1.prems" True s(2) c show ?thesis by simp
    next
      case fits: False
      with False c "1.prems"(1) have "tail_chars str m k (b + n) (needs \<or> u) = (start, needs')"
        by (simp add: tail_chars.simps [of str m i])
      with s "1.prems" fits show ?thesis
        by (intro "1.IH" [OF False c [symmetric] refl fits]) auto
    qed
  qed
qed

text \<open>
  \<open>tail_of str m t\<close>: the text \<open>t\<close> is the longest tail of \<open>str\<close> in whole characters of at most \<open>m\<close>
  bytes, with every unpaired surrogate replaced.
\<close>

definition tail_of :: "js_string \<Rightarrow> int \<Rightarrow> js_string \<Rightarrow> bool" where
  "tail_of str m t \<longleftrightarrow>
     (\<exists>start. char_boundary str start \<and> t = replace_unpaired_surrogates (drop start str) \<and>
        int (byte_length t) \<le> m \<and>
        (0 < start \<longrightarrow> m < int (byte_length (drop (fst (char_before str start)) str))))"

lemma tail_of_well_formed: "tail_of str m t \<Longrightarrow> well_formed t"
  by (auto simp: tail_of_def well_formed_replace)

lemma byte_length_pos: "s \<noteq> [] \<Longrightarrow> 0 < byte_length s"
  by (cases s; cases "starts_pair (hd s) (tl s)")
    (auto simp: byte_length_unit unit_bytes_def starts_pair_def neq_Nil_conv byte_length_pair)

lemma truncate_string_tail:
  assumes "0 \<le> m"
  shows "tail_of str m (truncate_string_to_bytes_from_end str m)"
proof (cases "m \<le> 0")
  case True
  with assms have m: "m = 0" by simp
  have "0 < int (byte_length (drop (fst (char_before str (length str))) str))" if "0 < length str"
  proof -
    from that have "fst (char_before str (length str)) < length str"
      by (metis char_before_less prod.collapse)
    then have "drop (fst (char_before str (length str))) str \<noteq> []" by simp
    from byte_length_pos [OF this] show ?thesis by simp
  qed
  then show ?thesis
    using m by (auto simp: tail_of_def truncate_string_to_bytes_from_end_def char_boundary_def
        intro!: exI [of _ "length str"])
next
  case False
  obtain start needs where t: "tail_chars str m (length str) 0 False = (start, needs)"
    by (cases "tail_chars str m (length str) 0 False")
  have s: "char_boundary str start \<and> int (byte_length (drop start str)) \<le> m \<and>
      (\<not> needs \<longrightarrow> well_formed (drop start str)) \<and>
      (0 < start \<longrightarrow> m < int (byte_length (drop (fst (char_before str start)) str)))"
    by (rule tail_chars_spec [OF t]) (use False in \<open>simp_all add: char_boundary_def\<close>)
  then have "truncate_string_to_bytes_from_end str m = replace_unpaired_surrogates (drop start str)"
    using False t by (simp add: truncate_string_to_bytes_from_end_def replace_well_formed)
  with s show ?thesis unfolding tail_of_def by (auto simp: byte_length_replace)
qed

section \<open>The tail\<close>

definition last_lines :: "nat \<Rightarrow> js_string list \<Rightarrow> js_string list" where
  "last_lines k ls = drop (length ls - k) ls"

definition longest_tail :: "js_string list \<Rightarrow> int \<Rightarrow> int \<Rightarrow> nat \<Rightarrow> bool" where
  "longest_tail ls maxLines maxBytes k \<longleftrightarrow>
     k \<le> length ls \<and> int k \<le> maxLines \<and> int (byte_length (join_lines (last_lines k ls))) \<le> maxBytes \<and>
     (k < length ls \<longrightarrow>
        maxLines < int (k + 1) \<or> maxBytes < int (byte_length (join_lines (last_lines (k + 1) ls))))"

lemma last_lines_append [simp]: "last_lines (length bs) (as @ bs) = bs"
  by (simp add: last_lines_def)

lemma tail_loop_longest:
  assumes "tail_loop buffer maxLines maxBytes ls out bytes = (out', bytes', stop, partial)"
    and "all = List.rev ls @ out" "bytes = byte_length (join_lines out)"
    and "int (length out) \<le> maxLines" "int bytes \<le> maxBytes"
  shows "bytes' = byte_length (join_lines out') \<and>
    (if partial
     then out = [] \<and> 0 < maxLines \<and> ls \<noteq> [] \<and> maxBytes < int (byte_length (last all)) \<and>
       out' = [truncate_string_to_bytes_from_end (last all) maxBytes]
     else out' = last_lines (length out') all \<and> longest_tail all maxLines maxBytes (length out'))"
  using assms
proof (induction buffer maxLines maxBytes ls out bytes rule: tail_loop.induct)
  case (1 buffer maxLines maxBytes out bytes)
  then show ?case by (auto simp: longest_tail_def last_lines_def)
next
  case (2 buffer maxLines maxBytes line ls out bytes)
  let ?n = "utf8_byte_length buffer line + (if out \<noteq> [] then 1 else 0)"
  have n: "bytes + ?n = byte_length (join_lines (line # out))"
    using "2.prems"(3) by (simp add: byte_length_join_Cons' utf8_byte_length_encode)
  have all: "all = List.rev ls @ line # out" using "2.prems"(2) by simp
  have kept: "last_lines (length out) all = out" "last_lines (length out + 1) all = line # out"
    using last_lines_append [of out "List.rev ls @ [line]"] last_lines_append [of "line # out" "List.rev ls"]
    by (simp_all add: all)
  show ?case
  proof (cases "maxLines \<le> int (length out)")
    case True
    with 2 kept show ?thesis by (auto simp: longest_tail_def)
  next
    case fits: False
    show ?thesis
    proof (cases "maxBytes < int (bytes + ?n)")
      case full: True
      show ?thesis
      proof (cases "out = []")
        case True
        with "2.prems" fits full have "partial" "out' = [truncate_string_to_bytes_from_end line maxBytes]"
          "bytes' = utf8_byte_length buffer (truncate_string_to_bytes_from_end line maxBytes)"
          by (auto simp: Let_def)
        with True full fits n all show ?thesis by (simp add: utf8_byte_length_encode)
      next
        case False
        with "2.prems" fits full have "\<not> partial" "out' = out" "bytes' = bytes" by (auto simp: Let_def)
        moreover have "maxBytes < int (byte_length (join_lines (last_lines (length out + 1) all)))"
          using full n kept(2) by simp
        ultimately show ?thesis using "2.prems" kept(1) all by (auto simp: longest_tail_def)
      qed
    next
      case False
      from "2.prems"(1) fits False
      have "tail_loop buffer maxLines maxBytes ls (line # out) (bytes + ?n) = (out', bytes', stop, partial)"
        by (simp add: Let_def)
      moreover have "int (length (line # out)) \<le> maxLines" using fits by simp
      moreover have "int (bytes + ?n) \<le> maxBytes" using False by simp
      ultimately have "bytes' = byte_length (join_lines out') \<and>
          (if partial
           then line # out = [] \<and> 0 < maxLines \<and> ls \<noteq> [] \<and> maxBytes < int (byte_length (last all)) \<and>
             out' = [truncate_string_to_bytes_from_end (last all) maxBytes]
           else out' = last_lines (length out') all \<and> longest_tail all maxLines maxBytes (length out'))"
        using all n by (intro "2.IH" [OF fits refl False]) simp_all
      then show ?thesis by (simp split: if_splits)
    qed
  qed
qed

lemma truncate_tail_cases:
  fixes options content
  defines "L \<equiv> max_lines_of options" and "B \<equiv> max_bytes_of options" and "ls \<equiv> split_lines_for_counting content"
  assumes "0 \<le> L" "0 \<le> B"
  shows "let r = truncate_tail buffer content options in
    int (tr_outputLines r) \<le> L \<and> int (tr_outputBytes r) \<le> B \<and>
    tr_outputBytes r = byte_length (tr_content r) \<and>
    (if \<not> tr_truncated r then tr_content r = content
     else if tr_lastLinePartial r
     then tr_outputLines r = 1 \<and> B < int (byte_length (last ls)) \<and> tail_of (last ls) B (tr_content r)
     else tr_content r = join_lines (last_lines (tr_outputLines r) ls) \<and> longest_tail ls L B (tr_outputLines r))"
proof (cases "int (length ls) \<le> L \<and> int (utf8_byte_length buffer content) \<le> B")
  case True
  then have "truncate_tail buffer content options =
      whole_result content (length ls) (utf8_byte_length buffer content) L B"
    by (simp add: truncate_tail_def Let_def L_def B_def ls_def)
  with True show ?thesis by (simp add: whole_result_def Let_def utf8_byte_length_encode)
next
  case cut: False
  obtain out bytes stop partial where t: "tail_loop buffer L B (List.rev ls) [] 0 = (out, bytes, stop, partial)"
    by (cases "tail_loop buffer L B (List.rev ls) [] 0") auto
  have r: "truncate_tail buffer content options =
      cut_result buffer out bytes stop partial (length ls) (utf8_byte_length buffer content) L B"
    unfolding truncate_tail_def Let_def L_def [symmetric] B_def [symmetric] ls_def [symmetric] if_not_P [OF cut]
    by (simp add: t)
  have spec: "bytes = byte_length (join_lines out) \<and>
    (if partial
     then [] = ([] :: js_string list) \<and> 0 < L \<and> List.rev ls \<noteq> [] \<and> B < int (byte_length (last ls)) \<and>
       out = [truncate_string_to_bytes_from_end (last ls) B]
     else out = last_lines (length out) ls \<and> longest_tail ls L B (length out))"
    by (rule tail_loop_longest [OF t]) (use assms in simp_all)
  show ?thesis
  proof (cases partial)
    case True
    with spec have o: "out = [truncate_string_to_bytes_from_end (last ls) B]" "0 < L" "B < int (byte_length (last ls))"
      by simp_all
    from truncate_string_tail [OF assms(5), of "last ls"]
    have tail: "tail_of (last ls) B (truncate_string_to_bytes_from_end (last ls) B)" .
    then have "int (byte_length (truncate_string_to_bytes_from_end (last ls) B)) \<le> B" by (auto simp: tail_of_def)
    with True o tail show ?thesis
      unfolding r by (simp add: cut_result_def Let_def utf8_byte_length_encode)
  next
    case False
    with spec have o: "out = last_lines (length out) ls" "longest_tail ls L B (length out)" by simp_all
    with False show ?thesis
      unfolding r by (simp add: cut_result_def Let_def utf8_byte_length_encode longest_tail_def)
  qed
qed

section \<open>Properties\<close>

text \<open>
  C26. \<open>truncateHead\<close> returns a result for limits that are not negative, within both limits, with the
  exact byte count: the whole content, or its first lines, as many as both limits allow.
\<close>

theorem truncate_head_longest:
  assumes "0 \<le> max_lines_of options" "0 \<le> max_bytes_of options"
  shows "\<exists>r. truncate_head buffer content options = Some r \<and>
    int (tr_outputLines r) \<le> max_lines_of options \<and> int (tr_outputBytes r) \<le> max_bytes_of options \<and>
    tr_outputBytes r = byte_length (tr_content r) \<and>
    (if tr_truncated r
     then tr_content r = join_lines (take (tr_outputLines r) (split_lines_for_counting content)) \<and>
       longest_head (split_lines_for_counting content) (max_lines_of options) (max_bytes_of options) (tr_outputLines r)
     else tr_content r = content)"
  using assms by (rule truncate_head_cases)

theorem truncate_head_longest_witness:
  "\<exists>r. truncate_head False (js ''ab'' @ newline # js ''cd'') \<lparr>opt_maxLines = Some 1, opt_maxBytes = None\<rparr> = Some r \<and>
    int (tr_outputLines r) \<le> 1"
  using truncate_head_longest [of "\<lparr>opt_maxLines = Some 1, opt_maxBytes = None\<rparr>" False "js ''ab'' @ newline # js ''cd''"]
  by (auto simp: max_lines_of_def max_bytes_of_def DEFAULT_MAX_BYTES_def)

text \<open>
  C25. \<open>truncateTail\<close> stays within both limits and returns the whole content, or its last lines, as many
  as both limits allow, or, when the last line alone has too many bytes, the longest tail of that
  line in whole characters, in which no surrogate is unpaired.
\<close>

theorem truncate_tail_longest:
  assumes "0 \<le> max_lines_of options" "0 \<le> max_bytes_of options" "r = truncate_tail buffer content options"
  shows "int (tr_outputLines r) \<le> max_lines_of options \<and> int (tr_outputBytes r) \<le> max_bytes_of options \<and>
    tr_outputBytes r = byte_length (tr_content r) \<and>
    (if \<not> tr_truncated r then tr_content r = content
     else if tr_lastLinePartial r
     then tr_outputLines r = 1 \<and>
       max_bytes_of options < int (byte_length (last (split_lines_for_counting content))) \<and>
       tail_of (last (split_lines_for_counting content)) (max_bytes_of options) (tr_content r) \<and>
       well_formed (tr_content r)
     else tr_content r = join_lines (last_lines (tr_outputLines r) (split_lines_for_counting content)) \<and>
       longest_tail (split_lines_for_counting content) (max_lines_of options) (max_bytes_of options) (tr_outputLines r))"
  unfolding assms(3) using truncate_tail_cases [OF assms(1,2), of buffer content]
  by (auto simp: Let_def intro: tail_of_well_formed split: if_splits)

theorem truncate_tail_longest_witness:
  "let r = truncate_tail True (js ''ab'' @ newline # js ''cd'') \<lparr>opt_maxLines = None, opt_maxBytes = Some 3\<rparr> in
    tr_outputBytes r = byte_length (tr_content r) \<and> int (tr_outputBytes r) \<le> 3"
  using truncate_tail_longest [of "\<lparr>opt_maxLines = None, opt_maxBytes = Some 3\<rparr>" _ True "js ''ab'' @ newline # js ''cd''"]
  by (simp add: max_lines_of_def max_bytes_of_def DEFAULT_MAX_LINES_def Let_def)

section \<open>Which limit was hit\<close>

text \<open>
  The whole content, one line of four bytes, is returned as cut by the limit of lines although
  only the final newline exceeds the limit of bytes.
\<close>

lemma head_newline_reported_as_lines:
  "map_option tr_truncatedBy
     (truncate_head False [97, 97, 97, 97, newline] \<lparr>opt_maxLines = None, opt_maxBytes = Some 4\<rparr>) =
     Some (Some LimitLines)"
  by (simp add: truncate_head_def utf8_byte_length_def newline_def max_lines_of_def max_bytes_of_def
      DEFAULT_MAX_LINES_def split_lines_for_counting_def cut_result_def)

text \<open>The one line of the content is cut to its last three bytes, and the limit of lines is named.\<close>

lemma tail_partial_reported_as_lines:
  "let r = truncate_tail False [97, 98, 99, 100] \<lparr>opt_maxLines = Some 1, opt_maxBytes = Some 3\<rparr> in
    tr_content r = [98, 99, 100] \<and> tr_lastLinePartial r \<and> tr_totalLines r = 1 \<and> tr_truncatedBy r = Some LimitLines"
  by (simp add: truncate_tail_def utf8_byte_length_def newline_def max_lines_of_def max_bytes_of_def
      split_lines_for_counting_def cut_result_def truncate_string_to_bytes_from_end_def tail_chars.simps
      char_before_def high_surrogate_def low_surrogate_def Let_def)

end
