(* ===== verification/EditText.thy ===== *)
theory EditText
  imports JsText "HOL-Library.Multiset"
begin

text \<open>
  \<open>packages/agent/src/harness/tools/edit-diff.ts\<close>: the edit tool replaces texts of a file, each of which
  must occur once.  A text that does not occur exactly is looked for in a normalised form of the file,
  and then the lines that no edit touches keep their original characters.  The Unicode normalisation
  NFKC is the parameter \<open>nfkc\<close>.
\<close>

section \<open>Line endings\<close>

text \<open>\<open>content.indexOf(text)\<close>.\<close>

fun first_index :: "js_string \<Rightarrow> js_string \<Rightarrow> nat option" where
  "first_index [] w = (if w = [] then Some 0 else None)"
| "first_index (c # s) w = (if take (length w) (c # s) = w then Some 0 else map_option Suc (first_index s w))"

datatype line_ending = LF | CRLF

definition detect_line_ending :: "js_string \<Rightarrow> line_ending" where
  "detect_line_ending content =
     (case (first_index content [13, 10], first_index content [10]) of
        (_, None) \<Rightarrow> LF
      | (None, _) \<Rightarrow> LF
      | (Some crlf, Some lf) \<Rightarrow> if crlf < lf then CRLF else LF)"

fun crlf_to_lf :: "js_string \<Rightarrow> js_string" where
  "crlf_to_lf [] = []"
| "crlf_to_lf [c] = [c]"
| "crlf_to_lf (c # d # s) = (if c = 13 \<and> d = 10 then 10 # crlf_to_lf s else c # crlf_to_lf (d # s))"

definition normalize_to_lf :: "js_string \<Rightarrow> js_string" where
  "normalize_to_lf t = map (\<lambda>c. if c = 13 then 10 else c) (crlf_to_lf t)"

definition restore_line_endings :: "js_string \<Rightarrow> line_ending \<Rightarrow> js_string" where
  "restore_line_endings t e = (if e = CRLF then concat (map (\<lambda>c. if c = 10 then [13, 10] else [c]) t) else t)"

definition strip_bom :: "js_string \<Rightarrow> js_string \<times> js_string" where
  "strip_bom content = (if content \<noteq> [] \<and> hd content = 65279 then ([65279], tl content) else ([], content))"

section \<open>The normalised form\<close>

definition trim_end :: "js_string \<Rightarrow> js_string" where
  "trim_end t = List.rev (dropWhile white_space (List.rev t))"

definition plain_unit :: "16 word \<Rightarrow> 16 word" where
  "plain_unit c =
     (let n = unat c in
      if 8216 \<le> n \<and> n \<le> 8219 then 39
      else if 8220 \<le> n \<and> n \<le> 8223 then 34
      else if 8208 \<le> n \<and> n \<le> 8213 \<or> n = 8722 then 45
      else if n = 160 \<or> 8194 \<le> n \<and> n \<le> 8202 \<or> n = 8239 \<or> n = 8287 \<or> n = 12288 then 32
      else c)"

definition normalize_for_fuzzy_match :: "(js_string \<Rightarrow> js_string) \<Rightarrow> js_string \<Rightarrow> js_string" where
  "normalize_for_fuzzy_match nfkc t = map plain_unit (join_lines (map trim_end (split_lines (nfkc t))))"

section \<open>Replacements\<close>

fun lines_with_endings :: "js_string \<Rightarrow> js_string list" where
  "lines_with_endings [] = []"
| "lines_with_endings (c # s) =
     (if c = newline then [c] # lines_with_endings s
      else (case lines_with_endings s of [] \<Rightarrow> [[c]] | l # ls \<Rightarrow> (c # l) # ls))"

record line_span =
  span_start :: nat
  span_end :: nat

fun line_spans_from :: "nat \<Rightarrow> js_string list \<Rightarrow> line_span list" where
  "line_spans_from offset [] = []"
| "line_spans_from offset (l # ls) =
     \<lparr>span_start = offset, span_end = offset + length l\<rparr> # line_spans_from (offset + length l) ls"

definition line_spans :: "js_string \<Rightarrow> line_span list" where
  "line_spans content = line_spans_from 0 (lines_with_endings content)"

record text_replacement =
  matchIndex :: nat
  matchLength :: nat
  newText :: js_string

datatype edit_error =
    EmptyOldText nat
  | OldTextNotFound nat
  | OldTextNotUnique nat int
  | EditsOverlap nat nat
  | NoChange
  | DifferentLineCount
  | OutsideBase

fun find_start_line :: "line_span list \<Rightarrow> nat \<Rightarrow> nat \<Rightarrow> nat option" where
  "find_start_line [] i p = None"
| "find_start_line (l # ls) i p = (if span_start l \<le> p \<and> p < span_end l then Some i else find_start_line ls (i + 1) p)"

function find_end_line :: "line_span list \<Rightarrow> nat \<Rightarrow> nat \<Rightarrow> nat" where
  "find_end_line ls i p = (if i < length ls \<and> span_end (ls ! i) < p then find_end_line ls (i + 1) p else i)"
  by pat_completeness auto
termination
  by (relation "measure (\<lambda>(ls, i, _). length ls - i)") auto

declare find_end_line.simps [simp del]

definition replacement_line_range :: "line_span list \<Rightarrow> text_replacement \<Rightarrow> edit_error + nat \<times> nat" where
  "replacement_line_range ls r =
     (case find_start_line ls 0 (matchIndex r) of
        None \<Rightarrow> Inl OutsideBase
      | Some startLine \<Rightarrow>
          (let endLine = find_end_line ls startLine (matchIndex r + matchLength r) in
           if length ls \<le> endLine then Inl OutsideBase else Inr (startLine, endLine + 1)))"

text \<open>The loop from the last replacement to the first; \<open>substring\<close> reads a negative index as 0.\<close>

definition replace_at :: "nat \<Rightarrow> text_replacement \<Rightarrow> js_string \<Rightarrow> js_string" where
  "replace_at offset r result =
     (let i = int (matchIndex r) - int offset in
      take (nat i) result @ newText r @ drop (nat (i + int (matchLength r))) result)"

definition apply_replacements :: "js_string \<Rightarrow> text_replacement list \<Rightarrow> nat \<Rightarrow> js_string" where
  "apply_replacements content rs offset = foldr (replace_at offset) rs content"

record replacement_group =
  group_start :: nat
  group_end :: nat
  group_replacements :: "text_replacement list"

text \<open>The groups are collected with the last one first.\<close>

fun group_replacements_from :: "line_span list \<Rightarrow> text_replacement list \<Rightarrow> replacement_group list \<Rightarrow>
    edit_error + replacement_group list" where
  "group_replacements_from ls [] groups = Inr (List.rev groups)"
| "group_replacements_from ls (r # rs) groups =
     (case replacement_line_range ls r of
        Inl e \<Rightarrow> Inl e
      | Inr (s, e) \<Rightarrow>
          (case groups of
             current # previous \<Rightarrow>
               if s < group_end current
               then group_replacements_from ls rs
                 (current\<lparr>group_end := max (group_end current) e,
                          group_replacements := group_replacements current @ [r]\<rparr> # previous)
               else group_replacements_from ls rs (\<lparr>group_start = s, group_end = e, group_replacements = [r]\<rparr> # groups)
           | [] \<Rightarrow> group_replacements_from ls rs [\<lparr>group_start = s, group_end = e, group_replacements = [r]\<rparr>]))"

text \<open>The loop over the groups, from the given line of the original on.\<close>

fun write_groups :: "js_string list \<Rightarrow> js_string \<Rightarrow> line_span list \<Rightarrow> nat \<Rightarrow> replacement_group list \<Rightarrow> js_string" where
  "write_groups originalLines baseContent spans i [] = concat (drop i originalLines)"
| "write_groups originalLines baseContent spans i (g # gs) =
     (let groupStart = span_start (spans ! group_start g);
          groupEnd = span_end (spans ! (group_end g - 1)) in
      concat (drop i (take (group_start g) originalLines)) @
      apply_replacements (drop groupStart (take groupEnd baseContent)) (group_replacements g) groupStart @
      write_groups originalLines baseContent spans (group_end g) gs)"

definition apply_preserving_lines :: "js_string \<Rightarrow> js_string \<Rightarrow> text_replacement list \<Rightarrow> edit_error + js_string" where
  "apply_preserving_lines originalContent baseContent rs =
     (let originalLines = lines_with_endings originalContent;
          baseLines = line_spans baseContent in
      if length originalLines \<noteq> length baseLines then Inl DifferentLineCount
      else (case group_replacements_from baseLines (sort_key matchIndex rs) [] of
        Inl e \<Rightarrow> Inl e
      | Inr groups \<Rightarrow> Inr (write_groups originalLines baseContent baseLines 0 groups)))"

section \<open>Edits\<close>

record fuzzy_match =
  fm_index :: nat
  fm_length :: nat
  fm_fuzzy :: bool

text \<open>\<open>None\<close> is a result that is not found.\<close>

definition fuzzy_find_text :: "(js_string \<Rightarrow> js_string) \<Rightarrow> js_string \<Rightarrow> js_string \<Rightarrow> fuzzy_match option" where
  "fuzzy_find_text nfkc content oldText =
     (case first_index content oldText of
        Some i \<Rightarrow> Some \<lparr>fm_index = i, fm_length = length oldText, fm_fuzzy = False\<rparr>
      | None \<Rightarrow>
          (let fuzzyOldText = normalize_for_fuzzy_match nfkc oldText in
           case first_index (normalize_for_fuzzy_match nfkc content) fuzzyOldText of
             None \<Rightarrow> None
           | Some i \<Rightarrow> Some \<lparr>fm_index = i, fm_length = length fuzzyOldText, fm_fuzzy = True\<rparr>))"

text \<open>The number of separators at which \<open>split\<close> divides a text.\<close>

function count_separators :: "js_string \<Rightarrow> js_string \<Rightarrow> nat" where
  "count_separators w t =
     (case t of
        [] \<Rightarrow> 0
      | c # s \<Rightarrow>
          if take (length w) t = w then 1 + count_separators w (drop (length w - 1) s) else count_separators w s)"
  by pat_completeness auto
termination
  by (relation "measure (\<lambda>(_, t). length t)") auto

declare count_separators.simps [simp del]

text \<open>\<open>split\<close> with the empty text divides into single units, and the empty text into nothing.\<close>

definition count_occurrences :: "(js_string \<Rightarrow> js_string) \<Rightarrow> js_string \<Rightarrow> js_string \<Rightarrow> int" where
  "count_occurrences nfkc content oldText =
     (let fuzzyContent = normalize_for_fuzzy_match nfkc content;
          fuzzyOldText = normalize_for_fuzzy_match nfkc oldText in
      if fuzzyOldText = [] then int (length fuzzyContent) - 1 else int (count_separators fuzzyOldText fuzzyContent))"

record matched_edit = text_replacement +
  editIndex :: nat

fun empty_old_text :: "(js_string \<times> js_string) list \<Rightarrow> nat \<Rightarrow> nat option" where
  "empty_old_text [] i = None"
| "empty_old_text ((old, new) # edits) i = (if old = [] then Some i else empty_old_text edits (i + 1))"

fun match_edits :: "(js_string \<Rightarrow> js_string) \<Rightarrow> js_string \<Rightarrow> (js_string \<times> js_string) list \<Rightarrow> nat \<Rightarrow>
    edit_error + matched_edit list" where
  "match_edits nfkc base [] i = Inr []"
| "match_edits nfkc base ((old, new) # edits) i =
     (case fuzzy_find_text nfkc base old of
        None \<Rightarrow> Inl (OldTextNotFound i)
      | Some m \<Rightarrow>
          (let occurrences = count_occurrences nfkc base old in
           if 1 < occurrences then Inl (OldTextNotUnique i occurrences)
           else (case match_edits nfkc base edits (i + 1) of
             Inl e \<Rightarrow> Inl e
           | Inr ms \<Rightarrow>
               Inr (\<lparr>matchIndex = fm_index m, matchLength = fm_length m, newText = new, editIndex = i\<rparr> # ms))))"

fun overlapping_edits :: "matched_edit list \<Rightarrow> (nat \<times> nat) option" where
  "overlapping_edits (a # b # ms) =
     (if matchIndex b < matchIndex a + matchLength a then Some (editIndex a, editIndex b) else overlapping_edits (b # ms))"
| "overlapping_edits ms = None"

definition replacement_of :: "matched_edit \<Rightarrow> text_replacement" where
  "replacement_of m = \<lparr>matchIndex = matchIndex m, matchLength = matchLength m, newText = newText m\<rparr>"

definition uses_fuzzy_match :: "(js_string \<Rightarrow> js_string) \<Rightarrow> js_string \<Rightarrow> (js_string \<times> js_string) list \<Rightarrow> bool" where
  "uses_fuzzy_match nfkc content edits =
     list_ex (\<lambda>(old, new). case fuzzy_find_text nfkc content old of Some m \<Rightarrow> fm_fuzzy m | None \<Rightarrow> False) edits"

definition normalized_edits :: "(js_string \<times> js_string) list \<Rightarrow> (js_string \<times> js_string) list" where
  "normalized_edits edits = map (\<lambda>(old, new). (normalize_to_lf old, normalize_to_lf new)) edits"

definition apply_edits :: "(js_string \<Rightarrow> js_string) \<Rightarrow> js_string \<Rightarrow> (js_string \<times> js_string) list \<Rightarrow>
    edit_error + js_string \<times> js_string" where
  "apply_edits nfkc normalizedContent edits0 =
     (let edits = normalized_edits edits0 in
      case empty_old_text edits 0 of
        Some i \<Rightarrow> Inl (EmptyOldText i)
      | None \<Rightarrow>
          (let fuzzy = uses_fuzzy_match nfkc normalizedContent edits;
               base = (if fuzzy then normalize_for_fuzzy_match nfkc normalizedContent else normalizedContent) in
           case match_edits nfkc base edits 0 of
             Inl e \<Rightarrow> Inl e
           | Inr ms0 \<Rightarrow>
               (let ms = sort_key matchIndex ms0 in
                case overlapping_edits ms of
                  Some (i, j) \<Rightarrow> Inl (EditsOverlap i j)
                | None \<Rightarrow>
                    (case (if fuzzy then apply_preserving_lines normalizedContent base (map replacement_of ms)
                           else Inr (apply_replacements base (map replacement_of ms) 0)) of
                       Inl e \<Rightarrow> Inl e
                     | Inr newContent \<Rightarrow>
                         if normalizedContent = newContent then Inl NoChange
                         else Inr (normalizedContent, newContent)))))"

text \<open>What the edit tool writes to a file with the given text.\<close>

definition edit_file_text :: "(js_string \<Rightarrow> js_string) \<Rightarrow> js_string \<Rightarrow> (js_string \<times> js_string) list \<Rightarrow> edit_error + js_string" where
  "edit_file_text nfkc text0 edits =
     (case strip_bom text0 of
        (bom, content) \<Rightarrow>
          (case apply_edits nfkc (normalize_to_lf content) edits of
             Inl e \<Rightarrow> Inl e
           | Inr (_, newContent) \<Rightarrow> Inr (bom @ restore_line_endings newContent (detect_line_ending content))))"

end
