(* ===== verification/EditProofs.thy ===== *)
theory EditProofs
  imports EditText
begin

text \<open>
  What the edit tool does: without the normalised form it replaces exactly the matched texts, and with it
  every line that no replacement touches is the line of the original.
\<close>

section \<open>Matches\<close>

lemma first_index_Some: "first_index t w = Some i \<Longrightarrow> take (length w) (drop i t) = w \<and> i + length w \<le> length t"
proof (induction t w arbitrary: i rule: first_index.induct)
  case (2 c s w)
  show ?case
  proof (cases "take (length w) (c # s) = w")
    case True
    then have "length w \<le> length (c # s)" by (metis length_take min.cobounded2 min.commute)
    with 2 True show ?thesis by simp
  next
    case False
    with 2(2) obtain j where "first_index s w = Some j" "i = Suc j" by auto
    with 2(1) [OF False] show ?thesis by simp
  qed
qed (simp split: if_splits)

text \<open>Replacements in order, apart from each other, between two positions.\<close>

fun ordered_within :: "nat \<Rightarrow> nat \<Rightarrow> text_replacement list \<Rightarrow> bool" where
  "ordered_within p n [] \<longleftrightarrow> p \<le> n"
| "ordered_within p n (r # rs) \<longleftrightarrow> p \<le> matchIndex r \<and> ordered_within (matchIndex r + matchLength r) n rs"

lemma ordered_within_le: "ordered_within p n rs \<Longrightarrow> p \<le> n"
  by (induction rs arbitrary: p) force+

lemma ordered_within_mono: "ordered_within p n rs \<Longrightarrow> p' \<le> p \<Longrightarrow> n \<le> n' \<Longrightarrow> ordered_within p' n' rs"
  by (induction rs arbitrary: p p') auto

lemma ordered_within_snoc:
  "ordered_within p (matchIndex r) rs \<Longrightarrow> matchIndex r + matchLength r \<le> n \<Longrightarrow> ordered_within p n (rs @ [r])"
  by (induction rs arbitrary: p) auto

text \<open>The text from a position on with the replacements made.\<close>

fun edited :: "nat \<Rightarrow> js_string \<Rightarrow> text_replacement list \<Rightarrow> js_string" where
  "edited p c [] = drop p c"
| "edited p c (r # rs) = drop p (take (matchIndex r) c) @ newText r @ edited (matchIndex r + matchLength r) c rs"

lemma drop_take_split: "p \<le> q \<Longrightarrow> q \<le> n \<Longrightarrow> drop p (take q c) @ drop q (take n c) = drop p (take n c)"
proof -
  assume "p \<le> q" "q \<le> n"
  then have "take n c = take q c @ drop q (take n c)"
    by (metis append_take_drop_id min.absorb1 take_take)
  then have "drop p (take n c) = drop p (take q c @ drop q (take n c))" by simp
  then show ?thesis
    using \<open>p \<le> q\<close> by (cases "p \<le> length c") (auto simp: min_def)
qed

lemma drop_split: "p \<le> q \<Longrightarrow> drop p (take q c) @ drop q c = drop p c"
  using drop_take_split [of p q "max q (length c)" c] by (cases "q \<le> length c") (auto simp: max_def)

lemma replace_at_within:
  assumes "offset \<le> matchIndex r" "matchIndex r + matchLength r \<le> length c"
  shows "replace_at offset r (drop offset (take (matchIndex r + matchLength r) c) @ x) =
    drop offset (take (matchIndex r) c) @ newText r @ x"
proof -
  let ?i = "matchIndex r" and ?e = "matchIndex r + matchLength r"
  have i: "nat (int ?i - int offset) = ?i - offset" "nat (int ?i - int offset + int (matchLength r)) = ?e - offset"
    using assms(1) by auto
  have "length (drop offset (take ?e c)) = ?e - offset" using assms(2) by simp
  moreover have "take (?i - offset) (drop offset (take ?e c)) = drop offset (take ?i c)"
    using assms(1) by (simp add: take_drop min_def)
  ultimately show ?thesis
    unfolding replace_at_def Let_def i using assms by simp
qed

lemma apply_replacements_from:
  "ordered_within q (length c) rs \<Longrightarrow> offset \<le> q \<Longrightarrow>
   apply_replacements (drop offset c) rs offset = drop offset (take q c) @ edited q c rs"
proof (induction rs arbitrary: q)
  case Nil
  then show ?case by (simp add: apply_replacements_def drop_split)
next
  case (Cons r rs)
  let ?e = "matchIndex r + matchLength r"
  from Cons.prems have e: "ordered_within ?e (length c) rs" "offset \<le> ?e" "q \<le> matchIndex r" by auto
  from ordered_within_le [OF e(1)] have "?e \<le> length c" .
  have "apply_replacements (drop offset c) (r # rs) offset = replace_at offset r (apply_replacements (drop offset c) rs offset)"
    by (simp add: apply_replacements_def)
  also have "\<dots> = replace_at offset r (drop offset (take ?e c) @ edited ?e c rs)"
    by (simp only: Cons.IH [OF e(1,2)])
  also have "\<dots> = drop offset (take (matchIndex r) c) @ newText r @ edited ?e c rs"
    by (rule replace_at_within) (use \<open>?e \<le> length c\<close> e(3) Cons.prems(2) in simp_all)
  also have "drop offset (take (matchIndex r) c) = drop offset (take q c) @ drop q (take (matchIndex r) c)"
    by (rule drop_take_split [symmetric]) (use e(3) Cons.prems(2) in simp_all)
  finally show ?case by simp
qed

lemma apply_replacements_edited:
  "ordered_within offset (length c) rs \<Longrightarrow> apply_replacements (drop offset c) rs offset = edited offset c rs"
  using apply_replacements_from [of offset c rs offset] by simp

lemma edited_from: "ordered_within q n rs \<Longrightarrow> p \<le> q \<Longrightarrow> edited p c rs = drop p (take q c) @ edited q c rs"
  by (cases rs) (simp_all add: drop_split drop_take_split)

lemma edited_append:
  "ordered_within p q rs \<Longrightarrow> ordered_within q n rs' \<Longrightarrow> q \<le> length c \<Longrightarrow>
   edited p c (rs @ rs') = edited p (take q c) rs @ edited q c rs'"
proof (induction rs arbitrary: p)
  case Nil
  then show ?case using edited_from [of q n rs' p c] by simp
next
  case (Cons r rs)
  from ordered_within_le [of "matchIndex r + matchLength r" q rs] Cons.prems(1)
  have "matchIndex r \<le> q" by simp
  with Cons show ?case by (simp add: min_def)
qed

section \<open>Exact edits\<close>

text \<open>Gaps and texts in turn.\<close>

fun weave :: "js_string list \<Rightarrow> js_string list \<Rightarrow> js_string" where
  "weave (g # gs) (t # ts) = g @ t @ weave gs ts"
| "weave gs ts = concat gs"

lemma edited_weave:
  "ordered_within p (length c) rs \<Longrightarrow>
   \<exists>gaps. length gaps = length rs + 1 \<and>
     drop p c = weave gaps (map (\<lambda>r. take (matchLength r) (drop (matchIndex r) c)) rs) \<and>
     edited p c rs = weave gaps (map newText rs)"
proof (induction rs arbitrary: p)
  case Nil
  show ?case by (rule exI [of _ "[drop p c]"]) simp
next
  case (Cons r rs)
  let ?e = "matchIndex r + matchLength r"
  from Cons.prems have p: "p \<le> matchIndex r" "ordered_within ?e (length c) rs" by auto
  from Cons.IH [OF p(2)] obtain gaps where g: "length gaps = length rs + 1"
    "drop ?e c = weave gaps (map (\<lambda>r. take (matchLength r) (drop (matchIndex r) c)) rs)"
    "edited ?e c rs = weave gaps (map newText rs)" by blast
  have "drop p c = drop p (take (matchIndex r) c) @ drop (matchIndex r) c" by (rule drop_split [OF p(1), symmetric])
  also have "drop (matchIndex r) c = take (matchLength r) (drop (matchIndex r) c) @ drop ?e c"
    by (metis add.commute append_take_drop_id drop_drop)
  finally show ?case
    using g by (intro exI [of _ "drop p (take (matchIndex r) c) # gaps"]) simp
qed

lemma match_edits_exact:
  "match_edits nfkc base edits i = Inr ms \<Longrightarrow>
   \<forall>(old, new) \<in> set edits. \<forall>m. fuzzy_find_text nfkc base old = Some m \<longrightarrow> \<not> fm_fuzzy m \<Longrightarrow>
   map (\<lambda>m. (take (matchLength m) (drop (matchIndex m) base), newText m)) ms = edits \<and>
   (\<forall>m \<in> set ms. matchIndex m + matchLength m \<le> length base)"
proof (induction nfkc base edits i arbitrary: ms rule: match_edits.induct)
  case (2 nfkc base old new edits i)
  from "2.prems"(1) obtain m ms' where m: "fuzzy_find_text nfkc base old = Some m"
    "match_edits nfkc base edits (i + 1) = Inr ms'"
    "\<not> 1 < count_occurrences nfkc base old"
    "ms = \<lparr>matchIndex = fm_index m, matchLength = fm_length m, newText = new, editIndex = i\<rparr> # ms'"
    by (auto simp: Let_def split: option.splits if_splits sum.splits)
  with "2.prems"(2) have "first_index base old = Some (fm_index m)" "fm_length m = length old"
    by (auto simp: fuzzy_find_text_def Let_def split: option.splits)
  with first_index_Some have "take (fm_length m) (drop (fm_index m) base) = old" "fm_index m + fm_length m \<le> length base"
    by metis+
  with "2.IH" [OF m(1) refl m(3) m(2)] "2.prems"(2) m(4) show ?case by simp
qed simp

lemma ordered_overlapping:
  "overlapping_edits ms = None \<Longrightarrow> \<forall>m \<in> set ms. matchIndex m + matchLength m \<le> n \<Longrightarrow>
   p \<le> n \<Longrightarrow> (ms \<noteq> [] \<longrightarrow> p \<le> matchIndex (hd ms)) \<Longrightarrow> ordered_within p n (map replacement_of ms)"
  by (induction ms arbitrary: p rule: overlapping_edits.induct) (auto simp: replacement_of_def split: if_splits)

lemma ordered_matches:
  "overlapping_edits ms = None \<Longrightarrow> \<forall>m \<in> set ms. matchIndex m + matchLength m \<le> n \<Longrightarrow>
   ordered_within 0 n (map replacement_of ms)"
  by (rule ordered_overlapping) simp_all

lemma apply_edits_Inr:
  assumes "apply_edits nfkc content edits = Inr (base, new)"
  obtains ms where "base = content" "content \<noteq> new" "empty_old_text (normalized_edits edits) 0 = None"
    "match_edits nfkc (if uses_fuzzy_match nfkc content (normalized_edits edits)
        then normalize_for_fuzzy_match nfkc content else content) (normalized_edits edits) 0 = Inr ms"
    "overlapping_edits (sort_key matchIndex ms) = None"
    "if uses_fuzzy_match nfkc content (normalized_edits edits)
     then apply_preserving_lines content (normalize_for_fuzzy_match nfkc content)
       (map replacement_of (sort_key matchIndex ms)) = Inr new
     else new = apply_replacements content (map replacement_of (sort_key matchIndex ms)) 0"
  using assms unfolding apply_edits_def Let_def
  by (auto split: option.splits sum.splits if_splits prod.splits)

text \<open>
  \<open>replaces content edits new\<close>: the content is the texts of the edits in some order with gaps between
  them, and the new text is their replacements with the same gaps.
\<close>

definition replaces :: "js_string \<Rightarrow> (js_string \<times> js_string) list \<Rightarrow> js_string \<Rightarrow> bool" where
  "replaces content edits new \<longleftrightarrow>
     (\<exists>es gaps. mset es = mset edits \<and> length gaps = length es + 1 \<and>
        content = weave gaps (map fst es) \<and> new = weave gaps (map snd es))"

lemma exact_edits:
  assumes "apply_edits nfkc content edits = Inr (base, new)" "\<not> uses_fuzzy_match nfkc content (normalized_edits edits)"
  shows "replaces content (normalized_edits edits) new"
proof -
  let ?es = "normalized_edits edits"
  from apply_edits_Inr [OF assms(1)] assms(2) obtain ms where ms: "match_edits nfkc content ?es 0 = Inr ms"
    "overlapping_edits (sort_key matchIndex ms) = None"
    "new = apply_replacements content (map replacement_of (sort_key matchIndex ms)) 0" by metis
  let ?ms = "sort_key matchIndex ms"
  let ?pair = "\<lambda>m. (take (matchLength m) (drop (matchIndex m) content), newText m)"
  have exact: "\<forall>(old, new) \<in> set ?es. \<forall>m. fuzzy_find_text nfkc content old = Some m \<longrightarrow> \<not> fm_fuzzy m"
    using assms(2) by (force simp: uses_fuzzy_match_def list_ex_iff split: option.splits)
  note matched = match_edits_exact [OF ms(1) exact]
  have ordered: "ordered_within 0 (length content) (map replacement_of ?ms)"
    by (rule ordered_matches [OF ms(2)]) (use matched in simp)
  have maps: "map (\<lambda>r. take (matchLength r) (drop (matchIndex r) content)) (map replacement_of ?ms) = map (fst \<circ> ?pair) ?ms"
    "map newText (map replacement_of ?ms) = map (snd \<circ> ?pair) ?ms"
    by (simp_all add: replacement_of_def)
  from edited_weave [OF ordered, unfolded maps drop_0 length_map] obtain gaps where g: "length gaps = length ?ms + 1"
    "content = weave gaps (map (fst \<circ> ?pair) ?ms)" "edited 0 content (map replacement_of ?ms) = weave gaps (map (snd \<circ> ?pair) ?ms)"
    by (elim exE conjE)
  have "new = edited 0 content (map replacement_of ?ms)"
    using apply_replacements_edited [OF ordered] ms(3) by simp
  then have "new = weave gaps (map (snd \<circ> ?pair) ?ms)" using g(3) by (rule trans)
  define es where "es = map ?pair ?ms"
  have "mset es = mset ?es" unfolding conjunct1 [OF matched, symmetric] es_def mset_map mset_sort ..
  moreover have "content = weave gaps (map fst es)" unfolding es_def map_map by (rule g(2))
  moreover have "new = weave gaps (map snd es)" unfolding es_def map_map by fact
  moreover have "length gaps = length es + 1" using g(1) by (simp add: es_def)
  ultimately show ?thesis unfolding replaces_def by blast
qed

section \<open>Lines and their positions\<close>

lemma concat_lines_with_endings: "concat (lines_with_endings t) = t"
  by (induction t) (auto split: list.splits)

text \<open>Where a line begins.\<close>

definition line_pos :: "js_string list \<Rightarrow> nat \<Rightarrow> nat" where
  "line_pos ls i = length (concat (take i ls))"

lemma line_pos_0 [simp]: "line_pos ls 0 = 0"
  by (simp add: line_pos_def)

lemma line_pos_Suc: "i < length ls \<Longrightarrow> line_pos ls (Suc i) = line_pos ls i + length (ls ! i)"
  by (simp add: line_pos_def take_Suc_conv_app_nth)

lemma line_pos_mono: "i \<le> j \<Longrightarrow> line_pos ls i \<le> line_pos ls j"
proof -
  assume "i \<le> j"
  then have "take j ls = take i ls @ take (j - i) (drop i ls)" by (metis le_add_diff_inverse take_add)
  then show ?thesis by (simp add: line_pos_def)
qed

lemma line_pos_le: "line_pos ls i \<le> length (concat ls)"
  by (metis line_pos_def append_take_drop_id concat_append length_append le_add1)

lemma take_line_pos: "take (line_pos ls i) (concat ls) = concat (take i ls)"
  unfolding line_pos_def by (metis append_eq_conv_conj append_take_drop_id concat_append)

lemma drop_line_pos: "drop (line_pos ls i) (concat ls) = concat (drop i ls)"
  unfolding line_pos_def by (metis append_eq_conv_conj append_take_drop_id concat_append)

lemma concat_lines_between:
  "i \<le> j \<Longrightarrow> concat (drop i (take j ls)) = drop (line_pos ls i) (take (line_pos ls j) (concat ls))"
  unfolding take_line_pos using drop_line_pos [of "take j ls" i] by (simp add: line_pos_def min_def)

lemma line_spans_from_nth:
  "i < length ls \<Longrightarrow> line_spans_from offset ls ! i =
     \<lparr>span_start = offset + line_pos ls i, span_end = offset + line_pos ls (Suc i)\<rparr>"
proof (induction ls arbitrary: i offset)
  case (Cons l ls)
  then show ?case by (cases i) (simp_all add: line_pos_def)
qed simp

lemma length_line_spans_from [simp]: "length (line_spans_from offset ls) = length ls"
  by (induction ls arbitrary: offset) simp_all

lemma length_line_spans [simp]: "length (line_spans t) = length (lines_with_endings t)"
  by (simp add: line_spans_def)

lemma line_spans_nth:
  "i < length (lines_with_endings t) \<Longrightarrow> line_spans t ! i =
     \<lparr>span_start = line_pos (lines_with_endings t) i, span_end = line_pos (lines_with_endings t) (Suc i)\<rparr>"
  by (simp add: line_spans_def line_spans_from_nth)

lemma find_start_line_Some:
  "find_start_line ls i p = Some s \<Longrightarrow>
   i \<le> s \<and> s - i < length ls \<and> span_start (ls ! (s - i)) \<le> p \<and> p < span_end (ls ! (s - i))"
proof (induction ls i p rule: find_start_line.induct)
  case (2 l ls i p)
  show ?case
  proof (cases "span_start l \<le> p \<and> p < span_end l")
    case False
    then have "find_start_line ls (i + 1) p = Some s" using 2(2) by auto
    from 2(1) [OF False this] have "i + 1 \<le> s" "s - (i + 1) < length ls"
      "span_start (ls ! (s - (i + 1))) \<le> p" "p < span_end (ls ! (s - (i + 1)))" by auto
    moreover have "s - i = Suc (s - (i + 1))" using \<open>i + 1 \<le> s\<close> by simp
    ultimately show ?thesis by simp
  qed (use 2(2) in auto)
qed simp

lemma find_end_line_spec:
  "i \<le> find_end_line ls i p \<and>
   (find_end_line ls i p < length ls \<longrightarrow> p \<le> span_end (ls ! find_end_line ls i p)) \<and>
   (\<forall>j. i \<le> j \<and> j < find_end_line ls i p \<longrightarrow> span_end (ls ! j) < p)"
proof (induction ls i p rule: find_end_line.induct)
  case (1 ls i p)
  show ?case
  proof (cases "i < length ls \<and> span_end (ls ! i) < p")
    case True
    have "find_end_line ls i p = find_end_line ls (i + 1) p"
      using find_end_line.simps [of ls i p] True by simp
    moreover have "span_end (ls ! j) < p" if "i \<le> j" "j < find_end_line ls (i + 1) p" for j
      using 1 [OF True] True that by (cases "j = i") auto
    ultimately show ?thesis using 1 [OF True] by simp
  next
    case False
    then have "find_end_line ls i p = i" using find_end_line.simps [of ls i p] by auto
    with False show ?thesis by auto
  qed
qed

text \<open>A replacement touches a line.\<close>

definition touches :: "text_replacement \<Rightarrow> js_string list \<Rightarrow> nat \<Rightarrow> bool" where
  "touches r ls i \<longleftrightarrow>
     matchIndex r < line_pos ls (i + 1) \<and>
     (line_pos ls i \<le> matchIndex r \<or> line_pos ls i < matchIndex r + matchLength r)"

lemma replacement_line_range_Inr:
  assumes "replacement_line_range (line_spans t) r = Inr (s, e)"
  defines "ls \<equiv> lines_with_endings t"
  shows "s < e \<and> e \<le> length ls \<and> line_pos ls s \<le> matchIndex r \<and> matchIndex r + matchLength r \<le> line_pos ls e \<and>
    (\<forall>i. s \<le> i \<and> i < e \<longrightarrow> touches r ls i)"
proof -
  from assms(1) obtain f where f: "find_start_line (line_spans t) 0 (matchIndex r) = Some s"
    "find_end_line (line_spans t) s (matchIndex r + matchLength r) = f" "f < length ls" "e = f + 1"
    by (auto simp: replacement_line_range_def Let_def ls_def split: option.splits if_splits)
  from find_start_line_Some [OF f(1)] have s: "s < length ls" "line_pos ls s \<le> matchIndex r" "matchIndex r < line_pos ls (s + 1)"
    by (auto simp: line_spans_nth ls_def)
  from find_end_line_spec [of s "line_spans t" "matchIndex r + matchLength r"] f(2,3)
  have e: "s \<le> f" "matchIndex r + matchLength r \<le> line_pos ls (f + 1)"
    "\<And>j. s \<le> j \<Longrightarrow> j < f \<Longrightarrow> line_pos ls (j + 1) < matchIndex r + matchLength r"
    by (auto simp: line_spans_nth ls_def)
  have "touches r ls i" if "s \<le> i" "i < e" for i
  proof -
    have "matchIndex r < line_pos ls (i + 1)"
      using s(3) line_pos_mono [of "s + 1" "i + 1" ls] that by simp
    moreover have "line_pos ls i < matchIndex r + matchLength r" if "i \<noteq> s"
      using e(3) [of "i - 1"] that \<open>s \<le> i\<close> \<open>i < e\<close> f(4) by simp
    ultimately show ?thesis using s(2) by (auto simp: touches_def)
  qed
  then show ?thesis using e f(3,4) s(2) by simp
qed

section \<open>Groups\<close>

definition group_ok :: "js_string list \<Rightarrow> replacement_group \<Rightarrow> bool" where
  "group_ok ls g \<longleftrightarrow>
     group_start g < group_end g \<and> group_end g \<le> length ls \<and>
     ordered_within (line_pos ls (group_start g)) (line_pos ls (group_end g)) (group_replacements g) \<and>
     (\<forall>i. group_start g \<le> i \<and> i < group_end g \<longrightarrow> (\<exists>r \<in> set (group_replacements g). touches r ls i))"

fun groups_ok :: "js_string list \<Rightarrow> nat \<Rightarrow> replacement_group list \<Rightarrow> bool" where
  "groups_ok ls i [] \<longleftrightarrow> True"
| "groups_ok ls i (g # gs) \<longleftrightarrow> i \<le> group_start g \<and> group_ok ls g \<and> groups_ok ls (group_end g) gs"

lemma groups_ok_append:
  "groups_ok ls i (gs @ [g]) \<longleftrightarrow>
     groups_ok ls i gs \<and> (if gs = [] then i else group_end (last gs)) \<le> group_start g \<and> group_ok ls g"
  by (induction gs arbitrary: i) auto

text \<open>The last group ends its replacements before a position.\<close>

definition group_until :: "js_string list \<Rightarrow> nat \<Rightarrow> replacement_group \<Rightarrow> bool" where
  "group_until ls q g \<longleftrightarrow> ordered_within (line_pos ls (group_start g)) q (group_replacements g)"

lemma group_ok_single:
  assumes "replacement_line_range (line_spans t) r = Inr (s, e)"
  defines "g \<equiv> \<lparr>group_start = s, group_end = e, group_replacements = [r]\<rparr>"
  shows "group_ok (lines_with_endings t) g" "group_until (lines_with_endings t) (matchIndex r + matchLength r) g"
  using replacement_line_range_Inr [OF assms(1)] by (auto simp: g_def group_ok_def group_until_def)

lemma group_ok_extend:
  assumes g: "group_ok (lines_with_endings t) g" "group_until (lines_with_endings t) q g" "q \<le> matchIndex r"
    and r: "replacement_line_range (line_spans t) r = Inr (s, e)" "s < group_end g"
  defines "g' \<equiv> g\<lparr>group_end := max (group_end g) e, group_replacements := group_replacements g @ [r]\<rparr>"
  shows "group_ok (lines_with_endings t) g'" "group_until (lines_with_endings t) (matchIndex r + matchLength r) g'"
proof -
  let ?ls = "lines_with_endings t" and ?q = "matchIndex r + matchLength r"
  note range = replacement_line_range_Inr [OF r(1)]
  have before: "ordered_within (line_pos ?ls (group_start g)) (matchIndex r) (group_replacements g)"
    using ordered_within_mono [OF g(2) [unfolded group_until_def] order_refl g(3)] .
  then show "group_until ?ls ?q g'"
    by (simp add: group_until_def g'_def ordered_within_snoc)
  have "?q \<le> line_pos ?ls (max (group_end g) e)"
    using range line_pos_mono [of e "max (group_end g) e" ?ls] by simp
  with before have "ordered_within (line_pos ?ls (group_start g)) (line_pos ?ls (max (group_end g) e)) (group_replacements g @ [r])"
    by (rule ordered_within_snoc)
  moreover have "\<exists>x \<in> set (group_replacements g @ [r]). touches x ?ls i"
    if "group_start g \<le> i" "i < max (group_end g) e" for i
  proof (cases "i < group_end g")
    case True
    with g(1) that show ?thesis by (auto simp: group_ok_def)
  next
    case False
    with that r(2) range have "touches r ?ls i" by simp
    then show ?thesis by simp
  qed
  ultimately show "group_ok ?ls g'"
    using g(1) range by (simp add: group_ok_def g'_def less_max_iff_disj)
qed

lemma group_replacements_from_ok:
  "group_replacements_from (line_spans t) rs acc = Inr groups \<Longrightarrow>
   groups_ok (lines_with_endings t) 0 (List.rev acc) \<Longrightarrow> ordered_within q n rs \<Longrightarrow>
   (acc \<noteq> [] \<longrightarrow> group_until (lines_with_endings t) q (hd acc)) \<Longrightarrow>
   groups_ok (lines_with_endings t) 0 groups \<and>
   concat (map group_replacements groups) = concat (map group_replacements (List.rev acc)) @ rs"
proof (induction rs arbitrary: acc q)
  case (Cons r rs)
  let ?ls = "lines_with_endings t" and ?q = "matchIndex r + matchLength r"
  from Cons.prems(3) have rest: "q \<le> matchIndex r" "ordered_within ?q n rs" by auto
  from Cons.prems(1) obtain s e where r: "replacement_line_range (line_spans t) r = Inr (s, e)"
    by (auto split: sum.splits)
  let ?new = "\<lparr>group_start = s, group_end = e, group_replacements = [r]\<rparr>"
  note single = group_ok_single [OF r]
  consider (first) "acc = []" | (extend) g gs where "acc = g # gs" "s < group_end g"
    | (separate) g gs where "acc = g # gs" "group_end g \<le> s" by (metis list.exhaust not_less)
  then show ?case
  proof cases
    case first
    with Cons.prems(1) r have "group_replacements_from (line_spans t) rs [?new] = Inr groups" by simp
    from Cons.IH [OF this _ rest(2)] single first show ?thesis by simp
  next
    case extend
    let ?g = "g\<lparr>group_end := max (group_end g) e, group_replacements := group_replacements g @ [r]\<rparr>"
    from Cons.prems(1) r extend have step: "group_replacements_from (line_spans t) rs (?g # gs) = Inr groups" by simp
    from Cons.prems(2,4) extend have g: "group_ok ?ls g" "group_until ?ls q g" by (simp_all add: groups_ok_append)
    note ok = group_ok_extend [OF g rest(1) r extend(2)]
    have "groups_ok ?ls 0 (List.rev (?g # gs))"
      using Cons.prems(2) extend ok(1) by (simp add: groups_ok_append)
    from Cons.IH [OF step this rest(2)] ok(2) extend(1) show ?thesis by simp
  next
    case separate
    with Cons.prems(1) r have step: "group_replacements_from (line_spans t) rs (?new # g # gs) = Inr groups" by simp
    have "groups_ok ?ls 0 (List.rev (?new # g # gs))"
      using Cons.prems(2) separate single(1) unfolding rev.simps(2) [of ?new "g # gs"] groups_ok_append by simp
    from Cons.IH [OF step this rest(2)] single(2) separate(1) show ?thesis by simp
  qed
qed simp

section \<open>Untouched lines\<close>

text \<open>Lines with some blocks of them, from one line to before another, replaced by texts.\<close>

fun stitch :: "nat \<Rightarrow> js_string list \<Rightarrow> (nat \<times> nat \<times> js_string) list \<Rightarrow> js_string" where
  "stitch i ls [] = concat (drop i ls)"
| "stitch i ls ((s, e, x) # bs) = concat (drop i (take s ls)) @ x @ stitch e ls bs"

fun blocks_ok :: "nat \<Rightarrow> nat \<Rightarrow> (nat \<times> nat \<times> js_string) list \<Rightarrow> bool" where
  "blocks_ok i n [] \<longleftrightarrow> True"
| "blocks_ok i n ((s, e, x) # bs) \<longleftrightarrow> i \<le> s \<and> s < e \<and> e \<le> n \<and> blocks_ok e n bs"

lemma ordered_within_append:
  "ordered_within p q rs \<Longrightarrow> ordered_within q n rs' \<Longrightarrow> ordered_within p n (rs @ rs')"
  by (induction rs arbitrary: p) (auto intro: ordered_within_mono)

lemma ordered_within_sorted: "ordered_within p n rs \<Longrightarrow> sorted (map matchIndex rs) \<and> (\<forall>r \<in> set rs. p \<le> matchIndex r)"
  by (induction rs arbitrary: p) force+

definition group_block :: "js_string \<Rightarrow> replacement_group \<Rightarrow> nat \<times> nat \<times> js_string" where
  "group_block base g =
     (let ls = lines_with_endings base; p = line_pos ls (group_start g) in
      (group_start g, group_end g,
       apply_replacements (drop p (take (line_pos ls (group_end g)) base)) (group_replacements g) p))"

lemma write_groups_stitch:
  "groups_ok (lines_with_endings base) i gs \<Longrightarrow>
   write_groups originalLines base (line_spans base) i gs = stitch i originalLines (map (group_block base) gs)"
proof (induction gs arbitrary: i)
  case (Cons g gs)
  then have "group_start g < length (lines_with_endings base)" "group_end g - 1 < length (lines_with_endings base)"
    "Suc (group_end g - 1) = group_end g" by (auto simp: group_ok_def)
  with Cons show ?case by (simp add: group_block_def line_spans_nth Let_def)
qed simp

lemma groups_ordered:
  "groups_ok ls i gs \<Longrightarrow> ordered_within (line_pos ls i) (length (concat ls)) (concat (map group_replacements gs))"
proof (induction gs arbitrary: i)
  case (Cons g gs)
  then have "ordered_within (line_pos ls (group_start g)) (length (concat ls)) (group_replacements g @ concat (map group_replacements gs))"
    by (auto simp: group_ok_def intro: ordered_within_append)
  with Cons.prems show ?case by (auto intro: ordered_within_mono line_pos_mono)
qed (simp add: line_pos_le)

lemma edited_stitch:
  "groups_ok (lines_with_endings base) i gs \<Longrightarrow>
   edited (line_pos (lines_with_endings base) i) base (concat (map group_replacements gs)) =
     stitch i (lines_with_endings base) (map (group_block base) gs)"
proof (induction gs arbitrary: i)
  case Nil
  show ?case using drop_line_pos [of "lines_with_endings base" i] by (simp add: concat_lines_with_endings)
next
  case (Cons g gs)
  let ?ls = "lines_with_endings base" and ?rs = "group_replacements g" and ?rest = "concat (map group_replacements gs)"
  let ?s = "line_pos ?ls (group_start g)" and ?e = "line_pos ?ls (group_end g)"
  from Cons.prems have g: "i \<le> group_start g" "ordered_within ?s ?e ?rs" "groups_ok ?ls (group_end g) gs"
    by (auto simp: group_ok_def)
  have base: "concat ?ls = base" by (rule concat_lines_with_endings)
  have rest: "ordered_within ?e (length base) ?rest" using groups_ordered [OF g(3)] by (simp add: base)
  have e: "?e \<le> length base" using line_pos_le [of ?ls] by (simp add: base)
  have "edited (line_pos ?ls i) base (?rs @ ?rest) = drop (line_pos ?ls i) (take ?s base) @ edited ?s base (?rs @ ?rest)"
    by (rule edited_from [OF ordered_within_append [OF g(2) rest] line_pos_mono [OF g(1)]])
  also have "drop (line_pos ?ls i) (take ?s base) = concat (drop i (take (group_start g) ?ls))"
    using concat_lines_between [OF g(1), of ?ls] by (simp add: base)
  also have "edited ?s base (?rs @ ?rest) = edited ?s (take ?e base) ?rs @ edited ?e base ?rest"
    by (rule edited_append [OF g(2) rest e])
  also have "edited ?s (take ?e base) ?rs = apply_replacements (drop ?s (take ?e base)) ?rs ?s"
    by (rule apply_replacements_edited [symmetric]) (use g(2) e in \<open>simp add: min_def\<close>)
  also have "edited ?e base ?rest = stitch (group_end g) ?ls (map (group_block base) gs)"
    by (rule Cons.IH [OF g(3)])
  finally show ?case by (simp add: group_block_def [of base g] Let_def)
qed

lemma groups_blocks: "groups_ok (lines_with_endings base) i gs \<Longrightarrow> blocks_ok i (length (lines_with_endings base)) (map (group_block base) gs)"
  by (induction gs arbitrary: i) (auto simp: group_block_def Let_def group_ok_def)

lemma groups_ok_all: "groups_ok ls i gs \<Longrightarrow> g \<in> set gs \<Longrightarrow> group_ok ls g"
  by (induction gs arbitrary: i) auto

lemma groups_touched:
  assumes "groups_ok (lines_with_endings base) i gs" "(s, e, x) \<in> set (map (group_block base) gs)" "s \<le> j" "j < e"
  shows "\<exists>r \<in> set (concat (map group_replacements gs)). touches r (lines_with_endings base) j"
proof -
  from assms(2) obtain g where g: "g \<in> set gs" "s = group_start g" "e = group_end g"
    by (auto simp: group_block_def Let_def)
  with groups_ok_all [OF assms(1) g(1)] assms(3,4)
  have "\<exists>r \<in> set (group_replacements g). touches r (lines_with_endings base) j" by (auto simp: group_ok_def)
  with g(1) show ?thesis by auto
qed

text \<open>
  \<open>keeps_lines original base rs new\<close>: the new text is the original with some blocks of lines replaced, as
  the plain replacement is the base with the same blocks replaced, and every line of a block is
  touched.
\<close>

definition keeps_lines :: "js_string \<Rightarrow> js_string \<Rightarrow> text_replacement list \<Rightarrow> js_string \<Rightarrow> bool" where
  "keeps_lines original base rs new \<longleftrightarrow>
     (\<exists>blocks. length (lines_with_endings original) = length (lines_with_endings base) \<and>
        blocks_ok 0 (length (lines_with_endings base)) blocks \<and>
        new = stitch 0 (lines_with_endings original) blocks \<and>
        apply_replacements base rs 0 = stitch 0 (lines_with_endings base) blocks \<and>
        (\<forall>(s, e, x) \<in> set blocks. \<forall>i. s \<le> i \<and> i < e \<longrightarrow> (\<exists>r \<in> set rs. touches r (lines_with_endings base) i)))"

lemma preserving_keeps_lines:
  assumes "apply_preserving_lines original base rs = Inr new" "ordered_within 0 n rs"
  shows "keeps_lines original base rs new"
proof -
  let ?ls = "lines_with_endings base"
  have "sort_key matchIndex rs = rs"
    by (rule sort_key_id_if_sorted) (use ordered_within_sorted [OF assms(2)] in blast)
  with assms(1) obtain groups where g: "length (lines_with_endings original) = length ?ls"
    "group_replacements_from (line_spans base) rs [] = Inr groups"
    "new = write_groups (lines_with_endings original) base (line_spans base) 0 groups"
    by (auto simp: apply_preserving_lines_def Let_def split: if_splits sum.splits)
  from group_replacements_from_ok [OF g(2) _ assms(2)]
  have ok: "groups_ok ?ls 0 groups" "concat (map group_replacements groups) = rs" by simp_all
  have "ordered_within 0 (length base) rs"
    using groups_ordered [OF ok(1)] ok(2) by (simp add: concat_lines_with_endings)
  from apply_replacements_edited [OF this] have "apply_replacements base rs 0 = edited 0 base rs" by simp
  also have "\<dots> = stitch 0 ?ls (map (group_block base) groups)" using edited_stitch [OF ok(1)] ok(2) by simp
  finally have plain: "apply_replacements base rs 0 = stitch 0 ?ls (map (group_block base) groups)" .
  have new: "new = stitch 0 (lines_with_endings original) (map (group_block base) groups)"
    unfolding g(3) by (rule write_groups_stitch [OF ok(1)])
  have "\<forall>(s, e, x) \<in> set (map (group_block base) groups). \<forall>i. s \<le> i \<and> i < e \<longrightarrow> (\<exists>r \<in> set rs. touches r ?ls i)"
    using groups_touched [OF ok(1)] unfolding ok(2) by blast
  then show ?thesis
    unfolding keeps_lines_def using g(1) groups_blocks [OF ok(1)] new plain by blast
qed

lemma preserving_same:
  assumes "apply_preserving_lines base base rs = Inr new" "ordered_within 0 n rs"
  shows "new = apply_replacements base rs 0"
  using preserving_keeps_lines [OF assms] by (auto simp: keeps_lines_def)

lemma overlapping_ordered: "overlapping_edits ms = None \<Longrightarrow> \<exists>n. ordered_within 0 n (map replacement_of ms)"
proof
  assume "overlapping_edits ms = None"
  then show "ordered_within 0 (sum_list (map (\<lambda>m. matchIndex m + matchLength m) ms)) (map replacement_of ms)"
    by (rule ordered_matches) (intro ballI member_le_sum_list, simp_all)
qed

text \<open>The matches that an edit of several texts has found, in the order of the file.\<close>

definition found_edits :: "(js_string \<Rightarrow> js_string) \<Rightarrow> js_string \<Rightarrow> (js_string \<times> js_string) list \<Rightarrow> text_replacement list \<Rightarrow> bool" where
  "found_edits nfkc base edits rs \<longleftrightarrow>
     (\<exists>ms. match_edits nfkc base edits 0 = Inr ms \<and> rs = map replacement_of (sort_key matchIndex ms))"

lemma fuzzy_edits:
  assumes "apply_edits nfkc content edits = Inr (base, new)" "uses_fuzzy_match nfkc content (normalized_edits edits)"
  shows "\<exists>rs. found_edits nfkc (normalize_for_fuzzy_match nfkc content) (normalized_edits edits) rs \<and>
    keeps_lines content (normalize_for_fuzzy_match nfkc content) rs new"
proof -
  let ?base = "normalize_for_fuzzy_match nfkc content"
  from apply_edits_Inr [OF assms(1)] assms(2) obtain ms where ms:
    "match_edits nfkc ?base (normalized_edits edits) 0 = Inr ms" "overlapping_edits (sort_key matchIndex ms) = None"
    "apply_preserving_lines content ?base (map replacement_of (sort_key matchIndex ms)) = Inr new" by metis
  from overlapping_ordered [OF ms(2)] obtain n where "ordered_within 0 n (map replacement_of (sort_key matchIndex ms))" ..
  from preserving_keeps_lines [OF ms(3) this] ms(1) show ?thesis unfolding found_edits_def by blast
qed

section \<open>Line endings\<close>

text \<open>A text whose carriage returns all stand before line feeds, and every line feed behind one if there are any.\<close>

fun crlf_text :: "js_string \<Rightarrow> bool" where
  "crlf_text [] = True"
| "crlf_text [c] \<longleftrightarrow> c \<noteq> 13 \<and> c \<noteq> 10"
| "crlf_text (c # d # s) \<longleftrightarrow> (if c = 13 then d = 10 \<and> crlf_text s else c \<noteq> 10 \<and> crlf_text (d # s))"

lemma crlf_text_lines: "crlf_text t \<Longrightarrow> restore_line_endings (normalize_to_lf t) CRLF = t"
  by (induction t rule: crlf_text.induct) (auto simp: restore_line_endings_def normalize_to_lf_def split: if_splits)

lemma no_return_lines: "13 \<notin> set t \<Longrightarrow> normalize_to_lf t = t"
  by (induction t rule: crlf_to_lf.induct) (auto simp: normalize_to_lf_def)

lemma first_index_None: "first_index t w = None \<Longrightarrow> w \<noteq> [] \<Longrightarrow> \<not> (\<exists>a b. t = a @ w @ b)"
proof (induction t w rule: first_index.induct)
  case (2 c s w)
  then have f: "take (length w) (c # s) \<noteq> w" "first_index s w = None" by (auto split: if_splits)
  have "\<not> (\<exists>b. c # s = w @ b)" using f(1) by auto
  with 2(1) [OF f] 2(3) show ?case by (auto simp: Cons_eq_append_conv)
qed auto

lemma detect_crlf: "crlf_text t \<Longrightarrow> 10 \<in> set t \<Longrightarrow> detect_line_ending t = CRLF"
proof -
  have "crlf_text t \<Longrightarrow> 10 \<in> set t \<Longrightarrow> \<exists>i. first_index t [13, 10] = Some i \<and> first_index t [10] = Some (Suc i)" for t
    by (induction t rule: crlf_text.induct) (auto split: if_splits)
  then show "crlf_text t \<Longrightarrow> 10 \<in> set t \<Longrightarrow> detect_line_ending t = CRLF" by (fastforce simp: detect_line_ending_def)
qed

lemma no_return_index: "13 \<notin> set t \<Longrightarrow> first_index t [13, 10] = None"
  by (induction t) auto

lemma no_return_detect: "13 \<notin> set t \<Longrightarrow> detect_line_ending t = LF"
  by (simp add: detect_line_ending_def no_return_index split: option.splits)

lemma crlf_no_lines: "crlf_text t \<Longrightarrow> 10 \<notin> set t \<Longrightarrow> 13 \<notin> set t"
  by (induction t rule: crlf_text.induct) (auto split: if_splits)

lemma line_endings_roundtrip:
  "13 \<notin> set t \<or> crlf_text t \<Longrightarrow> restore_line_endings (normalize_to_lf t) (detect_line_ending t) = t"
  by (metis crlf_no_lines crlf_text_lines detect_crlf no_return_detect no_return_lines restore_line_endings_def line_ending.distinct(1))

section \<open>Properties\<close>

text \<open>
  C20. When every text occurs exactly, a successful edit replaces each of them by its new text and changes
  nothing else: the content is the old texts in some order with gaps between them, and the result is
  the new texts with the same gaps.
\<close>

theorem exact_edits_replace:
  assumes "apply_edits nfkc content edits = Inr (base, new)" "\<not> uses_fuzzy_match nfkc content (normalized_edits edits)"
  shows "replaces content (normalized_edits edits) new"
  using assms by (rule exact_edits)

lemmas edit_simps =
  apply_edits_def normalized_edits_def normalize_to_lf_def uses_fuzzy_match_def fuzzy_find_text_def
  normalize_for_fuzzy_match_def trim_end_def white_space_def plain_unit_def newline_def count_occurrences_def
  count_separators.simps [of w "c # s" for w c s] count_separators.simps [of w "[]" for w]
  overlapping_edits.simps apply_replacements_def replace_at_def replacement_of_def Let_def

theorem exact_edits_replace_witness:
  "apply_edits id [97, 98, 10, 99] [([98], [120])] = Inr ([97, 98, 10, 99], [97, 120, 10, 99]) \<and>
   replaces [97, 98, 10, 99] (normalized_edits [([98], [120])]) [97, 120, 10, 99]"
proof -
  have e: "apply_edits id [97, 98, 10, 99] [([98], [120])] = Inr ([97, 98, 10, 99], [97, 120, 10, 99])"
    by (simp add: edit_simps)
  have "\<not> uses_fuzzy_match id [97, 98, 10, 99] (normalized_edits [([98], [120])])" by (simp add: edit_simps)
  from exact_edits_replace [OF e this] e show ?thesis by blast
qed

text \<open>
  C21. When a text is found in the normalised form only, a successful edit keeps every line that no
  replacement touches as it is in the original, with the lines that are touched taken from the plain
  replacement on the normalised form.
\<close>

theorem fuzzy_edits_keep_lines:
  assumes "apply_edits nfkc content edits = Inr (base, new)" "uses_fuzzy_match nfkc content (normalized_edits edits)"
  shows "\<exists>rs. found_edits nfkc (normalize_for_fuzzy_match nfkc content) (normalized_edits edits) rs \<and>
    keeps_lines content (normalize_for_fuzzy_match nfkc content) rs new"
  using assms by (rule fuzzy_edits)

lemmas line_edit_simps =
  edit_simps apply_preserving_lines_def line_spans_def replacement_line_range_def find_end_line.simps

theorem fuzzy_edits_keep_lines_witness:
  "let content = [97, 32, 10, 8216, 98, 10]; base = normalize_for_fuzzy_match id content in
   apply_edits id content [([39, 98], [99])] = Inr (content, [97, 32, 10, 99, 10]) \<and>
   (\<exists>rs. keeps_lines content base rs [97, 32, 10, 99, 10])"
proof -
  let ?content = "[97, 32, 10, 8216, 98, 10]"
  have e: "apply_edits id ?content [([39, 98], [99])] = Inr (?content, [97, 32, 10, 99, 10])"
    by (simp add: line_edit_simps)
  have "uses_fuzzy_match id ?content (normalized_edits [([39, 98], [99])])" by (simp add: edit_simps)
  from fuzzy_edits_keep_lines [OF e this] e show ?thesis by (auto simp: Let_def)
qed

text \<open>
  Where the last line is white space without a line feed, the normalised form has a line less, and the
  edit of another line fails although its text is found once.
\<close>

lemma blank_last_line_refused:
  "apply_edits id [8216, 97, 10, 32] [([39, 97], [98])] = Inl DifferentLineCount"
  by (simp add: line_edit_simps)

text \<open>A tab that occurs once cannot be replaced: its normalised form is empty and is counted at every unit.\<close>

lemma single_tab_refused: "apply_edits id [97, 9, 98, 10] [([9], [32])] = Inl (OldTextNotUnique 0 3)"
  by (simp add: edit_simps)

end
