(* ===== verification/EditDiff.thy ===== *)
theory EditDiff
  imports JsText
begin

text \<open>
  \<open>generateDiffString\<close> of \<open>packages/agent/src/harness/tools/edit-diff.ts\<close>: the parts that the package
  \<open>diff\<close> finds are shown as numbered lines with some lines of context.  The parts are an argument.
\<close>

record diff_part =
  part_value :: js_string
  part_added :: bool
  part_removed :: bool

record diff_state =
  ds_output :: "js_string list"
  ds_old :: nat
  ds_new :: nat
  ds_lastWasChange :: bool
  ds_firstChanged :: "nat option"

definition pad_start :: "nat \<Rightarrow> js_string \<Rightarrow> js_string" where
  "pad_start w t = replicate (w - length t) 32 @ t"

definition numbered_line :: "16 word \<Rightarrow> nat \<Rightarrow> nat \<Rightarrow> js_string \<Rightarrow> js_string" where
  "numbered_line mark w n line = [mark] @ pad_start w (nat_str n) @ [32] @ line"

definition ellipsis_line :: "nat \<Rightarrow> js_string" where
  "ellipsis_line w = [32] @ pad_start w [] @ js '' ...''"

definition part_lines :: "diff_part \<Rightarrow> js_string list" where
  "part_lines p = (let raw = split_lines (part_value p) in if last raw = [] then butlast raw else raw)"

definition is_change :: "diff_part \<Rightarrow> bool" where
  "is_change p \<longleftrightarrow> part_added p \<or> part_removed p"

definition show_change :: "nat \<Rightarrow> bool \<Rightarrow> js_string \<Rightarrow> diff_state \<Rightarrow> diff_state" where
  "show_change w added line st =
     (if added
      then st\<lparr>ds_output := ds_output st @ [numbered_line 43 w (ds_new st) line], ds_new := ds_new st + 1\<rparr>
      else st\<lparr>ds_output := ds_output st @ [numbered_line 45 w (ds_old st) line], ds_old := ds_old st + 1\<rparr>)"

definition show_context :: "nat \<Rightarrow> js_string \<Rightarrow> diff_state \<Rightarrow> diff_state" where
  "show_context w line st =
     st\<lparr>ds_output := ds_output st @ [numbered_line 32 w (ds_old st) line],
        ds_old := ds_old st + 1, ds_new := ds_new st + 1\<rparr>"

definition skip_lines :: "nat \<Rightarrow> diff_state \<Rightarrow> diff_state" where
  "skip_lines n st = st\<lparr>ds_old := ds_old st + n, ds_new := ds_new st + n\<rparr>"

definition show_skipped :: "nat \<Rightarrow> nat \<Rightarrow> diff_state \<Rightarrow> diff_state" where
  "show_skipped w n st = skip_lines n (st\<lparr>ds_output := ds_output st @ [ellipsis_line w]\<rparr>)"

text \<open>The branches for unchanged lines: \<open>k\<close> is the number of lines of context.\<close>

definition unchanged_part :: "nat \<Rightarrow> nat \<Rightarrow> js_string list \<Rightarrow> bool \<Rightarrow> diff_state \<Rightarrow> diff_state" where
  "unchanged_part w k raw trailing st =
     (if ds_lastWasChange st \<and> trailing
      then (if length raw \<le> k * 2 then fold (show_context w) raw st
            else (let leadingLines = take k raw;
                      trailingLines = drop (length raw - k) raw in
                  fold (show_context w) trailingLines
                    (show_skipped w (length raw - length leadingLines - length trailingLines)
                      (fold (show_context w) leadingLines st))))
      else if ds_lastWasChange st
      then (let shown = take k raw; skipped = length raw - length shown; st' = fold (show_context w) shown st in
            if 0 < skipped then show_skipped w skipped st' else st')
      else if trailing
      then (let skipped = length raw - k; st' = (if 0 < skipped then show_skipped w skipped st else st) in
            fold (show_context w) (drop skipped raw) st')
      else skip_lines (length raw) st)"

definition changed_part :: "nat \<Rightarrow> bool \<Rightarrow> js_string list \<Rightarrow> diff_state \<Rightarrow> diff_state" where
  "changed_part w added raw st =
     fold (show_change w added) raw
       (st\<lparr>ds_firstChanged := if ds_firstChanged st = None then Some (ds_new st) else ds_firstChanged st\<rparr>)"

fun diff_loop :: "nat \<Rightarrow> nat \<Rightarrow> diff_part list \<Rightarrow> diff_state \<Rightarrow> diff_state" where
  "diff_loop w k [] st = st"
| "diff_loop w k (p # ps) st =
     (if is_change p
      then diff_loop w k ps ((changed_part w (part_added p) (part_lines p) st)\<lparr>ds_lastWasChange := True\<rparr>)
      else diff_loop w k ps
        ((unchanged_part w k (part_lines p) (ps \<noteq> [] \<and> is_change (hd ps)) st)\<lparr>ds_lastWasChange := False\<rparr>))"

definition generate_diff :: "diff_part list \<Rightarrow> js_string \<Rightarrow> js_string \<Rightarrow> nat \<Rightarrow> js_string \<times> nat option" where
  "generate_diff parts oldContent newContent contextLines =
     (let w = length (nat_str (max (length (split_lines oldContent)) (length (split_lines newContent))));
          st = diff_loop w contextLines parts
            \<lparr>ds_output = [], ds_old = 1, ds_new = 1, ds_lastWasChange = False, ds_firstChanged = None\<rparr> in
      (join_lines (ds_output st), ds_firstChanged st))"

section \<open>What is shown\<close>

text \<open>The changed lines with their numbers in the old and in the new text.\<close>

fun enumerate_lines :: "16 word \<Rightarrow> nat \<Rightarrow> nat \<Rightarrow> js_string list \<Rightarrow> js_string list" where
  "enumerate_lines mark w n [] = []"
| "enumerate_lines mark w n (l # ls) = numbered_line mark w n l # enumerate_lines mark w (n + 1) ls"

fun changed_lines :: "nat \<Rightarrow> nat \<Rightarrow> nat \<Rightarrow> diff_part list \<Rightarrow> js_string list" where
  "changed_lines w old new [] = []"
| "changed_lines w old new (p # ps) =
     (let n = length (part_lines p) in
      if part_added p then enumerate_lines 43 w new (part_lines p) @ changed_lines w old (new + n) ps
      else if part_removed p then enumerate_lines 45 w old (part_lines p) @ changed_lines w (old + n) new ps
      else changed_lines w (old + n) (new + n) ps)"

definition marked_line :: "js_string \<Rightarrow> bool" where
  "marked_line l \<longleftrightarrow> l \<noteq> [] \<and> hd l \<noteq> 32"

text \<open>The number of the first changed line in the new text.\<close>

fun first_changed :: "nat \<Rightarrow> diff_part list \<Rightarrow> nat option" where
  "first_changed n [] = None"
| "first_changed n (p # ps) = (if is_change p then Some n else first_changed (n + length (part_lines p)) ps)"

lemma marked_lines [simp]:
  "marked_line (numbered_line m w n l) \<longleftrightarrow> m \<noteq> 32" "\<not> marked_line (ellipsis_line w)"
  by (simp_all add: marked_line_def numbered_line_def ellipsis_line_def)

lemma marked_enumerate: "m \<noteq> 32 \<Longrightarrow> filter marked_line (enumerate_lines m w n ls) = enumerate_lines m w n ls"
  by (induction ls arbitrary: n) simp_all

text \<open>Unchanged lines move both numbers on and show no change.\<close>

definition passes :: "nat \<Rightarrow> (diff_state \<Rightarrow> diff_state) \<Rightarrow> bool" where
  "passes n f \<longleftrightarrow> (\<forall>st.
     ds_old (f st) = ds_old st + n \<and> ds_new (f st) = ds_new st + n \<and> ds_firstChanged (f st) = ds_firstChanged st \<and>
     filter marked_line (ds_output (f st)) = filter marked_line (ds_output st))"

lemma passes_context: "passes (length ls) (fold (show_context w) ls)"
  unfolding passes_def by (induction ls) (auto simp: show_context_def)

lemma passes_skipped: "passes n (skip_lines n)" "passes n (show_skipped w n)"
  by (simp_all add: passes_def skip_lines_def show_skipped_def)

lemma passes_then: "passes m f \<Longrightarrow> passes n g \<Longrightarrow> k = m + n \<Longrightarrow> passes k (\<lambda>st. g (f st))"
  by (simp add: passes_def)

lemma passes_unchanged:
  "ds_old (unchanged_part w k raw trailing st) = ds_old st + length raw \<and>
   ds_new (unchanged_part w k raw trailing st) = ds_new st + length raw \<and>
   ds_firstChanged (unchanged_part w k raw trailing st) = ds_firstChanged st \<and>
   filter marked_line (ds_output (unchanged_part w k raw trailing st)) = filter marked_line (ds_output st)"
proof -
  note c = passes_context [where w = w, unfolded passes_def, rule_format]
  note s = passes_skipped [unfolded passes_def, rule_format]
  show ?thesis
    unfolding unchanged_part_def Let_def by (simp add: c s)
qed

lemma fold_added:
  "fold (show_change w True) ls st =
     st\<lparr>ds_output := ds_output st @ enumerate_lines 43 w (ds_new st) ls, ds_new := ds_new st + length ls\<rparr>"
  by (induction ls arbitrary: st) (simp_all add: show_change_def)

lemma fold_removed:
  "fold (show_change w False) ls st =
     st\<lparr>ds_output := ds_output st @ enumerate_lines 45 w (ds_old st) ls, ds_old := ds_old st + length ls\<rparr>"
  by (induction ls arbitrary: st) (simp_all add: show_change_def)

lemma diff_loop_shows:
  "filter marked_line (ds_output (diff_loop w k ps st)) =
     filter marked_line (ds_output st) @ changed_lines w (ds_old st) (ds_new st) ps \<and>
   ds_firstChanged (diff_loop w k ps st) =
     (if ds_firstChanged st = None then first_changed (ds_new st) ps else ds_firstChanged st)"
proof (induction ps arbitrary: st)
  case (Cons p ps)
  note u = passes_unchanged [of w k "part_lines p" "ps \<noteq> [] \<and> is_change (hd ps)" st]
  show ?case
  proof (cases "is_change p")
    case True
    then show ?thesis
      using Cons.IH by (cases "part_added p")
        (auto simp: changed_part_def fold_added fold_removed is_change_def marked_enumerate Let_def)
  next
    case False
    with Cons.IH u show ?thesis by (simp add: is_change_def Let_def)
  qed
qed simp

section \<open>Properties\<close>


end
