(* ===== verification/Bounded.thy ===== *)
theory Bounded
  imports Prelude
begin

text \<open>
  \<open>packages/agent/src/harness/pico3/bounded.ts\<close>: a collector that keeps the first or the last bytes of a
  stream within a number of bytes and of line feeds, and counts what it drops.
\<close>

datatype retain = RetainHead | RetainTail

record bounded =
  bd_bytes :: "byte list"
  bd_maxBytes :: nat
  bd_maxLines :: nat
  bd_retain :: retain
  bd_droppedBytes :: nat
  bd_droppedLines :: nat
  bd_total :: nat

definition new_bounded :: "int \<Rightarrow> int \<Rightarrow> retain \<Rightarrow> bounded" where
  "new_bounded maxBytes maxLines side =
     \<lparr>bd_bytes = [], bd_maxBytes = nat (max 0 maxBytes), bd_maxLines = nat (max 0 maxLines), bd_retain = side,
      bd_droppedBytes = 0, bd_droppedLines = 0, bd_total = 0\<rparr>"

definition count_newlines :: "byte list \<Rightarrow> nat" where
  "count_newlines bs = length (filter (\<lambda>b. b = 10) bs)"

definition bounded_drop :: "byte list \<Rightarrow> bounded \<Rightarrow> bounded" where
  "bounded_drop bs d =
     d\<lparr>bd_droppedBytes := bd_droppedBytes d + length bs, bd_droppedLines := bd_droppedLines d + count_newlines bs\<rparr>"

text \<open>
  The loop that stops behind the last line feed that is still allowed: the number of bytes to take, given
  the line feeds seen and those that remain.
\<close>

fun line_cut :: "nat \<Rightarrow> int \<Rightarrow> byte list \<Rightarrow> nat" where
  "line_cut seen remaining [] = 0"
| "line_cut seen remaining (b # bs) =
     (if b \<noteq> 10 then 1 + line_cut seen remaining bs
      else if int (seen + 1) = remaining then 1
      else 1 + line_cut (seen + 1) remaining bs)"

definition push_head :: "byte list \<Rightarrow> bounded \<Rightarrow> bounded" where
  "push_head chunk d =
     (let remainingBytes = int (bd_maxBytes d) - int (length (bd_bytes d));
          remainingLines = int (bd_maxLines d) - int (count_newlines (bd_bytes d)) in
      if remainingBytes \<le> 0 \<or> remainingLines \<le> 0 then bounded_drop chunk d
      else (let n = line_cut 0 remainingLines (take (nat remainingBytes) chunk) in
            bounded_drop (drop n chunk) (d\<lparr>bd_bytes := bd_bytes d @ take n chunk\<rparr>)))"

text \<open>The loop over the bytes from the first that fits: how many more are left out.\<close>

fun skip_excess :: "int \<Rightarrow> byte list \<Rightarrow> nat" where
  "skip_excess excess [] = 0"
| "skip_excess excess (b # bs) =
     (if 0 < excess then 1 + skip_excess (if b = 10 then excess - 1 else excess) bs else 0)"

definition tail_start :: "byte list \<Rightarrow> nat \<Rightarrow> nat \<Rightarrow> nat" where
  "tail_start bs maxBytes maxLines =
     (let start = length bs - maxBytes in
      start + skip_excess (int (count_newlines (drop start bs)) - int maxLines) (drop start bs))"

definition push_tail :: "byte list \<Rightarrow> bounded \<Rightarrow> bounded" where
  "push_tail chunk d =
     (let incomingStart = tail_start chunk (bd_maxBytes d) (bd_maxLines d);
          d1 = bounded_drop (take incomingStart chunk) d;
          combined = bd_bytes d1 @ drop incomingStart chunk;
          start = tail_start combined (bd_maxBytes d) (bd_maxLines d) in
      (bounded_drop (take start combined) d1)\<lparr>bd_bytes := drop start combined\<rparr>)"

definition bounded_push :: "byte list \<Rightarrow> bounded \<Rightarrow> bounded" where
  "bounded_push chunk d0 =
     (let d = d0\<lparr>bd_total := bd_total d0 + length chunk\<rparr> in
      if chunk = [] then d
      else if bd_maxBytes d = 0 \<or> bd_maxLines d = 0 then bounded_drop chunk d
      else case bd_retain d of RetainHead \<Rightarrow> push_head chunk d | RetainTail \<Rightarrow> push_tail chunk d)"

definition collect :: "byte list list \<Rightarrow> bounded \<Rightarrow> bounded" where
  "collect chunks d = fold bounded_push chunks d"

section \<open>Accounts and bounds\<close>

lemma count_newlines_simps [simp]:
  "count_newlines [] = 0" "count_newlines (b # bs) = (if b = 10 then 1 else 0) + count_newlines bs"
  "count_newlines (as @ bs) = count_newlines as + count_newlines bs"
  by (simp_all add: count_newlines_def)

lemma count_newlines_split: "count_newlines (take n bs) + count_newlines (drop n bs) = count_newlines bs"
  by (metis append_take_drop_id count_newlines_simps(3))

lemma line_cut_le: "line_cut seen remaining bs \<le> length bs"
  by (induction bs arbitrary: seen) auto

lemma line_cut_lines:
  "int seen < remaining \<Longrightarrow> int (seen + count_newlines (take (line_cut seen remaining bs) bs)) \<le> remaining"
proof (induction bs arbitrary: seen)
  case (Cons b bs)
  then show ?case using Cons.IH [of seen] Cons.IH [of "Suc seen"] by auto
qed simp

lemma skip_excess_lines: "int (count_newlines bs) \<le> excess + int m \<Longrightarrow> int (count_newlines (drop (skip_excess excess bs) bs)) \<le> int m"
  by (induction bs arbitrary: excess) auto

lemma tail_start_bounds:
  "length (drop (tail_start bs maxBytes maxLines) bs) \<le> maxBytes"
  "count_newlines (drop (tail_start bs maxBytes maxLines) bs) \<le> maxLines"
proof -
  let ?start = "length bs - maxBytes"
  let ?rest = "drop ?start bs"
  have e: "drop (tail_start bs maxBytes maxLines) bs =
      drop (skip_excess (int (count_newlines ?rest) - int maxLines) ?rest) ?rest"
    by (simp add: tail_start_def Let_def add.commute)
  show "length (drop (tail_start bs maxBytes maxLines) bs) \<le> maxBytes" unfolding e by simp
  show "count_newlines (drop (tail_start bs maxBytes maxLines) bs) \<le> maxLines"
    unfolding e using skip_excess_lines [of ?rest "int (count_newlines ?rest) - int maxLines" maxLines] by simp
qed

text \<open>Every byte and every line feed is kept or counted, and what is kept is within the limits.\<close>

definition bounded_inv :: "byte list \<Rightarrow> bounded \<Rightarrow> bool" where
  "bounded_inv input d \<longleftrightarrow>
     bd_total d = length input \<and>
     length (bd_bytes d) + bd_droppedBytes d = length input \<and>
     count_newlines (bd_bytes d) + bd_droppedLines d = count_newlines input \<and>
     length (bd_bytes d) \<le> bd_maxBytes d \<and> count_newlines (bd_bytes d) \<le> bd_maxLines d"

lemma bounded_push_limits [simp]:
  "bd_maxBytes (bounded_push chunk d) = bd_maxBytes d" "bd_maxLines (bounded_push chunk d) = bd_maxLines d"
  "bd_retain (bounded_push chunk d) = bd_retain d"
  by (auto simp: bounded_push_def Let_def push_head_def push_tail_def bounded_drop_def split: retain.splits)

lemma push_head_inv:
  assumes "bounded_inv input d"
  shows "bounded_inv (input @ chunk) (push_head chunk (d\<lparr>bd_total := bd_total d + length chunk\<rparr>))"
proof -
  let ?n = "line_cut 0 (int (bd_maxLines d) - int (count_newlines (bd_bytes d)))
    (take (nat (int (bd_maxBytes d) - int (length (bd_bytes d)))) chunk)"
  have n: "?n \<le> length chunk" "?n \<le> nat (int (bd_maxBytes d) - int (length (bd_bytes d)))"
    using line_cut_le [of 0 "int (bd_maxLines d) - int (count_newlines (bd_bytes d))"
      "take (nat (int (bd_maxBytes d) - int (length (bd_bytes d)))) chunk"] by simp_all
  have t: "take ?n (take (nat (int (bd_maxBytes d) - int (length (bd_bytes d)))) chunk) = take ?n chunk"
    using n(2) by (simp add: min_def)
  have l: "0 < int (bd_maxLines d) - int (count_newlines (bd_bytes d)) \<Longrightarrow>
      int (count_newlines (take ?n chunk)) \<le> int (bd_maxLines d) - int (count_newlines (bd_bytes d))"
    using line_cut_lines [of 0 "int (bd_maxLines d) - int (count_newlines (bd_bytes d))"
      "take (nat (int (bd_maxBytes d) - int (length (bd_bytes d)))) chunk"] unfolding t by simp
  show ?thesis
    using assms n l count_newlines_split [of ?n chunk]
    by (auto simp: bounded_inv_def push_head_def bounded_drop_def Let_def)
qed

lemma push_tail_inv:
  assumes "bounded_inv input d"
  shows "bounded_inv (input @ chunk) (push_tail chunk (d\<lparr>bd_total := bd_total d + length chunk\<rparr>))"
proof -
  define i where "i = tail_start chunk (bd_maxBytes d) (bd_maxLines d)"
  define combined where "combined = bd_bytes d @ drop i chunk"
  define s where "s = tail_start combined (bd_maxBytes d) (bd_maxLines d)"
  have push: "push_tail chunk (d\<lparr>bd_total := bd_total d + length chunk\<rparr>) =
      d\<lparr>bd_total := bd_total d + length chunk, bd_bytes := drop s combined,
        bd_droppedBytes := bd_droppedBytes d + length (take i chunk) + length (take s combined),
        bd_droppedLines := bd_droppedLines d + count_newlines (take i chunk) + count_newlines (take s combined)\<rparr>"
    by (simp add: push_tail_def bounded_drop_def Let_def i_def combined_def s_def)
  have split: "length (take n xs) + length (drop n xs) = length xs" for n and xs :: "byte list" by simp
  have "length combined = length (bd_bytes d) + length (drop i chunk)"
    "count_newlines combined = count_newlines (bd_bytes d) + count_newlines (drop i chunk)"
    unfolding combined_def by simp_all
  with split [of i chunk] split [of s combined] count_newlines_split [of i chunk] count_newlines_split [of s combined]
    tail_start_bounds [of combined "bd_maxBytes d" "bd_maxLines d", folded s_def] assms
  show ?thesis
    unfolding bounded_inv_def push by (simp del: length_take length_drop)
qed

lemma bounded_drop_inv:
  "bounded_inv input d \<Longrightarrow> bounded_inv (input @ chunk) (bounded_drop chunk (d\<lparr>bd_total := bd_total d + length chunk\<rparr>))"
  by (simp add: bounded_inv_def bounded_drop_def)

lemma bounded_push_cases:
  "bounded_push chunk d = d\<lparr>bd_total := bd_total d + length chunk\<rparr> \<and> chunk = [] \<or>
   bounded_push chunk d = bounded_drop chunk (d\<lparr>bd_total := bd_total d + length chunk\<rparr>) \<or>
   bounded_push chunk d = push_head chunk (d\<lparr>bd_total := bd_total d + length chunk\<rparr>) \<or>
   bounded_push chunk d = push_tail chunk (d\<lparr>bd_total := bd_total d + length chunk\<rparr>)"
  unfolding bounded_push_def Let_def by (cases "bd_retain d") simp_all

lemma bounded_push_inv:
  assumes "bounded_inv input d"
  shows "bounded_inv (input @ chunk) (bounded_push chunk d)"
  using bounded_push_cases [of chunk d]
proof (elim disjE conjE)
  assume "bounded_push chunk d = d\<lparr>bd_total := bd_total d + length chunk\<rparr>" "chunk = []"
  with assms show ?thesis by simp
qed (simp_all only: bounded_drop_inv [OF assms] push_head_inv [OF assms] push_tail_inv [OF assms])

lemma collect_inv: "bounded_inv input d \<Longrightarrow> bounded_inv (input @ concat chunks) (collect chunks d)"
  unfolding collect_def
proof (induction chunks arbitrary: input d)
  case (Cons c cs)
  from Cons.IH [OF bounded_push_inv [OF Cons.prems, of c]] show ?case by simp
qed simp

lemma collect_limits:
  "bd_maxBytes (collect chunks d) = bd_maxBytes d" "bd_maxLines (collect chunks d) = bd_maxLines d"
  unfolding collect_def by (induction chunks arbitrary: d) simp_all

section \<open>The head\<close>

text \<open>What is kept of the whole stream.\<close>

definition head_of :: "nat \<Rightarrow> nat \<Rightarrow> byte list \<Rightarrow> byte list" where
  "head_of maxBytes maxLines bs =
     (if maxLines = 0 then [] else take (line_cut 0 (int maxLines) (take maxBytes bs)) (take maxBytes bs))"

lemma line_cut_append:
  "int seen < remaining \<Longrightarrow>
   line_cut seen remaining (as @ bs) =
     (if int (seen + count_newlines as) < remaining then length as + line_cut (seen + count_newlines as) remaining bs
      else line_cut seen remaining as)"
  by (induction as arbitrary: seen) auto

lemma line_cut_shift: "line_cut (seen + k) (remaining + int k) bs = line_cut seen remaining bs"
proof (induction bs arbitrary: seen)
  case (Cons b bs)
  from Cons [of seen] Cons [of "Suc seen"] show ?case by simp
qed simp

lemma line_cut_all: "int seen < remaining \<Longrightarrow> int (seen + count_newlines bs) < remaining \<Longrightarrow> line_cut seen remaining bs = length bs"
  by (induction bs arbitrary: seen) auto

lemma line_cut_full:
  "int seen < remaining \<Longrightarrow> \<not> int (seen + count_newlines bs) < remaining \<Longrightarrow>
   int (seen + count_newlines (take (line_cut seen remaining bs) bs)) = remaining"
proof (induction bs arbitrary: seen)
  case (Cons b bs)
  then show ?case using Cons.IH [of seen] Cons.IH [of "Suc seen"] by auto
qed simp

lemma head_of_append:
  fixes as bs :: "byte list"
  assumes "0 < maxBytes" "0 < maxLines"
  defines "kept \<equiv> head_of maxBytes maxLines as"
  shows "head_of maxBytes maxLines (as @ bs) =
    (if maxBytes \<le> length kept \<or> maxLines \<le> count_newlines kept then kept
     else kept @ take (line_cut 0 (int maxLines - int (count_newlines kept)) (take (maxBytes - length kept) bs)) bs)"
proof -
  define t where "t = take maxBytes as"
  define rest where "rest = take (maxBytes - length t) bs"
  have lines: "int 0 < int maxLines" using assms(2) by simp
  have t: "take maxBytes (as @ bs) = t @ rest" by (auto simp: t_def rest_def min_def)
  have kept: "kept = take (line_cut 0 (int maxLines) t) t" using assms(2) by (simp add: kept_def head_of_def t_def)
  have whole: "head_of maxBytes maxLines (as @ bs) = take (line_cut 0 (int maxLines) (t @ rest)) (t @ rest)"
    using assms(2) unfolding head_of_def t by (simp only: less_irrefl if_False split: if_split) simp
  show ?thesis
  proof (cases "count_newlines t < maxLines")
    case True
    then have k: "kept = t" using line_cut_all [OF lines, of t] kept by simp
    have "line_cut 0 (int maxLines) (t @ rest) = length t + line_cut 0 (int maxLines - int (count_newlines t)) rest"
      using line_cut_append [OF lines, of t rest] True
        line_cut_shift [of 0 "count_newlines t" "int maxLines - int (count_newlines t)" rest] by simp
    then have "head_of maxBytes maxLines (as @ bs) =
        t @ take (line_cut 0 (int maxLines - int (count_newlines t)) rest) rest"
      using whole by simp
    also have "take (line_cut 0 (int maxLines - int (count_newlines t)) rest) rest =
        take (line_cut 0 (int maxLines - int (count_newlines t)) rest) bs"
      using line_cut_le [of 0 "int maxLines - int (count_newlines t)" rest] unfolding rest_def
      by (simp add: min_absorb1)
    finally have e: "head_of maxBytes maxLines (as @ bs) =
        t @ take (line_cut 0 (int maxLines - int (count_newlines t)) rest) bs" .
    show ?thesis
    proof (cases "maxBytes \<le> length t")
      case True
      then have "rest = []" by (simp add: rest_def)
      with e k True show ?thesis by simp
    next
      case False
      with e k \<open>count_newlines t < maxLines\<close> show ?thesis by (simp add: rest_def)
    qed
  next
    case False
    then have "head_of maxBytes maxLines (as @ bs) = kept"
      using line_cut_append [OF lines, of t rest] line_cut_le [of 0 "int maxLines" t] whole kept by simp
    moreover have "count_newlines kept = maxLines"
      using line_cut_full [OF lines, of t] False kept by simp
    ultimately show ?thesis by simp
  qed
qed

lemma push_head_bytes:
  assumes "0 < bd_maxBytes d" "0 < bd_maxLines d" "bd_bytes d = head_of (bd_maxBytes d) (bd_maxLines d) input"
  shows "bd_bytes (push_head chunk d) = head_of (bd_maxBytes d) (bd_maxLines d) (input @ chunk)"
  unfolding head_of_append [OF assms(1,2)] assms(3) [symmetric]
  by (auto simp: push_head_def bounded_drop_def Let_def nat_diff_distrib)

lemma collect_head:
  assumes "bd_retain d = RetainHead" "bd_bytes d = head_of (bd_maxBytes d) (bd_maxLines d) input"
  shows "bd_bytes (collect chunks d) = head_of (bd_maxBytes d) (bd_maxLines d) (input @ concat chunks)"
  using assms unfolding collect_def
proof (induction chunks arbitrary: input d)
  case (Cons c cs)
  have "bd_bytes (bounded_push c d) = head_of (bd_maxBytes d) (bd_maxLines d) (input @ c)"
  proof (cases "c = [] \<or> bd_maxBytes d = 0 \<or> bd_maxLines d = 0")
    case True
    with Cons.prems show ?thesis by (auto simp: bounded_push_def Let_def bounded_drop_def head_of_def)
  next
    case False
    with Cons.prems push_head_bytes [of "d\<lparr>bd_total := bd_total d + length c\<rparr>" input c]
    show ?thesis by (simp add: bounded_push_def Let_def)
  qed
  with Cons.IH [of "bounded_push c d" "input @ c"] Cons.prems(1) show ?case by simp
qed simp

section \<open>Properties\<close>

text \<open>
  C23. However a stream arrives in chunks, a collector stays within both limits and accounts for every byte
  and every line feed.
\<close>

theorem bounded_accounts:
  "let d = collect chunks (new_bounded maxBytes maxLines side) in
   bd_total d = length (concat chunks) \<and>
   length (bd_bytes d) + bd_droppedBytes d = length (concat chunks) \<and>
   count_newlines (bd_bytes d) + bd_droppedLines d = count_newlines (concat chunks) \<and>
   int (length (bd_bytes d)) \<le> max 0 maxBytes \<and> int (count_newlines (bd_bytes d)) \<le> max 0 maxLines"
proof -
  let ?d = "new_bounded maxBytes maxLines side"
  have "bounded_inv [] ?d" by (simp add: bounded_inv_def new_bounded_def)
  from collect_inv [OF this, of chunks]
  have inv: "bounded_inv (concat chunks) (collect chunks ?d)" by simp
  have limits: "int (bd_maxBytes (collect chunks ?d)) = max 0 maxBytes" "int (bd_maxLines (collect chunks ?d)) = max 0 maxLines"
    unfolding collect_limits by (simp_all add: new_bounded_def)
  from inv show ?thesis unfolding bounded_inv_def Let_def limits [symmetric] by simp
qed

text \<open>
  C24. A collector of the head keeps the same bytes for every division of the stream into chunks: those of
  the first bytes that end at the latest behind the last line feed that is allowed.
\<close>

theorem bounded_head_chunking:
  "bd_bytes (collect chunks (new_bounded maxBytes maxLines RetainHead)) =
     head_of (nat (max 0 maxBytes)) (nat (max 0 maxLines)) (concat chunks)"
proof -
  let ?d = "new_bounded maxBytes maxLines RetainHead"
  have "bd_bytes (collect chunks ?d) = head_of (bd_maxBytes ?d) (bd_maxLines ?d) ([] @ concat chunks)"
    by (rule collect_head) (simp_all add: new_bounded_def head_of_def)
  then show ?thesis by (simp add: new_bounded_def)
qed

text \<open>
  A collector of the tail may join what it holds to the end of a chunk whose beginning it has dropped: of
  the text \<open>aa\<close>, line feed, line feed, \<open>b\<close> in two chunks it keeps \<open>aa\<close>, line feed, \<open>b\<close>, which is no part
  of it, and one chunk leaves the line feed and \<open>b\<close>.
\<close>

lemma bounded_tail_joins:
  "bd_bytes (collect [[97, 97], [10, 10, 98]] (new_bounded 10 1 RetainTail)) = [97, 97, 10, 98]"
  "bd_bytes (collect [[97, 97, 10, 10, 98]] (new_bounded 10 1 RetainTail)) = [10, 98]"
  by (simp_all add: collect_def bounded_push_def push_tail_def tail_start_def bounded_drop_def new_bounded_def Let_def)

end
