(* ===== verification/OutputUpdates.thy ===== *)
theory OutputUpdates
  imports Truncation
begin

text \<open>
  \<open>packages/agent/src/harness/utils/output-capture.ts\<close>: a shell output is published as a sequence of updates of
  the view that its reader holds; the reader that applies them holds the latest view.  Modelled are the
  comparison of two views and the application of an update.
\<close>

record shell_truncation =
  st_truncated :: bool
  st_truncatedBy :: "limit option"
  st_totalLines :: nat
  st_totalBytes :: nat
  st_outputLines :: nat
  st_outputBytes :: nat
  st_lastLinePartial :: bool
  st_firstLineExceedsLimit :: bool
  st_maxLines :: int
  st_maxBytes :: int

record shell_metadata =
  sm_truncation :: shell_truncation
  sm_spillPath :: "js_string option"
  sm_lastLineBytes :: "nat option"

record shell_view =
  sv_text :: js_string
  sv_metadata :: shell_metadata

datatype shell_update =
    ReplaceOutput shell_view
  | AppendOutput js_string shell_metadata
  | SlideOutput nat js_string shell_metadata
  | MetadataOutput shell_metadata

text \<open>Where \<open>indexOf\<close> finds a probe, from the first unit on.\<close>

definition occurrences :: "js_string \<Rightarrow> js_string \<Rightarrow> nat list" where
  "occurrences t probe = filter (\<lambda>i. take (length probe) (drop i t) = probe) [0..<length t + 1 - length probe]"

text \<open>One pass of the loop over the probes: at most eight occurrences are tried.\<close>

definition probe_overlap :: "js_string \<Rightarrow> js_string \<Rightarrow> nat \<Rightarrow> nat option" where
  "probe_overlap tail' after n =
     map_option (\<lambda>i. length tail' - i)
       (find (\<lambda>i. length tail' - i \<le> length after \<and> drop i tail' = take (length tail' - i) after)
         (take 8 (occurrences tail' (take n after))))"

definition suffix_prefix_overlap :: "js_string \<Rightarrow> js_string \<Rightarrow> nat \<Rightarrow> nat" where
  "suffix_prefix_overlap before after scan =
     (if before = [] \<or> after = [] \<or> scan = 0 then 0
      else (let tail' = (if scan < length before then drop (length before - scan) before else before);
                n = min 64 (length after) in
            case probe_overlap tail' after n of
              Some k \<Rightarrow> k
            | None \<Rightarrow> if n = 1 then 0 else (case probe_overlap tail' after 1 of Some k \<Rightarrow> k | None \<Rightarrow> 0)))"

definition update_from :: "shell_view option \<Rightarrow> shell_view \<Rightarrow> shell_update" where
  "update_from previous current =
     (case previous of
        None \<Rightarrow> ReplaceOutput current
      | Some previous \<Rightarrow>
          (let metadata = sv_metadata current; before = sv_text previous; after = sv_text current in
           if after = before then MetadataOutput metadata
           else if length before < length after \<and> take (length before) after = before
           then AppendOutput (drop (length before) after) metadata
           else (let shared = suffix_prefix_overlap before after
                   (min (min (length before) (length after)) (nat (st_maxBytes (sm_truncation metadata) * 2))) in
                 if 0 < shared then SlideOutput (length before - shared) (drop shared after) metadata
                 else ReplaceOutput current)))"

definition apply_shell_update :: "shell_view option \<Rightarrow> shell_update \<Rightarrow> shell_view" where
  "apply_shell_update current update =
     (let held = (case current of Some v \<Rightarrow> sv_text v | None \<Rightarrow> []) in
      case update of
        ReplaceOutput output \<Rightarrow> output
      | AppendOutput t metadata \<Rightarrow> \<lparr>sv_text = held @ t, sv_metadata = metadata\<rparr>
      | SlideOutput n t metadata \<Rightarrow> \<lparr>sv_text = drop n held @ t, sv_metadata = metadata\<rparr>
      | MetadataOutput metadata \<Rightarrow> \<lparr>sv_text = held, sv_metadata = metadata\<rparr>)"

text \<open>The characters that \<open>sanitizeShellOutput\<close> removes.\<close>

definition invalid_shell_output :: "16 word \<Rightarrow> bool" where
  "invalid_shell_output c \<longleftrightarrow>
     (let n = unat c in n \<le> 8 \<or> 11 \<le> n \<and> n \<le> 31 \<or> 65529 \<le> n \<and> n \<le> 65531)"

definition sanitize_shell_output :: "js_string \<Rightarrow> js_string" where
  "sanitize_shell_output t = filter (\<lambda>c. \<not> invalid_shell_output c) t"

section \<open>The reader's view\<close>

lemma probe_overlap_Some:
  "probe_overlap t after n = Some k \<Longrightarrow>
   k \<le> length t \<and> k \<le> length after \<and> drop (length t - k) t = take k after"
proof -
  assume "probe_overlap t after n = Some k"
  then obtain i where "k = length t - i" "length t - i \<le> length after" "drop i t = take (length t - i) after"
    by (auto simp: probe_overlap_def find_Some_iff)
  then show ?thesis by (cases "i \<le> length t") auto
qed

lemma suffix_prefix_overlap_spec:
  "suffix_prefix_overlap before after scan \<le> length before \<and>
   suffix_prefix_overlap before after scan \<le> length after \<and>
   drop (length before - suffix_prefix_overlap before after scan) before =
     take (suffix_prefix_overlap before after scan) after"
proof -
  let ?t = "if scan < length before then drop (length before - scan) before else before"
  have found: "k \<le> length before \<and> k \<le> length after \<and> drop (length before - k) before = take k after"
    if "probe_overlap ?t after n = Some k" for k n
  proof (cases "scan < length before")
    case True
    with probe_overlap_Some [OF that] have k: "k \<le> scan" "k \<le> length after"
      "drop (scan - k) (drop (length before - scan) before) = take k after" by auto
    have "scan - k + (length before - scan) = length before - k" using True k(1) by simp
    with k True show ?thesis by simp
  next
    case False
    with probe_overlap_Some [OF that] show ?thesis by auto
  qed
  have "suffix_prefix_overlap before after scan = 0 \<or>
      (\<exists>n. probe_overlap ?t after n = Some (suffix_prefix_overlap before after scan))"
    unfolding suffix_prefix_overlap_def Let_def by (auto split: option.split simp del: One_nat_def)
  then show ?thesis using found by (elim disjE exE) simp_all
qed

lemma apply_update_from: "apply_shell_update previous (update_from previous current) = current"
proof (cases previous)
  case None
  then show ?thesis by (simp add: update_from_def apply_shell_update_def)
next
  case (Some p)
  have append: "take (length before) after = before \<Longrightarrow> before @ drop (length before) after = after" for before after :: js_string
    by (metis append_take_drop_id)
  have slide: "drop (length before - k) before = take k after \<Longrightarrow> drop (length before - k) before @ drop k after = after"
    for k and before after :: js_string by (metis append_take_drop_id)
  show ?thesis
    unfolding Some update_from_def apply_shell_update_def Let_def
    by (cases current) (simp add: append slide suffix_prefix_overlap_spec)
qed

text \<open>A reader of all updates that are published for a sequence of views.\<close>

fun follow :: "shell_view option \<Rightarrow> shell_view option \<Rightarrow> shell_view list \<Rightarrow> shell_view option" where
  "follow published reader [] = reader"
| "follow published reader (v # vs) =
     follow (Some v) (Some (apply_shell_update reader (update_from published v))) vs"

text \<open>
  C22. The reader that starts with nothing and applies the updates of any sequence of views, each compared
  with the one published before, holds the last view.
\<close>

theorem reader_follows_output: "follow None None vs = (if vs = [] then None else Some (last vs))"
proof -
  have "follow p p vs = (if vs = [] then p else Some (last vs))" for p
    by (induction vs arbitrary: p) (simp_all add: apply_update_from)
  then show ?thesis .
qed

end
