(* ===== verification/Redaction.thy ===== *)
theory Redaction
  imports JsValue "HOL-Library.Sublist"
begin

text \<open>
  \<open>redact\<close> of \<open>agent/config.ts\<close>: every text that the mission worker publishes has the configured
  secrets, and everything that looks like an API key, replaced by a marker.  What it removes stays
  removed, because a marker cannot be a part of a secret without brackets.
\<close>

definition redacted_marker :: js_string where
  "redacted_marker = js ''[REDACTED]''"

text \<open>\<open>text.replaceAll(secret, "[REDACTED]")\<close> for a secret that is not empty.\<close>

function replace_all :: "js_string \<Rightarrow> js_string \<Rightarrow> js_string" where
  "replace_all secret text =
     (case text of
        [] \<Rightarrow> []
      | c # s \<Rightarrow>
          if take (length secret) text = secret
          then redacted_marker @ replace_all secret (drop (length secret - 1) s)
          else c # replace_all secret s)"
  by pat_completeness auto
termination
  by (relation "measure (\<lambda>(_, text). length text)") auto

declare replace_all.simps [simp del]

definition key_prefix :: js_string where
  "key_prefix = js ''ak_''"

definition alphanumeric :: "16 word \<Rightarrow> bool" where
  "alphanumeric c \<longleftrightarrow>
     65 \<le> unat c \<and> unat c \<le> 90 \<or> 97 \<le> unat c \<and> unat c \<le> 122 \<or> 48 \<le> unat c \<and> unat c \<le> 57"

text \<open>\<open>text.replace(/ak_[A-Za-z0-9]+/g, "[REDACTED]")\<close>.\<close>

function replace_keys :: "js_string \<Rightarrow> js_string" where
  "replace_keys text =
     (case text of
        [] \<Rightarrow> []
      | c # s \<Rightarrow>
          if take 3 text = key_prefix \<and> takeWhile alphanumeric (drop 3 text) \<noteq> []
          then redacted_marker @ replace_keys (dropWhile alphanumeric (drop 3 text))
          else c # replace_keys s)"
  by pat_completeness auto
termination
  by (relation "measure length") (auto simp: less_Suc_eq_le intro!: le_trans [OF length_dropWhile_le])

declare replace_keys.simps [simp del]

fun redact_secrets :: "js_string list \<Rightarrow> js_string \<Rightarrow> js_string" where
  "redact_secrets [] text = text"
| "redact_secrets (secret # secrets) text =
     redact_secrets secrets (if secret \<noteq> [] then replace_all secret text else text)"

definition redact :: "js_string \<Rightarrow> js_string list \<Rightarrow> js_string" where
  "redact text secrets = replace_keys (redact_secrets secrets text)"

section \<open>Replacing pieces by markers\<close>

text \<open>The second text is the first one with some pieces replaced by a marker.\<close>

inductive replaced :: "js_string \<Rightarrow> js_string \<Rightarrow> bool" where
  empty: "replaced [] []"
| keep: "replaced s t \<Longrightarrow> replaced (c # s) (c # t)"
| mark: "replaced s t \<Longrightarrow> replaced (p @ s) (redacted_marker @ t)"

lemma marker_list: "redacted_marker = [91, 82, 69, 68, 65, 67, 84, 69, 68, 93]"
  by (simp add: redacted_marker_def)

lemma replaced_refl: "replaced s s"
  by (induction s) (auto intro: replaced.intros)

lemma replaced_prefix: "replaced s t \<Longrightarrow> prefix w t \<Longrightarrow> 91 \<notin> set w \<Longrightarrow> prefix w s"
proof (induction arbitrary: w rule: replaced.induct)
  case (keep s t c)
  then show ?case by (cases w) auto
next
  case (mark s t p)
  then show ?case by (cases w) (auto simp: marker_list)
qed simp

lemma replaced_same: "replaced s t \<Longrightarrow> 91 \<notin> set t \<Longrightarrow> t = s"
  by (induction rule: replaced.induct) (auto simp: marker_list)

text \<open>A text that can only stand in the pieces that are kept.\<close>

definition maskable :: "js_string \<Rightarrow> bool" where
  "maskable w \<longleftrightarrow> 91 \<notin> set w \<and> 93 \<notin> set w \<and> \<not> sublist w redacted_marker"

lemma maskable_not_Nil: "maskable w \<Longrightarrow> w \<noteq> []"
  by (auto simp: maskable_def)

lemma suffix_marker: "suffix u redacted_marker \<Longrightarrow> u \<noteq> [] \<Longrightarrow> 93 \<in> set u"
proof -
  assume "suffix u redacted_marker" and u: "u \<noteq> []"
  then obtain z where "redacted_marker = z @ u" by (auto simp: suffix_def)
  then have "last u = last redacted_marker" using u by (metis last_appendR)
  then show ?thesis using last_in_set [OF u] by (simp add: marker_list)
qed

lemma sublist_marker:
  assumes "maskable w" "sublist w (redacted_marker @ t)"
  shows "sublist w t"
proof (rule ccontr)
  assume "\<not> sublist w t"
  with assms obtain u v where w: "w = u @ v" "suffix u redacted_marker" "prefix v t"
    by (auto simp: sublist_append maskable_def)
  have "93 \<notin> set u" using assms(1) w(1) by (simp add: maskable_def)
  with suffix_marker [OF w(2)] have "u = []" by blast
  with w \<open>\<not> sublist w t\<close> show False by simp
qed

lemma replaced_sublist: "replaced s t \<Longrightarrow> maskable w \<Longrightarrow> sublist w t \<Longrightarrow> sublist w s"
proof (induction rule: replaced.induct)
  case (keep s t c)
  from keep.prems(2) consider "prefix w (c # t)" | "sublist w t" by (auto simp: sublist_Cons_right)
  then show ?case
  proof cases
    case 1
    have "prefix w (c # s)"
      by (rule replaced_prefix [OF replaced.keep [OF keep.hyps] 1]) (use keep.prems(1) in \<open>simp add: maskable_def\<close>)
    then show ?thesis by simp
  qed (use keep in \<open>auto simp: sublist_Cons_right\<close>)
next
  case (mark s t p)
  from sublist_marker [OF mark.prems] have "sublist w t" .
  with mark have "sublist w s" by simp
  then show ?case by (simp add: sublist_append)
qed simp

section \<open>What redaction removes\<close>

lemma replace_all_Nil [simp]: "replace_all secret [] = []"
  by (simp add: replace_all.simps)

lemma take_prefix: "take (length w) s = w \<longleftrightarrow> prefix w s"
  by (metis append_eq_conv_conj prefix_def take_is_prefix)

lemma replace_all_Cons:
  assumes "secret \<noteq> []"
  shows "replace_all secret (c # s) =
     (if prefix secret (c # s) then redacted_marker @ replace_all secret (drop (length secret) (c # s))
      else c # replace_all secret s)"
proof -
  have "drop (length secret) (c # s) = drop (length secret - 1) s" using assms by (cases secret) simp_all
  then show ?thesis by (simp only: replace_all.simps [of secret "c # s"] list.case take_prefix)
qed

lemma replace_all_replaced: "secret \<noteq> [] \<Longrightarrow> replaced s (replace_all secret s)"
proof (induction "length s" arbitrary: s rule: less_induct)
  case less
  show ?case
  proof (cases s)
    case (Cons c t)
    show ?thesis
    proof (cases "prefix secret (c # t)")
      case True
      have "replaced (drop (length secret) s) (replace_all secret (drop (length secret) s))"
        using less Cons by simp
      from replaced.mark [OF this, of secret] True show ?thesis
        using Cons less.prems by (auto simp: replace_all_Cons prefix_def)
    next
      case False
      with less Cons show ?thesis by (simp add: replace_all_Cons replaced.keep)
    qed
  qed (simp add: replaced.empty)
qed

lemma replace_all_clean: "maskable secret \<Longrightarrow> \<not> sublist secret (replace_all secret s)"
proof (induction "length s" arbitrary: s rule: less_induct)
  case less
  note ne = maskable_not_Nil [OF less.prems]
  show ?case
  proof (cases s)
    case Nil
    with ne show ?thesis by simp
  next
    case (Cons c t)
    show ?thesis
    proof (cases "prefix secret (c # t)")
      case True
      have "\<not> sublist secret (replace_all secret (drop (length secret) s))"
        using less ne Cons by simp
      then show ?thesis
        using True Cons ne sublist_marker [OF less.prems] by (auto simp: replace_all_Cons)
    next
      case False
      have "\<not> prefix secret (c # replace_all secret t)"
        using replaced_prefix [OF replaced.keep [OF replace_all_replaced [OF ne]], of secret c t] False less.prems
        by (auto simp: maskable_def)
      moreover have "\<not> sublist secret (replace_all secret t)" using less Cons by simp
      ultimately show ?thesis using False Cons ne by (simp add: replace_all_Cons sublist_Cons_right)
    qed
  qed
qed

text \<open>A text that the pattern of keys matches.\<close>

definition key_text :: "js_string \<Rightarrow> bool" where
  "key_text w \<longleftrightarrow> (\<exists>x. alphanumeric x \<and> w = key_prefix @ [x])"

lemma key_prefix_list: "key_prefix = [97, 107, 95]"
  by (simp add: key_prefix_def)

lemma alphanumeric_bracket: "alphanumeric x \<Longrightarrow> x \<noteq> 91 \<and> x \<noteq> 93"
  by (auto simp: alphanumeric_def)

lemma key_text_maskable: "key_text w \<Longrightarrow> maskable w"
  using alphanumeric_bracket
  by (auto simp: key_text_def maskable_def key_prefix_list marker_list sublist_Cons_right)

lemma starts_key:
  "take 3 s = key_prefix \<and> takeWhile alphanumeric (drop 3 s) \<noteq> [] \<longleftrightarrow> (\<exists>w. key_text w \<and> prefix w s)"
proof
  assume k: "take 3 s = key_prefix \<and> takeWhile alphanumeric (drop 3 s) \<noteq> []"
  then obtain x r where x: "drop 3 s = x # r" "alphanumeric x" by (cases "drop 3 s") (auto split: if_splits)
  then have "s = (key_prefix @ [x]) @ r" using k append_take_drop_id [of 3 s] by simp
  with x(2) show "\<exists>w. key_text w \<and> prefix w s" by (auto simp: key_text_def prefix_def)
next
  assume "\<exists>w. key_text w \<and> prefix w s"
  then show "take 3 s = key_prefix \<and> takeWhile alphanumeric (drop 3 s) \<noteq> []"
    by (auto simp: key_text_def key_prefix_list prefix_def)
qed

lemma replace_keys_Nil [simp]: "replace_keys [] = []"
  by (simp add: replace_keys.simps)

lemma replace_keys_Cons:
  "replace_keys (c # s) =
     (if \<exists>w. key_text w \<and> prefix w (c # s)
      then redacted_marker @ replace_keys (dropWhile alphanumeric (drop 3 (c # s)))
      else c # replace_keys s)"
  unfolding starts_key [symmetric] by (simp add: replace_keys.simps [of "c # s"])

lemma key_rest_less: "length (dropWhile alphanumeric (drop 3 (c # s))) < length (c # s)"
  using length_dropWhile_le [of alphanumeric "drop 3 (c # s)"] by simp

lemma key_rest: "\<exists>p. s = p @ dropWhile alphanumeric (drop 3 s)"
proof -
  have "s = take 3 s @ takeWhile alphanumeric (drop 3 s) @ dropWhile alphanumeric (drop 3 s)" by simp
  then show ?thesis by (metis append.assoc)
qed

lemma replace_keys_replaced: "replaced s (replace_keys s)"
proof (induction "length s" arbitrary: s rule: less_induct)
  case less
  show ?case
  proof (cases s)
    case (Cons c t)
    let ?rest = "dropWhile alphanumeric (drop 3 (c # t))"
    have "replaced ?rest (replace_keys ?rest)" using less key_rest_less Cons by blast
    moreover obtain p where "c # t = p @ ?rest" using key_rest by blast
    ultimately have "replaced (c # t) (redacted_marker @ replace_keys ?rest)" by (metis replaced.mark)
    moreover have "replaced (c # t) (c # replace_keys t)" using less Cons by (simp add: replaced.keep)
    ultimately show ?thesis using Cons by (simp add: replace_keys_Cons del: drop_Suc_Cons)
  qed (simp add: replaced.empty)
qed

lemma replace_keys_clean: "key_text w \<Longrightarrow> \<not> sublist w (replace_keys s)"
proof (induction "length s" arbitrary: s rule: less_induct)
  case less
  note m = key_text_maskable [OF less.prems]
  show ?case
  proof (cases s)
    case Nil
    with maskable_not_Nil [OF m] show ?thesis by simp
  next
    case (Cons c t)
    show ?thesis
    proof (cases "\<exists>w. key_text w \<and> prefix w (c # t)")
      case True
      have "\<not> sublist w (replace_keys (dropWhile alphanumeric (drop 3 (c # t))))"
        using less key_rest_less Cons by blast
      then show ?thesis
        using True Cons sublist_marker [OF m] by (auto simp: replace_keys_Cons simp del: drop_Suc_Cons)
    next
      case False
      have "\<not> prefix w (c # replace_keys t)"
        using replaced_prefix [OF replaced.keep [OF replace_keys_replaced], of w c t] False less.prems m
        by (auto simp: maskable_def)
      moreover have "\<not> sublist w (replace_keys t)" using less Cons by simp
      ultimately have "\<not> sublist w (c # replace_keys t)" by (simp add: sublist_Cons_right)
      then show ?thesis unfolding Cons replace_keys_Cons if_not_P [OF False] .
    qed
  qed
qed

text \<open>A text that redaction has nothing to do with.\<close>

definition redacted :: "js_string list \<Rightarrow> js_string \<Rightarrow> bool" where
  "redacted secrets t \<longleftrightarrow>
     (\<forall>secret \<in> set secrets. secret \<noteq> [] \<longrightarrow> \<not> sublist secret t) \<and> (\<forall>w. key_text w \<longrightarrow> \<not> sublist w t)"

definition maskable_secrets :: "js_string list \<Rightarrow> bool" where
  "maskable_secrets secrets \<longleftrightarrow> (\<forall>secret \<in> set secrets. secret \<noteq> [] \<longrightarrow> maskable secret)"

lemma replaced_trans_prefix:
  "replaced (redact_secrets secrets s) t \<Longrightarrow> prefix w t \<Longrightarrow> 91 \<notin> set w \<Longrightarrow> prefix w s"
proof (induction secrets arbitrary: s)
  case Nil
  then show ?case by (simp add: replaced_prefix)
next
  case (Cons secret secrets)
  then have "prefix w (if secret \<noteq> [] then replace_all secret s else s)" by simp
  then show ?case using replaced_prefix [OF replace_all_replaced] Cons.prems(3) by (auto split: if_splits)
qed

lemma redact_prefix: "prefix w (redact s secrets) \<Longrightarrow> 91 \<notin> set w \<Longrightarrow> prefix w s"
  unfolding redact_def by (rule replaced_trans_prefix [OF replace_keys_replaced])

lemma redact_secrets_same: "91 \<notin> set (redact_secrets secrets s) \<Longrightarrow> redact_secrets secrets s = s"
proof (induction secrets arbitrary: s)
  case (Cons secret secrets)
  then have "redact_secrets (secret # secrets) s = (if secret \<noteq> [] then replace_all secret s else s)" by simp
  with Cons.prems replaced_same [OF replace_all_replaced, of secret s] show ?case by (auto split: if_splits)
qed simp

lemma redact_same: "91 \<notin> set (redact s secrets) \<Longrightarrow> redact s secrets = s"
  unfolding redact_def using replaced_same [OF replace_keys_replaced] redact_secrets_same by metis

lemma redact_secrets_keeps:
  "maskable w \<Longrightarrow> \<not> sublist w s \<Longrightarrow> \<not> sublist w (redact_secrets secrets s)"
proof (induction secrets arbitrary: s)
  case (Cons secret secrets)
  have "\<not> sublist w (if secret \<noteq> [] then replace_all secret s else s)"
    using replaced_sublist [OF replace_all_replaced Cons.prems(1)] Cons.prems(2) by auto
  with Cons show ?case by simp
qed simp

lemma redact_secrets_clean:
  "secret \<in> set secrets \<Longrightarrow> maskable secret \<Longrightarrow> \<not> sublist secret (redact_secrets secrets s)"
proof (induction secrets arbitrary: s)
  case (Cons x secrets)
  show ?case
  proof (cases "x = secret")
    case True
    have "\<not> sublist secret (redact_secrets secrets (replace_all secret s))"
      by (rule redact_secrets_keeps [OF Cons.prems(2) replace_all_clean [OF Cons.prems(2)]])
    with True maskable_not_Nil [OF Cons.prems(2)] show ?thesis by simp
  next
    case False
    with Cons show ?thesis by simp
  qed
qed simp

lemma redact_no_secret: "secret \<in> set secrets \<Longrightarrow> maskable secret \<Longrightarrow> \<not> sublist secret (redact s secrets)"
  unfolding redact_def using replaced_sublist [OF replace_keys_replaced] redact_secrets_clean by blast

lemma redact_no_key: "key_text w \<Longrightarrow> \<not> sublist w (redact s secrets)"
  unfolding redact_def by (rule replace_keys_clean)

lemma redact_redacted: "maskable_secrets secrets \<Longrightarrow> redacted secrets (redact s secrets)"
  by (simp add: redacted_def maskable_secrets_def redact_no_secret redact_no_key)

lemma redacted_sublist: "redacted secrets t \<Longrightarrow> sublist u t \<Longrightarrow> redacted secrets u"
  unfolding redacted_def using sublist_order.order.trans by blast

lemma replace_all_id: "secret \<noteq> [] \<Longrightarrow> \<not> sublist secret s \<Longrightarrow> replace_all secret s = s"
  by (induction s) (simp_all add: replace_all_Cons sublist_Cons_right)

lemma replace_keys_id: "(\<And>w. key_text w \<Longrightarrow> \<not> sublist w s) \<Longrightarrow> replace_keys s = s"
proof (induction s)
  case (Cons c s)
  have "\<not> (\<exists>w. key_text w \<and> prefix w (c # s))" using Cons.prems by auto
  moreover have "replace_keys s = s" using Cons by (simp add: sublist_Cons_right)
  ultimately show ?case unfolding replace_keys_Cons by (simp only: if_False)
qed simp

lemma redact_secrets_id: "\<forall>secret \<in> set secrets. secret \<noteq> [] \<longrightarrow> \<not> sublist secret s \<Longrightarrow> redact_secrets secrets s = s"
  by (induction secrets) (auto simp: replace_all_id)

lemma redact_id: "redacted secrets t \<Longrightarrow> redact t secrets = t"
  by (simp add: redact_def redacted_def redact_secrets_id replace_keys_id)

end
