(* ===== verification/Projector.thy ===== *)
theory Projector
  imports Redaction
begin

text \<open>
  \<open>PublicEventProjector\<close> of \<open>agent/bridge.ts\<close>: what the mission worker publishes of the events of an
  agent session.  Streamed text is held back as long as it may be the beginning of a secret.
  \<open>stringify\<close> is \<open>JSON.stringify\<close> on the arguments of a tool call.
\<close>

section \<open>Events\<close>

record agent_message =
  msg_role :: js_string
  msg_content :: jsv
  msg_stopReason :: js_string

datatype assistant_event = TextDelta js_string | OtherAssistantEvent

datatype session_event =
    MessageStart agent_message
  | MessageUpdate agent_message assistant_event
  | MessageEnd agent_message
  | ToolExecutionStart js_string js_string jsv
  | ToolExecutionUpdate js_string js_string jsv
  | ToolExecutionEnd js_string js_string jsv bool
  | AgentStart
  | AgentSettled
  | AgentEnd bool
  | QueueUpdate "js_string list" "js_string list"
  | CompactionStart js_string
  | CompactionEnd js_string bool bool "js_string option"
  | AutoRetryStart nat js_string
  | SummarizationRetryScheduled nat js_string
  | AutoRetryEnd bool nat "js_string option"
  | SummarizationRetryAttemptStart
  | SummarizationRetryFinished
  | OtherSessionEvent

record public_event =
  pe_type :: js_string
  pe_message_id :: "js_string option"
  pe_role :: "js_string option"
  pe_text :: "js_string option"
  pe_tool_call_id :: "js_string option"
  pe_tool_name :: "js_string option"
  pe_is_error :: "bool option"
  pe_status :: "js_string option"
  pe_attempt :: "nat option"
  pe_will_retry :: "bool option"
  pe_count :: "nat option"

definition public_event_of :: "string \<Rightarrow> public_event" where
  "public_event_of t =
     \<lparr>pe_type = js t, pe_message_id = None, pe_role = None, pe_text = None, pe_tool_call_id = None,
      pe_tool_name = None, pe_is_error = None, pe_status = None, pe_attempt = None,
      pe_will_retry = None, pe_count = None\<rparr>"

text \<open>\<open>publicText\<close>: the text parts of the content, one per line.\<close>

definition text_part :: "jsv \<Rightarrow> js_string option" where
  "text_part part =
     (case part of
        JObj ps \<Rightarrow>
          if obj_get ps (js ''type'') = Some (JStr (js ''text''))
          then (case obj_get ps (js ''text'') of Some (JStr t) \<Rightarrow> Some t | _ \<Rightarrow> None)
          else None
      | _ \<Rightarrow> None)"

fun join_parts :: "js_string list \<Rightarrow> js_string" where
  "join_parts [] = []"
| "join_parts [t] = t"
| "join_parts (t # ts) = t @ 10 # join_parts ts"

definition public_text :: "jsv \<Rightarrow> js_string" where
  "public_text v =
     (case v of
        JObj ps \<Rightarrow>
          (case obj_get ps (js ''content'') of
             Some (JArr parts) \<Rightarrow> join_parts (List.map_filter text_part parts)
           | _ \<Rightarrow> [])
      | _ \<Rightarrow> [])"

definition message_text :: "agent_message \<Rightarrow> js_string" where
  "message_text m = public_text (JObj [(js ''content'', msg_content m)])"

section \<open>The projector\<close>

record projector =
  pj_runId :: js_string
  pj_secrets :: "js_string list"
  pj_sequence :: nat
  pj_currentMessage :: js_string
  pj_pendingText :: js_string

definition new_projector :: "js_string \<Rightarrow> js_string list \<Rightarrow> projector" where
  "new_projector runId secrets =
     \<lparr>pj_runId = runId, pj_secrets = secrets, pj_sequence = 0, pj_currentMessage = [], pj_pendingText = []\<rparr>"

definition assistant_id :: "js_string \<Rightarrow> nat \<Rightarrow> js_string" where
  "assistant_id runId n = runId @ js '':assistant:'' @ nat_str n"

definition tool_id :: "js_string \<Rightarrow> js_string \<Rightarrow> js_string" where
  "tool_id runId callId = runId @ js '':tool:'' @ callId"

text \<open>The loops over the secrets and the lengths of their beginnings.\<close>

definition held_for :: "js_string \<Rightarrow> nat \<Rightarrow> js_string \<Rightarrow> nat" where
  "held_for t held secret =
     foldl (\<lambda>held n. if n \<le> length t \<and> drop (length t - n) t = take n secret then max held n else held)
       held [1..<length secret]"

definition held_length :: "js_string \<Rightarrow> js_string list \<Rightarrow> nat" where
  "held_length t secrets = foldl (held_for t) 0 secrets"

definition begin_message :: "bool \<Rightarrow> projector \<Rightarrow> projector" where
  "begin_message start p =
     (if start \<or> pj_currentMessage p = []
      then p\<lparr>pj_sequence := pj_sequence p + 1,
             pj_currentMessage := assistant_id (pj_runId p) (pj_sequence p + 1), pj_pendingText := []\<rparr>
      else p)"

definition assistant_message :: "string \<Rightarrow> js_string \<Rightarrow> projector \<Rightarrow> public_event" where
  "assistant_message kind t p =
     (public_event_of kind)\<lparr>pe_role := Some (js ''assistant''), pe_message_id := Some (pj_currentMessage p),
        pe_text := Some t\<rparr>"

text \<open>One streamed piece: what is published of it, and the projector that holds the rest back.\<close>

definition stream_delta :: "js_string \<Rightarrow> projector \<Rightarrow> js_string \<times> projector" where
  "stream_delta delta p =
     (let t = redact (pj_pendingText p @ delta) (pj_secrets p);
          held = held_length t (pj_secrets p) in
      (if held \<noteq> 0 then take (length t - held) t else t,
       p\<lparr>pj_pendingText := if held \<noteq> 0 then drop (length t - held) t else []\<rparr>))"

definition completion_status :: "agent_message \<Rightarrow> js_string" where
  "completion_status m =
     (if msg_stopReason m = js ''error'' \<or> msg_stopReason m = js ''aborted'' then js ''failed'' else js ''completed'')"

definition tool_event :: "string \<Rightarrow> js_string \<Rightarrow> js_string \<Rightarrow> js_string option \<Rightarrow> projector \<Rightarrow> public_event" where
  "tool_event kind callId name t p =
     (public_event_of kind)\<lparr>pe_tool_call_id := Some callId, pe_tool_name := Some name,
        pe_message_id := Some (tool_id (pj_runId p) callId), pe_text := t\<rparr>"

text \<open>The switch: the event before its text is redacted and cut, or nothing.\<close>

definition project_event :: "(jsv \<Rightarrow> js_string option) \<Rightarrow> session_event \<Rightarrow> projector \<Rightarrow> public_event option \<times> projector" where
  "project_event stringify event p =
     (case event of
        MessageStart m \<Rightarrow>
          if msg_role m \<noteq> js ''assistant'' then (None, p)
          else (let p = begin_message True p in (Some (assistant_message ''message_start'' (message_text m) p), p))
      | MessageUpdate m e \<Rightarrow>
          if msg_role m \<noteq> js ''assistant'' then (None, p)
          else (let p = begin_message False p in
            case e of
              OtherAssistantEvent \<Rightarrow> (None, p)
            | TextDelta delta \<Rightarrow>
                (case stream_delta delta p of (t, p') \<Rightarrow>
                   (if t = [] then None else Some (assistant_message ''message_update'' t p), p')))
      | MessageEnd m \<Rightarrow>
          if msg_role m \<noteq> js ''assistant'' then (None, p)
          else (let p = begin_message False p in
            (Some ((assistant_message ''message_end'' (message_text m) p)\<lparr>pe_status := Some (completion_status m)\<rparr>),
             p\<lparr>pj_currentMessage := [], pj_pendingText := []\<rparr>))
      | ToolExecutionStart callId name args \<Rightarrow>
          (Some (tool_event ''tool_execution_start'' callId name (stringify args) p), p)
      | ToolExecutionUpdate callId name partial \<Rightarrow>
          (Some (tool_event ''tool_execution_update'' callId name (Some (public_text partial)) p), p)
      | ToolExecutionEnd callId name result isError \<Rightarrow>
          (Some ((tool_event ''tool_execution_end'' callId name (Some (public_text result)) p)
             \<lparr>pe_is_error := Some isError\<rparr>), p)
      | AgentStart \<Rightarrow> (Some (public_event_of ''agent_start''), p)
      | AgentSettled \<Rightarrow> (Some (public_event_of ''agent_settled''), p)
      | AgentEnd willRetry \<Rightarrow> (Some ((public_event_of ''agent_end'')\<lparr>pe_will_retry := Some willRetry\<rparr>), p)
      | QueueUpdate steering followUp \<Rightarrow>
          (Some ((public_event_of ''queue_update'')\<lparr>pe_count := Some (length steering + length followUp)\<rparr>), p)
      | CompactionStart reason \<Rightarrow> (Some ((public_event_of ''compaction_start'')\<lparr>pe_text := Some reason\<rparr>), p)
      | CompactionEnd reason aborted willRetry errorMessage \<Rightarrow>
          (let failed = errorMessage \<noteq> None \<and> errorMessage \<noteq> Some [] in
           (Some ((public_event_of ''compaction_end'')
              \<lparr>pe_text := if failed then errorMessage else Some reason, pe_is_error := Some (aborted \<or> failed),
               pe_will_retry := Some willRetry\<rparr>), p))
      | AutoRetryStart attempt errorMessage \<Rightarrow>
          (Some ((public_event_of ''auto_retry_start'')\<lparr>pe_text := Some errorMessage, pe_attempt := Some attempt\<rparr>), p)
      | SummarizationRetryScheduled attempt errorMessage \<Rightarrow>
          (Some ((public_event_of ''summarization_retry_scheduled'')
             \<lparr>pe_text := Some errorMessage, pe_attempt := Some attempt\<rparr>), p)
      | AutoRetryEnd success attempt finalError \<Rightarrow>
          (Some ((public_event_of ''auto_retry_end'')
             \<lparr>pe_text := finalError, pe_attempt := Some attempt, pe_is_error := Some (\<not> success)\<rparr>), p)
      | SummarizationRetryAttemptStart \<Rightarrow> (Some (public_event_of ''summarization_retry_attempt_start''), p)
      | SummarizationRetryFinished \<Rightarrow> (Some (public_event_of ''summarization_retry_finished''), p)
      | OtherSessionEvent \<Rightarrow> (None, p))"

definition PUBLIC_TEXT_LIMIT :: nat where
  "PUBLIC_TEXT_LIMIT = 32000"

definition publish_text :: "js_string list \<Rightarrow> public_event \<Rightarrow> public_event" where
  "publish_text secrets r = r\<lparr>pe_text := map_option (\<lambda>t. take PUBLIC_TEXT_LIMIT (redact t secrets)) (pe_text r)\<rparr>"

definition project :: "(jsv \<Rightarrow> js_string option) \<Rightarrow> session_event \<Rightarrow> projector \<Rightarrow> public_event option \<times> projector" where
  "project stringify event p =
     (case project_event stringify event p of (r, p') \<Rightarrow> (map_option (publish_text (pj_secrets p)) r, p'))"

text \<open>What is published of a sequence of events.\<close>

fun project_all :: "(jsv \<Rightarrow> js_string option) \<Rightarrow> session_event list \<Rightarrow> projector \<Rightarrow> public_event list \<times> projector" where
  "project_all stringify [] p = ([], p)"
| "project_all stringify (e # es) p =
     (case project stringify e p of (r, p') \<Rightarrow>
        case project_all stringify es p' of (rs, p'') \<Rightarrow> (case r of None \<Rightarrow> rs | Some r \<Rightarrow> r # rs, p''))"

text \<open>The streamed text of one message as a reader of the published events puts it together.\<close>

definition streamed_text :: "js_string \<Rightarrow> public_event list \<Rightarrow> js_string" where
  "streamed_text i rs =
     concat (map (\<lambda>r. the (pe_text r))
       (filter (\<lambda>r. pe_type r = js ''message_update'' \<and> pe_message_id r = Some i) rs))"

section \<open>Single events\<close>

lemma project_text:
  assumes "project stringify event p = (Some r, p')" "pe_text r = Some t"
  shows "\<exists>s. t = take PUBLIC_TEXT_LIMIT (redact s (pj_secrets p))"
proof -
  obtain r0 q where e: "project_event stringify event p = (r0, q)" by (cases "project_event stringify event p")
  with assms(1) obtain r1 where "r = publish_text (pj_secrets p) r1" by (auto simp: project_def)
  with assms(2) show ?thesis by (auto simp: publish_text_def)
qed

lemma published_text:
  assumes "project stringify event p = (Some r, p')" "pe_text r = Some t"
  shows "length t \<le> PUBLIC_TEXT_LIMIT \<and>
    (\<forall>secret \<in> set (pj_secrets p). maskable secret \<longrightarrow> \<not> sublist secret t) \<and>
    (\<forall>w. key_text w \<longrightarrow> \<not> sublist w t)"
proof -
  from project_text [OF assms] obtain s where t: "t = take PUBLIC_TEXT_LIMIT (redact s (pj_secrets p))" by blast
  then have part: "sublist w (redact s (pj_secrets p))" if "sublist w t" for w
    using that sublist_order.order.trans sublist_take by blast
  have "\<not> sublist w t" if "key_text w" for w using part redact_no_key [OF that] by blast
  moreover have "\<not> sublist secret t" if "secret \<in> set (pj_secrets p)" "maskable secret" for secret
    using part redact_no_secret [OF that] by blast
  ultimately show ?thesis using t by simp
qed

section \<open>Streamed text\<close>

lemma held_for_fold:
  "held \<le> length t \<Longrightarrow>
   (let h = foldl (\<lambda>held n. if n \<le> length t \<and> drop (length t - n) t = take n secret then max held n else held) held ns in
    held \<le> h \<and> h \<le> length t \<and>
    (\<forall>n \<in> set ns. n \<le> length t \<and> drop (length t - n) t = take n secret \<longrightarrow> n \<le> h))"
proof (induction ns arbitrary: held)
  case (Cons m ns)
  let ?h = "if m \<le> length t \<and> drop (length t - m) t = take m secret then max held m else held"
  have "?h \<le> length t" "held \<le> ?h" using Cons.prems by auto
  with Cons.IH [of ?h] show ?case by (auto simp: Let_def split: if_splits)
qed simp

lemma held_for_bounds:
  assumes "held \<le> length t"
  shows "held \<le> held_for t held secret" "held_for t held secret \<le> length t"
    "0 < n \<Longrightarrow> n < length secret \<Longrightarrow> suffix (take n secret) t \<Longrightarrow> n \<le> held_for t held secret"
proof -
  note h = held_for_fold [OF assms, of secret "[1..<length secret]", unfolded Let_def, folded held_for_def]
  from h show "held \<le> held_for t held secret" "held_for t held secret \<le> length t" by auto
  assume n: "0 < n" "n < length secret" "suffix (take n secret) t"
  then obtain z where "t = z @ take n secret" by (auto simp: suffix_def)
  with n h show "n \<le> held_for t held secret" by auto
qed

lemma held_length_fold:
  "held \<le> length t \<Longrightarrow> held \<le> foldl (held_for t) held secrets \<and> foldl (held_for t) held secrets \<le> length t \<and>
    (\<forall>secret \<in> set secrets. \<forall>n. 0 < n \<and> n < length secret \<and> suffix (take n secret) t \<longrightarrow>
       n \<le> foldl (held_for t) held secrets)"
proof (induction secrets arbitrary: held)
  case (Cons x secrets)
  note h = held_for_bounds [OF Cons.prems, where secret = x]
  note ih = Cons.IH [OF h(2)]
  have "n \<le> foldl (held_for t) (held_for t held x) secrets"
    if "0 < n" "n < length x" "suffix (take n x) t" for n
    using h(3) [OF that] ih by linarith
  then show ?case using ih h(1) by simp
qed simp

lemma held_length_le: "held_length t secrets \<le> length t"
  using held_length_fold [of 0 t secrets] by (simp add: held_length_def)

lemma held_length_prefix:
  "secret \<in> set secrets \<Longrightarrow> strict_prefix w secret \<Longrightarrow> suffix w t \<Longrightarrow> length w \<le> held_length t secrets"
proof (cases "w = []")
  case False
  assume a: "secret \<in> set secrets" "strict_prefix w secret" "suffix w t"
  then have "take (length w) secret = w" "length w < length secret"
    by (auto simp: strict_prefix_def prefix_def)
  with a False show ?thesis using held_length_fold [of 0 t secrets] by (auto simp: held_length_def)
qed simp

text \<open>
  \<open>safe_stream secrets e q\<close>: with \<open>e\<close> published and \<open>q\<close> held back, no secret has got through, and
  every beginning of a secret at the end lies in what is held back.
\<close>

definition safe_stream :: "js_string list \<Rightarrow> js_string \<Rightarrow> js_string \<Rightarrow> bool" where
  "safe_stream secrets e q \<longleftrightarrow>
     (\<forall>secret \<in> set secrets. maskable secret \<longrightarrow>
        \<not> sublist secret (e @ q) \<and> (\<forall>w. strict_prefix w secret \<and> suffix w (e @ q) \<longrightarrow> length w \<le> length q))"

lemma safe_stream_Nil: "safe_stream secrets [] []"
  by (auto simp: safe_stream_def maskable_not_Nil)

lemma safe_stream_published: "safe_stream secrets e q \<Longrightarrow> secret \<in> set secrets \<Longrightarrow> maskable secret \<Longrightarrow> \<not> sublist secret e"
  by (auto simp: safe_stream_def sublist_append)

lemma safe_stream_redact:
  assumes safe: "safe_stream secrets e q" and t: "t = redact (q @ delta) secrets"
    and secret: "secret \<in> set secrets" "maskable secret"
  shows "\<not> sublist secret (e @ t)"
    "strict_prefix w secret \<Longrightarrow> suffix w (e @ t) \<Longrightarrow> length w \<le> held_length t secrets"
proof -
  from safe secret have no: "\<not> sublist secret (e @ q)"
    and short: "\<And>w. strict_prefix w secret \<Longrightarrow> suffix w (e @ q) \<Longrightarrow> length w \<le> length q"
    by (auto simp: safe_stream_def)
  have open_bracket: "91 \<notin> set secret" using secret(2) by (simp add: maskable_def)
  show "\<not> sublist secret (e @ t)"
  proof
    assume s: "sublist secret (e @ t)"
    have no_e: "\<not> sublist secret e" using no by (auto simp: sublist_append)
    have no_t: "\<not> sublist secret t" unfolding t by (rule redact_no_secret [OF secret])
    from s no_e no_t have "\<exists>u v. secret = u @ v \<and> suffix u e \<and> prefix v t"
      by (simp only: sublist_append [of secret e t] simp_thms)
    then obtain u v where uv: "secret = u @ v" "suffix u e" "prefix v t" by (elim exE conjE)
    have "prefix v (q @ delta)"
      by (rule redact_prefix [OF uv(3) [unfolded t]]) (use open_bracket uv(1) in simp)
    then have v: "prefix v q \<or> (\<exists>y. v = q @ y \<and> prefix y delta)" by (simp only: prefix_append)
    show False
    proof (cases "prefix v q")
      case True
      with uv have "sublist secret (e @ q)" by (auto simp: sublist_append)
      with no show False by blast
    next
      case False
      with v obtain y where y: "v = q @ y" by blast
      with False have "y \<noteq> []" by auto
      have "suffix (u @ q) (e @ q)" using uv(2) by (auto simp: suffix_def)
      moreover have "strict_prefix (u @ q) secret"
        using uv(1) y \<open>y \<noteq> []\<close> by (simp add: strict_prefix_def prefix_def)
      ultimately have "u = []" using short [of "u @ q"] by simp
      with uv have "prefix secret t" by simp
      with no_t show False by blast
    qed
  qed
  assume w: "strict_prefix w secret" "suffix w (e @ t)"
  show "length w \<le> held_length t secrets"
  proof (rule ccontr)
    assume long: "\<not> length w \<le> held_length t secrets"
    with held_length_prefix [OF secret(1) w(1)] have "\<not> suffix w t" by blast
    with w(2) obtain u where u: "w = u @ t" "suffix u e"
      unfolding suffix_append by blast
    with \<open>\<not> suffix w t\<close> have "u \<noteq> []" by auto
    from w(1) u(1) open_bracket have "91 \<notin> set t" by (auto simp: strict_prefix_def prefix_def)
    then have "t = q @ delta" using redact_same t by metis
    then have "prefix (u @ q) w" using u(1) by simp
    then have "strict_prefix (u @ q) secret"
      using w(1) prefix_order.le_less_trans by blast
    moreover have "suffix (u @ q) (e @ q)" using u(2) by (auto simp: suffix_def)
    ultimately show False using short [of "u @ q"] \<open>u \<noteq> []\<close> by simp
  qed
qed

lemma safe_stream_step:
  assumes "safe_stream (pj_secrets p) e (pj_pendingText p)" "stream_delta delta p = (t, p')"
  shows "safe_stream (pj_secrets p') (e @ t) (pj_pendingText p') \<and>
    pj_secrets p' = pj_secrets p \<and> pj_runId p' = pj_runId p \<and> pj_sequence p' = pj_sequence p \<and>
    pj_currentMessage p' = pj_currentMessage p \<and>
    (maskable_secrets (pj_secrets p) \<longrightarrow> redact t (pj_secrets p) = t)"
proof -
  let ?t = "redact (pj_pendingText p @ delta) (pj_secrets p)"
  let ?h = "held_length ?t (pj_secrets p)"
  from assms(2) have t: "t = take (length ?t - ?h) ?t" "p' = p\<lparr>pj_pendingText := drop (length ?t - ?h) ?t\<rparr>"
    by (auto simp: stream_delta_def Let_def)
  note s = safe_stream_redact [OF assms(1) refl, where delta = delta]
  have "safe_stream (pj_secrets p) (e @ t) (pj_pendingText p')"
    using s held_length_le [of ?t "pj_secrets p"] by (auto simp: t safe_stream_def)
  moreover have "redact t (pj_secrets p) = t" if "maskable_secrets (pj_secrets p)"
  proof (rule redact_id)
    from redact_redacted [OF that] show "redacted (pj_secrets p) t"
      by (rule redacted_sublist) (subst t(1), rule sublist_take)
  qed
  ultimately show ?thesis by (simp add: t(2))
qed

section \<open>Whole runs\<close>

definition projector_inv :: "js_string \<Rightarrow> js_string list \<Rightarrow> public_event list \<Rightarrow> projector \<Rightarrow> bool" where
  "projector_inv runId secrets rs p \<longleftrightarrow>
     pj_runId p = runId \<and> pj_secrets p = secrets \<and>
     (\<forall>r \<in> set rs. pe_type r = js ''message_update'' \<longrightarrow>
        (\<exists>k \<le> pj_sequence p. pe_message_id r = Some (assistant_id runId k))) \<and>
     (\<forall>i. \<forall>secret \<in> set secrets. maskable secret \<longrightarrow> \<not> sublist secret (streamed_text i rs)) \<and>
     (pj_currentMessage p \<noteq> [] \<longrightarrow>
        pj_currentMessage p = assistant_id runId (pj_sequence p) \<and>
        safe_stream secrets (streamed_text (pj_currentMessage p) rs) (pj_pendingText p))"

lemma assistant_id_inject [simp]: "assistant_id runId m = assistant_id runId n \<longleftrightarrow> m = n"
  by (simp add: assistant_id_def)

lemma assistant_id_not_Nil [simp]: "assistant_id runId n \<noteq> []"
  by (simp add: assistant_id_def)

lemma streamed_text_append:
  "streamed_text i (rs @ [r]) =
     streamed_text i rs @ (if pe_type r = js ''message_update'' \<and> pe_message_id r = Some i then the (pe_text r) else [])"
  by (simp add: streamed_text_def)

lemma streamed_text_none:
  "(\<And>r. r \<in> set rs \<Longrightarrow> pe_type r = js ''message_update'' \<Longrightarrow> pe_message_id r \<noteq> Some i) \<Longrightarrow> streamed_text i rs = []"
  by (auto simp: streamed_text_def)

lemma projector_inv_new: "projector_inv runId secrets [] (new_projector runId secrets)"
  by (auto simp: projector_inv_def new_projector_def streamed_text_def maskable_not_Nil)

lemma projector_inv_begin:
  assumes "projector_inv runId secrets rs p"
  shows "projector_inv runId secrets rs (begin_message start p)" "pj_currentMessage (begin_message start p) \<noteq> []"
proof -
  have "streamed_text (assistant_id runId (pj_sequence p + 1)) rs = []"
    using assms by (intro streamed_text_none) (force simp: projector_inv_def)
  with assms show "projector_inv runId secrets rs (begin_message start p)"
    unfolding projector_inv_def begin_message_def by (auto simp: safe_stream_Nil intro: le_SucI)
  show "pj_currentMessage (begin_message start p) \<noteq> []" by (simp add: begin_message_def)
qed

lemma projector_inv_safe:
  "projector_inv runId secrets rs p \<Longrightarrow> pj_currentMessage p \<noteq> [] \<Longrightarrow>
   safe_stream secrets (streamed_text (pj_currentMessage p) rs) (pj_pendingText p)"
  unfolding projector_inv_def by blast

text \<open>An event of another kind than streamed text.\<close>

lemma projector_inv_other:
  "projector_inv runId secrets rs p \<Longrightarrow> pe_type r \<noteq> js ''message_update'' \<Longrightarrow> projector_inv runId secrets (rs @ [r]) p"
  by (auto simp: projector_inv_def streamed_text_append)

lemma projector_inv_end:
  "projector_inv runId secrets rs p \<Longrightarrow>
   projector_inv runId secrets rs (p\<lparr>pj_currentMessage := [], pj_pendingText := []\<rparr>)"
  by (simp add: projector_inv_def)

lemma projector_inv_delta:
  assumes inv: "projector_inv runId secrets rs p" "pj_currentMessage p \<noteq> []" and d: "stream_delta delta p = (t, p')"
    and r: "pe_type r = js ''message_update''" "pe_message_id r = Some (pj_currentMessage p)" "pe_text r = Some t"
  shows "projector_inv runId secrets (rs @ [r]) p'" "t = [] \<Longrightarrow> projector_inv runId secrets rs p'"
proof -
  let ?i = "pj_currentMessage p"
  from inv have i: "?i = assistant_id runId (pj_sequence p)" "pj_secrets p = secrets" "pj_runId p = runId"
    "safe_stream (pj_secrets p) (streamed_text ?i rs) (pj_pendingText p)"
    by (auto simp: projector_inv_def)
  from safe_stream_step [OF i(4) d] i(2,3)
  have s: "safe_stream secrets (streamed_text ?i rs @ t) (pj_pendingText p')" "pj_secrets p' = secrets" "pj_runId p' = runId"
    "pj_sequence p' = pj_sequence p" "pj_currentMessage p' = ?i" by auto
  from r have joined: "streamed_text j (rs @ [r]) = streamed_text j rs @ (if j = ?i then t else [])" for j
    by (auto simp: streamed_text_append)
  have clean: "\<not> sublist secret (streamed_text j (rs @ [r]))" if "secret \<in> set secrets" "maskable secret" for j secret
    using safe_stream_published [OF s(1) that] inv(1) that by (simp add: joined projector_inv_def)
  have ids: "\<exists>k \<le> pj_sequence p. pe_message_id x = Some (assistant_id runId k)"
    if "x \<in> set (rs @ [r])" "pe_type x = js ''message_update''" for x
    using that inv(1) r(2) i(1) by (auto simp: projector_inv_def)
  show "projector_inv runId secrets (rs @ [r]) p'"
    using clean ids s i(1) unfolding projector_inv_def by (simp add: joined)
  show "projector_inv runId secrets rs p'" if "t = []"
    using inv(1) s that unfolding projector_inv_def by simp
qed

lemma publish_text_fields [simp]:
  "pe_type (publish_text secrets r) = pe_type r" "pe_message_id (publish_text secrets r) = pe_message_id r"
  by (simp_all add: publish_text_def)

text \<open>Everything but the streamed pieces: the projector keeps its state or ends its message.\<close>

lemma project_event_other:
  assumes "project_event stringify e p = (r, p')" "\<And>m delta. e = MessageUpdate m (TextDelta delta) \<Longrightarrow> msg_role m \<noteq> js ''assistant''"
  shows "(\<forall>x. r = Some x \<longrightarrow> pe_type x \<noteq> js ''message_update'') \<and>
    (\<exists>q. (q = p \<or> q = begin_message True p \<or> q = begin_message False p) \<and>
       (p' = q \<or> p' = q\<lparr>pj_currentMessage := [], pj_pendingText := []\<rparr>))"
  using assms
  by (cases e; (auto simp: project_event_def assistant_message_def tool_event_def public_event_of_def Let_def
      split: if_splits assistant_event.splits; fail)?)

definition uncut :: "public_event \<Rightarrow> bool" where
  "uncut r \<longleftrightarrow> (case pe_text r of Some t \<Rightarrow> length t < PUBLIC_TEXT_LIMIT | None \<Rightarrow> True)"

definition published :: "public_event option \<Rightarrow> public_event list" where
  "published r = (case r of Some r \<Rightarrow> [r] | None \<Rightarrow> [])"

lemma projector_inv_step:
  assumes inv: "projector_inv runId secrets rs p" and secrets: "maskable_secrets secrets"
    and e: "project stringify e p = (r, p')" and uncut: "\<forall>x \<in> set (published r). uncut x"
  shows "projector_inv runId secrets (rs @ published r) p'"
proof (cases "\<exists>m delta. e = MessageUpdate m (TextDelta delta) \<and> msg_role m = js ''assistant''")
  case True
  then obtain m delta where m: "e = MessageUpdate m (TextDelta delta)" "msg_role m = js ''assistant''" by blast
  let ?p = "begin_message False p"
  obtain t q where d: "stream_delta delta ?p = (t, q)" by (cases "stream_delta delta ?p")
  note start = projector_inv_begin [OF inv, of False]
  then have keep: "pj_secrets p = secrets" "pj_secrets ?p = secrets"
    using inv by (auto simp: projector_inv_def)
  from m d e keep have r: "r = (if t = [] then None else Some (publish_text secrets (assistant_message ''message_update'' t ?p)))"
    "p' = q" by (auto simp: project_def project_event_def Let_def)
  note step = projector_inv_delta [OF start d]
  show ?thesis
  proof (cases "t = []")
    case True
    have "projector_inv runId secrets rs q"
      by (rule step(2) [of "assistant_message ''message_update'' t ?p"])
        (simp_all add: assistant_message_def public_event_of_def True)
    with True r show ?thesis by (simp add: published_def)
  next
    case False
    let ?r = "publish_text secrets (assistant_message ''message_update'' t ?p)"
    have safe: "safe_stream (pj_secrets ?p) (streamed_text (pj_currentMessage ?p) rs) (pj_pendingText ?p)"
      using projector_inv_safe [OF start] keep(2) by simp
    have "redact t secrets = t" using safe_stream_step [OF safe d] keep secrets by simp
    then have cut: "pe_text ?r = Some (take PUBLIC_TEXT_LIMIT t)"
      by (simp add: publish_text_def assistant_message_def)
    with uncut False r have "pe_text ?r = Some t" by (auto simp: published_def uncut_def)
    then have "projector_inv runId secrets (rs @ [?r]) q"
      by (intro step(1)) (simp_all add: assistant_message_def public_event_of_def)
    with False r show ?thesis by (simp add: published_def)
  qed
next
  case False
  obtain r0 where e0: "project_event stringify e p = (r0, p')" "r = map_option (publish_text (pj_secrets p)) r0"
    using e by (cases "project_event stringify e p") (auto simp: project_def)
  from False project_event_other [OF e0(1)] obtain q where q:
    "\<forall>x. r0 = Some x \<longrightarrow> pe_type x \<noteq> js ''message_update''"
    "q = p \<or> q = begin_message True p \<or> q = begin_message False p"
    "p' = q \<or> p' = q\<lparr>pj_currentMessage := [], pj_pendingText := []\<rparr>" by blast
  have "projector_inv runId secrets rs q" using q(2) inv projector_inv_begin(1) by blast
  then have "projector_inv runId secrets rs p'" using q(3) projector_inv_end by blast
  then show ?thesis using q(1) e0(2) by (auto simp: published_def projector_inv_other split: option.splits)
qed

lemma projector_inv_all:
  "project_all stringify es p = (rs', p') \<Longrightarrow> projector_inv runId secrets rs p \<Longrightarrow> maskable_secrets secrets \<Longrightarrow>
   \<forall>r \<in> set rs'. uncut r \<Longrightarrow> projector_inv runId secrets (rs @ rs') p'"
proof (induction es arbitrary: rs rs' p)
  case (Cons e es)
  obtain r q where e: "project stringify e p = (r, q)" by (cases "project stringify e p")
  obtain rs1 where es: "project_all stringify es q = (rs1, p')" "rs' = published r @ rs1"
    using Cons.prems(1) e by (cases "project_all stringify es q") (auto simp: published_def split: option.splits)
  have "projector_inv runId secrets (rs @ published r) q"
    by (rule projector_inv_step [OF Cons.prems(2,3) e]) (use Cons.prems(4) es(2) in simp)
  from Cons.IH [OF es(1) this Cons.prems(3)] Cons.prems(4) es(2) show ?case by simp
qed simp

section \<open>Properties\<close>



text \<open>A message and the facts that evaluate a run on it.\<close>

definition example_message :: agent_message where
  "example_message = \<lparr>msg_role = js ''assistant'', msg_content = JNull, msg_stopReason = []\<rparr>"

lemmas run_simps =
  example_message_def project_def project_event_def new_projector_def begin_message_def assistant_message_def
  public_event_of_def publish_text_def PUBLIC_TEXT_LIMIT_def message_text_def public_text_def stream_delta_def
  held_length_def held_for_def redact_def replace_all.simps [of secret "c # s" for secret c s]
  replace_keys.simps [of "c # s" for c s] marker_list key_prefix_list
  alphanumeric_def assistant_id_def streamed_text_def Let_def



text \<open>
  Only the configured secrets are held back: an API key in two pieces, which is removed from one piece,
  goes out when they are put together.
\<close>

lemma streamed_key_leaks:
  "streamed_text (assistant_id (js ''run'') 1) (fst (project_all (\<lambda>_. None)
      [MessageStart example_message, MessageUpdate example_message (TextDelta (js ''ak_'')),
       MessageUpdate example_message (TextDelta (js ''12''))] (new_projector (js ''run'') []))) = js ''ak_12'' \<and>
   redact (js ''ak_12'') [] = redacted_marker"
  by (simp add: run_simps)

end
