(* ===== verification/MissionTools.thy ===== *)
theory MissionTools
  imports Redaction JsText
begin

text \<open>
  The other parts of the mission agent: \<open>FeedbackDelivery\<close>, the retry for a missing reason and
  \<open>publicDecisionReason\<close> of \<open>agent/bridge.ts\<close>, \<open>RoutineCooldown\<close> of \<open>agent/scheduling.ts\<close> and
  \<open>readTrustedSkill\<close> of \<open>agent/resources.ts\<close>.  The calls of the session and of the file system are
  parameters: a state goes in, and an error or a result comes out with the next state.
\<close>

section \<open>Feedback\<close>

datatype delivery_mode = Steer | FollowUp

record feedback_delivery =
  fd_delivered :: "js_string list"
  fd_pending :: "js_string list"

definition new_feedback :: feedback_delivery where
  "new_feedback = \<lparr>fd_delivered = [], fd_pending = []\<rparr>"

datatype 'e delivery_error = InvalidFeedback | SendFailed 'e

definition feedback_mode :: "jsv option \<Rightarrow> delivery_mode option" where
  "feedback_mode v =
     (if v = Some (JStr (js ''steer'')) then Some Steer
      else if v = Some (JStr (js ''followUp'')) then Some FollowUp else None)"

text \<open>The test of an item; \<open>None\<close> is the error \<open>invalid_feedback\<close>.\<close>

definition feedback_item :: "jsv \<Rightarrow> (js_string \<times> js_string \<times> delivery_mode) option" where
  "feedback_item item =
     (case item of
        JObj ps \<Rightarrow>
          (case (obj_get ps (js ''id''), obj_get ps (js ''text''), feedback_mode (obj_get ps (js ''delivery''))) of
             (Some (JStr i), Some (JStr t), Some mode) \<Rightarrow> Some (i, t, mode)
           | _ \<Rightarrow> None)
      | _ \<Rightarrow> None)"

text \<open>\<open>Set.prototype.add\<close> on the elements in the order of insertion.\<close>

definition set_add :: "'a \<Rightarrow> 'a list \<Rightarrow> 'a list" where
  "set_add x xs = (if x \<in> set xs then xs else xs @ [x])"

text \<open>
  The loop over the items; the list is that of the calls that have resolved, in their order.
\<close>

fun deliver_items :: "(delivery_mode \<Rightarrow> js_string \<Rightarrow> 's \<Rightarrow> ('e + unit) \<times> 's) \<Rightarrow> jsv list \<Rightarrow> feedback_delivery \<Rightarrow> 's \<Rightarrow>
    ('e delivery_error + unit) \<times> (js_string \<times> js_string \<times> delivery_mode) list \<times> feedback_delivery \<times> 's" where
  "deliver_items send [] d s = (Inr (), [], d, s)"
| "deliver_items send (item # items) d s =
     (case feedback_item item of
        None \<Rightarrow> (Inl InvalidFeedback, [], d, s)
      | Some (i, t, mode) \<Rightarrow>
          if i \<in> set (fd_delivered d) then deliver_items send items d s
          else (case send mode t s of
            (Inl e, s') \<Rightarrow> (Inl (SendFailed e), [], d, s')
          | (Inr _, s') \<Rightarrow>
              (case deliver_items send items
                  (d\<lparr>fd_delivered := set_add i (fd_delivered d), fd_pending := set_add i (fd_pending d)\<rparr>) s' of
                 (r, sent, d', s'') \<Rightarrow> (r, (i, t, mode) # sent, d', s''))))"

definition deliver :: "(delivery_mode \<Rightarrow> js_string \<Rightarrow> 's \<Rightarrow> ('e + unit) \<times> 's) \<Rightarrow> jsv \<Rightarrow> feedback_delivery \<Rightarrow> 's \<Rightarrow>
    ('e delivery_error + unit) \<times> (js_string \<times> js_string \<times> delivery_mode) list \<times> feedback_delivery \<times> 's" where
  "deliver send feedback d s =
     (case feedback of JArr items \<Rightarrow> deliver_items send items d s | _ \<Rightarrow> (Inr (), [], d, s))"

definition acknowledged_ids :: "feedback_delivery \<Rightarrow> js_string list" where
  "acknowledged_ids d = fd_pending d"

definition confirm_acknowledged :: "js_string list \<Rightarrow> feedback_delivery \<Rightarrow> feedback_delivery" where
  "confirm_acknowledged ids d = d\<lparr>fd_pending := filter (\<lambda>i. i \<notin> set ids) (fd_pending d)\<rparr>"

text \<open>What a worker does with the feedback of one job, in any order.\<close>

datatype feedback_op = Deliver jsv | Confirm "js_string list"

fun run_feedback :: "(delivery_mode \<Rightarrow> js_string \<Rightarrow> 's \<Rightarrow> ('e + unit) \<times> 's) \<Rightarrow> feedback_op list \<Rightarrow> feedback_delivery \<Rightarrow> 's \<Rightarrow>
    (js_string \<times> js_string \<times> delivery_mode) list \<times> feedback_delivery" where
  "run_feedback send [] d s = ([], d)"
| "run_feedback send (Deliver feedback # ops) d s =
     (case deliver send feedback d s of
        (_, sent, d', s') \<Rightarrow> (case run_feedback send ops d' s' of (sent', d'') \<Rightarrow> (sent @ sent', d'')))"
| "run_feedback send (Confirm ids # ops) d s = run_feedback send ops (confirm_acknowledged ids d) s"

definition confirmed_ids :: "feedback_op list \<Rightarrow> js_string set" where
  "confirmed_ids ops = {i. \<exists>ids. Confirm ids \<in> set ops \<and> i \<in> set ids}"

section \<open>The retry for a missing reason\<close>

datatype 'e run_error = SessionFailed 'e | DecisionReasonMissing

text \<open>The first component of the state is \<open>reason.missing\<close>, which the events of the session set.\<close>

definition run_until_settled :: "(js_string \<Rightarrow> bool \<times> 's \<Rightarrow> ('e + unit) \<times> bool \<times> 's) \<Rightarrow>
    (bool \<times> 's \<Rightarrow> ('e + unit) \<times> bool \<times> 's) \<Rightarrow> js_string \<Rightarrow> bool \<times> 's \<Rightarrow> ('e run_error + unit) \<times> bool \<times> 's" where
  "run_until_settled prompt wait t s =
     (case prompt t s of
        (Inl e, s') \<Rightarrow> (Inl (SessionFailed e), s')
      | (Inr _, s') \<Rightarrow>
          (case wait s' of (Inl e, s'') \<Rightarrow> (Inl (SessionFailed e), s'') | (Inr _, s'') \<Rightarrow> (Inr (), s'')))"

definition retry_prompt :: js_string where
  "retry_prompt =
     [19978, 27425, 25552, 20132, 20219, 21153, 36873, 25321, 26102, 32570, 23569, 20844, 24320,
      35843, 24230, 29702, 30001, 12290, 35831, 26816, 26597, 20219, 21153, 29366, 24577, 65307,
      22914, 20173, 38656, 25552, 20132, 65292, 25552, 20379, 30495, 23454, 12289, 31616, 30701,
      30340] @
     js '' decision_reason '' @
     [24182, 37325, 26032, 35843, 29992] @
     js '' submit_selection '' @
     [25110] @
     js '' submit_plan_regions'' @
     [12290, 19981, 35201, 32534, 36896, 35266, 27979, 25110, 23457, 25209, 12290]"

definition run_with_reason_retry :: "(js_string \<Rightarrow> bool \<times> 's \<Rightarrow> ('e + unit) \<times> bool \<times> 's) \<Rightarrow>
    (bool \<times> 's \<Rightarrow> ('e + unit) \<times> bool \<times> 's) \<Rightarrow> js_string \<Rightarrow> bool \<times> 's \<Rightarrow> ('e run_error + unit) \<times> bool \<times> 's" where
  "run_with_reason_retry prompt wait t s =
     (case run_until_settled prompt wait t s of
        (Inl e, s') \<Rightarrow> (Inl e, s')
      | (Inr _, (missing, s')) \<Rightarrow>
          if \<not> missing then (Inr (), missing, s')
          else (case run_until_settled prompt wait retry_prompt (False, s') of
            (Inl e, s'') \<Rightarrow> (Inl e, s'')
          | (Inr _, (missing, s'')) \<Rightarrow>
              if missing then (Inl DecisionReasonMissing, missing, s'') else (Inr (), missing, s'')))"

section \<open>The public reason of a decision\<close>

definition trim_text :: "js_string \<Rightarrow> js_string" where
  "trim_text t = List.rev (dropWhile white_space (List.rev (dropWhile white_space t)))"

definition reason_marker :: js_string where
  "reason_marker = [20915, 31574, 21407, 22240]"

text \<open>The text after the first marker, which stands at the beginning or after a line feed.\<close>

fun after_marker :: "bool \<Rightarrow> js_string \<Rightarrow> js_string option" where
  "after_marker start [] = None"
| "after_marker start (c # s) =
     (if start \<and> take 4 (c # s) = reason_marker \<and> drop 4 (c # s) \<noteq> [] \<and> hd (drop 4 (c # s)) \<in> {58, 65306}
      then Some (drop 5 (c # s))
      else after_marker (c = 10) s)"

text \<open>
  After the white space the reason runs up to the end of its line.  Where nothing but white space
  follows, the match takes a blank or fails, and either way there is no reason.
\<close>

definition public_decision_reason :: "js_string \<Rightarrow> js_string option" where
  "public_decision_reason t =
     (case after_marker True t of
        None \<Rightarrow> None
      | Some s \<Rightarrow>
          (let reason = trim_text (takeWhile (\<lambda>c. c \<noteq> 10) (dropWhile white_space s)) in
           if reason \<noteq> [] \<and> length reason \<le> 500 then Some reason else None))"

section \<open>Routine jobs\<close>

type_synonym routine_cooldown = int

definition cooldown_completed :: "int \<Rightarrow> routine_cooldown \<Rightarrow> routine_cooldown" where
  "cooldown_completed now eligibleAt = now + 15000"

definition defer_routine :: "int \<Rightarrow> routine_cooldown \<Rightarrow> bool" where
  "defer_routine now eligibleAt \<longleftrightarrow> now < eligibleAt"

section \<open>Trusted skills\<close>

text \<open>
  A normalised absolute path is the list of its names.  \<open>resolve\<close>, \<open>relative\<close> and \<open>isAbsolute\<close> are those
  of Node on POSIX systems; \<open>realpath\<close> and \<open>readFile\<close> are parameters.
\<close>

type_synonym file_path = "js_string list"

fun split_slash :: "js_string \<Rightarrow> js_string list" where
  "split_slash [] = [[]]"
| "split_slash (c # s) =
     (if c = 47 then [] # split_slash s
      else (case split_slash s of [] \<Rightarrow> [[c]] | l # ls \<Rightarrow> (c # l) # ls))"

definition path_step :: "file_path \<Rightarrow> js_string \<Rightarrow> file_path" where
  "path_step p name =
     (if name = [] \<or> name = js ''.'' then p else if name = js ''..'' then butlast p else p @ [name])"

definition is_absolute :: "js_string \<Rightarrow> bool" where
  "is_absolute t \<longleftrightarrow> t \<noteq> [] \<and> hd t = 47"

definition resolve_path :: "file_path \<Rightarrow> js_string \<Rightarrow> file_path" where
  "resolve_path base t = foldl path_step (if is_absolute t then [] else base) (split_slash t)"

fun relative_names :: "file_path \<Rightarrow> file_path \<Rightarrow> js_string list" where
  "relative_names [] q = q"
| "relative_names (a # p) [] = replicate (length (a # p)) (js ''..'')"
| "relative_names (a # p) (b # q) =
     (if a = b then relative_names p q else replicate (length (a # p)) (js ''..'') @ b # q)"

fun join_slash :: "js_string list \<Rightarrow> js_string" where
  "join_slash [] = []"
| "join_slash [t] = t"
| "join_slash (t # ts) = t @ 47 # join_slash ts"

definition relative_path :: "file_path \<Rightarrow> file_path \<Rightarrow> js_string" where
  "relative_path p q = join_slash (relative_names p q)"

definition ends_with :: "js_string \<Rightarrow> js_string \<Rightarrow> bool" where
  "ends_with t w \<longleftrightarrow> length w \<le> length t \<and> drop (length t - length w) t = w"

definition starts_with :: "js_string \<Rightarrow> js_string \<Rightarrow> bool" where
  "starts_with t w \<longleftrightarrow> take (length w) t = w"

datatype skill_error = FileSystemError | UntrustedSkillPath | SkillResourceTooLarge

definition SKILL_TEXT_LIMIT :: nat where
  "SKILL_TEXT_LIMIT = 32000"

definition read_trusted_skill :: "(file_path \<Rightarrow> file_path option) \<Rightarrow> (file_path \<Rightarrow> js_string option) \<Rightarrow>
    file_path \<Rightarrow> js_string \<Rightarrow> skill_error + js_string" where
  "read_trusted_skill realpath readFile skillsRoot requestedPath =
     (case realpath skillsRoot of
        None \<Rightarrow> Inl FileSystemError
      | Some root \<Rightarrow>
          (let requested = resolve_path root requestedPath;
               inside = relative_path root requested in
           if starts_with inside (js ''..'') \<or> is_absolute inside \<or> \<not> ends_with inside (js ''.md'')
           then Inl UntrustedSkillPath
           else (case realpath requested of
             None \<Rightarrow> Inl FileSystemError
           | Some actual \<Rightarrow>
               if actual \<noteq> requested \<or> starts_with (relative_path root actual) (js ''..'')
               then Inl UntrustedSkillPath
               else (case readFile actual of
                 None \<Rightarrow> Inl FileSystemError
               | Some t \<Rightarrow> if SKILL_TEXT_LIMIT < length t then Inl SkillResourceTooLarge else Inr t))))"

section \<open>Feedback is delivered once\<close>

definition feedback_inv :: "js_string list \<Rightarrow> js_string set \<Rightarrow> feedback_delivery \<Rightarrow> bool" where
  "feedback_inv sent confirmed d \<longleftrightarrow>
     distinct sent \<and> set (fd_delivered d) = set sent \<and> set (fd_pending d) \<subseteq> set sent \<and>
     set sent - confirmed \<subseteq> set (fd_pending d)"

lemma set_set_add [simp]: "set (set_add x xs) = insert x (set xs)"
  by (auto simp: set_add_def)

lemma feedback_inv_send:
  "feedback_inv sent confirmed d \<Longrightarrow> i \<notin> set (fd_delivered d) \<Longrightarrow>
   feedback_inv (sent @ [i]) confirmed (d\<lparr>fd_delivered := set_add i (fd_delivered d), fd_pending := set_add i (fd_pending d)\<rparr>)"
  by (auto simp: feedback_inv_def)

lemma deliver_items_inv:
  "deliver_items send items d s = (r, new, d', s') \<Longrightarrow> feedback_inv sent confirmed d \<Longrightarrow>
   feedback_inv (sent @ map fst new) confirmed d'"
proof (induction send items d s arbitrary: sent r new d' s' rule: deliver_items.induct)
  case (2 send item items d s)
  show ?case
  proof (cases "feedback_item item")
    case None
    with 2 show ?thesis by simp
  next
    case (Some x)
    then obtain i t mode where x: "feedback_item item = Some (i, t, mode)" by (cases x) auto
    show ?thesis
    proof (cases "i \<in> set (fd_delivered d)")
      case True
      with 2 x show ?thesis by simp
    next
      case False
      let ?d = "d\<lparr>fd_delivered := set_add i (fd_delivered d), fd_pending := set_add i (fd_pending d)\<rparr>"
      obtain q s1 where q: "send mode t s = (q, s1)" by (cases "send mode t s")
      show ?thesis
      proof (cases q)
        case (Inl e)
        with "2.prems" x False q show ?thesis by simp
      next
        case (Inr u)
        obtain r2 new2 d2 s2 where rest: "deliver_items send items ?d s1 = (r2, new2, d2, s2)"
          by (cases "deliver_items send items ?d s1") auto
        from "2.prems"(1) x False q Inr rest have eq: "new = (i, t, mode) # new2" "d' = d2" by auto
        have "feedback_inv ((sent @ [i]) @ map fst new2) confirmed d2"
          using "2.IH"(2) [OF x refl refl False q [symmetric] Inr rest feedback_inv_send [OF "2.prems"(2) False]] .
        with eq show ?thesis by simp
      qed
    qed
  qed
qed simp

lemma deliver_inv:
  "deliver send feedback d s = (r, new, d', s') \<Longrightarrow> feedback_inv sent confirmed d \<Longrightarrow>
   feedback_inv (sent @ map fst new) confirmed d'"
  by (auto simp: deliver_def deliver_items_inv split: jsv.splits)

lemma feedback_inv_confirm:
  "feedback_inv sent confirmed d \<Longrightarrow> feedback_inv sent (confirmed \<union> set ids) (confirm_acknowledged ids d)"
  by (auto simp: feedback_inv_def confirm_acknowledged_def)

lemma confirmed_ids_simps [simp]:
  "confirmed_ids [] = {}"
  "confirmed_ids (Deliver feedback # ops) = confirmed_ids ops"
  "confirmed_ids (Confirm ids # ops) = set ids \<union> confirmed_ids ops"
  by (auto simp: confirmed_ids_def)

lemma run_feedback_inv:
  "run_feedback send ops d s = (new, d') \<Longrightarrow> feedback_inv sent confirmed d \<Longrightarrow>
   feedback_inv (sent @ map fst new) (confirmed \<union> confirmed_ids ops) d'"
proof (induction send ops d s arbitrary: sent confirmed new rule: run_feedback.induct)
  case (2 send feedback ops d s)
  obtain r new1 d1 s1 where d: "deliver send feedback d s = (r, new1, d1, s1)" by (cases "deliver send feedback d s") auto
  obtain new2 where rest: "run_feedback send ops d1 s1 = (new2, d')" "new = new1 @ new2"
    using "2.prems"(1) d by (cases "run_feedback send ops d1 s1") auto
  note ih = "2.IH" [OF d [symmetric] refl refl]
  from ih [OF rest(1) deliver_inv [OF d "2.prems"(2)]] rest(2) show ?case by simp
next
  case (3 send ids ops d s)
  from "3.IH" [OF _ feedback_inv_confirm [OF "3.prems"(2)]] "3.prems"(1) show ?case by (simp add: Un_assoc)
qed simp

section \<open>Trusted skills stay inside\<close>

lemma take_starts: "starts_with t w \<longleftrightarrow> (\<exists>r. t = w @ r)"
  unfolding starts_with_def by (metis append_eq_conv_conj append_take_drop_id)

lemma ends_with_suffix: "ends_with t w \<longleftrightarrow> suffix w t"
  unfolding ends_with_def by (auto simp: suffix_def intro: append_take_drop_id [symmetric] dest: sym)
    (metis append_take_drop_id)

lemma join_slash_Cons: "ts \<noteq> [] \<Longrightarrow> join_slash (t # ts) = t @ 47 # join_slash ts"
  by (cases ts) auto

lemma relative_inside: "\<not> starts_with (relative_path p q) (js ''..'') \<Longrightarrow> \<exists>rest. q = p @ rest \<and> relative_path p q = join_slash rest"
proof (induction p q rule: relative_names.induct)
  case (1 q)
  then show ?case by (simp add: relative_path_def)
next
  case (2 a p)
  then show ?case by (cases p) (auto simp: relative_path_def take_starts)
next
  case (3 a p b q)
  show ?case
  proof (cases "a = b")
    case True
    with 3 show ?thesis by (simp add: relative_path_def)
  next
    case False
    have "starts_with (join_slash (js ''..'' # replicate (length p) (js ''..'') @ b # q)) (js ''..'')"
      by (simp add: join_slash_Cons take_starts)
    with 3 False show ?thesis by (simp add: relative_path_def)
  qed
qed

lemma ends_with_last: "ts \<noteq> [] \<Longrightarrow> 47 \<notin> set w \<Longrightarrow> ends_with (join_slash ts) w \<Longrightarrow> ends_with (last ts) w"
proof (induction ts)
  case (Cons t ts)
  show ?case
  proof (cases "ts = []")
    case False
    from Cons.prems(3) False have "suffix w (t @ 47 # join_slash ts)" by (simp add: join_slash_Cons ends_with_suffix)
    with Cons.prems(2) have "suffix w (join_slash ts)" by (auto simp: suffix_append suffix_Cons)
    with Cons False show ?thesis by (simp add: ends_with_suffix)
  qed (use Cons in simp)
qed simp

lemma read_inside:
  assumes "read_trusted_skill realpath readFile skillsRoot requestedPath = Inr t"
  shows "\<exists>root rest. realpath skillsRoot = Some root \<and> rest \<noteq> [] \<and> ends_with (last rest) (js ''.md'') \<and>
    realpath (root @ rest) = Some (root @ rest) \<and> readFile (root @ rest) = Some t \<and> length t \<le> SKILL_TEXT_LIMIT"
proof -
  from assms obtain root where root: "realpath skillsRoot = Some root"
    by (auto simp: read_trusted_skill_def split: option.splits)
  define q where "q = resolve_path root requestedPath"
  from assms root have q: "\<not> starts_with (relative_path root q) (js ''..'')" "ends_with (relative_path root q) (js ''.md'')"
    "realpath q = Some q" "readFile q = Some t" "length t \<le> SKILL_TEXT_LIMIT"
    by (auto simp: read_trusted_skill_def q_def Let_def split: option.splits if_splits)
  from relative_inside [OF q(1)] obtain rest where rest: "q = root @ rest" "relative_path root q = join_slash rest" by blast
  with q(2) have "rest \<noteq> []" by (auto simp: ends_with_def)
  moreover have "ends_with (last rest) (js ''.md'')"
    by (rule ends_with_last [OF \<open>rest \<noteq> []\<close>]) (use q(2) rest(2) in simp_all)
  ultimately show ?thesis using root q(3-5) rest(1) by blast
qed

section \<open>Public reasons\<close>

lemma trim_text_bounds: "trim_text t \<noteq> [] \<Longrightarrow> \<not> white_space (hd (trim_text t)) \<and> \<not> white_space (last (trim_text t)) \<and> set (trim_text t) \<subseteq> set t"
proof -
  let ?a = "dropWhile white_space t"
  let ?b = "dropWhile white_space (List.rev ?a)"
  assume t: "trim_text t \<noteq> []"
  then have b: "?b \<noteq> []" by (simp add: trim_text_def)
  then have "\<not> white_space (hd ?b)" by (rule hd_dropWhile)
  then have "\<not> white_space (last (trim_text t))" by (simp add: trim_text_def last_rev)
  moreover have "\<not> white_space (hd (trim_text t))"
  proof -
    have "List.rev ?a = takeWhile white_space (List.rev ?a) @ ?b" by simp
    then have "?a = List.rev ?b @ List.rev (takeWhile white_space (List.rev ?a))" by (metis rev_append rev_rev_ident)
    then have "?a = trim_text t @ List.rev (takeWhile white_space (List.rev ?a))" unfolding trim_text_def .
    with t have "hd ?a = hd (trim_text t)" "?a \<noteq> []" by (metis hd_append2, metis append_is_Nil_conv)
    then show ?thesis using hd_dropWhile [of white_space t] by simp
  qed
  moreover have "set (trim_text t) \<subseteq> set t" unfolding trim_text_def by (auto dest!: set_dropWhileD)
  ultimately show ?thesis by blast
qed

text \<open>A reason is one line of at most 500 units, without white space around it.\<close>

lemma public_decision_reason_shape:
  "public_decision_reason t = Some r \<Longrightarrow>
   r \<noteq> [] \<and> length r \<le> 500 \<and> 10 \<notin> set r \<and> \<not> white_space (hd r) \<and> \<not> white_space (last r)"
proof -
  assume "public_decision_reason t = Some r"
  then obtain s where r: "r = trim_text (takeWhile (\<lambda>c. c \<noteq> 10) s)" "r \<noteq> []" "length r \<le> 500"
    by (auto simp: public_decision_reason_def Let_def split: option.splits if_splits)
  have "10 \<notin> set (takeWhile (\<lambda>c. c \<noteq> 10) s)" by (auto dest: set_takeWhileD)
  with trim_text_bounds [of "takeWhile (\<lambda>c. c \<noteq> 10) s"] r show ?thesis by auto
qed

section \<open>Properties\<close>


text \<open>
  C18. A text that \<open>readTrustedSkill\<close> returns is at most 32000 units of a Markdown file below the real
  skills directory, whose path goes through no symbolic link, whatever path was asked for.
\<close>

theorem trusted_skill_inside:
  assumes "read_trusted_skill realpath readFile skillsRoot requestedPath = Inr t"
  shows "\<exists>root rest. realpath skillsRoot = Some root \<and> rest \<noteq> [] \<and> ends_with (last rest) (js ''.md'') \<and>
    realpath (root @ rest) = Some (root @ rest) \<and> readFile (root @ rest) = Some t \<and> length t \<le> 32000"
  using read_inside [OF assms] by (simp add: SKILL_TEXT_LIMIT_def)

theorem trusted_skill_inside_witness:
  "read_trusted_skill Some (\<lambda>_. Some []) [js ''skills''] (js ''a/../plan.md'') = Inr [] \<and>
   (\<exists>root rest. Some [js ''skills''] = Some root \<and> rest \<noteq> [] \<and> Some (root @ rest) = Some (root @ rest))"
proof -
  have r: "read_trusted_skill Some (\<lambda>_. Some []) [js ''skills''] (js ''a/../plan.md'') = Inr []"
    by (simp add: read_trusted_skill_def resolve_path_def path_step_def is_absolute_def relative_path_def
        starts_with_def ends_with_def)
  from trusted_skill_inside [OF r] show ?thesis using r by blast
qed

end
