(* ===== verification/Spec2Isabelle.thy ===== *)
theory Spec2Isabelle
  imports JsonText Codec DeltaCodec DiffCorrect MemoryEntries SessionLive Truncation EditProofs EditDiff Bounded OutputUpdates Projector MissionTools
begin

text \<open>
  The durable core of the agent harness under \<open>src/harness/packages\<close>: the wire protocol
  (\<open>protocol\<close>), the delta operations on JSON values (\<open>chord\<close>) and the durable sessions (\<open>durable\<close>); and
  around it the bounding of tool outputs and the edit tool (\<open>agent\<close>) and the decisions of the mission agent that connects
  the harness to the surveillance simulation (\<open>src/harness/agent\<close>).

  \<^bold>\<open>How the parts interact.\<close>  A Session (\<open>durable/src/session/session.ts\<close>) is one mutation line over a
  storage.  A commit runs a callback against a \<open>Transaction\<close> (\<open>transaction.ts\<close>), which stages table writes
  and hands out drafts of documents; a draft is a change of a delta tracker (\<open>chord/src/delta/tracker.ts\<close>).
  Settling prepares the changes, validates them and assembles one batch; the storage
  (\<open>durable/src/storage/memory.ts\<close>) accepts or rejects the batch as a whole, and on success the trackers
  adopt their prepared changes.  Documents are stored as a base value and deltas, replayed by
  \<open>chord/src/delta\<close>.  Deltas and messages travel in the delta wire format and as CBOR in length-prefixed
  frames (\<open>protocol/src\<close>).

  \<^bold>\<open>Values and errors.\<close>  A JavaScript string is a list of 16-bit code units, a number an integer in the
  safe range or the bits of another double, a JSON value a finite tree whose objects keep the order of
  their properties (\<open>JsValue\<close>).  A throwing function returns a sum, \<open>Inl\<close> the error; a method with
  state is a computation of \<open>Effects\<close> that returns the state at the throw as well, and \<open>None\<close> when a loop
  of it never ends.  Bytes, lengths on the wire and hash-like indexes are words.

  \<^bold>\<open>Theories.\<close>
  \<^item> \<open>Prelude\<close>, \<open>Effects\<close>: result and state-exception computations, their simplification rules and the rules
    \<open>keep_intros\<close> that show by the structure of a computation that it preserves a predicate.
  \<^item> \<open>JsValue\<close>, \<open>JsText\<close>, \<open>JsonText\<close>, \<open>Utf8\<close>: values, \<open>copyJson\<close> and \<open>isJsonValue\<close> (\<open>chord/src/json.ts\<close>), the part of
    \<open>JSON.stringify\<close> used for keys, and UTF-8.
  \<^item> \<open>Framing\<close> (\<open>protocol/src/framing.ts\<close>): the incremental decoder refines one-shot cutting; round trip for
    every chunking.
  \<^item> \<open>CborWriter\<close>, \<open>CborEncoder\<close>, \<open>CborDecoder\<close>, \<open>CborCanonical\<close> (\<open>protocol/src/cbor/\<close>): the growing buffer
    equals the encoding function; round trip; what is decoded is canonical.
  \<^item> \<open>Codec\<close> (\<open>protocol/src/codec.ts\<close>): message encoders and decoders on top of both; chunking does not matter
    and a decoder returns validated messages only.
  \<^item> \<open>DeltaOps\<close>, \<open>DeltaTrusted\<close>, \<open>Overlap\<close>, \<open>DeltaCodec\<close> (\<open>chord/src/delta/index.ts\<close>,
    \<open>apply-immutable-trusted.ts\<close>): validation and application of operations, the trusted applier against the
    validating one, the text overlap and the dictionary-compressed wire format.
  \<^item> \<open>Revisions\<close>, \<open>DiffMatch\<close>, \<open>DiffEdits\<close>, \<open>Diff\<close>, \<open>DiffCorrect\<close> (\<open>chord/src/delta/diff.ts\<close>): revisions with object
    identity, the searches for common elements of two arrays, a calculus for operations below a path, the
    comparison itself, and the proof that its operations turn the old revision into the new one.
  \<^item> \<open>Tracker\<close> (\<open>chord/src/delta/tracker.ts\<close>): the life cycle of trackers, changes and prepared changes; the
    value is the replay of the adopted batches.
  \<^item> \<open>SortedIds\<close>, \<open>DurableTypes\<close>, \<open>MemoryStorage\<close> (\<open>durable/src/types.ts\<close>, \<open>storage/memory.ts\<close>): the storage and
    its operations.  \<open>MemoryInvariant\<close> states its invariant, \<open>MemoryCommit\<close> shows that commits keep it,
    \<open>MemoryRuns\<close> has the reachable states, \<open>MemoryReads\<close> and \<open>MemoryEffects\<close> say what documents and tasks
    read after a commit, \<open>MemoryScans\<close> and \<open>MemoryEntries\<close> are about pages and the history of a conversation.
  \<^item> \<open>Documents\<close>, \<open>Forks\<close> (\<open>durable/src/documents.ts\<close>, \<open>session/forks.ts\<close>): definitions, addresses, migration,
    and the documents that a fork copies.
  \<^item> \<open>Transaction\<close>, \<open>Settlement\<close>, \<open>Session\<close> (\<open>durable/src/session/\<close>): every operation of a transaction, its
    settlement, and the jobs of the Session.
  \<^item> \<open>SessionFrame\<close>: the contracts \<open>tx_quiet\<close>, \<open>tx_frame\<close> and \<open>tx_core\<close> of a predicate that the operations of
    a transaction preserve, and callbacks as runs of \<open>tx_step\<close>.  \<open>SessionFailure\<close> interprets them for
    failed commits, \<open>SessionRuns\<close> gives the steps of a Session, \<open>SessionTasks\<close> shows that tasks only move
    forward, \<open>SessionOwners\<close> and \<open>SessionLive\<close> that live task documents have live tasks.

  \<^item> \<open>Truncation\<close> (\<open>agent/src/harness/utils/truncate.ts\<close>): what is kept of a tool output is the longest part
    within the limits; two closed lemmas show where the result names the wrong limit.
  \<^item> \<open>EditText\<close>, \<open>EditProofs\<close>, \<open>EditDiff\<close> (\<open>agent/src/harness/tools/edit-diff.ts\<close>, \<open>edit.ts\<close>): the edit tool.  An edit
    replaces exactly the matched texts; over the normalised form it keeps all lines that it does not touch;
    the displayed difference shows all changes.  Two closed lemmas are edits that are refused wrongly.
  \<^item> \<open>Bounded\<close>, \<open>OutputUpdates\<close> (\<open>agent/src/harness/pico3/bounded.ts\<close>, \<open>utils/output-capture.ts\<close>): a collector of a
    stream stays within its limits and accounts for every byte, and a head does not depend on the chunks; a
    closed lemma shows that a tail can join pieces which are not adjacent.  The reader that applies the
    published updates of a shell output holds the latest view.
  \<^item> \<open>Redaction\<close>, \<open>Projector\<close> (\<open>src/harness/agent/config.ts\<close>, \<open>bridge.ts\<close>): redaction leaves no secret, and
    neither a published text nor the streamed pieces of a message put together contain one; a closed
    lemma shows that an API key which is no configured secret can get through in two pieces.
  \<^item> \<open>MissionTools\<close> (\<open>src/harness/agent/bridge.ts\<close>, \<open>resources.ts\<close>, \<open>scheduling.ts\<close>): feedback is delivered
    once, skills are read below their directory only, the retry and the public reason of a decision.

  \<^bold>\<open>Recursion.\<close>  Loops over a list or a shrinking argument are total functions.  The walk along the parents
  of a conversation has one step of fuel per conversation plus one, which is enough because a parent is
  older than its child.  The loop over pages and the document store's reads that use it are
  \<open>partial_function\<close>s; the theorems about them show that they return.

  \<^bold>\<open>Parameters.\<close>  The TypeBox schema test of a message (\<open>protocol/src/protocol.ts\<close>), the functions of a document
  definition (\<open>initial\<close>, \<open>migrate\<close>, \<open>checkpointWhen\<close>), the initial checkpoint of a task definition and the
  commit callback are arguments, and so are the Unicode normalisation NFKC, the parts of a line difference, \<open>JSON.stringify\<close> on tool arguments, the calls of the agent session
  and the file system in the mission agent.  A callback is any computation that changes the transaction only by the
  steps of \<open>tx_step\<close>.

  \<^bold>\<open>Not modelled.\<close>  Outside the comparison of revisions, aliasing of JSON values is not represented: \<open>clone\<close> and \<open>freeze\<close> are the identity, and the
  overlay proxies that record the writes to a draft are replaced by the operations that they emit.  A
  transaction runs one operation at a time; operations that a callback leaves pending are counted, since
  the settlement rejects them, but not interleaved.  Abort signals and the order of listener calls are left
  out.  Of the capture of a shell output its decoder, its trimming and the times of publication are left out.  Storage backends other than the one in memory, the environment of processes and files, services,
  model providers, user interfaces, the polling loop and timers of the mission worker and the other packages perform input and output or arrange callbacks
  over live objects, and have no definitions here.
\<close>

end
